(* ===== verification/Prelude.thy ===== *)
theory Prelude
  imports Main "HOL-Library.Word"
begin

text \<open>
  Shared vocabulary of the development: bytes and the C character predicates the compiler calls
  (\<^verbatim>\<open>isdigit\<close>, \<^verbatim>\<open>toupper\<close> in the C locale), C integer division, decimal and hexadecimal
  rendering (\<^verbatim>\<open>std::to_string\<close>, \<^verbatim>\<open>%02x\<close>), source locations, and the list lemmas the
  component theories share.  A \<^verbatim>\<open>std::string\<close> is a list of 8-bit characters, so
  \<^typ>\<open>char\<close> is a byte and \<^term>\<open>of_char c :: nat\<close> is \<^verbatim>\<open>(unsigned char)c\<close>.
\<close>

named_theorems char_class \<open>definitions of the byte predicates\<close>
named_theorems list_helpers \<open>list facts shared by the component proofs\<close>

abbreviation NUL :: char where
  "NUL \<equiv> CHR 0x00"

abbreviation NL :: char where
  "NL \<equiv> CHR 0x0A"

abbreviation QUOTE :: char where
  "QUOTE \<equiv> CHR 0x27"

definition ucode :: "char \<Rightarrow> nat" where
  "ucode c = of_char c"

definition in_range :: "char \<Rightarrow> char \<Rightarrow> char \<Rightarrow> bool" where
  [char_class]: "in_range lo hi c \<longleftrightarrow> ucode lo \<le> ucode c \<and> ucode c \<le> ucode hi"

definition c_isdigit :: "char \<Rightarrow> bool" where
  [char_class]: "c_isdigit c \<longleftrightarrow> in_range CHR ''0'' CHR ''9'' c"

definition c_islower :: "char \<Rightarrow> bool" where
  [char_class]: "c_islower c \<longleftrightarrow> in_range CHR ''a'' CHR ''z'' c"

definition c_isupper :: "char \<Rightarrow> bool" where
  [char_class]: "c_isupper c \<longleftrightarrow> in_range CHR ''A'' CHR ''Z'' c"

definition c_isspace :: "char \<Rightarrow> bool" where
  "c_isspace c \<longleftrightarrow> c \<in> {CHR '' '', CHR 0x09, CHR 0x0A, CHR 0x0B, CHR 0x0C, CHR 0x0D}"

definition c_toupper :: "char \<Rightarrow> char" where
  "c_toupper c = (if c_islower c then char_of (ucode c - 32) else c)"

text \<open>C integer division truncates toward zero.\<close>

definition c_div :: "int \<Rightarrow> int \<Rightarrow> int" where
  "c_div a b = sgn a * sgn b * (\<bar>a\<bar> div \<bar>b\<bar>)"

text \<open>\<^verbatim>\<open>std::to_string\<close> on integers, and two-digit hexadecimal for a byte.\<close>

definition digit_char :: "nat \<Rightarrow> char" where
  "digit_char d = char_of (48 + d)"

fun dec_of_nat :: "nat \<Rightarrow> string" where
  "dec_of_nat n = (if n < 10 then [digit_char n]
                   else dec_of_nat (n div 10) @ [digit_char (n mod 10)])"

declare dec_of_nat.simps [simp del]

definition to_string :: "int \<Rightarrow> string" where
  "to_string v = (if v < 0 then CHR ''-'' # dec_of_nat (nat (- v)) else dec_of_nat (nat v))"

definition hex_char :: "nat \<Rightarrow> char" where
  "hex_char d = (if d < 10 then char_of (48 + d) else char_of (87 + d))"

definition hex2 :: "nat \<Rightarrow> string" where
  "hex2 b = [hex_char (b div 16), hex_char (b mod 16)]"

text \<open>A \<^verbatim>\<open>%s\<close> conversion of \<^verbatim>\<open>x.c_str()\<close> stops at the first NUL byte.\<close>

definition c_str :: "string \<Rightarrow> string" where
  "c_str s = takeWhile (\<lambda>c. c \<noteq> NUL) s"

record SourceLoc =
  loc_line :: int
  loc_col :: int

section \<open>Facts about bytes\<close>

lemma ucode_lt [simp]: "ucode c < 256"
  by (simp add: ucode_def of_char_eq_iff)

lemma ucode_char_of [simp]: "n < 256 \<Longrightarrow> ucode (char_of n) = n"
  by (simp add: ucode_def)

lemma char_of_ucode [simp]: "char_of (ucode c) = c"
  by (simp add: ucode_def)

lemma ucode_inject [simp]: "ucode c = ucode d \<longleftrightarrow> c = d"
  by (metis char_of_ucode)

lemma not_digit_NUL [simp]: "\<not> c_isdigit NUL"
  by (simp add: char_class ucode_def)

lemma c_toupper_idem [simp]: "c_toupper (c_toupper c) = c_toupper c"
  by (auto simp: c_toupper_def char_class ucode_def)

section \<open>Decimal rendering and its inverse\<close>

definition digit_val :: "char \<Rightarrow> nat" where
  "digit_val c = ucode c - 48"

definition nat_of_dec :: "string \<Rightarrow> nat" where
  "nat_of_dec s = foldl (\<lambda>n c. 10 * n + digit_val c) 0 s"

lemma digit_val_digit_char [simp]: "d < 10 \<Longrightarrow> digit_val (digit_char d) = d"
  by (simp add: digit_val_def digit_char_def)

lemma c_isdigit_digit_char [simp]: "d < 10 \<Longrightarrow> c_isdigit (digit_char d)"
  by (simp add: char_class digit_char_def) (simp add: ucode_def)

lemma dec_of_nat_digits: "c \<in> set (dec_of_nat n) \<Longrightarrow> c_isdigit c"
proof (induction n rule: dec_of_nat.induct)
  case (1 n)
  then show ?case
    by (subst (asm) (2) dec_of_nat.simps) (auto split: if_splits)
qed

lemma dec_of_nat_nonempty [simp]: "dec_of_nat n \<noteq> []"
  by (subst dec_of_nat.simps) simp

lemma nat_of_dec_snoc [simp]: "nat_of_dec (s @ [c]) = 10 * nat_of_dec s + digit_val c"
  by (simp add: nat_of_dec_def)

lemma nat_of_dec_of_nat [simp]: "nat_of_dec (dec_of_nat n) = n"
proof (induction n rule: dec_of_nat.induct)
  case (1 n)
  show ?case
  proof (cases "n < 10")
    case True
    then show ?thesis by (subst dec_of_nat.simps) (simp add: nat_of_dec_def)
  next
    case False
    with "1.IH" have "nat_of_dec (dec_of_nat (n div 10)) = n div 10" by simp
    with False show ?thesis by (subst dec_of_nat.simps) simp
  qed
qed

section \<open>C division\<close>

lemma c_div_nonneg: "0 \<le> a \<Longrightarrow> 0 < b \<Longrightarrow> c_div a b = a div b"
  by (cases "a = 0") (auto simp: c_div_def)

lemma c_div_neg: "a < 0 \<Longrightarrow> 0 < b \<Longrightarrow> c_div a b = - ((- a) div b)"
  by (simp add: c_div_def)

section \<open>Lists\<close>

lemma list_all_nth_iff [list_helpers]:
  "list_all P xs \<longleftrightarrow> (\<forall>i < length xs. P (xs ! i))"
  by (auto simp: list_all_length)

lemma drop_nth_Cons [list_helpers]:
  "i < length xs \<Longrightarrow> drop i xs = xs ! i # drop (Suc i) xs"
  by (rule Cons_nth_drop_Suc [symmetric])

section \<open>Reversal in place\<close>

text \<open>The loop \<^verbatim>\<open>for (i = 0; i < n / 2; i++) swap(s[i], s[n - 1 - i])\<close>.\<close>

function swap_loop :: "nat \<Rightarrow> 'a list \<Rightarrow> 'a list" where
  "swap_loop i s =
     (if i < length s div 2
      then swap_loop (Suc i) (s[i := s ! (length s - 1 - i), length s - 1 - i := s ! i])
      else s)"
  by pat_completeness auto

termination swap_loop
  by (relation "measure (\<lambda>(i, s). length s - i)") auto

declare swap_loop.simps [simp del]

lemma swap_loop_nth:
  "length (swap_loop i s) = length s \<and>
     (\<forall>k < length s. swap_loop i s ! k = (if i \<le> k \<and> k < length s - i then s ! (length s - 1 - k) else s ! k))"
proof (induction i s rule: swap_loop.induct)
  case (1 i s)
  show ?case
  proof (cases "i < length s div 2")
    case False
    then have "swap_loop i s = s" by (simp add: swap_loop.simps)
    moreover have "length s - 1 - k = k" if "i \<le> k" "k < length s - i" for k using False that by linarith
    ultimately show ?thesis by simp
  next
    case True
    let ?t = "s[i := s ! (length s - 1 - i), length s - 1 - i := s ! i]"
    have "swap_loop i s = swap_loop (Suc i) ?t" using True by (subst swap_loop.simps) simp
    with "1.IH" [OF True] True show ?thesis by (auto simp: nth_list_update)
  qed
qed

lemma swap_loop_rev: "swap_loop 0 s = rev s"
  using swap_loop_nth [of 0 s] by (intro nth_equalityI) (auto simp: rev_nth)

section \<open>Machine words\<close>

lemma sint_of_int:
  "- (2 ^ (LENGTH('a) - 1)) \<le> x \<Longrightarrow> x < 2 ^ (LENGTH('a) - 1) \<Longrightarrow> sint (word_of_int x :: 'a :: len word) = x"
  by (simp add: sint_sbintrunc' signed_take_bit_int_eq_self)

section \<open>Keyed lists\<close>

text \<open>The compiler's small tables are vectors searched from the front.  \<open>upd_first\<close> is the loop that changes the
  first matching element and returns; \<open>lookup_by\<close> reads such a table by key.\<close>

fun upd_first :: "('a \<Rightarrow> bool) \<Rightarrow> ('a \<Rightarrow> 'a) \<Rightarrow> 'a list \<Rightarrow> 'a list option" where
  "upd_first P f [] = None"
| "upd_first P f (x # xs) = (if P x then Some (f x # xs) else map_option (Cons x) (upd_first P f xs))"

definition lookup_by :: "('a \<Rightarrow> 'k) \<Rightarrow> 'a list \<Rightarrow> 'k \<Rightarrow> 'a option" where
  "lookup_by key xs k = find (\<lambda>x. key x = k) xs"

lemma lookup_by_Nil [simp]: "lookup_by key [] k = None"
  by (simp add: lookup_by_def)

lemma lookup_by_Cons [simp]: "lookup_by key (x # xs) k = (if key x = k then Some x else lookup_by key xs k)"
  by (simp add: lookup_by_def)

lemma lookup_by_append: "lookup_by key (xs @ ys) k = (case lookup_by key xs k of None \<Rightarrow> lookup_by key ys k | Some x \<Rightarrow> Some x)"
  by (induction xs) auto

lemma lookup_by_None_iff: "lookup_by key xs k = None \<longleftrightarrow> k \<notin> key ` set xs"
  by (induction xs) auto

lemma lookup_by_SomeD: "lookup_by key xs k = Some x \<Longrightarrow> x \<in> set xs \<and> key x = k"
  by (induction xs) (auto split: if_splits)

lemma upd_first_None_iff: "upd_first (\<lambda>x. key x = k) f xs = None \<longleftrightarrow> lookup_by key xs k = None"
  by (induction xs) auto

lemma upd_first_lookup:
  assumes "upd_first (\<lambda>x. key x = k) f xs = Some ys" and "\<And>x. key (f x) = key x"
  shows "lookup_by key ys = (lookup_by key xs)(k := map_option f (lookup_by key xs k))" and "map key ys = map key xs"
proof -
  have "lookup_by key ys = (lookup_by key xs)(k := map_option f (lookup_by key xs k)) \<and> map key ys = map key xs"
    using assms(1)
  proof (induction xs arbitrary: ys)
    case (Cons x xs)
    show ?case
    proof (cases "key x = k")
      case True
      with Cons.prems assms(2) show ?thesis by (auto intro!: ext)
    next
      case False
      with Cons.prems obtain zs where zs: "upd_first (\<lambda>x. key x = k) f xs = Some zs" "ys = x # zs" by auto
      from Cons.IH [OF zs(1)] False zs(2) show ?thesis by (auto intro!: ext)
    qed
  qed simp
  then show "lookup_by key ys = (lookup_by key xs)(k := map_option f (lookup_by key xs k))" and "map key ys = map key xs"
    by auto
qed

lemma lookup_by_nth:
  assumes "distinct (map key xs)" and "i < length xs"
  shows "lookup_by key xs (key (xs ! i)) = Some (xs ! i)"
  using assms by (induction xs arbitrary: i) (auto simp: nth_Cons' split: if_splits)

lemma lookup_by_list_update:
  assumes "distinct (map key xs)" and "i < length xs" and "key y = key (xs ! i)"
  shows "lookup_by key (xs[i := y]) = (lookup_by key xs)(key y := Some y)"
  using assms
proof (induction xs arbitrary: i)
  case (Cons x xs)
  show ?case
  proof (cases i)
    case (Suc j)
    with Cons.prems have "key x \<noteq> key y" by auto
    with Suc Cons.IH [of j] Cons.prems show ?thesis by (auto intro!: ext)
  qed (use Cons.prems in \<open>auto intro!: ext\<close>)
qed simp

lemma map_key_list_update: "key y = key (xs ! i) \<Longrightarrow> map key (xs[i := y]) = map key xs"
  by (metis list_update_id map_update)

section \<open>Functional simulation\<close>

text \<open>The contract between a component and its abstract specification: under an invariant every call
  commutes with the abstraction.  Sequences of calls then do too.\<close>

locale simulation =
  fixes cstep :: "'s \<Rightarrow> 'c \<Rightarrow> 's"
    and astep :: "'a \<Rightarrow> 'c \<Rightarrow> 'a"
    and abs :: "'s \<Rightarrow> 'a"
    and inv :: "'s \<Rightarrow> bool"
  assumes inv_step: "inv s \<Longrightarrow> inv (cstep s c)"
    and sim_step: "inv s \<Longrightarrow> abs (cstep s c) = astep (abs s) c"
begin

lemma inv_run: "inv s \<Longrightarrow> inv (foldl cstep s cs)"
  by (induction cs arbitrary: s) (simp_all add: inv_step)

lemma sim_run: "inv s \<Longrightarrow> abs (foldl cstep s cs) = foldl astep (abs s) cs"
  by (induction cs arbitrary: s) (simp_all add: inv_step sim_step)

end

end
