(* ===== verification/Types.thy ===== *)
theory Types
  imports Prelude
begin

text \<open>
  \<^verbatim>\<open>src/types.h\<close>: PL/I data attributes reduced to a compiler type.  \<open>TK\<close>, \<open>Dim\<close>,
  \<open>Type\<close> and \<open>Member\<close> are the source's enum and structs; the mutable default constructor plus
  assignments of each factory (\<open>fixedBin\<close>, \<open>chr\<close>, \dots) becomes a record update of the
  default value.  The lemmas show that the base-conversion tables never lose a digit, that the
  storage width chosen by \<open>intBits\<close> holds every value of the declared precision, and that
  \<open>operator==\<close> is an equivalence that ignores exactly the four attributes the header names.
\<close>

section \<open>Base conversion of precision and scale\<close>

definition ceilMulDiv :: "int \<Rightarrow> int \<Rightarrow> int \<Rightarrow> int" where
  "ceilMulDiv n mul dv = c_div (n * mul + dv - 1) dv"

definition decToBinDigits :: "int \<Rightarrow> int" where
  "decToBinDigits p = min 63 (1 + ceilMulDiv p 83 25)"

definition decToBinScale :: "int \<Rightarrow> int" where
  "decToBinScale q =
     (if q = 0 then 0
      else let s = ceilMulDiv (if q < 0 then - q else q) 83 25 in if q > 0 then s else - s)"

definition binToDecDigits :: "int \<Rightarrow> int" where
  "binToDecDigits p = min 31 (1 + ceilMulDiv p 25 83)"

definition binToDecScale :: "int \<Rightarrow> int" where
  "binToDecScale q =
     (if q = 0 then 0
      else let s = ceilMulDiv (if q < 0 then - q else q) 25 83 in if q > 0 then s else - s)"

section \<open>The type representation\<close>

datatype TK =
  TK_FixedBin | TK_FixedDec | TK_Float | TK_Char | TK_Bit | TK_Struct | TK_Pointer | TK_Entry
| TK_Area | TK_Offset | TK_Complex | TK_Task | TK_Event | TK_Label | TK_Void

record Dim =
  dim_lb :: int
  dim_ub :: int
  dim_dyn :: bool
  dim_lbDyn :: bool
  dim_adj :: bool

record type_attrs =
  ty_k :: TK
  ty_prec :: int
  ty_scale :: int
  ty_len :: int
  ty_wideDec :: bool
  ty_varying :: bool
  ty_varyingz :: bool
  ty_starLen :: bool
  ty_controlled :: bool
  ty_unaligned :: bool
  ty_imaginary :: bool
  ty_isUnion :: bool
  ty_picture :: string
  ty_dims :: "Dim list"

datatype PType = Type (attrs: type_attrs) (members: "Member list")
  and Member = Member (mname: string) (mty: PType)

abbreviation kind_of :: "PType \<Rightarrow> TK" where "kind_of t \<equiv> ty_k (attrs t)"
abbreviation prec_of :: "PType \<Rightarrow> int" where "prec_of t \<equiv> ty_prec (attrs t)"
abbreviation scale_of :: "PType \<Rightarrow> int" where "scale_of t \<equiv> ty_scale (attrs t)"
abbreviation len_of :: "PType \<Rightarrow> int" where "len_of t \<equiv> ty_len (attrs t)"

definition default_attrs :: type_attrs where
  "default_attrs = \<lparr>ty_k = TK_FixedBin, ty_prec = 15, ty_scale = 0, ty_len = 1, ty_wideDec = False,
     ty_varying = False, ty_varyingz = False, ty_starLen = False, ty_controlled = False,
     ty_unaligned = False, ty_imaginary = False, ty_isUnion = False, ty_picture = [], ty_dims = []\<rparr>"

definition isArray :: "PType \<Rightarrow> bool" where
  "isArray t \<longleftrightarrow> ty_dims (attrs t) \<noteq> []"

definition isStruct :: "PType \<Rightarrow> bool" where
  "isStruct t \<longleftrightarrow> kind_of t = TK_Struct"

fun isDynamic_dims :: "Dim list \<Rightarrow> bool" where
  "isDynamic_dims [] = False"
| "isDynamic_dims (d # ds) = (if dim_dyn d \<or> dim_lbDyn d then True else isDynamic_dims ds)"

definition isDynamic :: "PType \<Rightarrow> bool" where
  "isDynamic t = isDynamic_dims (ty_dims (attrs t))"

definition elementType :: "PType \<Rightarrow> PType" where
  "elementType t = Type ((attrs t)\<lparr>ty_dims := []\<rparr>) (members t)"

section \<open>Factories\<close>

definition fixedBin :: "int \<Rightarrow> int \<Rightarrow> PType" where
  "fixedBin p q = Type (default_attrs\<lparr>ty_k := TK_FixedBin, ty_prec := p, ty_scale := q\<rparr>) []"

definition fixedDec :: "int \<Rightarrow> int \<Rightarrow> PType" where
  "fixedDec p q = Type (default_attrs\<lparr>ty_k := TK_FixedDec, ty_prec := p, ty_scale := q,
                                       ty_wideDec := p > 18\<rparr>) []"

definition flt :: "int \<Rightarrow> PType" where
  "flt p = Type (default_attrs\<lparr>ty_k := TK_Float, ty_prec := p\<rparr>) []"

definition chr_ty :: "int \<Rightarrow> bool \<Rightarrow> PType" where
  "chr_ty n vary = Type (default_attrs\<lparr>ty_k := TK_Char, ty_len := n, ty_varying := vary\<rparr>) []"

definition bit_ty :: "int \<Rightarrow> PType" where
  "bit_ty n = Type (default_attrs\<lparr>ty_k := TK_Bit, ty_len := n\<rparr>) []"

definition kind_ty :: "TK \<Rightarrow> PType" where
  "kind_ty k = Type (default_attrs\<lparr>ty_k := k\<rparr>) []"

definition voidTy :: PType where "voidTy = kind_ty TK_Void"
definition ptr_ty :: PType where "ptr_ty = kind_ty TK_Pointer"
definition entryTy :: PType where "entryTy = kind_ty TK_Entry"
definition areaTy :: PType where "areaTy = kind_ty TK_Area"
definition offsetTy :: PType where "offsetTy = kind_ty TK_Offset"
definition taskTy :: PType where "taskTy = kind_ty TK_Task"
definition eventTy :: PType where "eventTy = kind_ty TK_Event"
definition labelTy :: PType where "labelTy = kind_ty TK_Label"

definition complexTy :: PType where
  "complexTy = Type (default_attrs\<lparr>ty_k := TK_Complex, ty_prec := 6\<rparr>) []"

definition structTy :: "Member list \<Rightarrow> PType" where
  "structTy ms = Type (default_attrs\<lparr>ty_k := TK_Struct\<rparr>) ms"

section \<open>Classification\<close>

definition isFixed :: "PType \<Rightarrow> bool" where
  "isFixed t \<longleftrightarrow> kind_of t = TK_FixedBin \<or> kind_of t = TK_FixedDec"

definition isNumeric :: "PType \<Rightarrow> bool" where
  "isNumeric t \<longleftrightarrow> isFixed t \<or> kind_of t = TK_Float"

definition isChar :: "PType \<Rightarrow> bool" where
  "isChar t \<longleftrightarrow> kind_of t = TK_Char"

definition isBit :: "PType \<Rightarrow> bool" where
  "isBit t \<longleftrightarrow> kind_of t = TK_Bit"

definition isLocator :: "PType \<Rightarrow> bool" where
  "isLocator t \<longleftrightarrow> kind_of t = TK_Pointer \<or> kind_of t = TK_Offset \<or> kind_of t = TK_Area"

definition isComplex :: "PType \<Rightarrow> bool" where
  "isComplex t \<longleftrightarrow> kind_of t = TK_Complex"

definition isImaginary :: "PType \<Rightarrow> bool" where
  "isImaginary t \<longleftrightarrow> kind_of t = TK_Complex \<and> ty_imaginary (attrs t)"

definition isPointer :: "PType \<Rightarrow> bool" where
  "isPointer t \<longleftrightarrow> kind_of t = TK_Pointer"

definition isEntry :: "PType \<Rightarrow> bool" where
  "isEntry t \<longleftrightarrow> kind_of t = TK_Entry"

definition isArea :: "PType \<Rightarrow> bool" where
  "isArea t \<longleftrightarrow> kind_of t = TK_Area"

definition isOffset :: "PType \<Rightarrow> bool" where
  "isOffset t \<longleftrightarrow> kind_of t = TK_Offset"

definition isVoid :: "PType \<Rightarrow> bool" where
  "isVoid t \<longleftrightarrow> kind_of t = TK_Void"

definition isTask :: "PType \<Rightarrow> bool" where
  "isTask t \<longleftrightarrow> kind_of t = TK_Task"

definition isEvent :: "PType \<Rightarrow> bool" where
  "isEvent t \<longleftrightarrow> kind_of t = TK_Event"

definition isLabel :: "PType \<Rightarrow> bool" where
  "isLabel t \<longleftrightarrow> kind_of t = TK_Label"

definition intBits :: "PType \<Rightarrow> int" where
  "intBits t =
     (if kind_of t = TK_FixedBin then (if prec_of t \<le> 31 then 32 else 64)
      else if kind_of t = TK_FixedDec then
        (if ty_wideDec (attrs t) then 128 else if prec_of t \<le> 9 then 32 else 64)
      else 32)"

definition desc :: "PType \<Rightarrow> string" where
  "desc t =
     (case kind_of t of
        TK_FixedBin \<Rightarrow> ''FIXED BINARY('' @ to_string (prec_of t) @ '','' @ to_string (scale_of t) @ '')''
      | TK_FixedDec \<Rightarrow> ''FIXED DECIMAL('' @ to_string (prec_of t) @ '','' @ to_string (scale_of t) @ '')''
      | TK_Float \<Rightarrow> ''FLOAT DECIMAL('' @ to_string (prec_of t) @ '')''
      | TK_Char \<Rightarrow>
          (if ty_picture (attrs t) \<noteq> [] then ''PICTURE('' @ [QUOTE] @ ty_picture (attrs t) @ [QUOTE] @ '')''
           else ''CHARACTER('' @ to_string (len_of t) @ '')'' @
                (if ty_varyingz (attrs t) then '' VARYINGZ''
                 else if ty_varying (attrs t) then '' VARYING'' else []))
      | TK_Bit \<Rightarrow> ''BIT('' @ to_string (len_of t) @ '')''
      | TK_Struct \<Rightarrow> ''STRUCT''
      | TK_Pointer \<Rightarrow> ''POINTER''
      | TK_Entry \<Rightarrow> ''ENTRY''
      | TK_Area \<Rightarrow> ''AREA''
      | TK_Offset \<Rightarrow> ''OFFSET''
      | TK_Complex \<Rightarrow> ''COMPLEX''
      | TK_Task \<Rightarrow> ''TASK''
      | TK_Event \<Rightarrow> ''EVENT''
      | TK_Label \<Rightarrow> ''LABEL''
      | TK_Void \<Rightarrow> ''VOID'')"

section \<open>Type equivalence\<close>

text \<open>The scalar part of \<open>operator==\<close>, then the member loop.\<close>

definition attrs_eq :: "type_attrs \<Rightarrow> type_attrs \<Rightarrow> bool" where
  "attrs_eq x y \<longleftrightarrow>
     ty_k x = ty_k y \<and> ty_prec x = ty_prec y \<and> ty_scale x = ty_scale y \<and> ty_len x = ty_len y \<and>
     ty_varying x = ty_varying y \<and> ty_starLen x = ty_starLen y \<and>
     ty_unaligned x = ty_unaligned y \<and> ty_isUnion x = ty_isUnion y \<and>
     ty_wideDec x = ty_wideDec y \<and> ty_dims x = ty_dims y"

fun type_eq :: "PType \<Rightarrow> PType \<Rightarrow> bool"
  and members_eq :: "Member list \<Rightarrow> Member list \<Rightarrow> bool"
  and member_eq :: "Member \<Rightarrow> Member \<Rightarrow> bool" where
  "type_eq (Type x ms) (Type y ns) =
     (if \<not> attrs_eq x y then False
      else if length ms \<noteq> length ns then False
      else members_eq ms ns)"
| "members_eq [] ns = True"
| "members_eq (m # ms) [] = True"
| "members_eq (m # ms) (n # ns) = (if \<not> member_eq m n then False else members_eq ms ns)"
| "member_eq (Member a t) (Member b u) = (a = b \<and> type_eq t u)"

section \<open>Precision and storage\<close>

lemma ceilMulDiv_nonneg: "0 \<le> n \<Longrightarrow> ceilMulDiv n 83 25 = (n * 83 + 24) div 25"
  by (simp add: ceilMulDiv_def c_div_nonneg)

lemma ceilMulDiv_25_83_nonneg: "0 \<le> n \<Longrightarrow> ceilMulDiv n 25 83 = (n * 25 + 82) div 83"
  by (simp add: ceilMulDiv_def c_div_nonneg)

text \<open>A bounded integer range as a list, so that a finite table is checked entry by entry.\<close>

lemma int_range_cases:
  assumes "list_all P [0..hi]" and "0 \<le> p" and "p \<le> hi"
  shows "P (p :: int)"
  using assms by (auto simp: list_all_iff)

lemma decToBinDigits_holds: "0 \<le> p \<Longrightarrow> p \<le> 18 \<Longrightarrow> (10 :: int) ^ nat p \<le> 2 ^ nat (decToBinDigits p)"
  by (rule int_range_cases [where hi = 18]) (simp_all add: decToBinDigits_def ceilMulDiv_nonneg upto_rec1)

lemma binToDecDigits_holds: "0 \<le> p \<Longrightarrow> p \<le> 63 \<Longrightarrow> (2 :: int) ^ nat p \<le> 10 ^ nat (binToDecDigits p)"
  by (rule int_range_cases [where hi = 63]) (simp_all add: binToDecDigits_def ceilMulDiv_25_83_nonneg upto_rec1)

text \<open>
  the base-conversion tables of \<open>types.h\<close> never lose a digit: every magnitude of
  FIXED DECIMAL(p) fits the binary precision \<open>decToBinDigits p\<close> for p up to 18 (beyond that the
  table saturates at 63), and every magnitude of FIXED BINARY(p) fits the decimal precision
  \<open>binToDecDigits p\<close> for every declarable p up to 63.
\<close>
lemma base_conversion_loses_no_digit:
  assumes "0 \<le> p" and "p \<le> 18" and "0 \<le> r" and "r \<le> 63"
  shows "(10 :: int) ^ nat p \<le> 2 ^ nat (decToBinDigits p) \<and>
         (2 :: int) ^ nat r \<le> 10 ^ nat (binToDecDigits r)"
  using assms decToBinDigits_holds binToDecDigits_holds by blast

lemma fixedDec_storage_holds:
  "0 < p \<Longrightarrow> p \<le> 38 \<Longrightarrow> (10 :: int) ^ nat p \<le> 2 ^ nat (intBits (fixedDec p q) - 1)"
  by (rule int_range_cases [where hi = 38])
    (simp_all add: intBits_def fixedDec_def default_attrs_def upto_rec1)

lemma fixedBin_storage_holds:
  "0 < p \<Longrightarrow> p \<le> 63 \<Longrightarrow> (2 :: int) ^ nat p \<le> 2 ^ nat (intBits (fixedBin p q) - 1)"
  by (rule power_increasing) (auto simp: intBits_def fixedBin_def default_attrs_def)

text \<open>
  the two's-complement width \<open>intBits\<close> picks for a FIXED type declared by the factories holds
  every value of the declared precision: \<open>10 ^ p\<close> bounds a DECIMAL(p) magnitude (p up to 38, the
  i128 limit) and \<open>2 ^ p\<close> a BINARY(p) magnitude (p up to 63).
\<close>
lemma intBits_holds_declared_precision:
  assumes "0 < p" and "p \<le> 38" and "0 < r" and "r \<le> 63"
  shows "(10 :: int) ^ nat p \<le> 2 ^ nat (intBits (fixedDec p q) - 1) \<and>
         (2 :: int) ^ nat r \<le> 2 ^ nat (intBits (fixedBin r q) - 1)"
  using assms fixedDec_storage_holds fixedBin_storage_holds by blast

section \<open>Type equivalence is an equivalence\<close>

text \<open>The attributes the header declares to be no part of type equivalence, reset to their defaults.\<close>

definition erase_attrs :: "type_attrs \<Rightarrow> type_attrs" where
  "erase_attrs x = x\<lparr>ty_varyingz := False, ty_controlled := False, ty_imaginary := False, ty_picture := []\<rparr>"

fun erase :: "PType \<Rightarrow> PType"
  and erase_member :: "Member \<Rightarrow> Member" where
  "erase (Type x ms) = Type (erase_attrs x) (map erase_member ms)"
| "erase_member (Member a t) = Member a (erase t)"

lemma attrs_eq_erase: "attrs_eq x y \<longleftrightarrow> erase_attrs x = erase_attrs y"
  by (cases x; cases y) (auto simp: attrs_eq_def erase_attrs_def)

lemma type_eq_erase:
  "type_eq t u \<longleftrightarrow> erase t = erase u"
  "length ms = length ns \<Longrightarrow> members_eq ms ns \<longleftrightarrow> map erase_member ms = map erase_member ns"
  "member_eq m n \<longleftrightarrow> erase_member m = erase_member n"
proof (induction t u and ms ns and m n rule: type_eq_members_eq_member_eq.induct)
  case (1 x ms y ns)
  then show ?case
    by (auto simp: attrs_eq_erase dest: map_eq_imp_length_eq)
qed auto

text \<open>
  \<open>Type::operator==\<close> decides equality up to the attributes VARYINGZ, CONTROLLED, IMAGINARY
  and PICTURE, at every nesting level; it is therefore reflexive, symmetric and transitive.
\<close>
lemma type_eq_characterisation: "type_eq t u \<longleftrightarrow> erase t = erase u"
  by (rule type_eq_erase(1))

end
