(* ===== verification/Diag.thy ===== *)
theory Diag
  imports Prelude
begin

text \<open>
  \<^verbatim>\<open>src/diag.h\<close> and \<^verbatim>\<open>src/diag.cpp\<close>: the diagnostic sink.  The object state is the record
  \<open>Diags\<close>, with the bytes written to \<^verbatim>\<open>stderr\<close> as the field \<open>dg_stderr\<close>; null pointers are
  \<open>None\<close>.  The lemmas show that speculative parsing can be undone exactly (mute, any diagnostics,
  unmute, rewind is the identity), how each call moves the counters, and that the echoed source line
  is ASCII with the caret under the display column of the reported byte.
\<close>

record FileLoc =
  fl_path :: string
  fl_line :: int

record Diags =
  dg_file :: string
  dg_src :: "string option"
  dg_lineMap :: "FileLoc list option"
  dg_fileSrc :: "(string \<rightharpoonup> string) option"
  dg_rootCanon :: string
  dg_nerr :: int
  dg_nwarn :: int
  dg_mute :: int
  dg_mnerr :: int
  dg_stderr :: string

definition mkDiags :: "string \<Rightarrow> Diags" where
  "mkDiags filename = \<lparr>dg_file = filename, dg_src = None, dg_lineMap = None, dg_fileSrc = None,
     dg_rootCanon = [], dg_nerr = 0, dg_nwarn = 0, dg_mute = 0, dg_mnerr = 0, dg_stderr = []\<rparr>"

section \<open>Configuration and the speculative-parse interface\<close>

definition errorCount :: "Diags \<Rightarrow> int" where "errorCount d = dg_nerr d"
definition warnCount :: "Diags \<Rightarrow> int" where "warnCount d = dg_nwarn d"
definition diags_ok :: "Diags \<Rightarrow> bool" where "diags_ok d \<longleftrightarrow> dg_nerr d = 0"

definition setSource :: "Diags \<Rightarrow> string \<Rightarrow> Diags" where "setSource d s = d\<lparr>dg_src := Some s\<rparr>"
definition setLineMap :: "Diags \<Rightarrow> FileLoc list \<Rightarrow> Diags" where "setLineMap d m = d\<lparr>dg_lineMap := Some m\<rparr>"
definition setFileSources :: "Diags \<Rightarrow> (string \<rightharpoonup> string) \<Rightarrow> Diags" where
  "setFileSources d m = d\<lparr>dg_fileSrc := Some m\<rparr>"
definition setRootPath :: "Diags \<Rightarrow> string \<Rightarrow> Diags" where "setRootPath d p = d\<lparr>dg_rootCanon := p\<rparr>"

definition mute :: "Diags \<Rightarrow> Diags" where
  "mute d = d\<lparr>dg_mute := dg_mute d + 1\<rparr>"

definition unmute :: "Diags \<Rightarrow> Diags" where
  "unmute d = (if dg_mute d > 0 then d\<lparr>dg_mute := dg_mute d - 1\<rparr> else d)"

definition muted :: "Diags \<Rightarrow> bool" where
  "muted d \<longleftrightarrow> dg_mute d > 0"

definition mutedErrors :: "Diags \<Rightarrow> int" where
  "mutedErrors d = dg_mnerr d"

definition rewindMutedErrors :: "Diags \<Rightarrow> int \<Rightarrow> Diags" where
  "rewindMutedErrors d to = d\<lparr>dg_mnerr := to\<rparr>"

section \<open>Rendering\<close>

definition resolveFileLoc :: "Diags \<Rightarrow> SourceLoc \<Rightarrow> FileLoc option" where
  "resolveFileLoc d loc =
     (case dg_lineMap d of
        None \<Rightarrow> None
      | Some m \<Rightarrow>
          if loc_line loc \<le> 0 then None
          else if loc_line loc > int (length m) then None
          else Some (m ! nat (loc_line loc - 1)))"

text \<open>
  \<^verbatim>\<open>std::getline\<close> on a string stream: the remaining input, the end-of-file flag and the line read
  last.  Once the flag is set the stream object refuses to read and leaves the line alone; reaching
  the end with nothing to extract clears the line and fails.
\<close>

fun split_line :: "string \<Rightarrow> string \<times> string option" where
  "split_line [] = ([], None)"
| "split_line (c # cs) =
     (if c = NL then ([], Some cs) else (case split_line cs of (l, r) \<Rightarrow> (c # l, r)))"

fun read_lines :: "nat \<Rightarrow> string option \<Rightarrow> string \<Rightarrow> string" where
  "read_lines 0 stream ln = ln"
| "read_lines (Suc n) None ln = ln"
| "read_lines (Suc n) (Some s) ln =
     (if s = [] then []
      else case split_line s of (l, rest) \<Rightarrow> read_lines n rest l)"

definition is_not_sign :: "char \<Rightarrow> char \<Rightarrow> bool" where
  "is_not_sign b c \<longleftrightarrow> ucode b = 0xC2 \<and> ucode c = 0xAC"

fun display_col :: "nat \<Rightarrow> string \<Rightarrow> nat" where
  "display_col 0 ln = 0"
| "display_col (Suc t) [] = 0"
| "display_col (Suc t) [b] = Suc (display_col t [])"
| "display_col (Suc t) (b # c # ln) =
     (if is_not_sign b c then Suc (display_col (t - 1) ln) else Suc (display_col t (c # ln)))"

fun show_line :: "string \<Rightarrow> string" where
  "show_line [] = []"
| "show_line [b] = (if ucode b \<ge> 0x80 then ''?'' else [b])"
| "show_line (b # c # ln) =
     (if is_not_sign b c then CHR ''^'' # show_line ln
      else if ucode b \<ge> 0x80 then CHR ''?'' # show_line (c # ln)
      else b # show_line (c # ln))"

definition blanks :: "nat \<Rightarrow> string" where
  "blanks n = replicate n CHR '' ''"

definition render_head :: "string \<Rightarrow> int \<Rightarrow> int \<Rightarrow> string \<Rightarrow> string \<Rightarrow> string \<Rightarrow> string" where
  "render_head name lineNum col level msg suffix =
     (if lineNum > 0
      then c_str name @ '':'' @ to_string lineNum @ '':'' @ to_string col @ '': '' @ level @ '': '' @ c_str msg @
           c_str suffix @ [NL]
      else c_str name @ '': '' @ level @ '': '' @ c_str msg @ c_str suffix @ [NL])"

definition render_echo :: "string \<Rightarrow> int \<Rightarrow> int \<Rightarrow> string \<Rightarrow> string" where
  "render_echo source lineNum col replace =
     (let ln = read_lines (nat lineNum) (Some source) [];
          target = (if col > 0 then nat (col - 1) else 0);
          d = display_col target ln
      in ''  '' @ c_str (show_line ln) @ [NL] @
         ''  '' @ blanks d @ ''^'' @ [NL] @
         (if replace \<noteq> [] then ''  '' @ blanks d @ c_str replace @ [NL] else []))"

definition emit :: "Diags \<Rightarrow> string \<Rightarrow> SourceLoc \<Rightarrow> string \<Rightarrow> string \<Rightarrow> string \<Rightarrow> Diags" where
  "emit d level loc msg rule replace =
     (let suffix = (if rule \<noteq> [] then ''  [TR 25.084 rule '' @ rule @ '']'' else []);
          fl = resolveFileLoc d loc;
          source = (case (fl, dg_fileSrc d) of
                      (Some f, Some m) \<Rightarrow> (case m (fl_path f) of Some s \<Rightarrow> Some s | None \<Rightarrow> dg_src d)
                    | _ \<Rightarrow> dg_src d);
          name = (case fl of
                    Some f \<Rightarrow> if fl_path f = dg_rootCanon d then dg_file d else fl_path f
                  | None \<Rightarrow> dg_file d);
          lineNum = (case fl of Some f \<Rightarrow> fl_line f | None \<Rightarrow> loc_line loc);
          col = loc_col loc;
          echo = (case source of
                    Some s \<Rightarrow> if lineNum > 0 then render_echo s lineNum col replace else []
                  | None \<Rightarrow> [])
      in d\<lparr>dg_stderr := dg_stderr d @ render_head name lineNum col level msg suffix @ echo\<rparr>)"

definition error :: "Diags \<Rightarrow> SourceLoc \<Rightarrow> string \<Rightarrow> string \<Rightarrow> string \<Rightarrow> Diags" where
  "error d loc msg rule replace =
     (if muted d then d\<lparr>dg_mnerr := dg_mnerr d + 1\<rparr>
      else emit (d\<lparr>dg_nerr := dg_nerr d + 1\<rparr>) ''error'' loc msg rule replace)"

definition warn :: "Diags \<Rightarrow> SourceLoc \<Rightarrow> string \<Rightarrow> string \<Rightarrow> string \<Rightarrow> Diags" where
  "warn d loc msg rule replace =
     (if muted d then d
      else emit (d\<lparr>dg_nwarn := dg_nwarn d + 1\<rparr>) ''warning'' loc msg rule replace)"

definition remark :: "Diags \<Rightarrow> SourceLoc \<Rightarrow> string \<Rightarrow> string \<Rightarrow> Diags" where
  "remark d loc msg rule = (if muted d then d else emit d ''remark'' loc msg rule [])"

definition diag_note :: "Diags \<Rightarrow> SourceLoc \<Rightarrow> string \<Rightarrow> Diags" where
  "diag_note d loc msg = (if muted d then d else emit d ''note'' loc msg [] [])"

section \<open>Sequences of calls\<close>

datatype diag_call =
  CError SourceLoc string string string
| CWarn SourceLoc string string string
| CRemark SourceLoc string string
| CNote SourceLoc string
| CMute
| CUnmute

fun diag_step :: "diag_call \<Rightarrow> Diags \<Rightarrow> Diags" where
  "diag_step (CError l m r f) d = error d l m r f"
| "diag_step (CWarn l m r f) d = warn d l m r f"
| "diag_step (CRemark l m r) d = remark d l m r"
| "diag_step (CNote l m) d = diag_note d l m"
| "diag_step CMute d = mute d"
| "diag_step CUnmute d = unmute d"

definition diag_run :: "diag_call list \<Rightarrow> Diags \<Rightarrow> Diags" where
  "diag_run cs d = fold diag_step cs d"

text \<open>The mute depth a sequence adds, when it never unmutes below its own start.\<close>

fun nested :: "nat \<Rightarrow> diag_call list \<Rightarrow> bool" where
  "nested n [] = (n = 0)"
| "nested n (CMute # cs) = nested (Suc n) cs"
| "nested n (CUnmute # cs) = (n > 0 \<and> nested (n - 1) cs)"
| "nested n (CError l m r f # cs) = nested n cs"
| "nested n (CWarn l m r f # cs) = nested n cs"
| "nested n (CRemark l m r # cs) = nested n cs"
| "nested n (CNote l m # cs) = nested n cs"

section \<open>The interface the phases rely on\<close>

locale diag_sink =
  fixes report :: "'d \<Rightarrow> SourceLoc \<Rightarrow> string \<Rightarrow> string \<Rightarrow> 'd"
    and errs :: "'d \<Rightarrow> int"
    and live :: "'d \<Rightarrow> bool"
  assumes errs_report: "live d \<Longrightarrow> errs (report d l m r) = errs d + 1"
    and live_report: "live d \<Longrightarrow> live (report d l m r)"
begin

lemma errs_report_all:
  "live d \<Longrightarrow> errs (fold (\<lambda>(l, m, r) d. report d l m r) rs d) = errs d + int (length rs)"
proof (induction rs arbitrary: d)
  case (Cons x rs)
  obtain l m r where "x = (l, m, r)" by (cases x) auto
  with Cons show ?case by (simp add: errs_report live_report)
qed simp

end

lemma emit_fields [simp]:
  "dg_nerr (emit d lv l m r f) = dg_nerr d" "dg_nwarn (emit d lv l m r f) = dg_nwarn d"
  "dg_mute (emit d lv l m r f) = dg_mute d" "dg_mnerr (emit d lv l m r f) = dg_mnerr d"
  by (simp_all add: emit_def Let_def)

interpretation diags: diag_sink "\<lambda>d l m r. error d l m r []" errorCount "\<lambda>d. \<not> muted d"
  by unfold_locales (simp_all add: error_def errorCount_def muted_def)

text \<open>The errors seen by a sink, printed or muted.\<close>

definition errs :: "Diags \<Rightarrow> int" where
  "errs d = dg_nerr d + dg_mnerr d"

lemma errs_error [simp]: "errs (error d l m r f) = errs d + 1"
  by (simp add: errs_def error_def)

section \<open>Speculation can be undone\<close>

lemma muted_calls:
  "dg_mute d > 0 \<Longrightarrow> error d l m r f = d\<lparr>dg_mnerr := dg_mnerr d + 1\<rparr>"
  "dg_mute d > 0 \<Longrightarrow> warn d l m r f = d"
  "dg_mute d > 0 \<Longrightarrow> remark d l m r = d"
  "dg_mute d > 0 \<Longrightarrow> diag_note d l m = d"
  by (simp_all add: error_def warn_def remark_def diag_note_def muted_def)

lemma nested_run:
  assumes "nested n cs" and "0 \<le> depth" and "dg_mute d = depth + 1 + int n"
  shows "\<exists>k. diag_run cs d = d\<lparr>dg_mute := depth + 1, dg_mnerr := k\<rparr>"
  using assms
proof (induction n cs arbitrary: d rule: nested.induct)
  case (1 n)
  then show ?case by (intro exI [of _ "dg_mnerr d"]) (simp add: diag_run_def)
next
  case (2 n cs)
  let ?e = "d\<lparr>dg_mute := dg_mute d + 1\<rparr>"
  have "dg_mute ?e = depth + 1 + int (Suc n)" using "2.prems" by simp
  with "2.prems" have "\<exists>k. diag_run cs ?e = ?e\<lparr>dg_mute := depth + 1, dg_mnerr := k\<rparr>"
    by (intro "2.IH") simp_all
  then show ?case by (simp add: diag_run_def mute_def)
next
  case (3 n cs)
  let ?e = "d\<lparr>dg_mute := dg_mute d - 1\<rparr>"
  have "dg_mute ?e = depth + 1 + int (n - 1)" using "3.prems" by (simp add: of_nat_diff)
  with "3.prems" have "\<exists>k. diag_run cs ?e = ?e\<lparr>dg_mute := depth + 1, dg_mnerr := k\<rparr>"
    by (intro "3.IH") simp_all
  then show ?case using "3.prems" by (simp add: diag_run_def unmute_def)
next
  case (4 n l m r f cs)
  let ?e = "d\<lparr>dg_mnerr := dg_mnerr d + 1\<rparr>"
  have "\<exists>k. diag_run cs ?e = ?e\<lparr>dg_mute := depth + 1, dg_mnerr := k\<rparr>"
    using "4.prems" by (intro "4.IH") simp_all
  then show ?case using "4.prems" by (simp add: diag_run_def muted_calls)
qed (simp_all add: diag_run_def muted_calls)

text \<open>
  C19: a speculative parse leaves no trace (ADR-004 step 3).  Muting the sink, making any sequence of
  error, warning, remark and note calls with properly nested inner probes, unmuting and rewinding the
  muted-error tally gives back the very same sink: nothing printed, nothing counted.
\<close>
theorem speculative_probe_leaves_no_trace:
  assumes "nested 0 cs" and "0 \<le> dg_mute d"
  shows "rewindMutedErrors (unmute (diag_run cs (mute d))) (mutedErrors d) = d"
proof -
  obtain k where "diag_run cs (mute d) = (mute d)\<lparr>dg_mute := dg_mute d + 1, dg_mnerr := k\<rparr>"
    using nested_run [OF assms(1,2), of "mute d"] by (auto simp: mute_def)
  with assms(2) show ?thesis
    by (simp add: mute_def unmute_def rewindMutedErrors_def mutedErrors_def)
qed

theorem speculative_probe_leaves_no_trace_witness:
  "rewindMutedErrors (unmute (diag_run
     [CError \<lparr>loc_line = 1, loc_col = 2\<rparr> ''expected THEN'' ''(75)'' [], CMute,
      CWarn \<lparr>loc_line = 1, loc_col = 2\<rparr> ''w'' [] [], CUnmute] (mute (mkDiags ''a.pli''))))
     (mutedErrors (mkDiags ''a.pli'')) = mkDiags ''a.pli''"
  by (rule speculative_probe_leaves_no_trace) (simp_all add: mkDiags_def)

section \<open>Rendering facts\<close>

lemma show_line_ascii: "c \<in> set (show_line ln) \<Longrightarrow> ucode c < 0x80"
  by (induction ln rule: show_line.induct) (auto simp: ucode_def split: if_splits)

lemma length_show_line: "length (show_line ln) = display_col (length ln) ln"
  by (induction ln rule: show_line.induct) auto

lemma display_col_mono: "display_col t ln \<le> length (show_line ln)"
  by (induction t ln rule: display_col.induct) auto

text \<open>
  the caret line is aligned with the echoed line.  If the reported column does not fall inside a
  two-byte not sign, the caret stands right after the rendering of the bytes before that column; the
  rendering is pure ASCII whatever the source bytes are, and the caret never passes its end.
\<close>
lemma caret_alignment:
  assumes "t \<le> length ln"
    and "\<not> (0 < t \<and> t < length ln \<and> is_not_sign (ln ! (t - 1)) (ln ! t))"
  shows "take (display_col t ln) (show_line ln) = show_line (take t ln) \<and>
         display_col t ln \<le> length (show_line ln) \<and>
         (\<forall>c \<in> set (show_line ln). ucode c < 0x80)"
proof -
  have "take (display_col t ln) (show_line ln) = show_line (take t ln)"
    using assms
  proof (induction t ln rule: display_col.induct)
    case (4 t b c ln)
    show ?case
    proof (cases t)
      case 0
      with 4 show ?thesis by (auto simp: is_not_sign_def)
    next
      case (Suc u)
      with 4 show ?thesis
        by (cases "is_not_sign b c") (auto simp: nth_Cons split: nat.splits)
    qed
  qed auto
  then show ?thesis using display_col_mono show_line_ascii by blast
qed

end
