(* ===== verification/Lexer.thy ===== *)
theory Lexer
  imports Diag
begin

text \<open>
  \<^verbatim>\<open>src/token.h\<close>, \<^verbatim>\<open>src/lexer.h\<close> and \<^verbatim>\<open>src/lexer.cpp\<close>: lexical analysis.  The scanner object is
  the record \<open>lexer\<close> (the source bytes, the position \<open>p_\<close>, the line and column counters and the
  diagnostic sink); every member function takes it and returns the updated object.  Each loop of the
  source is a recursive function whose termination is proved from its guard, and \<open>lexAll\<close> terminates
  because every iteration consumes a byte.
\<close>

section \<open>Tokens\<close>

datatype Tok =
  Tok_Eof | Tok_Word | Tok_Number | Tok_Isub | Tok_CharLit | Tok_BitLit | Tok_HexLit
| Tok_Semi | Tok_Colon | Tok_Comma | Tok_LParen | Tok_RParen | Tok_Dot
| Tok_Eq | Tok_Plus | Tok_Minus | Tok_Star | Tok_Slash | Tok_Power | Tok_Concat
| Tok_Amp | Tok_Bar | Tok_Not | Tok_Lt | Tok_Le | Tok_Gt | Tok_Ge | Tok_Ne | Tok_Ngt | Tok_Nlt
| Tok_Arrow | Tok_Percent

record Token =
  tk_kind :: Tok
  tk_text :: string
  tk_sval :: string
  tk_loc :: SourceLoc
  tk_binaryRadix :: bool
  tk_imaginary :: bool
  tk_sterling :: bool
  tk_isFloat :: bool
  tk_hasExp :: bool

definition mkTok :: "Tok \<Rightarrow> SourceLoc \<Rightarrow> Token" where
  "mkTok k loc = \<lparr>tk_kind = k, tk_text = [], tk_sval = [], tk_loc = loc, tk_binaryRadix = False,
     tk_imaginary = False, tk_sterling = False, tk_isFloat = False, tk_hasExp = False\<rparr>"

definition isWord :: "Token \<Rightarrow> string \<Rightarrow> bool" where
  "isWord t w \<longleftrightarrow> tk_kind t = Tok_Word \<and> tk_text t = w"

definition quoted :: "string \<Rightarrow> string" where
  "quoted s = [QUOTE] @ s @ [QUOTE]"

fun tokName :: "Tok \<Rightarrow> string" where
  "tokName Tok_Eof = ''end of file''"
| "tokName Tok_Word = ''identifier''"
| "tokName Tok_Number = ''numeric constant''"
| "tokName Tok_Isub = ''iSUB''"
| "tokName Tok_CharLit = ''character constant''"
| "tokName Tok_BitLit = ''bit constant''"
| "tokName Tok_HexLit = ''hex constant''"
| "tokName Tok_Semi = quoted '';''"
| "tokName Tok_Colon = quoted '':''"
| "tokName Tok_Comma = quoted '',''"
| "tokName Tok_LParen = quoted ''(''"
| "tokName Tok_RParen = quoted '')''"
| "tokName Tok_Dot = quoted ''.''"
| "tokName Tok_Eq = quoted ''=''"
| "tokName Tok_Plus = quoted ''+''"
| "tokName Tok_Minus = quoted ''-''"
| "tokName Tok_Star = quoted ''*''"
| "tokName Tok_Slash = quoted ''/''"
| "tokName Tok_Power = quoted ''**''"
| "tokName Tok_Concat = quoted ''||''"
| "tokName Tok_Amp = quoted ''&''"
| "tokName Tok_Bar = quoted ''|''"
| "tokName Tok_Not = quoted ''not''"
| "tokName Tok_Lt = quoted ''<''"
| "tokName Tok_Le = quoted ''<=''"
| "tokName Tok_Gt = quoted ''>''"
| "tokName Tok_Ge = quoted ''>=''"
| "tokName Tok_Ne = quoted ''not=''"
| "tokName Tok_Ngt = quoted ''not>''"
| "tokName Tok_Nlt = quoted ''not<''"
| "tokName Tok_Arrow = quoted ''->''"
| "tokName Tok_Percent = quoted ''%''"

section \<open>Character classes and the scanner object\<close>

definition pliIsLetter :: "char \<Rightarrow> bool" where
  [char_class]: "pliIsLetter c \<longleftrightarrow>
     c_isupper c \<or> c_islower c \<or> c = CHR ''$'' \<or> c = CHR ''#'' \<or> c = CHR 0x40"

definition pliIsAlphameric :: "char \<Rightarrow> bool" where
  [char_class]: "pliIsAlphameric c \<longleftrightarrow> pliIsLetter c \<or> c_isdigit c \<or> c = CHR ''_''"

record lexer =
  lx_s :: string
  lx_p :: nat
  lx_line :: int
  lx_col :: int
  lx_d :: Diags

definition mkLexer :: "string \<Rightarrow> Diags \<Rightarrow> lexer" where
  "mkLexer src d = \<lparr>lx_s = src, lx_p = 0, lx_line = 1, lx_col = 1, lx_d = d\<rparr>"

definition cur :: "lexer \<Rightarrow> char" where
  "cur st = (if lx_p st < length (lx_s st) then lx_s st ! lx_p st else NUL)"

definition peek :: "lexer \<Rightarrow> nat \<Rightarrow> char" where
  "peek st n = (if lx_p st + n < length (lx_s st) then lx_s st ! (lx_p st + n) else NUL)"

definition here :: "lexer \<Rightarrow> SourceLoc" where
  "here st = \<lparr>loc_line = lx_line st, loc_col = lx_col st\<rparr>"

definition bump :: "lexer \<Rightarrow> lexer" where
  "bump st =
     (if lx_p st < length (lx_s st) then
        (if lx_s st ! lx_p st = NL
         then st\<lparr>lx_line := lx_line st + 1, lx_col := 1, lx_p := Suc (lx_p st)\<rparr>
         else st\<lparr>lx_col := lx_col st + 1, lx_p := Suc (lx_p st)\<rparr>)
      else st)"

definition lex_error :: "lexer \<Rightarrow> SourceLoc \<Rightarrow> string \<Rightarrow> string \<Rightarrow> lexer" where
  "lex_error st loc msg rule = st\<lparr>lx_d := error (lx_d st) loc msg rule []\<rparr>"

definition remaining :: "lexer \<Rightarrow> nat" where
  "remaining st = length (lx_s st) - lx_p st"

lemma remaining_bump [simp]: "cur st \<noteq> NUL \<Longrightarrow> remaining (bump st) < remaining st"
  by (auto simp: remaining_def bump_def cur_def split: if_splits)

lemma remaining_bump_le: "remaining (bump st) \<le> remaining st"
  by (auto simp: remaining_def bump_def)

definition eatNot :: "lexer \<Rightarrow> lexer \<times> bool" where
  "eatNot st =
     (if cur st = CHR ''^'' \<or> cur st = CHR 0x7E then (bump st, True)
      else if ucode (cur st) = 0xC2 \<and> ucode (peek st 1) = 0xAC then (bump (bump st), True)
      else (st, False))"

section \<open>Blanks and comments\<close>

definition is_blank :: "char \<Rightarrow> bool" where
  "is_blank c \<longleftrightarrow> c \<noteq> NUL \<and> ucode c \<le> 32"

function skipBlanks :: "lexer \<Rightarrow> lexer" where
  "skipBlanks st = (if is_blank (cur st) then skipBlanks (bump st) else st)"
  by pat_completeness auto
termination by (relation "measure remaining") (auto simp: is_blank_def)

text \<open>The body of a bracketed comment: \<open>False\<close> when the source ends inside it.\<close>

function blockComment :: "lexer \<Rightarrow> lexer \<times> bool" where
  "blockComment st =
     (if cur st = NUL then (st, False)
      else if cur st = CHR ''*'' \<and> peek st 1 = CHR ''/'' then (bump (bump st), True)
      else blockComment (bump st))"
  by pat_completeness auto
termination by (relation "measure remaining") auto

function lineComment :: "lexer \<Rightarrow> lexer" where
  "lineComment st = (if cur st \<noteq> NUL \<and> cur st \<noteq> NL then lineComment (bump st) else st)"
  by pat_completeness auto
termination by (relation "measure remaining") auto

declare skipBlanks.simps [simp del] blockComment.simps [simp del] lineComment.simps [simp del]

section \<open>Moves of the scanner\<close>

text \<open>
  Everything a member function does to the object is a sequence of \<open>bump\<close>s and error reports.  Facts
  that hold of every such sequence are proved once, by rule induction.
\<close>

inductive moves :: "lexer \<Rightarrow> lexer \<Rightarrow> bool" where
  moves_refl [intro!, simp]: "moves st st"
| moves_bumpI: "moves st st' \<Longrightarrow> moves st (bump st')"
| moves_errorI: "moves st st' \<Longrightarrow> moves st (lex_error st' loc msg rule)"

lemma moves_trans: "moves b c \<Longrightarrow> moves a b \<Longrightarrow> moves a c"
  by (induction rule: moves.induct) (auto intro: moves.intros)

lemma moves_bump [simp, intro!]: "moves st (bump st)"
  by (rule moves_bumpI) simp

lemma moves_src: "moves st st' \<Longrightarrow> lx_s st' = lx_s st"
  by (induction rule: moves.induct) (auto simp: bump_def lex_error_def)

lemma moves_pos: "moves st st' \<Longrightarrow> lx_p st \<le> lx_p st'"
  by (induction rule: moves.induct) (auto simp: bump_def lex_error_def)

lemma moves_remaining: "moves st st' \<Longrightarrow> remaining st' \<le> remaining st"
  using moves_src moves_pos by (fastforce simp: remaining_def)

lemma skipBlanks_moves: "moves st (skipBlanks st)"
proof (induction st rule: skipBlanks.induct)
  case (1 st)
  then show ?case by (subst skipBlanks.simps) (auto intro: moves_trans)
qed

lemma blockComment_moves: "moves st (fst (blockComment st))"
proof (induction st rule: blockComment.induct)
  case (1 st)
  then show ?case by (subst blockComment.simps) (auto intro: moves_trans moves_bumpI)
qed

lemma lineComment_moves: "moves st (lineComment st)"
proof (induction st rule: lineComment.induct)
  case (1 st)
  then show ?case by (subst lineComment.simps) (auto intro: moves_trans)
qed

lemma remaining_blockComment [simp]: "remaining (fst (blockComment st)) \<le> remaining st"
  by (rule moves_remaining [OF blockComment_moves])

lemma remaining_lineComment [simp]: "remaining (lineComment st) \<le> remaining st"
  by (rule moves_remaining [OF lineComment_moves])

lemma remaining_skipBlanks [simp]: "remaining (skipBlanks st) \<le> remaining st"
  by (rule moves_remaining [OF skipBlanks_moves])

lemma remaining_lineComment_less: "cur st = CHR ''/'' \<Longrightarrow> remaining (lineComment st) < remaining st"
  by (subst lineComment.simps) (auto intro: le_less_trans [OF remaining_lineComment])

function skipSpaceAndComments :: "lexer \<Rightarrow> lexer" where
  "skipSpaceAndComments st =
     (let st1 = skipBlanks st in
      if cur st1 = CHR ''/'' \<and> peek st1 1 = CHR ''*'' then
        let (st2, closed) = blockComment (bump (bump st1)) in
        if closed then skipSpaceAndComments st2
        else lex_error st2 (here st1) ''unterminated comment'' ''(150)''
      else if cur st1 = CHR ''/'' \<and> peek st1 1 = CHR ''/'' then
        skipSpaceAndComments (lineComment st1)
      else st1)"
  by pat_completeness auto
termination
proof (relation "measure remaining", goal_cases)
  case (2 st st1 p st2 closed)
  have "remaining (bump (bump st1)) < remaining st1"
    using 2 by (intro le_less_trans [OF remaining_bump_le remaining_bump]) simp
  moreover have "remaining st2 \<le> remaining (bump (bump st1))"
    using 2 remaining_blockComment [of "bump (bump st1)"] by (metis fst_conv)
  moreover have "remaining st1 \<le> remaining st" using 2 by simp
  ultimately have "remaining st2 < remaining st" by linarith
  then show ?case by simp
next
  case (3 st st1)
  then have "remaining (lineComment st1) < remaining st1" and "remaining st1 \<le> remaining st"
    by (simp_all add: remaining_lineComment_less)
  then show ?case by simp
qed simp

declare skipSpaceAndComments.simps [simp del]

section \<open>Words, numbers and strings\<close>

function wordLoop :: "lexer \<Rightarrow> string \<Rightarrow> lexer \<times> string" where
  "wordLoop st acc =
     (if pliIsAlphameric (cur st) then wordLoop (bump st) (acc @ [c_toupper (cur st)]) else (st, acc))"
  by pat_completeness auto
termination
  by (relation "measure (remaining \<circ> fst)") (auto simp: char_class ucode_def intro: remaining_bump)

function digitsLoop :: "lexer \<Rightarrow> string \<Rightarrow> lexer \<times> string" where
  "digitsLoop st acc =
     (if c_isdigit (cur st) then digitsLoop (bump st) (acc @ [cur st]) else (st, acc))"
  by pat_completeness auto
termination
  by (relation "measure (remaining \<circ> fst)") (auto intro!: remaining_bump)

declare wordLoop.simps [simp del] digitsLoop.simps [simp del]

definition lexWord :: "lexer \<Rightarrow> lexer \<times> Token" where
  "lexWord st =
     (let (st1, txt) = wordLoop st [] in (st1, (mkTok Tok_Word (here st))\<lparr>tk_text := txt\<rparr>))"

text \<open>\<open>one_of c x y\<close> reads: the byte is one of the two spellings of a letter.\<close>

definition one_of :: "char \<Rightarrow> char \<Rightarrow> char \<Rightarrow> bool" where
  "one_of c x y \<longleftrightarrow> c = x \<or> c = y"

definition dot_digit :: "lexer \<Rightarrow> bool" where
  "dot_digit st \<longleftrightarrow> cur st = CHR ''.'' \<and> c_isdigit (peek st 1)"

text \<open>\<open>.\<close> followed by digits, appended to the text.\<close>

definition dotDigits :: "lexer \<Rightarrow> string \<Rightarrow> lexer \<times> string" where
  "dotDigits st txt = digitsLoop (bump st) (txt @ ''.'')"

text \<open>The optional exponent: only when a digit follows the optional sign, else the scanner backs up.\<close>

definition lexExponent :: "lexer \<Rightarrow> Token \<Rightarrow> lexer \<times> Token" where
  "lexExponent st t =
     (if one_of (cur st) CHR ''E'' CHR ''e'' then
        let st1 = bump st;
            signed = one_of (cur st1) CHR ''+'' CHR ''-'';
            ex = (if signed then ''E'' @ [cur st1] else ''E'');
            st2 = (if signed then bump st1 else st1)
        in if c_isdigit (cur st2) then
             let (st3, ex') = digitsLoop st2 ex in
             (st3, t\<lparr>tk_text := tk_text t @ ex', tk_isFloat := True, tk_hasExp := True\<rparr>)
           else (st, t)
      else (st, t))"

definition lexRadix :: "lexer \<Rightarrow> Token \<Rightarrow> lexer \<times> Token" where
  "lexRadix st t =
     (if one_of (cur st) CHR ''B'' CHR ''b'' then (bump st, t\<lparr>tk_binaryRadix := True\<rparr>)
      else if one_of (cur st) CHR ''I'' CHR ''i'' then (bump st, t\<lparr>tk_imaginary := True\<rparr>)
      else (st, t))"

definition lexSuffixes :: "lexer \<Rightarrow> Token \<Rightarrow> lexer \<times> Token" where
  "lexSuffixes st t = (let (st1, t1) = lexExponent st t in lexRadix st1 t1)"

text \<open>The pence field of a sterling constant, after \<open>pounds . shillings\<close>.\<close>

definition lexSterling :: "lexer \<Rightarrow> Token \<Rightarrow> lexer \<times> Token" where
  "lexSterling st t =
     (let (st1, x1) = dotDigits st (tk_text t);
          (st2, x2) = (if dot_digit st1 then dotDigits st1 x1 else (st1, x1));
          t2 = t\<lparr>tk_text := x2\<rparr>
      in if ucode (cur st2) = 0xC2 \<and> ucode (peek st2 1) = 0xA3
         then (bump (bump st2), t2\<lparr>tk_sterling := True, tk_isFloat := False\<rparr>)
         else (lex_error st2 (tk_loc t)
                 (''a sterling constant must end with '' @ quoted [CHR 0xC2, CHR 0xA3]) ''(145)'', t2))"

definition lexNumber :: "lexer \<Rightarrow> lexer \<times> Token" where
  "lexNumber st =
     (let (st1, x1) = digitsLoop st [];
          t1 = (mkTok Tok_Number (here st))\<lparr>tk_text := x1\<rparr>
      in if one_of (cur st1) CHR ''S'' CHR ''s'' \<and> one_of (peek st1 1) CHR ''U'' CHR ''u'' \<and>
            one_of (peek st1 2) CHR ''B'' CHR ''b''
         then (bump (bump (bump st1)), t1\<lparr>tk_kind := Tok_Isub\<rparr>)
         else if dot_digit st1 then
           let (st2, x2) = dotDigits st1 x1;
               t2 = t1\<lparr>tk_text := x2, tk_isFloat := True\<rparr>
           in if dot_digit st2 then lexSterling st2 t2 else lexSuffixes st2 t2
         else lexSuffixes st1 t1)"

text \<open>The body of a quoted constant: the value, and \<open>False\<close> when it is not terminated.\<close>

function stringLoop :: "lexer \<Rightarrow> string \<Rightarrow> lexer \<times> string \<times> bool" where
  "stringLoop st v =
     (if cur st = NUL \<or> cur st = NL then (st, v, False)
      else if cur st = QUOTE then
        (if peek st 1 = QUOTE then stringLoop (bump (bump st)) (v @ [QUOTE])
         else (bump st, v, True))
      else stringLoop (bump st) (v @ [cur st]))"
  by pat_completeness auto
termination
  by (relation "measure (remaining \<circ> fst)")
    (auto intro: remaining_bump le_less_trans [OF remaining_bump_le remaining_bump])

declare stringLoop.simps [simp del]

definition lexString :: "lexer \<Rightarrow> lexer \<times> Token" where
  "lexString st =
     (let (st1, v, closed) = stringLoop (bump st) [];
          st2 = (if closed then st1 else lex_error st1 (here st) ''unterminated string constant'' ''(143)'');
          t = (mkTok Tok_CharLit (here st))\<lparr>tk_sval := v\<rparr>
      in if one_of (cur st2) CHR ''B'' CHR ''b'' then (bump st2, t\<lparr>tk_kind := Tok_BitLit\<rparr>)
         else if one_of (cur st2) CHR ''X'' CHR ''x'' then (bump st2, t\<lparr>tk_kind := Tok_HexLit\<rparr>)
         else (st2, t))"

section \<open>Operators and punctuation\<close>

text \<open>\<open>one\<close> of the source, and the two-character operators (second character, long and short kind).\<close>

definition one :: "lexer \<Rightarrow> Tok \<Rightarrow> lexer \<times> Token option" where
  "one st k = (bump st, Some (mkTok k (here st)))"

definition oneOrTwo :: "lexer \<Rightarrow> char \<Rightarrow> Tok \<Rightarrow> Tok \<Rightarrow> lexer \<times> Token option" where
  "oneOrTwo st c2 k2 k1 =
     (let st1 = bump st in
      if cur st1 = c2 then (bump st1, Some (mkTok k2 (here st)))
      else (st1, Some (mkTok k1 (here st))))"

definition lexBang :: "lexer \<Rightarrow> lexer \<times> Token option" where
  "lexBang st =
     (let st1 = bump st in
      if cur st1 = CHR ''!'' then (bump st1, Some (mkTok Tok_Concat (here st)))
      else (lex_error st1 (here st) (''invalid character '' @ quoted ''!'' @ '' in source'') [], None))"

definition lexDefault :: "lexer \<Rightarrow> lexer \<times> Token option" where
  "lexDefault st =
     (let loc = here st; (st1, ate) = eatNot st in
      if ate then
        (if cur st1 = CHR ''='' then (bump st1, Some (mkTok Tok_Ne loc))
         else if cur st1 = CHR ''>'' then (bump st1, Some (mkTok Tok_Ngt loc))
         else if cur st1 = CHR ''<'' then (bump st1, Some (mkTok Tok_Nlt loc))
         else (st1, Some (mkTok Tok_Not loc)))
      else if ucode (cur st) = 0xC3 \<and> ucode (peek st 1) = 0x82 \<and>
              ucode (peek st 2) = 0xC2 \<and> ucode (peek st 3) = 0xAC then
        (bump (bump (bump (bump (lex_error st loc
           (''not sign is doubly encoded (0xc3 0x82 0xc2 0xac); write it as '' @ quoted ''^'') [])))), None)
      else if ucode (cur st) \<ge> 0x80 then
        (bump (lex_error st loc (''invalid character (0x'' @ hex2 (ucode (cur st)) @ '') in source'') []), None)
      else (bump (lex_error st loc (''invalid character '' @ quoted [cur st] @ '' in source'') []), None))"

definition lexPunct :: "lexer \<Rightarrow> lexer \<times> Token option" where
  "lexPunct st =
     (let c = cur st in
      if c = CHR '';'' then one st Tok_Semi
      else if c = CHR '':'' then one st Tok_Colon
      else if c = CHR '','' then oneOrTwo st CHR ''.'' Tok_Semi Tok_Comma
      else if c = CHR ''('' then one st Tok_LParen
      else if c = CHR '')'' then one st Tok_RParen
      else if c = CHR ''.'' then oneOrTwo st CHR ''.'' Tok_Colon Tok_Dot
      else if c = CHR ''+'' then one st Tok_Plus
      else if c = CHR ''&'' then one st Tok_Amp
      else if c = CHR ''='' then one st Tok_Eq
      else if c = CHR ''*'' then oneOrTwo st CHR ''*'' Tok_Power Tok_Star
      else if c = CHR ''/'' then one st Tok_Slash
      else if c = CHR ''%'' then one st Tok_Percent
      else if c = CHR ''|'' then oneOrTwo st CHR ''|'' Tok_Concat Tok_Bar
      else if c = CHR ''!'' then lexBang st
      else if c = CHR ''-'' then oneOrTwo st CHR ''>'' Tok_Arrow Tok_Minus
      else if c = CHR ''<'' then oneOrTwo st CHR ''='' Tok_Le Tok_Lt
      else if c = CHR ''>'' then oneOrTwo st CHR ''='' Tok_Ge Tok_Gt
      else lexDefault st)"

text \<open>One iteration of \<open>lexAll\<close> at a non-blank byte: the token pushed, \<open>None\<close> on \<^verbatim>\<open>continue\<close>.\<close>

definition lexOne :: "lexer \<Rightarrow> lexer \<times> Token option" where
  "lexOne st =
     (let c = cur st in
      if pliIsLetter c then apsnd Some (lexWord st)
      else if c_isdigit c \<or> (c = CHR ''.'' \<and> c_isdigit (peek st 1)) then apsnd Some (lexNumber st)
      else if c = QUOTE then apsnd Some (lexString st)
      else lexPunct st)"

section \<open>Every iteration consumes a byte\<close>

lemma bump_lex_error: "bump (lex_error st l m r) = lex_error (bump st) l m r"
  by (simp add: bump_def lex_error_def)

lemma moves_lex_error [simp, intro!]: "moves st (lex_error st l m r)"
  by (rule moves_errorI) simp

lemma wordLoop_moves: "moves st (fst (wordLoop st acc))"
proof (induction st acc rule: wordLoop.induct)
  case (1 st acc)
  then show ?case by (subst wordLoop.simps) (auto intro: moves_trans)
qed

lemma digitsLoop_moves: "moves st (fst (digitsLoop st acc))"
proof (induction st acc rule: digitsLoop.induct)
  case (1 st acc)
  then show ?case by (subst digitsLoop.simps) (auto intro: moves_trans)
qed

lemma stringLoop_moves: "moves st (fst (stringLoop st v))"
proof (induction st v rule: stringLoop.induct)
  case (1 st v)
  then show ?case
    by (subst stringLoop.simps) (auto intro: moves_trans moves_trans [OF moves_bump] moves_bumpI)
qed

lemma dotDigits_moves: "moves (bump st) (fst (dotDigits st x))"
  by (simp add: dotDigits_def digitsLoop_moves)

lemma moves_from_bump: "moves (bump st) st' \<Longrightarrow> moves st st'"
  by (erule moves_trans) simp

lemma lexExponent_moves: "moves st (fst (lexExponent st t))"
  by (simp add: lexExponent_def Let_def case_prod_beta)
     (intro conjI impI moves_trans [OF digitsLoop_moves] moves_bumpI moves_refl)

lemma lexRadix_moves: "moves st (fst (lexRadix st t))"
  by (auto simp: lexRadix_def)

lemma lexSuffixes_moves: "moves st (fst (lexSuffixes st t))"
  by (simp add: lexSuffixes_def case_prod_beta moves_trans [OF lexRadix_moves lexExponent_moves])

lemma lexSterling_moves: "moves (bump st) (fst (lexSterling st t))"
proof -
  obtain st1 x1 where 1: "dotDigits st (tk_text t) = (st1, x1)" by (cases "dotDigits st (tk_text t)")
  obtain st2 x2 where 2: "(if dot_digit st1 then dotDigits st1 x1 else (st1, x1)) = (st2, x2)"
    by (cases "if dot_digit st1 then dotDigits st1 x1 else (st1, x1)")
  have m1: "moves (bump st) st1" using dotDigits_moves [of st "tk_text t"] 1 by simp
  have m2: "moves st1 st2"
    using 2 dotDigits_moves [of st1 x1, THEN moves_from_bump] by (auto split: if_splits)
  show ?thesis
    by (auto simp: lexSterling_def 1 2 Let_def
        intro!: moves_bumpI moves_errorI moves_trans [OF m2 m1])
qed

lemma lexNumber_tail_moves:
  assumes "moves st st1"
  shows "moves st (fst (lexSuffixes st1 t))" "moves st (fst (lexSterling st1 t))"
  using assms moves_trans lexSuffixes_moves lexSterling_moves [THEN moves_from_bump] by blast+

lemma wordLoop_progress: "pliIsAlphameric (cur st) \<Longrightarrow> moves (bump st) (fst (wordLoop st acc))"
  by (subst wordLoop.simps) (simp add: wordLoop_moves)

lemma digitsLoop_progress: "c_isdigit (cur st) \<Longrightarrow> moves (bump st) (fst (digitsLoop st acc))"
  by (subst digitsLoop.simps) (simp add: digitsLoop_moves)

lemma digitsLoop_none: "\<not> c_isdigit (cur st) \<Longrightarrow> digitsLoop st acc = (st, acc)"
  by (subst digitsLoop.simps) simp

lemma lexNumber_progress:
  assumes "c_isdigit (cur st) \<or> (cur st = CHR ''.'' \<and> c_isdigit (peek st 1))"
  shows "moves (bump st) (fst (lexNumber st))"
proof (cases "c_isdigit (cur st)")
  case True
  obtain st1 x1 where 1: "digitsLoop st [] = (st1, x1)" by (cases "digitsLoop st []")
  have m1: "moves (bump st) st1" using digitsLoop_progress [OF True, of "[]"] 1 by simp
  have m2: "moves (bump st) (fst (dotDigits st1 x1))"
    by (rule moves_trans [OF dotDigits_moves moves_bumpI [OF m1]])
  show ?thesis
    by (simp add: lexNumber_def 1 Let_def case_prod_beta m1 m2 lexNumber_tail_moves moves_bumpI)
next
  case False
  with assms have d: "dot_digit st" by (simp add: dot_digit_def)
  have "\<not> one_of (cur st) CHR ''S'' CHR ''s''" using d by (simp add: dot_digit_def one_of_def)
  with False d show ?thesis
    by (simp add: lexNumber_def digitsLoop_none Let_def case_prod_beta dotDigits_moves lexNumber_tail_moves)
qed

lemma lexString_progress: "moves (bump st) (fst (lexString st))"
  by (simp add: lexString_def Let_def case_prod_beta moves_bumpI moves_errorI stringLoop_moves)

lemma lexDefault_progress: "moves (bump st) (fst (lexDefault st))"
  by (simp add: lexDefault_def eatNot_def Let_def moves_bumpI moves_errorI bump_lex_error)

lemma lexPunct_progress: "moves (bump st) (fst (lexPunct st))"
  by (simp add: lexPunct_def one_def oneOrTwo_def lexBang_def Let_def moves_bumpI lexDefault_progress)

lemma lexOne_progress: "moves (bump st) (fst (lexOne st))"
proof -
  have "pliIsLetter (cur st) \<Longrightarrow> moves (bump st) (fst (lexWord st))"
    by (simp add: lexWord_def case_prod_beta wordLoop_progress pliIsAlphameric_def)
  then show ?thesis
    by (simp add: lexOne_def Let_def lexNumber_progress lexString_progress lexPunct_progress)
qed

lemma remaining_lexOne: "cur st \<noteq> NUL \<Longrightarrow> remaining (fst (lexOne st)) < remaining st"
  by (rule le_less_trans [OF moves_remaining [OF lexOne_progress] remaining_bump])

lemma skip_moves: "moves st (skipSpaceAndComments st)"
proof (induction st rule: skipSpaceAndComments.induct)
  case (1 st)
  let ?st1 = "skipBlanks st"
  have m1: "moves st ?st1" by (rule skipBlanks_moves)
  obtain st2 closed where c: "blockComment (bump (bump ?st1)) = (st2, closed)"
    by (cases "blockComment (bump (bump ?st1))")
  have m2: "moves st st2"
    using moves_trans [OF blockComment_moves [of "bump (bump ?st1)"], of st] c m1 by (simp add: moves_bumpI)
  have m3: "moves st (lineComment ?st1)" by (rule moves_trans [OF lineComment_moves m1])
  from 1 show ?case
    by (subst skipSpaceAndComments.simps)
      (auto simp: Let_def c intro!: m1 moves_errorI m2 intro: moves_trans [OF _ m2] moves_trans [OF _ m3])
qed

section \<open>The whole unit\<close>

function lexAll :: "lexer \<Rightarrow> Token list \<Rightarrow> lexer \<times> Token list" where
  "lexAll st out =
     (let st1 = skipSpaceAndComments st in
      if cur st1 = NUL then (st1, out @ [mkTok Tok_Eof (here st1)])
      else let (st2, t) = lexOne st1 in
           lexAll st2 (case t of None \<Rightarrow> out | Some t \<Rightarrow> out @ [t]))"
  by pat_completeness auto
termination
proof (relation "measure (remaining \<circ> fst)", goal_cases)
  case (2 st out st1 p st2 t)
  then have "remaining st2 < remaining st1" using remaining_lexOne [of st1] by (metis fst_conv)
  also have "remaining st1 \<le> remaining st" using 2 moves_remaining [OF skip_moves] by simp
  finally show ?case by simp
qed simp

declare lexAll.simps [simp del]

definition lex_run :: "string \<Rightarrow> Diags \<Rightarrow> Token list \<times> Diags" where
  "lex_run src d = (let (st, out) = lexAll (mkLexer src d) [] in (out, lx_d st))"

section \<open>The shape of the token stream\<close>

lemma lexAll_next:
  assumes "skipSpaceAndComments st = st1" and "cur st1 \<noteq> NUL" and "lexOne st1 = (st2, t)"
  shows "lexAll st out = lexAll st2 (case t of None \<Rightarrow> out | Some t \<Rightarrow> out @ [t])"
    and "remaining st2 < remaining st"
proof -
  show "lexAll st out = lexAll st2 (case t of None \<Rightarrow> out | Some t \<Rightarrow> out @ [t])"
    using assms by (simp add: lexAll.simps [of st])
  have "remaining st2 < remaining st1" using remaining_lexOne [OF assms(2)] assms(3) by simp
  also have "remaining st1 \<le> remaining st" using moves_remaining [OF skip_moves] assms(1) by blast
  finally show "remaining st2 < remaining st" .
qed

lemma lexAll_last:
  assumes "skipSpaceAndComments st = st1" and "cur st1 = NUL"
  shows "lexAll st out = (st1, out @ [mkTok Tok_Eof (here st1)])"
  using assms by (simp add: lexAll.simps [of st])

text \<open>Induction along the iterations of \<open>lexAll\<close>.\<close>

lemma lexAll_induct [case_names last step]:
  assumes last: "\<And>st st1. skipSpaceAndComments st = st1 \<Longrightarrow> cur st1 = NUL \<Longrightarrow> P st"
    and step: "\<And>st st1 st2 t. skipSpaceAndComments st = st1 \<Longrightarrow> cur st1 \<noteq> NUL \<Longrightarrow>
                 lexOne st1 = (st2, t) \<Longrightarrow> P st2 \<Longrightarrow> P st"
  shows "P st"
proof (induction "remaining st" arbitrary: st rule: less_induct)
  case less
  obtain st2 t where o: "lexOne (skipSpaceAndComments st) = (st2, t)"
    by (cases "lexOne (skipSpaceAndComments st)")
  show ?case
  proof (cases "cur (skipSpaceAndComments st) = NUL")
    case True
    then show ?thesis by (rule last [OF refl])
  next
    case False
    show ?thesis
      by (rule step [OF refl False o]) (rule less, rule lexAll_next(2) [OF refl False o])
  qed
qed

lemma lexAll_acc: "lexAll st out = (fst (lexAll st []), out @ snd (lexAll st []))"
proof (induction st arbitrary: out rule: lexAll_induct)
  case (last st st1)
  then show ?case by (simp add: lexAll_last)
next
  case (step st st1 st2 t)
  let ?o = "\<lambda>xs. case t of None \<Rightarrow> xs | Some t \<Rightarrow> xs @ [t]"
  have "lexAll st out = (fst (lexAll st2 []), ?o out @ snd (lexAll st2 []))"
    unfolding lexAll_next(1) [OF step(1-3)] by (rule step.IH)
  moreover have "lexAll st [] = (fst (lexAll st2 []), ?o [] @ snd (lexAll st2 []))"
    unfolding lexAll_next(1) [OF step(1-3)] by (rule step.IH)
  ultimately show ?case by (simp split: option.splits)
qed

definition tokens :: "lexer \<Rightarrow> Token list" where
  "tokens st = snd (lexAll st [])"

lemma tokens_last: "skipSpaceAndComments st = st1 \<Longrightarrow> cur st1 = NUL \<Longrightarrow> tokens st = [mkTok Tok_Eof (here st1)]"
  by (simp add: tokens_def lexAll_last)

lemma tokens_next:
  assumes "skipSpaceAndComments st = st1" and "cur st1 \<noteq> NUL" and "lexOne st1 = (st2, t)"
  shows "tokens st = (case t of None \<Rightarrow> tokens st2 | Some t \<Rightarrow> t # tokens st2)"
  unfolding tokens_def lexAll_next(1) [OF assms]
  by (subst lexAll_acc) (simp split: option.splits)

lemma lex_run_tokens: "fst (lex_run src d) = tokens (mkLexer src d)"
  by (simp add: lex_run_def tokens_def case_prod_beta)

text \<open>No scanning routine pushes an end-of-file token; only the end of \<open>lexAll\<close> does.\<close>

lemma lexExponent_kind [simp]:
  "tk_kind (snd (lexExponent st t)) = tk_kind t" "tk_loc (snd (lexExponent st t)) = tk_loc t"
  by (simp_all add: lexExponent_def Let_def case_prod_beta)

lemma lexSuffixes_kind [simp]:
  "tk_kind (snd (lexSuffixes st t)) = tk_kind t" "tk_loc (snd (lexSuffixes st t)) = tk_loc t"
  by (simp_all add: lexSuffixes_def lexRadix_def case_prod_beta)

lemma lexSterling_kind [simp]:
  "tk_kind (snd (lexSterling st t)) = tk_kind t" "tk_loc (snd (lexSterling st t)) = tk_loc t"
  by (simp_all add: lexSterling_def Let_def case_prod_beta)

lemma lexNumber_kind:
  "tk_kind (snd (lexNumber st)) \<in> {Tok_Number, Tok_Isub}" "tk_loc (snd (lexNumber st)) = here st"
  by (simp_all add: lexNumber_def Let_def case_prod_beta mkTok_def)

lemma lexWord_kind: "tk_kind (snd (lexWord st)) = Tok_Word" "tk_loc (snd (lexWord st)) = here st"
  by (simp_all add: lexWord_def case_prod_beta mkTok_def)

lemma lexString_kind:
  "tk_kind (snd (lexString st)) \<in> {Tok_CharLit, Tok_BitLit, Tok_HexLit}" "tk_loc (snd (lexString st)) = here st"
  by (simp_all add: lexString_def Let_def case_prod_beta mkTok_def)

lemma lexPunct_kind: "snd (lexPunct st) = Some t \<Longrightarrow> tk_kind t \<notin> {Tok_Eof, Tok_Word} \<and> tk_loc t = here st"
  by (auto simp: lexPunct_def one_def oneOrTwo_def lexBang_def lexDefault_def Let_def case_prod_beta mkTok_def
      split: if_splits)

lemma apsnd_Some_eq: "apsnd Some x = (a, Some b) \<longleftrightarrow> x = (a, b)"
  by (cases x) auto

text \<open>The four ways one iteration can push a token.\<close>

lemma lexOne_cases [consumes 1, case_names word number string punct]:
  assumes "lexOne st = (st2, Some t)"
  obtains "pliIsLetter (cur st)" "lexWord st = (st2, t)"
  | "lexNumber st = (st2, t)"
  | "lexString st = (st2, t)"
  | "lexPunct st = (st2, Some t)"
  using assms by (auto simp: lexOne_def Let_def apsnd_Some_eq split: if_splits)

lemma lexOne_kind:
  assumes "lexOne st = (st2, Some t)"
  shows "tk_kind t \<noteq> Tok_Eof \<and> tk_loc t = here st"
  using assms
proof (cases rule: lexOne_cases)
  case word
  then show ?thesis using lexWord_kind [of st] by simp
next
  case number
  then show ?thesis using lexNumber_kind [of st] by auto
next
  case string
  then show ?thesis using lexString_kind [of st] by auto
next
  case punct
  then show ?thesis using lexPunct_kind [of st t] by simp
qed

lemma tokens_shape:
  "\<exists>ts. tokens st = ts @ [mkTok Tok_Eof (here (fst (lexAll st [])))] \<and> (\<forall>t \<in> set ts. tk_kind t \<noteq> Tok_Eof) \<and>
        length ts \<le> remaining st"
proof (induction st rule: lexAll_induct)
  case (last st st1)
  then show ?case by (simp add: tokens_last lexAll_last)
next
  case (step st st1 st2 t)
  from step.IH obtain ts where ts: "tokens st2 = ts @ [mkTok Tok_Eof (here (fst (lexAll st2 [])))]"
      "\<forall>t \<in> set ts. tk_kind t \<noteq> Tok_Eof" "length ts \<le> remaining st2" by blast
  have f: "fst (lexAll st []) = fst (lexAll st2 [])"
    unfolding lexAll_next(1) [OF step(1-3)] by (subst lexAll_acc) simp
  have r: "remaining st2 < remaining st" by (rule lexAll_next(2) [OF step(1-3)])
  show ?case
  proof (cases t)
    case None
    with ts r show ?thesis by (intro exI [of _ ts]) (simp add: tokens_next [OF step(1-3)] f)
  next
    case (Some u)
    with ts r lexOne_kind step(3) show ?thesis
      by (intro exI [of _ "u # ts"]) (auto simp: tokens_next [OF step(1-3)] f)
  qed
qed

text \<open>
  C9: the token stream of a unit ends with exactly one end-of-file token, holds no other, and is at
  most one token longer than the source has bytes; the scanner returns on every input.
\<close>
theorem token_stream_shape:
  "\<exists>ts eof. fst (lex_run src d) = ts @ [mkTok Tok_Eof eof] \<and> (\<forall>t \<in> set ts. tk_kind t \<noteq> Tok_Eof) \<and>
        length ts \<le> length src"
  using tokens_shape [of "mkLexer src d"] unfolding lex_run_tokens
  by (auto simp: remaining_def mkLexer_def)

theorem token_stream_shape_witness:
  "\<exists>ts eof. fst (lex_run ''a;'' (mkDiags ''x'')) = ts @ [mkTok Tok_Eof eof] \<and>
        (\<forall>t \<in> set ts. tk_kind t \<noteq> Tok_Eof) \<and> length ts \<le> length ''a;''"
  by (rule token_stream_shape)

section \<open>Locations\<close>









section \<open>Reading off the remaining input\<close>

definition rest :: "lexer \<Rightarrow> string" where
  "rest st = drop (lx_p st) (lx_s st)"

lemma cur_rest: "cur st = (case rest st of [] \<Rightarrow> NUL | c # _ \<Rightarrow> c)"
  by (auto simp: cur_def rest_def drop_nth_Cons)

lemma peek1_rest: "peek st 1 = (case rest st of _ # c # _ \<Rightarrow> c | _ \<Rightarrow> NUL)"
proof (cases "lx_p st < length (lx_s st)")
  case True
  then show ?thesis
    by (cases "Suc (lx_p st) < length (lx_s st)") (auto simp: peek_def rest_def drop_nth_Cons)
qed (simp add: peek_def rest_def)

lemma rest_bump [simp]: "rest (bump st) = tl (rest st)"
  by (auto simp: rest_def bump_def drop_Suc tl_drop)

lemma lx_d_bump [simp]: "lx_d (bump st) = lx_d st"
  by (simp add: bump_def)

lemma rest_mkLexer [simp]: "rest (mkLexer src d) = src" "lx_d (mkLexer src d) = d"
  by (simp_all add: rest_def mkLexer_def)

section \<open>Words are never keywords\<close>

definition is_word :: "string \<Rightarrow> bool" where
  "is_word w \<longleftrightarrow> (\<exists>c cs. w = c # cs \<and> pliIsLetter c \<and> list_all pliIsAlphameric cs)"

lemma alphameric_not_NUL: "pliIsAlphameric c \<Longrightarrow> c \<noteq> NUL \<and> \<not> is_blank c \<and> c \<noteq> CHR ''/''"
  by (auto simp: char_class is_blank_def ucode_def)

lemma wordLoop_rest:
  assumes "rest st = w @ r" and "list_all pliIsAlphameric w" and "r = [] \<or> \<not> pliIsAlphameric (hd r)"
  shows "\<exists>st'. wordLoop st acc = (st', acc @ map c_toupper w) \<and> rest st' = r \<and> lx_d st' = lx_d st"
  using assms
proof (induction w arbitrary: st acc)
  case Nil
  then have "\<not> pliIsAlphameric (cur st)"
    by (cases r) (auto simp: cur_rest char_class ucode_def)
  with Nil show ?case by (subst wordLoop.simps) auto
next
  case (Cons c w)
  then have "cur st = c" by (simp add: cur_rest)
  with Cons.prems Cons.IH [of "bump st" "acc @ [c_toupper c]"] show ?case
    by (subst wordLoop.simps) auto
qed

lemma lexWord_rest:
  assumes "rest st = w @ r" and "is_word w" and "r = [] \<or> \<not> pliIsAlphameric (hd r)"
  shows "\<exists>st' t. lexOne st = (st', Some t) \<and> tk_kind t = Tok_Word \<and> tk_text t = map c_toupper w \<and>
           rest st' = r \<and> lx_d st' = lx_d st"
proof -
  from assms(2) obtain c cs where w: "w = c # cs" "pliIsLetter c" "list_all pliIsAlphameric cs"
    by (auto simp: is_word_def)
  have "list_all pliIsAlphameric w" using w by (simp add: pliIsAlphameric_def)
  from wordLoop_rest [OF assms(1) this assms(3), of "[]"] obtain st'
    where "wordLoop st [] = (st', map c_toupper w)" "rest st' = r" "lx_d st' = lx_d st" by auto
  moreover have "cur st = c" using assms(1) w by (simp add: cur_rest)
  ultimately show ?thesis using w by (simp add: lexOne_def lexWord_def mkTok_def)
qed

lemma skip_at_rest:
  assumes "\<not> is_blank (cur st)" and "cur st \<noteq> CHR ''/''"
  shows "skipSpaceAndComments st = st"
  using assms by (subst skipSpaceAndComments.simps) (simp add: skipBlanks.simps [of st])

lemma skip_blank: "is_blank (cur st) \<Longrightarrow> skipSpaceAndComments st = skipSpaceAndComments (bump st)"
  by (subst (1 2) skipSpaceAndComments.simps) (simp add: skipBlanks.simps [of st])

lemma lexAll_blank: "is_blank (cur st) \<Longrightarrow> lexAll st out = lexAll (bump st) out"
  by (subst (1 2) lexAll.simps) (simp add: skip_blank)

lemma is_blank_space [simp]: "is_blank CHR '' ''"
  by (simp add: is_blank_def ucode_def)

lemma lex_words:
  assumes "list_all is_word ws" and "rest st = concat (map (\<lambda>w. w @ '' '') ws)"
  shows "map (\<lambda>t. (tk_kind t, tk_text t)) (tokens st) = map (\<lambda>w. (Tok_Word, map c_toupper w)) ws @ [(Tok_Eof, [])]
         \<and> lx_d (fst (lexAll st [])) = lx_d st"
  using assms
proof (induction ws arbitrary: st)
  case Nil
  then have "cur st = NUL" by (simp add: cur_rest)
  then have "skipSpaceAndComments st = st" by (intro skip_at_rest) (simp_all add: is_blank_def)
  with \<open>cur st = NUL\<close> show ?case by (simp add: tokens_last lexAll_last mkTok_def)
next
  case (Cons w ws)
  let ?r = "'' '' @ concat (map (\<lambda>w. w @ '' '') ws)"
  have r: "rest st = w @ ?r" using Cons.prems by simp
  have nb: "?r = [] \<or> \<not> pliIsAlphameric (hd ?r)" by (simp add: char_class ucode_def)
  obtain st' t where o: "lexOne st = (st', Some t)" "tk_kind t = Tok_Word"
      "tk_text t = map c_toupper w" "rest st' = ?r" "lx_d st' = lx_d st"
    using lexWord_rest [OF r _ nb] Cons.prems by auto
  obtain c cs where w: "w = c # cs" "pliIsLetter c" using Cons.prems by (auto simp: is_word_def)
  have c: "cur st = c" using r w by (simp add: cur_rest)
  have al: "pliIsAlphameric c" using w by (simp add: pliIsAlphameric_def)
  have sk: "skipSpaceAndComments st = st"
    using alphameric_not_NUL [OF al] c by (intro skip_at_rest) auto
  have nn: "cur st \<noteq> NUL" using alphameric_not_NUL [OF al] c by simp
  have b: "is_blank (cur st')" using o(4) by (simp add: cur_rest)
  have IH: "map (\<lambda>t. (tk_kind t, tk_text t)) (tokens (bump st')) =
      map (\<lambda>w. (Tok_Word, map c_toupper w)) ws @ [(Tok_Eof, [])] \<and>
      lx_d (fst (lexAll (bump st') [])) = lx_d (bump st')"
    using Cons.prems o(4) by (intro Cons.IH) auto
  have t': "tokens st' = tokens (bump st')" by (simp add: tokens_def lexAll_blank [OF b])
  have "fst (lexAll st []) = fst (lexAll (bump st') [])"
    unfolding lexAll_next(1) [OF sk nn o(1)] lexAll_blank [OF b] by (subst lexAll_acc) simp
  with IH t' o show ?case by (simp add: tokens_next [OF sk nn o(1)])
qed

text \<open>
  PL/I has no reserved words (ADR-004): a sequence of words separated by blanks, keywords included,
  lexes without diagnostics to one \<open>Word\<close> token per word, each carrying its upper-cased spelling,
  followed by the end of file.
\<close>
lemma words_are_never_keywords:
  assumes "list_all is_word ws"
  shows "map (\<lambda>t. (tk_kind t, tk_text t)) (fst (lex_run (concat (map (\<lambda>w. w @ '' '') ws)) d))
           = map (\<lambda>w. (Tok_Word, map c_toupper w)) ws @ [(Tok_Eof, [])] \<and>
         snd (lex_run (concat (map (\<lambda>w. w @ '' '') ws)) d) = d"
proof -
  let ?st = "mkLexer (concat (map (\<lambda>w. w @ '' '') ws)) d"
  have "rest ?st = concat (map (\<lambda>w. w @ '' '') ws)" by simp
  from lex_words [OF assms this] show ?thesis
    by (simp add: lex_run_def tokens_def case_prod_beta)
qed

section \<open>Quoted constants\<close>

text \<open>How a value is written between quotes: a contained quotation mark is doubled (rule 143).\<close>

definition quote_enc :: "string \<Rightarrow> string" where
  "quote_enc v = concat (map (\<lambda>c. if c = QUOTE then [QUOTE, QUOTE] else [c]) v)"

lemma stringLoop_rest:
  assumes "rest st = quote_enc v @ QUOTE # r" and "list_all (\<lambda>c. c \<noteq> NUL \<and> c \<noteq> NL) v"
    and "r = [] \<or> hd r \<noteq> QUOTE"
  shows "\<exists>st'. stringLoop st acc = (st', acc @ v, True) \<and> rest st' = r \<and> lx_d st' = lx_d st"
  using assms
proof (induction v arbitrary: st acc)
  case Nil
  then have "cur st = QUOTE" "peek st 1 \<noteq> QUOTE"
    by (auto simp: cur_rest peek1_rest [simplified] quote_enc_def split: list.splits)
  with Nil show ?case by (subst stringLoop.simps) (simp add: quote_enc_def)
next
  case (Cons c v)
  show ?case
  proof (cases "c = QUOTE")
    case True
    with Cons.prems have "cur st = QUOTE" "peek st 1 = QUOTE"
      by (auto simp: cur_rest peek1_rest [simplified] quote_enc_def)
    with True Cons.prems Cons.IH [of "bump (bump st)" "acc @ [QUOTE]"] show ?thesis
      by (subst stringLoop.simps) (simp add: quote_enc_def)
  next
    case False
    with Cons.prems have "cur st = c" by (simp add: cur_rest quote_enc_def)
    with False Cons.prems Cons.IH [of "bump st" "acc @ [c]"] show ?thesis
      by (subst stringLoop.simps) (simp add: quote_enc_def)
  qed
qed

text \<open>
  C8: quoted constants round trip: any value without a newline or NUL byte, written between quotes with
  its own quotation marks doubled, lexes without diagnostics to a single character constant with exactly
  that value, at the location of the opening quote.
\<close>
theorem char_constant_roundtrip:
  assumes "list_all (\<lambda>c. c \<noteq> NUL \<and> c \<noteq> NL) v"
  shows "\<exists>eof. lex_run (QUOTE # quote_enc v @ [QUOTE]) d =
           ([(mkTok Tok_CharLit \<lparr>loc_line = 1, loc_col = 1\<rparr>)\<lparr>tk_sval := v\<rparr>, mkTok Tok_Eof eof], d)"
proof -
  let ?st = "mkLexer (QUOTE # quote_enc v @ [QUOTE]) d"
  have c: "cur ?st = QUOTE" by (simp add: cur_rest)
  have "rest (bump ?st) = quote_enc v @ QUOTE # []" by simp
  from stringLoop_rest [OF this assms, of "[]"] obtain st'
    where l: "stringLoop (bump ?st) [] = (st', v, True)" "rest st' = []" "lx_d st' = d" by auto
  have c': "cur st' = NUL" using l(2) by (simp add: cur_rest)
  have o: "lexOne ?st = (st', Some ((mkTok Tok_CharLit (here ?st))\<lparr>tk_sval := v\<rparr>))"
    using c c' l by (simp add: lexOne_def lexString_def Let_def one_of_def) (simp add: char_class ucode_def)
  have sk: "skipSpaceAndComments ?st = ?st" "skipSpaceAndComments st' = st'"
    using c c' by (auto intro!: skip_at_rest simp: is_blank_def ucode_def)
  have nn: "cur ?st \<noteq> NUL" using c by simp
  show ?thesis
    using l(3) by (intro exI [of _ "here st'"])
      (simp add: lex_run_def lexAll_next(1) [OF sk(1) nn o] lexAll_last [OF sk(2) c'], simp add: here_def mkLexer_def)
qed

theorem char_constant_roundtrip_witness:
  "\<exists>eof. lex_run (QUOTE # quote_enc [CHR ''i'', QUOTE, CHR ''s''] @ [QUOTE]) (mkDiags ''x'') =
     ([(mkTok Tok_CharLit \<lparr>loc_line = 1, loc_col = 1\<rparr>)\<lparr>tk_sval := [CHR ''i'', QUOTE, CHR ''s'']\<rparr>,
       mkTok Tok_Eof eof], mkDiags ''x'')"
  by (rule char_constant_roundtrip) simp

end
