(* ===== verification/Wide128.thy ===== *)
theory Wide128
  imports Prelude
begin

unbundle bit_operations_syntax

text \<open>
  \<^verbatim>\<open>src/runtime/pli_wide128.h\<close>: the portable 128-bit integer the compiler folds decimal constants
  with.  A toolchain with \<^verbatim>\<open>__int128\<close> computes with \<^typ>\<open>128 word\<close>; elsewhere the same operations
  run on a pair of 64-bit halves.  Each portable operation is translated as written (carries, the
  32-bit schoolbook product, the restoring shift-subtract division) and shown to compute the native
  one: the locale \<open>u128_arith\<close> states what callers rely on and is interpreted on both builds.
\<close>

record PliU128 =
  u_lo :: "64 word"
  u_hi :: "64 word"

record PliI128 =
  s_lo :: "64 word"
  s_hi :: "64 word"

section \<open>Construction, predicates and casts\<close>

definition pli_u128 :: "64 word \<Rightarrow> 64 word \<Rightarrow> PliU128" where
  "pli_u128 lo hi = \<lparr>u_lo = lo, u_hi = hi\<rparr>"

definition pli_from_i64 :: "64 word \<Rightarrow> PliI128" where
  "pli_from_i64 v = \<lparr>s_lo = v, s_hi = (if sint v < 0 then - 1 else 0)\<rparr>"

definition pli_iszero_u :: "PliU128 \<Rightarrow> bool" where
  "pli_iszero_u v \<longleftrightarrow> u_lo v = 0 \<and> u_hi v = 0"

definition pli_iszero_s :: "PliI128 \<Rightarrow> bool" where
  "pli_iszero_s v \<longleftrightarrow> s_lo v = 0 \<and> s_hi v = 0"

definition pli_isneg_s :: "PliI128 \<Rightarrow> bool" where
  "pli_isneg_s v \<longleftrightarrow> sint (s_hi v) < 0"

definition pli_to_u :: "PliI128 \<Rightarrow> PliU128" where
  "pli_to_u v = \<lparr>u_lo = s_lo v, u_hi = s_hi v\<rparr>"

definition pli_to_s :: "PliU128 \<Rightarrow> PliI128" where
  "pli_to_s v = \<lparr>s_lo = u_lo v, s_hi = u_hi v\<rparr>"

section \<open>The unsigned core\<close>

definition pli_add_u :: "PliU128 \<Rightarrow> PliU128 \<Rightarrow> PliU128" where
  "pli_add_u a b =
     (let lo = u_lo a + u_lo b
      in \<lparr>u_lo = lo, u_hi = u_hi a + u_hi b + (if lo < u_lo a then 1 else 0)\<rparr>)"

definition pli_sub_u :: "PliU128 \<Rightarrow> PliU128 \<Rightarrow> PliU128" where
  "pli_sub_u a b =
     \<lparr>u_lo = u_lo a - u_lo b, u_hi = u_hi a - u_hi b - (if u_lo a < u_lo b then 1 else 0)\<rparr>"

definition pli_neg_u :: "PliU128 \<Rightarrow> PliU128" where
  "pli_neg_u v =
     \<lparr>u_lo = 0 - u_lo v, u_hi = 0 - u_hi v - (if u_lo v \<noteq> 0 then 1 else 0)\<rparr>"

definition pli_cmp_u :: "PliU128 \<Rightarrow> PliU128 \<Rightarrow> int" where
  "pli_cmp_u a b =
     (if u_hi a \<noteq> u_hi b then (if u_hi a < u_hi b then - 1 else 1)
      else if u_lo a \<noteq> u_lo b then (if u_lo a < u_lo b then - 1 else 1)
      else 0)"

section \<open>The native value of a pair\<close>

definition uval :: "PliU128 \<Rightarrow> int" where
  "uval v = uint (u_hi v) * 2 ^ 64 + uint (u_lo v)"

definition w128 :: "PliU128 \<Rightarrow> 128 word" where
  "w128 v = word_of_int (uval v)"

lemma uval_bounds: "0 \<le> uval v" "uval v < 2 ^ 128"
proof -
  have "uint (u_hi v) < 2 ^ 64" "uint (u_lo v) < 2 ^ 64" "0 \<le> uint (u_hi v)" "0 \<le> uint (u_lo v)"
    using uint_lt2p [of "u_hi v"] uint_lt2p [of "u_lo v"] by simp_all
  then show "0 \<le> uval v" "uval v < 2 ^ 128" by (simp_all add: uval_def)
qed

lemma uint_w128: "uint (w128 v) = uval v"
  using uval_bounds [of v] by (simp add: w128_def uint_word_of_int)

lemma w128_eqI: "uval v = x + k * 2 ^ 128 \<Longrightarrow> w128 v = word_of_int x"
proof -
  assume "uval v = x + k * 2 ^ 128"
  then have "uval v mod 2 ^ 128 = x mod 2 ^ 128" by (simp only: mod_mult_self1)
  moreover have "uval v mod 2 ^ 128 = uval v" by (rule mod_pos_pos_trivial [OF uval_bounds])
  ultimately have "uint (w128 v) = uint (word_of_int x :: 128 word)"
    by (simp add: uint_w128 uint_word_of_int)
  then show ?thesis by (rule word_uint_eqI)
qed

text \<open>The two halves as plain integers, for linear arithmetic.\<close>

lemma halves:
  obtains h l where "uint (u_hi v) = h" and "uint (u_lo v) = l"
    and "0 \<le> h" and "h < 18446744073709551616" and "0 \<le> l" and "l < 18446744073709551616"
  using uint_lt2p [of "u_hi v"] uint_lt2p [of "u_lo v"] by simp

lemma uval_add: "uval (pli_add_u a b) = uval a + uval b + (if uval a + uval b < 2 ^ 128 then 0 else - 1) * 2 ^ 128"
proof -
  obtain h l where a: "uint (u_hi a) = h" "uint (u_lo a) = l" "0 \<le> h" "h < 18446744073709551616"
    "0 \<le> l" "l < 18446744073709551616" by (rule halves)
  obtain k m where b: "uint (u_hi b) = k" "uint (u_lo b) = m" "0 \<le> k" "k < 18446744073709551616"
    "0 \<le> m" "m < 18446744073709551616" by (rule halves)
  from a b show ?thesis
    by (simp add: pli_add_u_def uval_def Let_def word_less_def uint_plus_if')
qed

lemma uval_sub: "uval (pli_sub_u a b) = uval a - uval b + (if uval b \<le> uval a then 0 else 1) * 2 ^ 128"
proof -
  obtain h l where a: "uint (u_hi a) = h" "uint (u_lo a) = l" "0 \<le> h" "h < 18446744073709551616"
    "0 \<le> l" "l < 18446744073709551616" by (rule halves)
  obtain k m where b: "uint (u_hi b) = k" "uint (u_lo b) = m" "0 \<le> k" "k < 18446744073709551616"
    "0 \<le> m" "m < 18446744073709551616" by (rule halves)
  from a b show ?thesis
    by (simp add: pli_sub_u_def uval_def Let_def word_less_def uint_sub_if')
qed

lemma pli_neg_u_sub: "pli_neg_u v = pli_sub_u (pli_u128 0 0) v"
  by (simp add: pli_neg_u_def pli_sub_u_def pli_u128_def word_gt_0)

lemma uval_zero [simp]: "uval (pli_u128 0 0) = 0"
  by (simp add: uval_def pli_u128_def)

lemma w128_add: "w128 (pli_add_u a b) = w128 a + w128 b"
  by (subst w128_eqI [OF uval_add]) (simp add: w128_def)

lemma w128_sub: "w128 (pli_sub_u a b) = w128 a - w128 b"
  by (subst w128_eqI [OF uval_sub]) (simp add: w128_def)

lemma w128_neg: "w128 (pli_neg_u a) = - w128 a"
  by (simp add: pli_neg_u_sub w128_sub) (simp add: w128_def)

lemma pli_cmp_u_uval: "pli_cmp_u a b = (if uval a < uval b then - 1 else if uval a > uval b then 1 else 0)"
proof -
  obtain h l where a: "uint (u_hi a) = h" "uint (u_lo a) = l" "0 \<le> h" "h < 18446744073709551616"
    "0 \<le> l" "l < 18446744073709551616" by (rule halves)
  obtain k m where b: "uint (u_hi b) = k" "uint (u_lo b) = m" "0 \<le> k" "k < 18446744073709551616"
    "0 \<le> m" "m < 18446744073709551616" by (rule halves)
  from a b show ?thesis
    by (simp add: pli_cmp_u_def uval_def word_less_def word_uint_eq_iff)
qed

lemma uval_inject: "uval a = uval b \<longleftrightarrow> a = b"
proof -
  obtain h l where a: "uint (u_hi a) = h" "uint (u_lo a) = l" "0 \<le> h" "h < 18446744073709551616"
    "0 \<le> l" "l < 18446744073709551616" by (rule halves)
  obtain k m where b: "uint (u_hi b) = k" "uint (u_lo b) = m" "0 \<le> k" "k < 18446744073709551616"
    "0 \<le> m" "m < 18446744073709551616" by (rule halves)
  from a b have "uval a = uval b \<Longrightarrow> h = k" by (simp add: uval_def)
  moreover from a b have "uval a = uval b \<Longrightarrow> h = k \<Longrightarrow> l = m" by (simp add: uval_def)
  ultimately have "uval a = uval b \<Longrightarrow> h = k \<and> l = m" by blast
  with a b show ?thesis by (auto simp: word_uint_eq_iff intro: PliU128.equality)
qed

lemma pli_iszero_u_uval: "pli_iszero_u v \<longleftrightarrow> uval v = 0"
  using uval_inject [of v "pli_u128 0 0"] uval_zero by (cases v) (auto simp: pli_iszero_u_def pli_u128_def)

section \<open>Schoolbook multiplication\<close>

definition limbs :: "PliU128 \<Rightarrow> 32 word list" where
  "limbs a = [ucast (u_lo a), ucast (drop_bit 32 (u_lo a)), ucast (u_hi a), ucast (drop_bit 32 (u_hi a))]"

function mul_inner :: "nat \<Rightarrow> nat \<Rightarrow> 32 word \<Rightarrow> 32 word list \<Rightarrow> 32 word list \<Rightarrow> 64 word \<Rightarrow> 32 word list" where
  "mul_inner i j xi y r carry =
     (if j + i < 4 then
        let p = (ucast xi :: 64 word) * ucast (y ! j);
            t = (ucast (r ! (i + j)) :: 64 word) + (p AND 0xFFFFFFFF) + carry
        in mul_inner i (Suc j) xi y (r[i + j := ucast t]) (drop_bit 32 t + drop_bit 32 p)
      else r)"
  by pat_completeness auto
termination by (relation "measure (\<lambda>(i, j, _). 4 - (j + i))") auto

function mul_outer :: "nat \<Rightarrow> 32 word list \<Rightarrow> 32 word list \<Rightarrow> 32 word list \<Rightarrow> 32 word list" where
  "mul_outer i x y r = (if i < 4 then mul_outer (Suc i) x y (mul_inner i 0 (x ! i) y r 0) else r)"
  by pat_completeness auto
termination by (relation "measure (\<lambda>(i, _). 4 - i)") auto

declare mul_inner.simps [simp del] mul_outer.simps [simp del]

definition pli_mul_u :: "PliU128 \<Rightarrow> PliU128 \<Rightarrow> PliU128" where
  "pli_mul_u a b =
     (let r = mul_outer 0 (limbs a) (limbs b) [0, 0, 0, 0]
      in \<lparr>u_lo = push_bit 32 (ucast (r ! 1)) OR ucast (r ! 0),
          u_hi = push_bit 32 (ucast (r ! 3)) OR ucast (r ! 2)\<rparr>)"

text \<open>The number a limb list stands for, least significant limb first.\<close>

fun lval :: "32 word list \<Rightarrow> int" where
  "lval [] = 0"
| "lval (w # ws) = uint w + 2 ^ 32 * lval ws"

lemma lval_update: "i < length r \<Longrightarrow> lval (r[i := w]) = lval r + (uint w - uint (r ! i)) * 2 ^ (32 * i)"
proof (induction r arbitrary: i)
  case (Cons x r)
  show ?case
  proof (cases i)
    case (Suc n)
    with Cons have "lval (r[n := w]) = lval r + (uint w - uint (r ! n)) * 2 ^ (32 * n)" by simp
    then have "2 ^ 32 * lval (r[n := w]) = 2 ^ 32 * lval r + (uint w - uint (r ! n)) * 2 ^ (32 * i)"
      using Suc by (simp add: distrib_left power_add)
    with Suc show ?thesis by simp
  qed simp
qed simp

lemma lval_drop: "j < length y \<Longrightarrow> lval (drop j y) = uint (y ! j) + 2 ^ 32 * lval (drop (Suc j) y)"
  by (simp add: drop_nth_Cons)

lemma uint_low32: "uint (p AND 0xFFFFFFFF :: 64 word) = uint p mod 2 ^ 32"
proof -
  have "p AND 0xFFFFFFFF = take_bit 32 p" by (simp add: take_bit_eq_mask mask_eq_exp_minus_1)
  moreover have "uint (take_bit 32 p) = uint p mod 2 ^ 32"
  proof -
    have "uint (take_bit 32 p) = take_bit 32 (uint p)" by (rule unsigned_take_bit_eq)
    then show ?thesis by (simp only: take_bit_eq_mod [of 32 "uint p"])
  qed
  ultimately show ?thesis by (simp only:)
qed

lemma uint_drop: "uint (drop_bit k p :: 64 word) = uint p div 2 ^ k"
proof -
  have "uint (drop_bit k p) = drop_bit k (uint p)"
    using take_bit_int_eq_self [of "uint p" 64] uint_lt2p [of p] by (simp add: unsigned_drop_bit_eq)
  then show ?thesis by (simp only: drop_bit_eq_div [of k "uint p"])
qed

lemmas uint_high32 = uint_drop [of 32]

lemma limb_product:
  "uint ((ucast x :: 64 word) * ucast y) = uint (x :: 32 word) * uint (y :: 32 word)"
proof -
  have "uint x < 2 ^ 32" "uint y < 2 ^ 32" using uint_lt2p [of x] uint_lt2p [of y] by simp_all
  then have "uint x * uint y < 2 ^ 32 * 2 ^ 32" by (intro mult_strict_mono) simp_all
  then show ?thesis by (simp add: uint_word_ariths uint_up_ucast is_up)
qed

lemma limb_step:
  fixes x y r :: "32 word" and c :: "64 word"
  defines "p \<equiv> (ucast x :: 64 word) * ucast y"
  defines "t \<equiv> (ucast r :: 64 word) + (p AND 0xFFFFFFFF) + c"
  assumes c: "uint c < 2 ^ 33"
  shows "uint (ucast t :: 32 word) + 2 ^ 32 * uint (drop_bit 32 t + drop_bit 32 p) = uint r + uint x * uint y + uint c"
    and "uint (drop_bit 32 t + drop_bit 32 p) < 2 ^ 33"
proof -
  have p: "uint p = uint x * uint y" unfolding p_def by (rule limb_product)
  have b: "uint r < 2 ^ 32" "uint p < 2 ^ 64" using uint_lt2p [of r] uint_lt2p [of p] by simp_all
  obtain q where q: "uint (p AND 0xFFFFFFFF) = q" "0 \<le> q" "q < 2 ^ 32" and qp: "uint p mod 2 ^ 32 = q"
    using uint_low32 [of p] pos_mod_bound [of "2 ^ 32" "uint p"] by (metis pos_mod_sign zero_less_numeral zero_less_power)
  have "uint (ucast r :: 64 word) = uint r" by (simp add: uint_up_ucast is_up)
  with b q have t: "uint t = uint r + q + uint c" and tb: "uint t < 2 ^ 35"
    using c by (simp_all add: t_def uint_plus_if')
  have hi: "uint (drop_bit 32 t + drop_bit 32 p) = uint t div 2 ^ 32 + uint p div 2 ^ 32"
    using tb b(2) by (simp add: uint_plus_if' uint_high32)
  have lo: "uint (ucast t :: 32 word) = uint t mod 2 ^ 32"
    by (simp add: unsigned_ucast_eq take_bit_eq_mod)
  show "uint (ucast t :: 32 word) + 2 ^ 32 * uint (drop_bit 32 t + drop_bit 32 p) = uint r + uint x * uint y + uint c"
    unfolding lo hi p [symmetric] using t qp mult_div_mod_eq [of "2 ^ 32" "uint t"] mult_div_mod_eq [of "2 ^ 32" "uint p"]
    by (simp add: algebra_simps)
  show "uint (drop_bit 32 t + drop_bit 32 p) < 2 ^ 33"
    unfolding hi using tb b(2) by simp
qed

lemma mul_inner_lval:
  assumes "length r = 4" and "length y = 4" and "j + i \<le> 4" and "uint c < 2 ^ 33"
  shows "length (mul_inner i j xi y r c) = 4 \<and>
    (\<exists>k. lval (mul_inner i j xi y r c) + k * 2 ^ 128 = lval r + 2 ^ (32 * (i + j)) * (uint c + uint xi * lval (drop j y)))"
  using assms
proof (induction i j xi y r c rule: mul_inner.induct)
  case (1 i j xi y r c)
  show ?case
  proof (cases "j + i < 4")
    case False
    with "1.prems" have "i + j = 4" by simp
    with "1.prems" show ?thesis
      by (subst (1 2) mul_inner.simps)
        (auto simp: algebra_simps intro!: exI [of _ "uint c + uint xi * lval (drop j y)"])
  next
    case True
    let ?p = "(ucast xi :: 64 word) * ucast (y ! j)"
    let ?t = "(ucast (r ! (i + j)) :: 64 word) + (?p AND 0xFFFFFFFF) + c"
    let ?r = "r[i + j := ucast ?t]" and ?c = "drop_bit 32 ?t + drop_bit 32 ?p"
    note step = limb_step [OF "1.prems"(4), of "r ! (i + j)" xi "y ! j"]
    have "length (mul_inner i (Suc j) xi y ?r ?c) = 4 \<and>
      (\<exists>k. lval (mul_inner i (Suc j) xi y ?r ?c) + k * 2 ^ 128
           = lval ?r + 2 ^ (32 * (i + Suc j)) * (uint ?c + uint xi * lval (drop (Suc j) y)))"
      using "1.prems" True step(2) by (intro "1.IH" refl) auto
    moreover have "lval ?r + 2 ^ (32 * (i + Suc j)) * (uint ?c + uint xi * lval (drop (Suc j) y))
        = lval r + 2 ^ (32 * (i + j)) * (uint c + uint xi * lval (drop j y))"
    proof -
      let ?B = "2 ^ (32 * (i + j)) :: int"
      have "lval ?r + 2 ^ (32 * (i + Suc j)) * (uint ?c + uint xi * lval (drop (Suc j) y))
          = lval r - uint (r ! (i + j)) * ?B
            + (uint (ucast ?t :: 32 word) + 2 ^ 32 * uint ?c) * ?B
            + 2 ^ 32 * ?B * uint xi * lval (drop (Suc j) y)"
        using True "1.prems" by (simp add: lval_update power_add algebra_simps)
      also have "\<dots> = lval r + ?B * (uint c + uint xi * (uint (y ! j) + 2 ^ 32 * lval (drop (Suc j) y)))"
        unfolding step(1) by (simp add: algebra_simps)
      finally show ?thesis using True "1.prems" by (simp add: lval_drop)
    qed
    ultimately show ?thesis using True by (subst (1 2) mul_inner.simps) (simp add: Let_def)
  qed
qed

lemma mul_outer_lval:
  assumes "length r = 4" and "length x = 4" and "length y = 4" and "i \<le> 4"
  shows "length (mul_outer i x y r) = 4 \<and>
    (\<exists>k. lval (mul_outer i x y r) + k * 2 ^ 128 = lval r + 2 ^ (32 * i) * lval (drop i x) * lval y)"
  using assms
proof (induction i x y r rule: mul_outer.induct)
  case (1 i x y r)
  show ?case
  proof (cases "i < 4")
    case False
    with "1.prems" show ?thesis by (subst (1 2) mul_outer.simps) simp
  next
    case True
    let ?r = "mul_inner i 0 (x ! i) y r 0"
    have inner: "length ?r = 4 \<and>
      (\<exists>k. lval ?r + k * 2 ^ 128 = lval r + 2 ^ (32 * (i + 0)) * (uint (0 :: 64 word) + uint (x ! i) * lval (drop 0 y)))"
      using True "1.prems" by (intro mul_inner_lval) simp_all
    then obtain k where k: "lval ?r = lval r + 2 ^ (32 * i) * (uint (x ! i) * lval y) - k * 2 ^ 128"
      by (auto simp: algebra_simps)
    have "length (mul_outer (Suc i) x y ?r) = 4 \<and>
      (\<exists>k. lval (mul_outer (Suc i) x y ?r) + k * 2 ^ 128 = lval ?r + 2 ^ (32 * Suc i) * lval (drop (Suc i) x) * lval y)"
      using True "1.prems" inner by (intro "1.IH") simp_all
    then obtain m where l: "length (mul_outer (Suc i) x y ?r) = 4"
      and m: "lval (mul_outer (Suc i) x y ?r) = lval ?r + 2 ^ (32 * Suc i) * lval (drop (Suc i) x) * lval y - m * 2 ^ 128"
      by (auto simp: algebra_simps)
    have "lval (mul_outer i x y r) + (k + m) * 2 ^ 128 = lval r + 2 ^ (32 * i) * lval (drop i x) * lval y"
      using True "1.prems" m k by (subst mul_outer.simps) (simp add: lval_drop power_add algebra_simps)
    moreover have "length (mul_outer i x y r) = 4" using l True by (subst mul_outer.simps) simp
    ultimately show ?thesis by blast
  qed
qed

lemma lval_limbs: "lval (limbs a) = uval a"
proof -
  have "uint (ucast w :: 32 word) + 2 ^ 32 * uint (ucast (drop_bit 32 w) :: 32 word) = uint w" for w :: "64 word"
  proof -
    have "uint w div 2 ^ 32 < 2 ^ 32" using uint_lt2p [of w] by simp
    moreover have "0 \<le> uint w div 2 ^ 32" by (simp add: pos_imp_zdiv_nonneg_iff)
    ultimately have "uint (ucast (drop_bit 32 w) :: 32 word) = uint w div 2 ^ 32"
      by (simp add: unsigned_ucast_eq take_bit_eq_mod uint_high32)
    moreover have "uint (ucast w :: 32 word) = uint w mod 2 ^ 32"
      by (simp add: unsigned_ucast_eq take_bit_eq_mod)
    ultimately show ?thesis by simp
  qed
  from this [of "u_lo a"] this [of "u_hi a"] show ?thesis by (simp add: limbs_def uval_def)
qed

lemma uint_join32:
  "uint (push_bit 32 (ucast h) OR ucast l :: 64 word) = uint (h :: 32 word) * 2 ^ 32 + uint (l :: 32 word)"
proof -
  have "push_bit 32 (ucast h) OR ucast l = (push_bit 32 (ucast h) + ucast l :: 64 word)"
    by (rule disjunctive_add [symmetric]) (auto simp: bit_push_bit_iff bit_ucast_iff dest: bit_imp_le_length)
  moreover have "uint (push_bit 32 (ucast h) :: 64 word) = uint h * 2 ^ 32"
    using uint_lt2p [of h] by (simp add: push_bit_eq_mult uint_word_ariths uint_up_ucast is_up)
  ultimately show ?thesis
    using uint_lt2p [of h] uint_lt2p [of l] by (simp add: uint_plus_if' uint_up_ucast is_up)
qed

lemma w128_mul: "w128 (pli_mul_u a b) = w128 a * w128 b"
proof -
  let ?r = "mul_outer 0 (limbs a) (limbs b) [0, 0, 0, 0]"
  have "length ?r = 4 \<and> (\<exists>k. lval ?r + k * 2 ^ 128 = lval [0, 0, 0, 0] + 2 ^ (32 * 0) * lval (drop 0 (limbs a)) * lval (limbs b))"
    by (rule mul_outer_lval) (simp_all add: limbs_def)
  then obtain k where l: "length ?r = 4" and k: "lval ?r = uval a * uval b - k * 2 ^ 128"
    by (auto simp: lval_limbs algebra_simps)
  obtain r0 r1 r2 r3 where r: "?r = [r0, r1, r2, r3]"
    using l by (auto simp: length_Suc_conv numeral_eq_Suc)
  have "uval (pli_mul_u a b) = lval ?r" by (simp add: pli_mul_u_def r uval_def uint_join32)
  with k have "uval (pli_mul_u a b) = uval a * uval b + (- k) * 2 ^ 128" by simp
  from w128_eqI [OF this] show ?thesis by (simp add: w128_def)
qed

section \<open>Restoring division\<close>

record div_state =
  dv_qlo :: "64 word"
  dv_qhi :: "64 word"
  dv_rlo :: "64 word"
  dv_rhi :: "64 word"
  dv_carry :: "64 word"

text \<open>One iteration of the loop for bit \<open>i\<close>: shift the remainder left by the next dividend bit, with
  the bit shifted out kept in \<open>carry\<close>, and subtract the divisor when it fits.\<close>

definition div_step :: "PliU128 \<Rightarrow> PliU128 \<Rightarrow> nat \<Rightarrow> div_state \<Rightarrow> div_state" where
  "div_step n d i s =
     (let bit = (if i \<ge> 64 then drop_bit (i - 64) (u_hi n) else drop_bit i (u_lo n)) AND 1;
          carry = drop_bit 63 (dv_rhi s);
          rhi = push_bit 1 (dv_rhi s) OR drop_bit 63 (dv_rlo s);
          rlo = push_bit 1 (dv_rlo s) OR bit
      in if carry \<noteq> 0 \<or> pli_cmp_u (pli_u128 rlo rhi) d \<ge> 0 then
           let blo = rlo - u_lo d;
               b0 = (if rlo < u_lo d then 1 else 0);
               bhi = rhi - u_hi d - b0;
               b1 = (if rhi < u_hi d \<or> b0 \<noteq> 0 \<and> rhi = u_hi d then 1 else 0);
               s1 = s\<lparr>dv_rlo := blo, dv_rhi := bhi, dv_carry := carry - b1\<rparr>
           in (if i \<ge> 64
               then s1\<lparr>dv_qhi := dv_qhi s OR push_bit (i - 64) 1\<rparr>
               else s1\<lparr>dv_qlo := dv_qlo s OR push_bit i 1\<rparr>)
         else s\<lparr>dv_rlo := rlo, dv_rhi := rhi, dv_carry := carry\<rparr>)"

fun div_loop :: "PliU128 \<Rightarrow> PliU128 \<Rightarrow> nat \<Rightarrow> div_state \<Rightarrow> div_state" where
  "div_loop n d 0 s = s"
| "div_loop n d (Suc i) s = div_loop n d i (div_step n d i s)"

definition pli_divmod_u :: "PliU128 \<Rightarrow> PliU128 \<Rightarrow> PliU128 \<times> PliU128" where
  "pli_divmod_u n d =
     (let s = div_loop n d 128 \<lparr>dv_qlo = 0, dv_qhi = 0, dv_rlo = 0, dv_rhi = 0, dv_carry = 0\<rparr>
      in (pli_u128 (dv_qlo s) (dv_qhi s), pli_u128 (dv_rlo s) (dv_rhi s)))"

lemma uval_mk [simp]: "uval (pli_u128 lo hi) = uint hi * 2 ^ 64 + uint lo"
  by (simp add: uval_def pli_u128_def)

text \<open>The dividend bit the loop reads.\<close>

lemma div_bit:
  assumes "i < 128"
  shows "uint ((if i \<ge> 64 then drop_bit (i - 64) (u_hi n) else drop_bit i (u_lo n)) AND 1) = uval n div 2 ^ i mod 2"
proof -
  have and1: "uint (w AND 1 :: 64 word) = uint w mod 2" for w
    by (simp add: and_one_eq uint_mod)
  have lo: "uint (u_lo n) < 2 ^ 64" using uint_lt2p [of "u_lo n"] by simp
  show ?thesis
  proof (cases "i \<ge> 64")
    case True
    then have "(2 :: int) ^ i = 2 ^ 64 * 2 ^ (i - 64)" by (metis le_add_diff_inverse power_add)
    then have "uval n div 2 ^ i = uval n div 2 ^ 64 div 2 ^ (i - 64)" by (simp add: zdiv_zmult2_eq)
    also have "uval n div 2 ^ 64 = uint (u_hi n)" using lo by (simp add: uval_def div_add1_eq)
    finally show ?thesis using True by (simp add: and1 uint_drop)
  next
    case False
    then have "(2 :: int) ^ 64 = 2 * 2 ^ (63 - i) * 2 ^ i" by (simp flip: power_add power_Suc)
    then have "uval n = uint (u_lo n) + (2 * (2 ^ (63 - i) * uint (u_hi n))) * 2 ^ i" by (simp add: uval_def)
    then have "uval n div 2 ^ i = 2 * (2 ^ (63 - i) * uint (u_hi n)) + uint (u_lo n) div 2 ^ i" by simp
    with False show ?thesis by (simp add: and1 uint_drop)
  qed
qed

lemma uint_shift_in:
  assumes "uint b < 2"
  shows "uint (push_bit 1 w OR b :: 64 word) = 2 * uint w mod 2 ^ 64 + uint b"
proof -
  have "uint b = 0 \<or> uint b = 1" using assms uint_ge_0 [of b] by linarith
  then have b: "b = 0 \<or> b = 1" by (simp add: word_uint_eq_iff)
  have "uint (push_bit 1 w OR b) = uint (push_bit 1 w) OR uint b" by (simp add: uint_or)
  also have "\<dots> = uint (push_bit 1 w) + uint b"
    using b by (intro disjunctive_add [symmetric]) (auto simp: bit_push_bit_iff bit_uint_iff bit_1_iff bit_0)
  also have "uint (push_bit 1 w) = 2 * uint w mod 2 ^ 64"
    by (simp add: push_bit_eq_mult uint_word_ariths mult.commute)
  finally show ?thesis .
qed

lemma shift_remainder:
  fixes s :: div_state
  assumes "uint b < 2"
  shows "uint (drop_bit 63 (dv_rhi s)) * 2 ^ 128 +
           uval (pli_u128 (push_bit 1 (dv_rlo s) OR b) (push_bit 1 (dv_rhi s) OR drop_bit 63 (dv_rlo s)))
         = 2 * uval (pli_u128 (dv_rlo s) (dv_rhi s)) + uint b"
proof -
  have top: "uint (drop_bit 63 w) = uint w div 2 ^ 63" "uint w div 2 ^ 63 < 2"
    "2 * uint w mod 2 ^ 64 = 2 * (uint w mod 2 ^ 63)" for w :: "64 word"
    using uint_lt2p [of w] by (simp_all add: uint_drop mult_mod_right)
  let ?l = "uint (dv_rlo s)" and ?h = "uint (dv_rhi s)"
  have lo: "uint (push_bit 1 (dv_rlo s) OR b) = 2 * (?l mod 2 ^ 63) + uint b"
    unfolding uint_shift_in [OF assms] by (simp only: top)
  have hi: "uint (push_bit 1 (dv_rhi s) OR drop_bit 63 (dv_rlo s)) = 2 * (?h mod 2 ^ 63) + ?l div 2 ^ 63"
    by (subst uint_shift_in) (simp_all only: top)
  have "?h div 2 ^ 63 * 2 ^ 128 + ((2 * (?h mod 2 ^ 63) + ?l div 2 ^ 63) * 2 ^ 64 + (2 * (?l mod 2 ^ 63) + uint b))
      = 2 * ((2 ^ 63 * (?h div 2 ^ 63) + ?h mod 2 ^ 63) * 2 ^ 64 + (2 ^ 63 * (?l div 2 ^ 63) + ?l mod 2 ^ 63)) + uint b"
    by (simp only: algebra_simps) simp
  then show ?thesis unfolding uval_mk lo hi top(1) by (simp only: mult_div_mod_eq)
qed

lemma set_quotient_bit:
  assumes "2 ^ Suc k dvd uint w" and "k < 64"
  shows "uint (w OR push_bit k 1 :: 64 word) = uint w + 2 ^ k"
proof -
  have nb: "\<not> bit (uint w) k"
    using assms(1) by (auto simp: bit_iff_odd dvd_def)
  have "uint (push_bit k (1 :: 64 word)) = 2 ^ k"
    using assms(2) uint_2p [of k, where 'a = 64] by (simp add: push_bit_eq_mult word_gt_0 exp_eq_zero_iff)
  then have "uint (w OR push_bit k 1) = uint w OR 2 ^ k" by (simp add: uint_or)
  also have "\<dots> = uint w + 2 ^ k"
    using nb by (intro disjunctive_add [symmetric]) (auto simp: bit_exp_iff)
  finally show ?thesis .
qed

definition dv_q :: "div_state \<Rightarrow> int" where "dv_q s = uval (pli_u128 (dv_qlo s) (dv_qhi s))"
definition dv_r :: "div_state \<Rightarrow> int" where "dv_r s = uval (pli_u128 (dv_rlo s) (dv_rhi s))"

text \<open>One iteration in terms of the numbers: the remainder doubles, takes the next bit, and gives one
  divisor to the quotient when it is large enough.\<close>

definition shifted :: "PliU128 \<Rightarrow> nat \<Rightarrow> div_state \<Rightarrow> PliU128" where
  "shifted n i s =
     pli_u128 (push_bit 1 (dv_rlo s) OR ((if i \<ge> 64 then drop_bit (i - 64) (u_hi n) else drop_bit i (u_lo n)) AND 1))
              (push_bit 1 (dv_rhi s) OR drop_bit 63 (dv_rlo s))"

definition div_take :: "nat \<Rightarrow> div_state \<Rightarrow> div_state" where
  "div_take i s = (if i \<ge> 64 then s\<lparr>dv_qhi := dv_qhi s OR push_bit (i - 64) 1\<rparr>
                   else s\<lparr>dv_qlo := dv_qlo s OR push_bit i 1\<rparr>)"

definition div_fits :: "PliU128 \<Rightarrow> PliU128 \<Rightarrow> nat \<Rightarrow> div_state \<Rightarrow> bool" where
  "div_fits n d i s \<longleftrightarrow> drop_bit 63 (dv_rhi s) \<noteq> 0 \<or> pli_cmp_u (shifted n i s) d \<ge> 0"

lemma div_step_r:
  "dv_r (div_step n d i s) = uval (if div_fits n d i s then pli_sub_u (shifted n i s) d else shifted n i s)"
  by (simp add: dv_r_def div_step_def div_fits_def shifted_def pli_sub_u_def pli_u128_def Let_def)

lemma div_step_q: "dv_q (div_step n d i s) = dv_q (if div_fits n d i s then div_take i s else s)"
  by (simp add: dv_q_def div_step_def div_fits_def div_take_def shifted_def Let_def)

lemma shifted_uval:
  "i < 128 \<Longrightarrow> uint (drop_bit 63 (dv_rhi s)) * 2 ^ 128 + uval (shifted n i s) = 2 * dv_r s + uval n div 2 ^ i mod 2"
  unfolding shifted_def dv_r_def by (subst shift_remainder) (simp_all add: div_bit)

lemma div_fits_iff:
  assumes "i < 128"
  shows "div_fits n d i s \<longleftrightarrow> uval d \<le> 2 * dv_r s + uval n div 2 ^ i mod 2"
proof -
  let ?c = "uint (drop_bit 63 (dv_rhi s))"
  note t = shifted_uval [OF assms, of s n]
  note b = uval_bounds [of d] uval_bounds [of "shifted n i s"]
  show ?thesis
  proof (cases "?c = 0")
    case True
    then have "drop_bit 63 (dv_rhi s) = 0" by (simp only: word_uint_eq_iff unsigned_0)
    with True t show ?thesis by (simp add: div_fits_def pli_cmp_u_uval)
  next
    case False
    then have "drop_bit 63 (dv_rhi s) \<noteq> 0" by auto
    moreover have "?c \<ge> 1" using False uint_ge_0 [of "drop_bit 63 (dv_rhi s)"] by linarith
    then have d1: "1 * 2 ^ 128 \<le> ?c * 2 ^ 128" by (intro mult_right_mono) simp_all
    moreover have "uval d \<le> 2 * dv_r s + uval n div 2 ^ i mod 2" using d1 t b by linarith
    ultimately show ?thesis unfolding div_fits_def by blast
  qed
qed

lemma div_sub_uval:
  assumes "i < 128" and "dv_r s < uval d" and "div_fits n d i s"
  shows "uval (pli_sub_u (shifted n i s) d) = 2 * dv_r s + uval n div 2 ^ i mod 2 - uval d"
proof -
  note t = shifted_uval [OF assms(1), of s n]
  have f: "uval d \<le> 2 * dv_r s + uval n div 2 ^ i mod 2" using assms div_fits_iff by blast
  have l: "2 * dv_r s + uval n div 2 ^ i mod 2 < 2 * uval d"
    using assms(2) pos_mod_bound [of 2 "uval n div 2 ^ i"] by linarith
  obtain c where c: "c = uint (drop_bit 63 (dv_rhi s))" by blast
  have c0: "c \<ge> 0" unfolding c by (rule uint_ge_0)
  note b = uval_bounds [of d] uval_bounds [of "shifted n i s"]
  note u = uval_sub [of "shifted n i s" d]
  show ?thesis
  proof (cases "c = 0")
    case True
    then have "\<not> uval (shifted n i s) < uval d" using t f unfolding c by simp
    with u t True show ?thesis unfolding c by simp
  next
    case False
    then have 1: "c \<ge> 1" using c0 by linarith
    have "c < 2"
    proof (rule ccontr)
      assume "\<not> c < 2"
      then have "2 * 2 ^ 128 \<le> c * 2 ^ 128" by (intro mult_right_mono) simp_all
      with t l b show False unfolding c [symmetric] by linarith
    qed
    with 1 have "c = 1" by linarith
    then have "uval (shifted n i s) < uval d" "2 ^ 128 + uval (shifted n i s) = 2 * dv_r s + uval n div 2 ^ i mod 2"
      using t l b unfolding c [symmetric] by simp_all
    with u show ?thesis by simp
  qed
qed

lemma div_take_q:
  assumes "i < 128" and "2 ^ Suc i dvd dv_q s"
  shows "dv_q (div_take i s) = dv_q s + 2 ^ i"
proof (cases "i \<ge> 64")
  case True
  have p: "(2 :: int) ^ i = 2 ^ (i - 64) * 2 ^ 64" "(2 :: int) ^ Suc i = 2 ^ Suc (i - 64) * 2 ^ 64"
    using True by (metis le_add_diff_inverse2 power_add, metis Suc_diff_le True le_SucI le_add_diff_inverse2 power_add)
  have lo: "0 \<le> uint (dv_qlo s)" "uint (dv_qlo s) < 2 ^ 64" using uint_lt2p [of "dv_qlo s"] by simp_all
  obtain z where z: "uint (dv_qhi s) * 2 ^ 64 + uint (dv_qlo s) = 2 ^ Suc (i - 64) * z * 2 ^ 64"
    using assms(2) unfolding dv_q_def p(2) by (auto simp: dvd_def mult_ac)
  then have "(uint (dv_qhi s) * 2 ^ 64 + uint (dv_qlo s)) div 2 ^ 64 = 2 ^ Suc (i - 64) * z" by simp
  moreover have "(uint (dv_qhi s) * 2 ^ 64 + uint (dv_qlo s)) div 2 ^ 64 = uint (dv_qhi s)" using lo by simp
  ultimately have "2 ^ Suc (i - 64) dvd uint (dv_qhi s)" by (metis dvd_triv_left)
  from set_quotient_bit [OF this] show ?thesis
    using True assms(1) by (simp add: dv_q_def div_take_def p(1) algebra_simps)
next
  case False
  then have "(2 :: int) ^ Suc i dvd 2 ^ 64" by (intro le_imp_power_dvd) simp
  then have "2 ^ Suc i dvd uint (dv_qhi s) * 2 ^ 64" by (rule dvd_mult)
  with assms(2) have "2 ^ Suc i dvd uint (dv_qlo s)"
    unfolding dv_q_def uval_mk by (simp only: dvd_add_right_iff)
  from set_quotient_bit [OF this] show ?thesis using False by (simp add: dv_q_def div_take_def)
qed

text \<open>The invariant of the loop: with the bits from \<open>i\<close> upwards consumed, remainder and quotient are those of
  the leading bits of the dividend.\<close>

definition div_inv :: "PliU128 \<Rightarrow> PliU128 \<Rightarrow> nat \<Rightarrow> div_state \<Rightarrow> bool" where
  "div_inv n d i s \<longleftrightarrow> dv_r s = uval n div 2 ^ i mod uval d \<and> dv_q s = 2 ^ i * (uval n div 2 ^ i div uval d)"

lemma div_step_inv:
  assumes "i < 128" and d: "0 < uval d" and inv: "div_inv n d (Suc i) s"
  shows "div_inv n d i (div_step n d i s)"
proof -
  define m where "m = uval n div 2 ^ Suc i"
  define b where "b = uval n div 2 ^ i mod 2"
  have "m = uval n div 2 ^ i div 2" unfolding m_def by (simp add: zdiv_zmult2_eq [symmetric] mult.commute)
  then have mb: "uval n div 2 ^ i = 2 * m + b" unfolding b_def by simp
  have b: "0 \<le> b" "b < 2" by (simp_all add: b_def)
  have r: "dv_r s = m mod uval d" and q: "dv_q s = 2 ^ Suc i * (m div uval d)"
    using inv by (simp_all add: div_inv_def m_def)
  have lt: "dv_r s < uval d" "0 \<le> dv_r s" using d r by simp_all
  have n: "2 * m + b = 2 * (m div uval d) * uval d + (2 * dv_r s + b)"
    unfolding r by (metis (no_types, lifting) add.assoc div_mult_mod_eq distrib_left mult.assoc)
  show ?thesis
  proof (cases "div_fits n d i s")
    case True
    then have "uval d \<le> 2 * dv_r s + b" using div_fits_iff [OF assms(1)] b_def by blast
    then have rem: "0 \<le> 2 * dv_r s + b - uval d" "2 * dv_r s + b - uval d < uval d" using lt b by linarith+
    have "2 * m + b = (2 * (m div uval d) + 1) * uval d + (2 * dv_r s + b - uval d)" using n by (simp add: algebra_simps)
    then have "(2 * m + b) div uval d = 2 * (m div uval d) + 1" "(2 * m + b) mod uval d = 2 * dv_r s + b - uval d"
      using rem by (simp_all add: int_div_pos_eq int_mod_pos_eq mult.commute)
    moreover have "dv_q (div_step n d i s) = dv_q s + 2 ^ i"
      using True div_take_q [OF assms(1), of s] q by (simp add: div_step_q)
    moreover have "dv_r (div_step n d i s) = 2 * dv_r s + b - uval d"
      using True div_sub_uval [OF assms(1) lt(1) True] by (simp add: div_step_r b_def)
    ultimately show ?thesis unfolding div_inv_def mb q by (simp add: algebra_simps)
  next
    case False
    then have rem: "2 * dv_r s + b < uval d" using div_fits_iff [OF assms(1), of n d s] b_def by linarith
    then have "\<not> uint (drop_bit 63 (dv_rhi s)) \<noteq> 0" using False by (auto simp: div_fits_def)
    then have "uval (shifted n i s) = 2 * dv_r s + b" using shifted_uval [OF assms(1), of s n] by (simp add: b_def)
    moreover have "(2 * m + b) div uval d = 2 * (m div uval d)" "(2 * m + b) mod uval d = 2 * dv_r s + b"
      using rem lt b n by (simp_all add: int_div_pos_eq int_mod_pos_eq mult.commute)
    ultimately show ?thesis using False unfolding div_inv_def mb by (simp add: div_step_r div_step_q q)
  qed
qed

lemma div_loop_inv: "i \<le> 128 \<Longrightarrow> 0 < uval d \<Longrightarrow> div_inv n d i s \<Longrightarrow> div_inv n d 0 (div_loop n d i s)"
  by (induction n d i s rule: div_loop.induct) (simp_all add: div_step_inv)

lemma pli_divmod_u_uval:
  assumes "0 < uval d"
  shows "uval (fst (pli_divmod_u n d)) = uval n div uval d" and "uval (snd (pli_divmod_u n d)) = uval n mod uval d"
proof -
  let ?s = "\<lparr>dv_qlo = 0, dv_qhi = 0, dv_rlo = 0, dv_rhi = 0, dv_carry = 0\<rparr>"
  have "uval n div 2 ^ 128 = 0" using uval_bounds [of n] by simp
  then have "div_inv n d 128 ?s" by (simp add: div_inv_def dv_r_def dv_q_def)
  from div_loop_inv [OF _ assms this]
  have "div_inv n d 0 (div_loop n d 128 ?s)" by simp
  then show "uval (fst (pli_divmod_u n d)) = uval n div uval d" and "uval (snd (pli_divmod_u n d)) = uval n mod uval d"
    by (simp_all add: div_inv_def dv_q_def dv_r_def pli_divmod_u_def Let_def)
qed

definition pli_divmod10 :: "PliU128 \<Rightarrow> PliU128 \<times> nat" where
  "pli_divmod10 v =
     (let (q, r) = pli_divmod_u v (pli_u128 10 0)
      in (q, unat (ucast (u_lo r) :: 32 word)))"

section \<open>Signed operations\<close>

definition pli_neg_s :: "PliI128 \<Rightarrow> PliI128" where
  "pli_neg_s v = pli_to_s (pli_neg_u (pli_to_u v))"

definition pli_mag_s :: "PliI128 \<Rightarrow> PliU128" where
  "pli_mag_s v = (if pli_isneg_s v then pli_neg_u (pli_to_u v) else pli_to_u v)"

definition pli_sdiv :: "PliI128 \<Rightarrow> PliI128 \<Rightarrow> PliI128" where
  "pli_sdiv a b =
     (if pli_iszero_u (pli_to_u b) then pli_to_s (pli_u128 0 0)
      else
        let neg = (pli_isneg_s a \<noteq> pli_isneg_s b);
            (q, r) = pli_divmod_u (pli_mag_s a) (pli_mag_s b)
        in if neg then pli_neg_s (pli_to_s q) else pli_to_s q)"

definition pli_slo64 :: "PliI128 \<Rightarrow> 64 word" where
  "pli_slo64 v = s_lo v"

definition pli_shi64 :: "PliI128 \<Rightarrow> 64 word" where
  "pli_shi64 v = s_hi v"

definition pli_to_i64 :: "PliI128 \<Rightarrow> int" where
  "pli_to_i64 v = sint (s_lo v)"

text \<open>The operators of the portable build.\<close>

definition op_add :: "PliI128 \<Rightarrow> PliI128 \<Rightarrow> PliI128" where
  "op_add a b = pli_to_s (pli_add_u (pli_to_u a) (pli_to_u b))"

definition op_sub :: "PliI128 \<Rightarrow> PliI128 \<Rightarrow> PliI128" where
  "op_sub a b = pli_to_s (pli_sub_u (pli_to_u a) (pli_to_u b))"

definition op_neg :: "PliI128 \<Rightarrow> PliI128" where
  "op_neg a = pli_neg_s a"

definition op_mul :: "PliI128 \<Rightarrow> PliI128 \<Rightarrow> PliI128" where
  "op_mul a b = pli_to_s (pli_mul_u (pli_to_u a) (pli_to_u b))"

definition op_div :: "PliI128 \<Rightarrow> PliI128 \<Rightarrow> PliI128" where
  "op_div a b = pli_sdiv a b"

definition op_eq :: "PliI128 \<Rightarrow> PliI128 \<Rightarrow> bool" where
  "op_eq a b \<longleftrightarrow> s_lo a = s_lo b \<and> s_hi a = s_hi b"

definition op_less :: "PliI128 \<Rightarrow> PliI128 \<Rightarrow> bool" where
  "op_less a b \<longleftrightarrow>
     (let an = pli_isneg_s a; bn = pli_isneg_s b
      in if an \<noteq> bn then an else pli_cmp_u (pli_to_u a) (pli_to_u b) < 0)"

section \<open>The signed value of a pair\<close>

definition sval :: "PliI128 \<Rightarrow> int" where
  "sval v = sint (s_hi v) * 2 ^ 64 + uint (s_lo v)"

definition s128 :: "PliI128 \<Rightarrow> 128 word" where
  "s128 v = w128 (pli_to_u v)"

lemma pli_to_u_to_s [simp]: "pli_to_u (pli_to_s v) = v" and pli_to_s_to_u [simp]: "pli_to_s (pli_to_u w) = w"
  by (simp_all add: pli_to_u_def pli_to_s_def)

lemma sint_uint_64: "sint (w :: 64 word) = (if uint w < 2 ^ 63 then uint w else uint w - 2 ^ 64)"
proof -
  have "sint w = signed_take_bit 63 (uint w)" by (simp add: sint_uint)
  also have "\<dots> = (uint w + 2 ^ 63) mod 2 ^ 64 - 2 ^ 63" by (simp add: signed_take_bit_eq_take_bit_shift take_bit_eq_mod)
  also have "\<dots> = (if uint w < 2 ^ 63 then uint w else uint w - 2 ^ 64)"
  proof (cases "uint w < 2 ^ 63")
    case False
    have "(uint w + 2 ^ 63) mod 2 ^ 64 = (uint w + 2 ^ 63 - 2 ^ 64) mod 2 ^ 64" by (simp only: minus_mod_self2)
    also have "\<dots> = uint w + 2 ^ 63 - 2 ^ 64"
      using False uint_lt2p [of w] by (intro mod_pos_pos_trivial) simp_all
    finally show ?thesis using False by simp
  qed simp
  finally show ?thesis .
qed

text \<open>The sign test, the magnitude and the casts in terms of the value.\<close>

lemma sval_cases:
  obtains (nonneg) "\<not> pli_isneg_s v" and "0 \<le> sval v" and "sval v < 2 ^ 127" and "uval (pli_to_u v) = sval v"
    | (neg) "pli_isneg_s v" and "sval v < 0" and "- (2 ^ 127) \<le> sval v" and "uval (pli_to_u v) = sval v + 2 ^ 128"
proof -
  obtain h l where hl: "uint (s_hi v) = h" "uint (s_lo v) = l" "0 \<le> h" "h < 2 ^ 64" "0 \<le> l" "l < 2 ^ 64"
    using uint_lt2p [of "s_hi v"] uint_lt2p [of "s_lo v"] by simp
  have u: "uval (pli_to_u v) = h * 2 ^ 64 + l" by (simp add: uval_def pli_to_u_def hl)
  show thesis
  proof (cases "h < 2 ^ 63")
    case True
    then have "sint (s_hi v) = h" by (simp add: sint_uint_64 hl)
    with True hl u show ?thesis by (intro nonneg) (simp_all add: pli_isneg_s_def sval_def)
  next
    case False
    then have "sint (s_hi v) = h - 2 ^ 64" by (simp add: sint_uint_64 hl)
    with False hl u show ?thesis by (intro neg) (simp_all add: pli_isneg_s_def sval_def)
  qed
qed

lemma pli_isneg_s_sval: "pli_isneg_s v \<longleftrightarrow> sval v < 0"
  by (cases v rule: sval_cases) auto

lemma uval_neg: "uval (pli_neg_u v) = (if uval v = 0 then 0 else 2 ^ 128 - uval v)"
  using uval_sub [of "pli_u128 0 0" v] uval_bounds [of v] by (simp add: pli_neg_u_sub del: uval_mk)

lemma uval_mag: "uval (pli_mag_s v) = \<bar>sval v\<bar>"
  by (cases v rule: sval_cases) (simp_all add: pli_mag_s_def uval_neg)

lemma sval_to_s: "sval (pli_to_s u) = (if uval u < 2 ^ 127 then uval u else uval u - 2 ^ 128)"
  by (cases "pli_to_s u" rule: sval_cases) simp_all

lemma sval_inject: "sval a = sval b \<longleftrightarrow> a = b"
proof
  assume "sval a = sval b"
  then have "uval (pli_to_u a) = uval (pli_to_u b)" by (cases a rule: sval_cases; cases b rule: sval_cases) simp_all
  then show "a = b" by (metis uval_inject pli_to_s_to_u)
qed simp

lemma sval_range: "- (2 ^ 127) \<le> sval v" "sval v < 2 ^ 127"
  by (cases v rule: sval_cases; simp)+

text \<open>Two's complement reading of a 128-bit word, in the same form as \<^const>\<open>sval\<close>.\<close>

lemma sint_128: "sint (w :: 128 word) = (if uint w < 2 ^ 127 then uint w else uint w - 2 ^ 128)"
proof -
  have "sint w = signed_take_bit 127 (uint w)" by (simp add: sint_uint)
  also have "\<dots> = (uint w + 2 ^ 127) mod 2 ^ 128 - 2 ^ 127" by (simp add: signed_take_bit_eq_take_bit_shift take_bit_eq_mod)
  also have "\<dots> = (if uint w < 2 ^ 127 then uint w else uint w - 2 ^ 128)"
  proof (cases "uint w < 2 ^ 127")
    case False
    have "(uint w + 2 ^ 127) mod 2 ^ 128 = (uint w + 2 ^ 127 - 2 ^ 128) mod 2 ^ 128" by (simp only: minus_mod_self2)
    also have "\<dots> = uint w + 2 ^ 127 - 2 ^ 128"
      using False uint_lt2p [of w] by (intro mod_pos_pos_trivial) simp_all
    finally show ?thesis using False by simp
  qed simp
  finally show ?thesis .
qed

lemma sint_s128 [simp]: "sint (s128 v) = sval v"
  using sval_to_s [of "pli_to_u v"] by (simp add: s128_def sint_128 uint_w128)

lemma s128_of_sval: "s128 v = word_of_int (sval v)"
  by (simp flip: sint_s128)

lemma sint_128_in_range: "- (2 ^ 127) \<le> x \<Longrightarrow> x < 2 ^ 127 \<Longrightarrow> sint (word_of_int x :: 128 word) = x"
proof -
  assume r: "- (2 ^ 127) \<le> x" "x < 2 ^ 127"
  show "sint (word_of_int x :: 128 word) = x"
  proof (cases "0 \<le> x")
    case True
    with r show ?thesis by (simp add: sint_128 uint_word_of_int)
  next
    case False
    have "x mod 2 ^ 128 = (x + 2 ^ 128) mod 2 ^ 128" by simp
    also have "\<dots> = x + 2 ^ 128" using False r by (intro mod_pos_pos_trivial) simp_all
    finally show ?thesis using False r by (simp add: sint_128 uint_word_of_int)
  qed
qed

lemma div_le_dividend_int: "0 \<le> (x :: int) \<Longrightarrow> 0 < y \<Longrightarrow> x div y \<le> x"
  using zdiv_mono2 [of x 1 y] by simp

lemma sval_sdiv:
  assumes "sval b \<noteq> 0" and "sval a \<noteq> - (2 ^ 127) \<or> sval b \<noteq> - 1"
  shows "sval (pli_sdiv a b) = c_div (sval a) (sval b)"
proof -
  let ?q = "fst (pli_divmod_u (pli_mag_s a) (pli_mag_s b))"
  have nz: "\<not> pli_iszero_u (pli_to_u b)"
    using assms(1) by (auto simp: pli_iszero_u_uval elim: sval_cases [of b] dest: sym) (cases b rule: sval_cases; simp)
  have q: "uval ?q = \<bar>sval a\<bar> div \<bar>sval b\<bar>"
    using assms(1) by (subst pli_divmod_u_uval) (simp_all add: uval_mag)
  have ge: "0 \<le> uval ?q" by (rule uval_bounds)
  have "\<bar>sval a\<bar> div \<bar>sval b\<bar> \<le> \<bar>sval a\<bar>" using assms(1) div_le_dividend_int by simp
  then have le: "uval ?q \<le> \<bar>sval a\<bar>" by (simp add: q)
  have sgn: "sgn (sval a) * sgn (sval b) * uval ?q =
      (if pli_isneg_s a \<noteq> pli_isneg_s b then - uval ?q else uval ?q)"
    using assms(1) le ge by (auto simp: pli_isneg_s_sval sgn_if)
  have "sval (pli_sdiv a b) = (if pli_isneg_s a \<noteq> pli_isneg_s b then - uval ?q else uval ?q)"
  proof (cases "pli_isneg_s a = pli_isneg_s b")
    case True
    have "uval ?q < 2 ^ 127"
    proof (rule ccontr)
      assume "\<not> uval ?q < 2 ^ 127"
      then have a: "sval a = - (2 ^ 127)" using le sval_range [of a] by linarith
      then have "\<bar>sval b\<bar> > 1" using True assms by (auto simp: pli_isneg_s_sval)
      then have "\<bar>sval a\<bar> div \<bar>sval b\<bar> < \<bar>sval a\<bar>" using a by (intro int_div_less_self) simp_all
      with \<open>\<not> uval ?q < 2 ^ 127\<close> a show False by (simp add: q)
    qed
    with True nz show ?thesis by (simp add: pli_sdiv_def Let_def case_prod_beta sval_to_s)
  next
    case False
    have "uval ?q \<le> 2 ^ 127" using le sval_range [of a] by linarith
    with False nz ge show ?thesis
      by (simp add: pli_sdiv_def Let_def case_prod_beta sval_to_s pli_neg_s_def uval_neg)
  qed
  also have "\<dots> = c_div (sval a) (sval b)" unfolding sgn [symmetric] by (simp add: c_div_def q)
  finally show ?thesis .
qed

lemma op_less_sval: "op_less a b \<longleftrightarrow> sval a < sval b"
  by (cases a rule: sval_cases; cases b rule: sval_cases) (simp_all add: op_less_def pli_cmp_u_uval)

section \<open>Decimal rendering\<close>

lemma pli_divmod10_uval:
  "uval (fst (pli_divmod10 v)) = uval v div 10" "int (snd (pli_divmod10 v)) = uval v mod 10"
proof -
  let ?r = "snd (pli_divmod_u v (pli_u128 10 0))"
  have r: "uval ?r = uval v mod 10" and q: "uval (fst (pli_divmod_u v (pli_u128 10 0))) = uval v div 10"
    by (simp_all add: pli_divmod_u_uval)
  then show "uval (fst (pli_divmod10 v)) = uval v div 10"
    by (simp add: pli_divmod10_def case_prod_beta)
  obtain h l where hl: "uint (u_hi ?r) = h" "uint (u_lo ?r) = l" "0 \<le> h" "0 \<le> l" by simp
  have "h * 2 ^ 64 + l < 10" using r by (simp add: uval_def hl)
  then have "h = 0" "l < 10" using hl by simp_all
  then have "l = uval v mod 10" using r by (simp add: uval_def hl)
  moreover have "int (unat (ucast (u_lo ?r) :: 32 word)) = l"
    using \<open>l < 10\<close> hl by (simp add: unsigned_ucast_eq take_bit_eq_mod zmod_int)
  ultimately show "int (snd (pli_divmod10 v)) = uval v mod 10"
    by (simp add: pli_divmod10_def case_prod_beta)
qed

text \<open>The digit loop pushes the low digit first; the text is then reversed in place by swapping the
  ends.\<close>

function dec_digits :: "PliU128 \<Rightarrow> string \<Rightarrow> string" where
  "dec_digits u s =
     (if pli_iszero_u u then s
      else let (q, d) = pli_divmod10 u in dec_digits q (s @ [char_of (48 + d)]))"
  by pat_completeness auto

lemma nat_div_less: "0 < (x :: int) \<Longrightarrow> nat (x div 10) < nat x"
  by simp

termination dec_digits
proof (relation "measure (\<lambda>(u, s). nat (uval u))", simp, clarify)
  fix u :: PliU128 and q :: PliU128 and d :: nat
  assume nz: "\<not> pli_iszero_u u" and p: "(q, d) = pli_divmod10 u"
  from p have "uval q = uval u div 10" by (metis fst_conv pli_divmod10_uval(1))
  moreover have "0 < uval u" using nz uval_bounds(1) [of u] by (simp add: pli_iszero_u_uval)
  ultimately show "((q, s @ [char_of (48 + d)]), u, s) \<in> measure (\<lambda>(u, s). nat (uval u))" for s
    by (simp add: nat_div_less)
qed

declare dec_digits.simps [simp del]

definition pli_to_dec_string :: "PliI128 \<Rightarrow> string" where
  "pli_to_dec_string v =
     (if pli_iszero_s v then ''0''
      else
        let s = dec_digits (pli_mag_s v) [];
            s1 = (if pli_isneg_s v then s @ ''-'' else s)
        in swap_loop 0 s1)"

lemma dec_of_nat_pos: "0 < n \<Longrightarrow> dec_of_nat n = (if n < 10 then [] else dec_of_nat (n div 10)) @ [digit_char (n mod 10)]"
  by (subst dec_of_nat.simps) simp

lemma dec_digits_rev:
  "dec_digits u s = s @ (if uval u = 0 then [] else rev (dec_of_nat (nat (uval u))))"
proof (induction u s rule: dec_digits.induct)
  case (1 u s)
  show ?case
  proof (cases "uval u = 0")
    case True
    then show ?thesis by (simp add: dec_digits.simps [of u s] pli_iszero_u_uval)
  next
    case False
    obtain q d where qd: "pli_divmod10 u = (q, d)" by fastforce
    have q: "uval q = uval u div 10" using pli_divmod10_uval(1) [of u] by (simp add: qd)
    have "int d = uval u mod 10" using pli_divmod10_uval(2) [of u] by (simp add: qd)
    then have d: "d = nat (uval u mod 10)" by (metis nat_int)
    have pos: "0 < uval u" using False uval_bounds(1) [of u] by linarith
    have nz: "\<not> pli_iszero_u u" using False by (simp add: pli_iszero_u_uval)
    have step: "dec_digits u s = dec_digits q (s @ [char_of (48 + d)])"
      using nz by (simp add: dec_digits.simps [of u s] qd)
    have "uval q = 0 \<longleftrightarrow> nat (uval u) < 10" using pos by (simp add: q) linarith
    moreover have "nat (uval u) div 10 = nat (uval q)" "nat (uval u) mod 10 = d"
      using pos by (simp_all add: q d nat_div_distrib nat_mod_distrib)
    ultimately show ?thesis
      using "1.IH" [OF nz refl qd [symmetric]] False pos
      by (simp add: step dec_of_nat_pos [of "nat (uval u)"] digit_char_def)
  qed
qed

section \<open>The contract of the 128-bit layer\<close>

text \<open>What a caller may use, whichever build it runs on: \<open>rep\<close> is the two's complement bit pattern.\<close>

record 's i128_ops =
  o_from :: "64 word \<Rightarrow> 's"
  o_neg :: "'s \<Rightarrow> 's"
  o_add :: "'s \<Rightarrow> 's \<Rightarrow> 's"
  o_sub :: "'s \<Rightarrow> 's \<Rightarrow> 's"
  o_mul :: "'s \<Rightarrow> 's \<Rightarrow> 's"
  o_div :: "'s \<Rightarrow> 's \<Rightarrow> 's"
  o_less :: "'s \<Rightarrow> 's \<Rightarrow> bool"

definition native_sdiv :: "128 word \<Rightarrow> 128 word \<Rightarrow> 128 word" where
  "native_sdiv a b = (if b = 0 then 0 else word_of_int (c_div (sint a) (sint b)))"

definition native_ops :: "128 word i128_ops" where
  "native_ops = \<lparr>o_from = (\<lambda>v. word_of_int (sint v)), o_neg = (\<lambda>a. - a), o_add = (\<lambda>a b. a + b), o_sub = (\<lambda>a b. a - b),
     o_mul = (\<lambda>a b. a * b), o_div = native_sdiv, o_less = (\<lambda>a b. sint a < sint b)\<rparr>"

definition portable_ops :: "PliI128 i128_ops" where
  "portable_ops = \<lparr>o_from = pli_from_i64, o_neg = op_neg, o_add = op_add, o_sub = op_sub,
     o_mul = op_mul, o_div = op_div, o_less = op_less\<rparr>"

datatype arith =
    ALit "64 word"
  | ANeg arith
  | AAdd arith arith
  | ASub arith arith
  | AMul arith arith
  | ADiv arith arith
  | AIfLess arith arith arith arith

fun arith_eval :: "'s i128_ops \<Rightarrow> arith \<Rightarrow> 's" where
  "arith_eval O1 (ALit v) = o_from O1 v"
| "arith_eval O1 (ANeg a) = o_neg O1 (arith_eval O1 a)"
| "arith_eval O1 (AAdd a b) = o_add O1 (arith_eval O1 a) (arith_eval O1 b)"
| "arith_eval O1 (ASub a b) = o_sub O1 (arith_eval O1 a) (arith_eval O1 b)"
| "arith_eval O1 (AMul a b) = o_mul O1 (arith_eval O1 a) (arith_eval O1 b)"
| "arith_eval O1 (ADiv a b) = o_div O1 (arith_eval O1 a) (arith_eval O1 b)"
| "arith_eval O1 (AIfLess a b c d) =
     (if o_less O1 (arith_eval O1 a) (arith_eval O1 b) then arith_eval O1 c else arith_eval O1 d)"

locale i128_arith =
  fixes ops :: "'s i128_ops"
    and rep :: "'s \<Rightarrow> 128 word"
  assumes rep_from: "rep (o_from ops v) = word_of_int (sint v)"
    and rep_neg: "rep (o_neg ops a) = - rep a"
    and rep_add: "rep (o_add ops a b) = rep a + rep b"
    and rep_sub: "rep (o_sub ops a b) = rep a - rep b"
    and rep_mul: "rep (o_mul ops a b) = rep a * rep b"
    and rep_div: "rep (o_div ops a b) = native_sdiv (rep a) (rep b)"
    and rep_less: "o_less ops a b \<longleftrightarrow> sint (rep a) < sint (rep b)"
begin

lemma eval_native: "rep (arith_eval ops e) = arith_eval native_ops e"
  by (induction e)
    (simp_all add: native_ops_def rep_from rep_neg rep_add rep_sub rep_mul rep_div rep_less)

end

interpretation native: i128_arith native_ops "\<lambda>w. w"
  by unfold_locales (simp_all add: native_ops_def)

lemma s128_from: "s128 (pli_from_i64 v) = word_of_int (sint v)"
proof -
  have "uint v < 2 ^ 64" using uint_lt2p [of v] by simp
  then have "sval (pli_from_i64 v) = sint v"
    using sint_uint_64 [of v] by (simp add: sval_def pli_from_i64_def)
  then show ?thesis by (simp add: s128_of_sval)
qed

lemma s128_sdiv: "s128 (pli_sdiv a b) = native_sdiv (s128 a) (s128 b)"
proof (cases "sval b = 0")
  case True
  then have "b = pli_to_s (pli_u128 0 0)"
    by (subst sval_inject [symmetric]) (simp add: sval_to_s)
  then show ?thesis by (simp add: pli_sdiv_def native_sdiv_def s128_def pli_iszero_u_uval) (simp add: w128_def)
next
  case False
  then have nz: "s128 b \<noteq> 0" by (metis sint_s128 signed_0)
  show ?thesis
  proof (cases "sval a = - (2 ^ 127) \<and> sval b = - 1")
    case False
    then have "sval (pli_sdiv a b) = c_div (sval a) (sval b)" using \<open>sval b \<noteq> 0\<close> by (intro sval_sdiv) auto
    with nz show ?thesis by (simp add: native_sdiv_def s128_of_sval [of "pli_sdiv a b"])
  next
    case True
    have q: "uval (fst (pli_divmod_u (pli_mag_s a) (pli_mag_s b))) = 2 ^ 127"
      using True by (subst pli_divmod_u_uval) (simp_all add: uval_mag)
    have "\<not> pli_iszero_u (pli_to_u b)" using True by (cases b rule: sval_cases) (auto simp: pli_iszero_u_uval)
    then have "sval (pli_sdiv a b) = - (2 ^ 127)"
      using True q by (simp add: pli_sdiv_def Let_def case_prod_beta pli_isneg_s_sval sval_to_s)
    then have "s128 (pli_sdiv a b) = word_of_int (- (2 ^ 127))" by (simp only: s128_of_sval)
    with True nz show ?thesis by (simp add: native_sdiv_def c_div_def)
  qed
qed

interpretation portable: i128_arith portable_ops s128
  by unfold_locales
    (simp_all add: portable_ops_def s128_from op_neg_def pli_neg_s_def op_add_def op_sub_def op_mul_def op_div_def
      s128_sdiv op_less_sval s128_def [of "pli_to_s _"] w128_neg w128_add w128_sub w128_mul s128_def [symmetric])

text \<open>C20: Whatever expression of constants, additions, subtractions, multiplications, negations, divisions
  and signed comparisons the compiler evaluates with the portable pair, its bit pattern is the one
  native 128-bit arithmetic computes: no carry, limb or sign fix-up of the header is lost.\<close>
theorem portable_build_agrees: "s128 (arith_eval portable_ops e) = arith_eval native_ops e"
  by (rule portable.eval_native)

text \<open>C21: The shift-subtract division is exact for every divisor, including those of 2^127 and above: the
  quotient and the remainder are those of integer division.\<close>
theorem divmod_is_exact:
  "uval d \<noteq> 0 \<Longrightarrow>
     uval n = uval (fst (pli_divmod_u n d)) * uval d + uval (snd (pli_divmod_u n d)) \<and>
     uval (snd (pli_divmod_u n d)) < uval d"
  using uval_bounds [of d] by (simp add: pli_divmod_u_uval)

theorem divmod_is_exact_witness:
  "uval (pli_u128 1 (2 ^ 63)) \<noteq> 0 \<and> uval (snd (pli_divmod_u (pli_u128 0 (- 1)) (pli_u128 1 (2 ^ 63)))) < uval (pli_u128 1 (2 ^ 63))"
proof -
  have nz: "uval (pli_u128 1 (2 ^ 63)) \<noteq> 0" by simp
  from nz divmod_is_exact [OF nz, of "pli_u128 0 (- 1)"] show ?thesis by blast
qed

text \<open>Signed division truncates toward zero as C++ and LLVM define it, for every pair of operands
  except the one quotient that does not fit.\<close>
lemma sdiv_truncates:
  "sval b \<noteq> 0 \<Longrightarrow> sval a \<noteq> - (2 ^ 127) \<or> sval b \<noteq> - 1 \<Longrightarrow>
     sval (pli_sdiv a b) = sgn (sval a) * sgn (sval b) * (\<bar>sval a\<bar> div \<bar>sval b\<bar>)"
  by (simp add: sval_sdiv c_div_def)

text \<open>The decimal rendering of a 128-bit value is the usual one, for all \<^term>\<open>2 ^ 128\<close> values, the most
  negative included: an optional minus sign and the digits of the magnitude with no leading zero.\<close>
lemma dec_string_is_to_string: "pli_to_dec_string v = to_string (sval v)"
proof (cases "sval v = 0")
  case True
  then have "v = pli_to_s (pli_u128 0 0)" by (subst sval_inject [symmetric]) (simp add: sval_to_s)
  then have "pli_iszero_s v" by (simp add: pli_iszero_s_def pli_to_s_def pli_u128_def)
  with True show ?thesis by (simp add: pli_to_dec_string_def to_string_def dec_of_nat.simps digit_char_def) code_simp
next
  case False
  then have "\<not> pli_iszero_s v" by (auto simp: pli_iszero_s_def sval_def)
  with False show ?thesis
    by (simp add: pli_to_dec_string_def to_string_def dec_digits_rev uval_mag pli_isneg_s_sval swap_loop_rev Let_def)
qed

end
