(* ===== verification/Ast.thy ===== *)
theory Ast
  imports Types Lexer Wide128
begin

text \<open>
  \<^verbatim>\<open>src/ast.h\<close>: the expression node of the syntax tree.  The struct's scalar members are the record
  \<open>expr_attrs\<close>; its owned sub-expressions are the arguments of the datatype, a null pointer being
  \<^const>\<open>None\<close>.  A \<^verbatim>\<open>Symbol*\<close> is the number of the symbol, a \<^verbatim>\<open>double\<close> its 64-bit pattern and a
  \<^verbatim>\<open>PliI128\<close> the \<^typ>\<open>128 word\<close> both builds of the 128-bit layer agree on.
\<close>

datatype ExprKind =
  EK_IntLit | EK_FltLit | EK_DecLit | EK_CharLit | EK_BitLit | EK_VarRef | EK_Binary | EK_Unary | EK_Call
| EK_Subscript | EK_Star | EK_ComplexLit | EK_TypeTag

record expr_attrs =
  x_kind :: ExprKind
  x_loc :: SourceLoc
  x_ty :: PType
  x_ival :: int
  x_wideIval :: "128 word"
  x_fval :: "64 word"
  x_decScale :: int
  x_decPrec :: int
  x_sval :: string
  x_name :: string
  x_path :: "string list"
  x_memberPath :: "nat list"
  x_sym :: "nat option"
  x_allocBaseRef :: bool
  x_isLabel :: bool
  x_folded :: bool
  x_op :: Tok

datatype Expr =
  Expr (xa: expr_attrs) (locPtr: "Expr option") (opa: "Expr option") (opb: "Expr option") (args: "Expr list")

abbreviation ekind :: "Expr \<Rightarrow> ExprKind" where "ekind e \<equiv> x_kind (xa e)"
abbreviation eop :: "Expr \<Rightarrow> Tok" where "eop e \<equiv> x_op (xa e)"

definition default_expr :: expr_attrs where
  "default_expr = \<lparr>x_kind = EK_IntLit, x_loc = \<lparr>loc_line = 0, loc_col = 0\<rparr>, x_ty = Type default_attrs [],
     x_ival = 0, x_wideIval = 0, x_fval = 0, x_decScale = 0, x_decPrec = 0, x_sval = [], x_name = [],
     x_path = [], x_memberPath = [], x_sym = None, x_allocBaseRef = False, x_isLabel = False,
     x_folded = False, x_op = Tok_Eof\<rparr>"

text \<open>Induction over the operand links of a node, a null link being the base case.\<close>

lemma operand_induct [case_names null node]:
  assumes "P None" and "\<And>x lp a b as. P a \<Longrightarrow> P b \<Longrightarrow> P (Some (Expr x lp a b as))"
  shows "P e"
proof -
  have "P (Some n)" for n
  proof (induction n)
    case (Expr x lp a b as)
    have "P a" using Expr.IH(2) assms(1) by (cases a) auto
    moreover have "P b" using Expr.IH(3) assms(1) by (cases b) auto
    ultimately show ?case by (rule assms(2))
  qed
  then show ?thesis using assms(1) by (cases e) auto
qed

text \<open>The native build of the 128-bit helpers the constant folder calls.\<close>

definition native_mag :: "128 word \<Rightarrow> 128 word" where
  "native_mag v = (if sint v < 0 then 0 - v else v)"

definition native_divmod10 :: "128 word \<Rightarrow> 128 word \<times> nat" where
  "native_divmod10 v = (v div 10, unat (ucast (v mod 10) :: 32 word))"

definition native_to_i64 :: "128 word \<Rightarrow> int" where
  "native_to_i64 v = sint (ucast v :: 64 word)"

lemma native_mag_abs: "uint (native_mag v) = \<bar>sint v\<bar>"
proof (cases "sint v < 0")
  case True
  then have "uint v \<noteq> 0" "\<not> uint v < 2 ^ 127" by (auto simp: sint_128 split: if_splits)
  then have "uint (0 - v) = 2 ^ 128 - uint v" by (subst uint_sub_if') simp
  with True show ?thesis by (simp add: native_mag_def sint_128 split: if_splits)
next
  case False
  moreover have "uint v < 2 ^ 128" using uint_lt2p [of v] by simp
  ultimately show ?thesis by (simp add: native_mag_def sint_128 split: if_splits)
qed

end
