(* ===== verification/Constfold.thy ===== *)
theory Constfold
  imports Complex_Main Ast
begin

text \<open>
  \<^verbatim>\<open>src/constfold.cpp\<close>: compile-time evaluation of constant \<open>+\<close>, \<open>-\<close> and \<open>*\<close> expressions.  The folder
  works on scaled 128-bit integers and rewrites the node in place; here it returns whether it folded
  together with the node.  The reference semantics is rational arithmetic (\<open>denote\<close>): the folder is
  shown to return the exact value rounded half away from zero whenever the value and its rescaling
  stay within 38 digits, to fold nothing but the three operators, and never to hide a SIZE condition.
\<close>

section \<open>The folder\<close>

definition pow10 :: "int \<Rightarrow> 128 word" where
  "pow10 k = ((\<lambda>r. r * 10) ^^ nat k) 1"

definition leafScale :: "Expr \<Rightarrow> int" where
  "leafScale e = (if ekind e = EK_DecLit then x_decScale (xa e) else 0)"

definition scaleUp :: "128 word \<Rightarrow> int \<Rightarrow> int \<Rightarrow> 128 word" where
  "scaleUp v from to = ((\<lambda>v. v * 10) ^^ nat (to - from)) v"

text \<open>The result is the flag and the in/out parameter \<open>out\<close>; \<open>&&\<close> runs its right operand only after a true
  left one.\<close>

fun maxLeafMag :: "Expr option \<Rightarrow> int \<Rightarrow> 128 word \<Rightarrow> bool \<times> 128 word" where
  "maxLeafMag None scale out = (False, out)"
| "maxLeafMag (Some (Expr x lp a b as)) scale out =
     (let e = Expr x lp a b as in
      case x_kind x of
        EK_IntLit \<Rightarrow>
          (let ls = leafScale e; v = x_wideIval x;
               v1 = (if ls < scale then scaleUp v ls scale else v);
               v2 = (if sint v1 < 0 then - v1 else v1)
           in (True, if sint out < sint v2 then v2 else out))
      | EK_DecLit \<Rightarrow>
          (let ls = leafScale e; v = x_wideIval x;
               v1 = (if ls < scale then scaleUp v ls scale else v);
               v2 = (if sint v1 < 0 then - v1 else v1)
           in (True, if sint out < sint v2 then v2 else out))
      | EK_Unary \<Rightarrow>
          (if x_op x = Tok_Minus \<or> x_op x = Tok_Plus then maxLeafMag a scale out else (False, out))
      | EK_Binary \<Rightarrow>
          (if x_op x \<noteq> Tok_Plus \<and> x_op x \<noteq> Tok_Minus \<and> x_op x \<noteq> Tok_Star then (False, out)
           else (case maxLeafMag a scale out of
                   (ok, out1) \<Rightarrow> if ok then maxLeafMag b scale out1 else (False, out1)))
      | _ \<Rightarrow> (False, out))"

definition storageDigits :: "PType \<Rightarrow> int" where
  "storageDigits ty = (let bits = intBits ty in if bits = 128 then 38 else if bits = 64 then 18 else 9)"

text \<open>The do-while loop of \<open>constDigits\<close>: divide once, count, go on while the rest is not zero.\<close>

function constDigits_loop :: "128 word \<Rightarrow> int \<Rightarrow> int" where
  "constDigits_loop u digits =
     (let u1 = fst (native_divmod10 u)
      in if u1 \<noteq> 0 then constDigits_loop u1 (digits + 1) else digits + 1)"
  by pat_completeness auto

termination constDigits_loop
proof (relation "measure (\<lambda>(u, d). unat u)", simp, clarsimp simp: native_divmod10_def)
  fix u :: "128 word" and d :: int
  assume "u div 10 \<noteq> 0"
  then have "unat (u div 10) \<noteq> 0" by (simp only: unat_eq_zero not_False_eq_True)
  then show "unat (u div 10) < unat u" by (simp add: unat_div)
qed

declare constDigits_loop.simps [simp del]

definition constDigits :: "128 word \<Rightarrow> int" where
  "constDigits v = constDigits_loop (native_mag v) 0"

record ConstNum =
  cn_value :: "128 word"
  cn_scale :: int
  cn_prec :: int

fun constNumOf :: "Expr option \<Rightarrow> ConstNum option" where
  "constNumOf None = None"
| "constNumOf (Some (Expr x lp a b as)) =
     (let e = Expr x lp a b as;
          leaf = Some \<lparr>cn_value = x_wideIval x, cn_scale = leafScale e, cn_prec = constDigits (x_wideIval x)\<rparr>
      in case x_kind x of
        EK_IntLit \<Rightarrow> leaf
      | EK_DecLit \<Rightarrow> leaf
      | EK_Unary \<Rightarrow>
          (case constNumOf a of
             None \<Rightarrow> None
           | Some n \<Rightarrow>
               if x_op x = Tok_Minus then Some (n\<lparr>cn_value := - cn_value n\<rparr>)
               else if x_op x \<noteq> Tok_Plus then None
               else Some n)
      | EK_Binary \<Rightarrow>
          (case constNumOf a of
             None \<Rightarrow> None
           | Some m \<Rightarrow>
               (case constNumOf b of
                  None \<Rightarrow> None
                | Some n \<Rightarrow>
                    if x_op x = Tok_Plus \<or> x_op x = Tok_Minus then
                      let s = max (cn_scale m) (cn_scale n);
                          av = scaleUp (cn_value m) (cn_scale m) s;
                          bv = scaleUp (cn_value n) (cn_scale n) s;
                          v = (if x_op x = Tok_Plus then av + bv else av - bv)
                      in Some \<lparr>cn_value = v, cn_scale = s, cn_prec = constDigits v\<rparr>
                    else if x_op x = Tok_Star then
                      let v = cn_value m * cn_value n
                      in Some \<lparr>cn_value = v, cn_scale = cn_scale m + cn_scale n, cn_prec = constDigits v\<rparr>
                    else None))
      | _ \<Rightarrow> None)"

definition fold_rescale :: "128 word \<Rightarrow> int \<Rightarrow> int \<Rightarrow> 128 word" where
  "fold_rescale v nscale scale =
     (if scale > nscale then scaleUp v nscale scale
      else if scale < nscale then
        let k = nscale - scale;
            d = pow10 k;
            half = pow10 (k - 1) * 5;
            sign = (if sint v < 0 then - 1 else 1)
        in native_sdiv (v + half * sign) d
      else v)"

definition fold_rewrite :: "Expr \<Rightarrow> PType \<Rightarrow> int \<Rightarrow> 128 word \<Rightarrow> Expr" where
  "fold_rewrite e ty scale v =
     Expr ((xa e)\<lparr>x_kind := EK_DecLit, x_wideIval := v, x_ival := native_to_i64 v, x_decScale := scale,
             x_decPrec := constDigits v, x_ty := ty, x_folded := True, x_name := [], x_sym := None\<rparr>)
          (locPtr e) None None (args e)"

definition foldConstExpr :: "Expr option \<Rightarrow> PType \<Rightarrow> int \<Rightarrow> bool \<times> Expr option" where
  "foldConstExpr eo ty scale =
     (case eo of
        None \<Rightarrow> (False, None)
      | Some e \<Rightarrow>
          if kind_of ty \<noteq> TK_FixedDec then (False, Some e)
          else
            (case constNumOf (Some e) of
               None \<Rightarrow> (False, Some e)
             | Some n \<Rightarrow>
                 let v = fold_rescale (cn_value n) (cn_scale n) scale;
                     digits = constDigits v
                 in if digits > prec_of ty \<or> digits > storageDigits ty then (False, Some e)
                    else
                      (case maxLeafMag (Some e) scale 0 of
                         (ok, leaf) \<Rightarrow>
                           if \<not> ok \<or> constDigits leaf > prec_of ty then (False, Some e)
                           else (True, Some (fold_rewrite e ty scale v)))))"

section \<open>Counting digits\<close>

lemma constDigits_loop_bounds:
  "uint u \<noteq> 0 \<Longrightarrow> \<exists>k. constDigits_loop u d = d + 1 + int k \<and> 10 ^ k \<le> uint u \<and> uint u < 10 ^ Suc k"
proof (induction u d rule: constDigits_loop.induct)
  case (1 u d)
  let ?q = "fst (native_divmod10 u)"
  have q: "uint ?q = uint u div 10" by (simp add: native_divmod10_def uint_div)
  show ?case
  proof (cases "?q = 0")
    case True
    then have "uint u div 10 = 0" using q by simp
    then have "uint u < 10" using uint_ge_0 [of u] by linarith
    moreover have "1 \<le> uint u" using "1.prems" uint_ge_0 [of u] by linarith
    moreover have "constDigits_loop u d = d + 1 + int 0" using True by (subst constDigits_loop.simps) simp
    ultimately show ?thesis by (intro exI [of _ 0]) simp
  next
    case False
    then have "uint ?q \<noteq> 0" by (simp only: uint_0_iff not_False_eq_True)
    from "1.IH" [OF refl False this] obtain k where
      k: "constDigits_loop ?q (d + 1) = d + 1 + 1 + int k" "10 ^ k \<le> uint u div 10" "uint u div 10 < 10 ^ Suc k"
      unfolding q by blast
    have "10 ^ Suc k \<le> uint u" "uint u < 10 ^ Suc (Suc k)" using k(2, 3) by auto
    moreover have "constDigits_loop u d = d + 1 + int (Suc k)" using False k(1) by (subst constDigits_loop.simps) simp
    ultimately show ?thesis by blast
  qed
qed

lemma constDigits_0 [simp]: "constDigits 0 = 1"
  by (simp add: constDigits_def native_mag_def constDigits_loop.simps [of 0] native_divmod10_def)

lemma native_mag_nonzero: "v \<noteq> 0 \<Longrightarrow> uint (native_mag v) \<noteq> 0"
  by (auto simp: native_mag_def uint_0_iff)

lemma constDigits_pos: "1 \<le> constDigits v"
proof (cases "v = 0")
  case False
  then have "uint (native_mag v) \<noteq> 0" by (rule native_mag_nonzero)
  from constDigits_loop_bounds [OF this, of 0] show ?thesis by (auto simp: constDigits_def)
qed simp

lemma constDigits_le_iff:
  assumes "1 \<le> p"
  shows "constDigits v \<le> p \<longleftrightarrow> \<bar>sint v\<bar> < 10 ^ nat p"
proof (cases "v = 0")
  case True
  then show ?thesis using assms by simp
next
  case False
  then have "uint (native_mag v) \<noteq> 0" by (rule native_mag_nonzero)
  from constDigits_loop_bounds [OF this, of 0] obtain k where
    k: "constDigits v = 1 + int k" "10 ^ k \<le> \<bar>sint v\<bar>" "\<bar>sint v\<bar> < 10 ^ Suc k"
    unfolding constDigits_def native_mag_abs by auto
  show ?thesis
  proof (cases "constDigits v \<le> p")
    case True
    then have "(10 :: int) ^ Suc k \<le> 10 ^ nat p" using k(1) by (intro power_increasing) auto
    with True k(3) show ?thesis by linarith
  next
    case False
    then have "(10 :: int) ^ nat p \<le> 10 ^ k" using k(1) assms by (intro power_increasing) auto
    with False k(2) show ?thesis by linarith
  qed
qed

text \<open>\<open>constDigits\<close> counts the decimal digits of every 128-bit value, the most negative included: \<open>d\<close> digits
  suffice exactly when the magnitude is below \<open>10^d\<close>.\<close>
lemma constDigits_counts_digits:
  "1 \<le> p \<Longrightarrow> (constDigits v \<le> p \<longleftrightarrow> \<bar>sint v\<bar> < 10 ^ nat p)"
  by (rule constDigits_le_iff)

section \<open>Exact evaluation\<close>

lemma funpow_mult10: "((\<lambda>v. v * 10) ^^ n) v = v * (10 :: 'a :: comm_ring_1) ^ n"
  by (induction n) (simp_all add: mult_ac)

lemma pow10_alt: "pow10 k = word_of_int (10 ^ nat k)"
  by (simp add: pow10_def funpow_mult10)

lemma scaleUp_alt: "scaleUp (word_of_int v) s t = word_of_int (v * 10 ^ nat (t - s))"
  by (simp add: scaleUp_def funpow_mult10)

text \<open>The rational a foldable expression denotes, and the scale the folder gives it.\<close>

fun denote :: "Expr option \<Rightarrow> rat option" where
  "denote None = None"
| "denote (Some (Expr x lp a b as)) =
     (let leaf = Some (of_int (sint (x_wideIval x)) / 10 powi leafScale (Expr x lp a b as)) in
      case x_kind x of
        EK_IntLit \<Rightarrow> leaf
      | EK_DecLit \<Rightarrow> leaf
      | EK_Unary \<Rightarrow>
          (case denote a of None \<Rightarrow> None | Some p \<Rightarrow>
             if x_op x = Tok_Minus then Some (- p) else if x_op x = Tok_Plus then Some p else None)
      | EK_Binary \<Rightarrow>
          (case (denote a, denote b) of
             (Some p, Some q) \<Rightarrow>
               if x_op x = Tok_Plus then Some (p + q)
               else if x_op x = Tok_Minus then Some (p - q)
               else if x_op x = Tok_Star then Some (p * q)
               else None
           | _ \<Rightarrow> None)
      | _ \<Rightarrow> None)"

lemma rescale_rat:
  assumes "s \<le> t"
  shows "(of_int (v * 10 ^ nat (t - s)) :: rat) / 10 powi t = of_int v / 10 powi s"
proof -
  have "(10 :: rat) powi t = 10 powi s * 10 powi (t - s)" by (simp flip: power_int_add)
  also have "(10 :: rat) powi (t - s) = 10 ^ nat (t - s)" using assms by (simp add: power_int_def)
  finally show ?thesis by simp
qed

text \<open>Arithmetic modulo \<open>2^128\<close> is a ring homomorphism, so the folded value is the exact scaled integer up
  to a multiple of \<open>2^128\<close>, whatever happened on the way.\<close>

definition exact_num :: "rat \<Rightarrow> ConstNum \<Rightarrow> int \<Rightarrow> bool" where
  "exact_num p n v \<longleftrightarrow> cn_value n = word_of_int v \<and> p = of_int v / 10 powi cn_scale n"

lemma exact_num_leaf: "exact_num (of_int (sint w) / 10 powi s) \<lparr>cn_value = w, cn_scale = s, cn_prec = q\<rparr> (sint w)"
  by (simp add: exact_num_def)

lemma exact_num_neg: "exact_num p n v \<Longrightarrow> exact_num (- p) (n\<lparr>cn_value := - cn_value n\<rparr>) (- v)"
  by (simp add: exact_num_def)

lemma exact_num_mult:
  "exact_num p m u \<Longrightarrow> exact_num q n v \<Longrightarrow>
     exact_num (p * q) \<lparr>cn_value = cn_value m * cn_value n, cn_scale = cn_scale m + cn_scale n, cn_prec = d\<rparr> (u * v)"
  by (simp add: exact_num_def power_int_add)

lemma exact_num_add:
  assumes "exact_num p m u" and "exact_num q n v"
  defines "s \<equiv> max (cn_scale m) (cn_scale n)"
  shows "exact_num (p + q) \<lparr>cn_value = scaleUp (cn_value m) (cn_scale m) s + scaleUp (cn_value n) (cn_scale n) s,
           cn_scale = s, cn_prec = d\<rparr> (u * 10 ^ nat (s - cn_scale m) + v * 10 ^ nat (s - cn_scale n))"
    and "exact_num (p - q) \<lparr>cn_value = scaleUp (cn_value m) (cn_scale m) s - scaleUp (cn_value n) (cn_scale n) s,
           cn_scale = s, cn_prec = d\<rparr> (u * 10 ^ nat (s - cn_scale m) - v * 10 ^ nat (s - cn_scale n))"
proof -
  have "cn_scale m \<le> s" "cn_scale n \<le> s" by (simp_all add: s_def)
  from rescale_rat [OF this(1), of u] rescale_rat [OF this(2), of v]
  have "p = of_int (u * 10 ^ nat (s - cn_scale m)) / 10 powi s" "q = of_int (v * 10 ^ nat (s - cn_scale n)) / 10 powi s"
    using assms(1, 2) unfolding exact_num_def by metis+
  then show "exact_num (p + q) \<lparr>cn_value = scaleUp (cn_value m) (cn_scale m) s + scaleUp (cn_value n) (cn_scale n) s,
           cn_scale = s, cn_prec = d\<rparr> (u * 10 ^ nat (s - cn_scale m) + v * 10 ^ nat (s - cn_scale n))"
    and "exact_num (p - q) \<lparr>cn_value = scaleUp (cn_value m) (cn_scale m) s - scaleUp (cn_value n) (cn_scale n) s,
           cn_scale = s, cn_prec = d\<rparr> (u * 10 ^ nat (s - cn_scale m) - v * 10 ^ nat (s - cn_scale n))"
    using assms(1, 2) unfolding exact_num_def
    by (simp_all only: scaleUp_alt ConstNum.simps of_int_add of_int_diff add_divide_distrib diff_divide_distrib
        wi_hom_add [symmetric] wi_hom_sub [symmetric])
qed

lemma exact_leaf_ex [simp]: "Ex (exact_num (signed w / 10 powi s) \<lparr>cn_value = w, cn_scale = s, cn_prec = q\<rparr>)"
  by (rule exI [of _ "sint w"]) (simp add: exact_num_def)

lemma rel_option_cases:
  assumes "rel_option R x y"
  obtains "x = None" "y = None" | u v where "x = Some u" "y = Some v" "R u v"
  using assms by (cases x; cases y) auto

lemma constNumOf_exact: "rel_option (\<lambda>p n. \<exists>v. exact_num p n v) (denote e) (constNumOf e)"
proof (induction e rule: operand_induct)
  case (node x lp a b as)
  from node(1) show ?case
  proof (cases rule: rel_option_cases)
    case 1
    then show ?thesis by (cases "x_kind x") (simp_all add: Let_def)
  next
    case (2 p m)
    then obtain u where u: "exact_num p m u" by blast
    from node(2) show ?thesis
    proof (cases rule: rel_option_cases)
      case 1
      with 2 show ?thesis by (cases "x_kind x") (auto simp: Let_def intro: exact_num_neg)
    next
      case (2 q n)
      then obtain v where v: "exact_num q n v" by blast
      with 2 u \<open>denote a = Some p\<close> \<open>constNumOf a = Some m\<close> show ?thesis
        by (cases "x_kind x")
          (auto simp: Let_def intro: exact_num_neg exact_num_mult exact_num_add(1) exact_num_add(2))
    qed
  qed
qed simp

section \<open>Rescaling rounds half away from zero\<close>

definition round_half_away :: "rat \<Rightarrow> int" where
  "round_half_away x = (if x < 0 then - \<lfloor>- x + 1 / 2\<rfloor> else \<lfloor>x + 1 / 2\<rfloor>)"

lemma round_half_away_int [simp]: "round_half_away (of_int v) = v"
proof -
  have "\<lfloor>of_int v + 1 / 2 :: rat\<rfloor> = v" "\<lfloor>- of_int v + 1 / 2 :: rat\<rfloor> = - v" by linarith+
  then show ?thesis by (simp add: round_half_away_def)
qed

lemma round_half_away_bound: "\<bar>x\<bar> \<le> of_int B \<Longrightarrow> \<bar>round_half_away x\<bar> \<le> B"
  unfolding round_half_away_def by (cases "x < 0") (simp_all, linarith+)

lemma floor_half:
  assumes "0 < d"
  shows "\<lfloor>of_int v / of_int (2 * d) + 1 / 2 :: rat\<rfloor> = (v + d) div (2 * d)"
proof -
  have "of_int v / of_int (2 * d) + 1 / 2 = (of_int (v + d) :: rat) / of_int (2 * d)"
    using assms by (simp add: field_simps)
  then show ?thesis by (simp only: floor_divide_of_int_eq)
qed

lemma c_div_rounds:
  assumes "0 < d"
  shows "c_div (v + d * (if v < 0 then - 1 else 1)) (2 * d) = round_half_away (of_int v / of_int (2 * d))"
proof (cases "v < 0")
  case True
  then have "(of_int v / of_int (2 * d) :: rat) < 0" using assms by (simp add: divide_neg_pos)
  moreover have "- (of_int v / of_int (2 * d) :: rat) = of_int (- v) / of_int (2 * d)" by simp
  ultimately have "round_half_away (of_int v / of_int (2 * d)) = - ((- v + d) div (2 * d))"
    unfolding round_half_away_def by (simp only: floor_half [OF assms] if_True)
  moreover have "c_div (v + d * - 1) (2 * d) = - ((- (v + d * - 1)) div (2 * d))"
    using True assms by (intro c_div_neg) simp_all
  ultimately show ?thesis using True by simp
next
  case False
  then have "\<not> (of_int v / of_int (2 * d) :: rat) < 0" using assms by (simp add: not_less)
  then have "round_half_away (of_int v / of_int (2 * d)) = (v + d) div (2 * d)"
    unfolding round_half_away_def by (simp only: floor_half [OF assms] if_False)
  moreover have "c_div (v + d * 1) (2 * d) = (v + d * 1) div (2 * d)"
    using False assms by (intro c_div_nonneg) simp_all
  ultimately show ?thesis using False by simp
qed

lemma sint_of_38: "\<bar>x\<bar> \<le> 15 * 10 ^ 37 \<Longrightarrow> sint (word_of_int x :: 128 word) = x"
  by (rule sint_128_in_range) simp_all

lemma pow10_le: "(10 :: int) ^ nat k \<le> 10 ^ 38" if "k \<le> 38"
  using that by (intro power_increasing) simp_all

lemma native_sdiv_of_int:
  assumes "\<bar>x\<bar> \<le> 15 * 10 ^ 37" and "0 < y" and "y \<le> 10 ^ 38"
  shows "native_sdiv (word_of_int x) (word_of_int y) = word_of_int (c_div x y)"
proof -
  have sx: "sint (word_of_int x :: 128 word) = x" and sy: "sint (word_of_int y :: 128 word) = y"
    using assms by (simp_all add: sint_of_38)
  then have "(word_of_int y :: 128 word) \<noteq> 0" using assms(2) by (metis less_irrefl signed_0)
  then show ?thesis unfolding native_sdiv_def sx sy by simp
qed

lemma fold_rescale_down:
  assumes "\<bar>v\<bar> \<le> 10 ^ 38" and "scale < ns" and "ns - scale \<le> 38"
  shows "fold_rescale (word_of_int v) ns scale = word_of_int (round_half_away (of_int v / of_int (10 ^ nat (ns - scale))))"
proof -
  define k where "k = nat (ns - scale - 1)"
  then have k: "nat (ns - scale) = Suc k" "nat (ns - scale - 1) = k" "int k \<le> 37" using assms(2, 3) by simp_all
  define d where "d = (5 * 10 ^ k :: int)"
  have d: "0 < d" "d \<le> 5 * 10 ^ 37" "2 * d = 10 ^ Suc k"
    using pow10_le [of "int k"] k(3) power_increasing [of k 37 "10 :: int"] by (simp_all add: d_def)
  have sv: "sint (word_of_int v :: 128 word) = v" using assms(1) by (intro sint_of_38) simp
  have "\<bar>v + d * (if v < 0 then - 1 else 1)\<bar> \<le> 15 * 10 ^ 37" using assms(1) d(1, 2) by auto
  then have "native_sdiv (word_of_int (v + d * (if v < 0 then - 1 else 1))) (word_of_int (2 * d)) =
      word_of_int (c_div (v + d * (if v < 0 then - 1 else 1)) (2 * d))"
    using d(1, 2) by (intro native_sdiv_of_int) simp_all
  moreover have "fold_rescale (word_of_int v) ns scale =
      native_sdiv (word_of_int (v + d * (if v < 0 then - 1 else 1))) (word_of_int (2 * d))"
    using assms(2) unfolding fold_rescale_def Let_def sv pow10_alt k d(3) by (simp add: d_def mult.commute)
  ultimately show ?thesis using c_div_rounds [OF d(1)] d(3) k(1) by simp
qed

lemma fold_rescale_rounds:
  assumes "exact_num p n v" and "\<bar>v\<bar> \<le> 10 ^ 38" and "\<bar>p\<bar> * 10 powi scale \<le> 10 ^ 38" and "cn_scale n - scale \<le> 38"
  shows "sint (fold_rescale (cn_value n) (cn_scale n) scale) = round_half_away (p * 10 powi scale)"
proof -
  have p: "p = of_int v / 10 powi cn_scale n" and w: "cn_value n = word_of_int v" using assms(1) by (simp_all add: exact_num_def)
  consider "scale > cn_scale n" | "scale = cn_scale n" | "scale < cn_scale n" by linarith
  then show ?thesis
  proof cases
    case 1
    let ?u = "v * 10 ^ nat (scale - cn_scale n)"
    have "p = of_int ?u / 10 powi scale" using 1 unfolding p by (intro rescale_rat [symmetric]) simp
    then have u: "p * 10 powi scale = of_int ?u" by simp
    have "\<bar>p\<bar> * 10 powi scale = \<bar>p * 10 powi scale\<bar>" by (simp add: abs_mult)
    then have "of_int \<bar>?u\<bar> \<le> (of_int (10 ^ 38) :: rat)" using assms(3) u by simp
    then have "\<bar>?u\<bar> \<le> 10 ^ 38" by (simp only: of_int_le_iff)
    then have "sint (word_of_int ?u :: 128 word) = ?u" by (intro sint_of_38) simp
    with 1 show ?thesis unfolding fold_rescale_def w scaleUp_alt u round_half_away_int by (simp only: if_True)
  next
    case 2
    have "sint (word_of_int v :: 128 word) = v" using assms(2) by (intro sint_of_38) simp
    with 2 p show ?thesis unfolding fold_rescale_def w by simp
  next
    case 3
    have "(10 :: rat) powi cn_scale n = 10 powi scale * 10 powi (cn_scale n - scale)" by (simp flip: power_int_add)
    then have x: "p * 10 powi scale = of_int v / of_int (10 ^ nat (cn_scale n - scale))"
      using 3 by (simp add: p power_int_def)
    have "\<bar>p * 10 powi scale\<bar> \<le> of_int (10 ^ 38)" using assms(3) by (simp add: abs_mult)
    then have "\<bar>round_half_away (p * 10 powi scale)\<bar> \<le> 10 ^ 38" by (rule round_half_away_bound)
    then have "sint (word_of_int (round_half_away (p * 10 powi scale)) :: 128 word) = round_half_away (p * 10 powi scale)"
      by (intro sint_of_38) simp
    then show ?thesis unfolding w fold_rescale_down [OF assms(2) 3 assms(4)] x .
  qed
qed

section \<open>Properties of the fold\<close>

lemma foldConstExpr_SomeD:
  assumes "foldConstExpr (Some e) ty scale = (True, r)"
  obtains n where "kind_of ty = TK_FixedDec" and "constNumOf (Some e) = Some n"
    and "constDigits (fold_rescale (cn_value n) (cn_scale n) scale) \<le> prec_of ty"
    and "fst (maxLeafMag (Some e) scale 0)" and "constDigits (snd (maxLeafMag (Some e) scale 0)) \<le> prec_of ty"
    and "r = Some (fold_rewrite e ty scale (fold_rescale (cn_value n) (cn_scale n) scale))"
  using assms unfolding foldConstExpr_def
  by (auto simp: Let_def split: if_splits option.splits prod.splits)

lemma fold_rewrite_fields [simp]:
  "ekind (fold_rewrite e ty scale v) = EK_DecLit" "x_wideIval (xa (fold_rewrite e ty scale v)) = v"
  "x_decScale (xa (fold_rewrite e ty scale v)) = scale" "x_ty (xa (fold_rewrite e ty scale v)) = ty"
  "x_decPrec (xa (fold_rewrite e ty scale v)) = constDigits v"
  by (simp_all add: fold_rewrite_def)

lemma denote_DecLit: "ekind e = EK_DecLit \<Longrightarrow> denote (Some e) = Some (of_int (sint (x_wideIval (xa e))) / 10 powi x_decScale (xa e))"
  by (cases e) (simp add: leafScale_def)

text \<open>C22: A folded expression is the decimal literal of its exact rational value rounded half away from zero to
  the scale of the result type, and the literal has no more digits than that type, provided the exact
  value at the finer of the two scales has at most 38 digits.\<close>
theorem fold_is_correctly_rounded:
  assumes fold: "foldConstExpr (Some e) ty scale = (True, Some e')"
    and "denote (Some e) = Some p" and "constNumOf (Some e) = Some n"
    and range: "\<bar>p\<bar> * 10 powi scale \<le> 10 ^ 38" "\<bar>p\<bar> * 10 powi cn_scale n \<le> 10 ^ 38" "cn_scale n - scale \<le> 38"
  shows "ekind e' = EK_DecLit \<and> x_ty (xa e') = ty \<and>
    denote (Some e') = Some (of_int (round_half_away (p * 10 powi scale)) / 10 powi scale) \<and>
    \<bar>round_half_away (p * 10 powi scale)\<bar> < 10 ^ nat (prec_of ty)"
proof -
  obtain v where v: "exact_num p n v" using constNumOf_exact [of "Some e"] assms(2, 3) by auto
  then have "p * 10 powi cn_scale n = of_int v" by (simp add: exact_num_def)
  then have "of_int \<bar>v\<bar> \<le> (of_int (10 ^ 38) :: rat)"
    using range(2) by (metis abs_mult abs_of_pos of_int_abs of_int_numeral of_int_power zero_less_numeral zero_less_power_int)
  then have vr: "\<bar>v\<bar> \<le> 10 ^ 38" by (simp only: of_int_le_iff)
  let ?w = "fold_rescale (cn_value n) (cn_scale n) scale"
  have w: "sint ?w = round_half_away (p * 10 powi scale)" by (rule fold_rescale_rounds [OF v vr range(1, 3)])
  from fold have "constDigits ?w \<le> prec_of ty" "e' = fold_rewrite e ty scale ?w"
    using assms(3) by (auto elim: foldConstExpr_SomeD)
  moreover from this(1) have "\<bar>sint ?w\<bar> < 10 ^ nat (prec_of ty)"
    using constDigits_pos [of ?w] constDigits_le_iff [of "prec_of ty" ?w] by simp
  ultimately show ?thesis by (simp add: denote_DecLit w del: of_int_sint)
qed

text \<open>A decimal leaf, a binary node, and the sample \<open>1.25 * 0.5\<close> rounded to two fraction digits.\<close>

definition dec_leaf :: "128 word \<Rightarrow> int \<Rightarrow> Expr" where
  "dec_leaf v s = Expr (default_expr\<lparr>x_kind := EK_DecLit, x_wideIval := v, x_decScale := s\<rparr>) None None None []"

definition bin_node :: "Tok \<Rightarrow> Expr \<Rightarrow> Expr \<Rightarrow> Expr" where
  "bin_node k l r = Expr (default_expr\<lparr>x_kind := EK_Binary, x_op := k\<rparr>) None (Some l) (Some r) []"

lemma constDigits_le_numeral: "\<bar>sint v\<bar> < 10 ^ n \<Longrightarrow> 1 \<le> n \<Longrightarrow> int n \<le> p \<Longrightarrow> constDigits v \<le> p"
  using constDigits_le_iff [of "int n" v] by simp

definition sample_product :: Expr where
  "sample_product = bin_node Tok_Star (dec_leaf 125 2) (dec_leaf 5 1)"

theorem fold_is_correctly_rounded_witness:
  "\<exists>e'. foldConstExpr (Some sample_product) (fixedDec 5 2) 2 = (True, Some e') \<and> denote (Some e') = Some (63 / 100)"
proof -
  have "fst (foldConstExpr (Some sample_product) (fixedDec 5 2) 2) \<and> snd (foldConstExpr (Some sample_product) (fixedDec 5 2) 2) \<noteq> None"
    by code_simp
  then obtain e' where f: "foldConstExpr (Some sample_product) (fixedDec 5 2) 2 = (True, Some e')"
    by (cases "foldConstExpr (Some sample_product) (fixedDec 5 2) 2") auto
  have d: "denote (Some sample_product) = Some (625 / 1000)"
    by (simp add: sample_product_def bin_node_def dec_leaf_def leafScale_def default_expr_def power_int_def)
  have c: "constNumOf (Some sample_product) = Some \<lparr>cn_value = 625, cn_scale = 3, cn_prec = 3\<rparr>" by code_simp
  have r: "round_half_away (625 / 1000 * 10 powi 2) = 63" by (simp add: round_half_away_def power_int_def)
  from fold_is_correctly_rounded [OF f d c] have "denote (Some e') = Some (63 / 100)"
    unfolding r by (simp add: power_int_def)
  with f show ?thesis by blast
qed

text \<open>The expressions the folder may touch: constants under signs, sums, differences and products.\<close>

fun foldable :: "Expr option \<Rightarrow> bool" where
  "foldable None = False"
| "foldable (Some (Expr x lp a b as)) =
     (x_kind x \<in> {EK_IntLit, EK_DecLit} \<or>
      x_kind x = EK_Unary \<and> x_op x \<in> {Tok_Minus, Tok_Plus} \<and> foldable a \<or>
      x_kind x = EK_Binary \<and> x_op x \<in> {Tok_Plus, Tok_Minus, Tok_Star} \<and> foldable a \<and> foldable b)"

lemma constNumOf_foldable: "constNumOf e \<noteq> None \<longleftrightarrow> foldable e"
proof (induction e rule: operand_induct)
  case (node x lp a b as)
  then show ?case
    by (cases "x_kind x") (auto simp: Let_def split: option.splits)
qed simp

text \<open>Only signs, sums, differences and products of constants are folded, so a division keeps its
  ZERODIVIDE; and an expression that is not folded is left as it was.\<close>
lemma fold_keeps_divisions:
  "(fst (foldConstExpr eo ty scale) \<longrightarrow> foldable eo) \<and> (\<not> fst (foldConstExpr eo ty scale) \<longrightarrow> snd (foldConstExpr eo ty scale) = eo)"
proof
  show "fst (foldConstExpr eo ty scale) \<longrightarrow> foldable eo"
  proof
    assume f: "fst (foldConstExpr eo ty scale)"
    then obtain e where "eo = Some e" by (cases eo) (simp_all add: foldConstExpr_def)
    moreover from f this have "foldConstExpr (Some e) ty scale = (True, snd (foldConstExpr eo ty scale))"
      by (simp add: prod_eq_iff)
    ultimately show "foldable eo" by (auto elim!: foldConstExpr_SomeD simp flip: constNumOf_foldable)
  qed
qed (auto simp: foldConstExpr_def Let_def split: option.splits prod.splits)

text \<open>The constants of an expression at the scale of the result.\<close>

fun const_leaves :: "Expr option \<Rightarrow> int \<Rightarrow> 128 word list" where
  "const_leaves None scale = []"
| "const_leaves (Some (Expr x lp a b as)) scale =
     (if x_kind x \<in> {EK_IntLit, EK_DecLit}
      then [if leafScale (Expr x lp a b as) < scale then scaleUp (x_wideIval x) (leafScale (Expr x lp a b as)) scale
            else x_wideIval x]
      else const_leaves a scale @ (if x_kind x = EK_Binary then const_leaves b scale else []))"

lemma sint_neg_word: "sint v \<noteq> - (2 ^ 127) \<Longrightarrow> sint v < 0 \<Longrightarrow> sint (- v :: 128 word) = - sint v"
proof -
  assume "sint v \<noteq> - (2 ^ 127)" and neg: "sint v < 0"
  moreover have "uint (- v) = \<bar>sint v\<bar>" using native_mag_abs [of v] neg by (simp add: native_mag_def)
  moreover have "uint v < 2 ^ 128" using uint_lt2p [of v] by simp
  ultimately have "uint (- v) = - sint v" "uint (- v) < 2 ^ 127" by (simp_all add: sint_128 split: if_splits)
  then show "sint (- v) = - sint v" by (simp add: sint_128 [of "- v"])
qed

lemma maxLeafMag_bounds:
  "fst (maxLeafMag e scale out) \<Longrightarrow>
     sint out \<le> sint (snd (maxLeafMag e scale out)) \<and>
     (\<forall>v \<in> set (const_leaves e scale). sint v \<noteq> - (2 ^ 127) \<longrightarrow> \<bar>sint v\<bar> \<le> sint (snd (maxLeafMag e scale out)))"
proof (induction e arbitrary: out rule: operand_induct)
  case (node x lp a b as)
  have leaf: ?case if "x_kind x \<in> {EK_IntLit, EK_DecLit}"
    using that by (auto simp: Let_def sint_neg_word)
  show ?case
  proof (cases "x_kind x = EK_Binary")
    case True
    obtain ok m where m: "maxLeafMag a scale out = (ok, m)" by fastforce
    with True node.prems have ok: "ok" "fst (maxLeafMag b scale m)" "maxLeafMag (Some (Expr x lp a b as)) scale out = maxLeafMag b scale m"
      by (auto split: if_splits)
    from node.IH(1) [of out] node.IH(2) [OF ok(2)] show ?thesis unfolding ok(3) using True m ok(1) by force
  next
    case False
    then show ?thesis using leaf node.prems node.IH(1) [of out]
      by (cases "x_kind x") (auto split: if_splits)
  qed
qed simp

text \<open>A folded expression raises no SIZE condition at run time: every constant in it, brought to the result's
  scale, has at most the result's precision in digits.\<close>
lemma fold_checks_every_operand:
  assumes "foldConstExpr (Some e) ty scale = (True, r)" and "v \<in> set (const_leaves (Some e) scale)"
    and "sint v \<noteq> - (2 ^ 127)"
  shows "\<bar>sint v\<bar> < 10 ^ nat (prec_of ty)"
proof -
  let ?m = "snd (maxLeafMag (Some e) scale 0)"
  from assms(1) have f: "fst (maxLeafMag (Some e) scale 0)" "constDigits ?m \<le> prec_of ty"
    by (auto elim: foldConstExpr_SomeD)
  from maxLeafMag_bounds [OF f(1)] assms(2, 3) have "\<bar>sint v\<bar> \<le> sint ?m" by blast
  moreover have "\<bar>sint ?m\<bar> < 10 ^ nat (prec_of ty)"
    using f(2) constDigits_pos [of ?m] constDigits_le_iff [of "prec_of ty" ?m] by simp
  ultimately show ?thesis by linarith
qed

text \<open>The guards are applied to the value after it wrapped: \<open>2^64 * 2^64\<close> folds to a FIXED DECIMAL(31) zero although
  it denotes \<open>2^128\<close>, which the type cannot hold.\<close>
lemma product_overflow_is_folded:
  "map_prod id (map_option (\<lambda>e. x_wideIval (xa e)))
     (foldConstExpr (Some (bin_node Tok_Star (dec_leaf (2 ^ 64) 0) (dec_leaf (2 ^ 64) 0))) (fixedDec 31 0) 0) = (True, Some 0) \<and>
   denote (Some (bin_node Tok_Star (dec_leaf (2 ^ 64) 0) (dec_leaf (2 ^ 64) 0))) = Some (2 ^ 128)"
proof
  show "map_prod id (map_option (\<lambda>e. x_wideIval (xa e)))
     (foldConstExpr (Some (bin_node Tok_Star (dec_leaf (2 ^ 64) 0) (dec_leaf (2 ^ 64) 0))) (fixedDec 31 0) 0) = (True, Some 0)"
    by code_simp
  show "denote (Some (bin_node Tok_Star (dec_leaf (2 ^ 64) 0) (dec_leaf (2 ^ 64) 0))) = Some (2 ^ 128)"
    by (simp add: bin_node_def dec_leaf_def leafScale_def default_expr_def)
qed

end
