(* ===== verification/Facts.thy ===== *)
theory Facts
  imports Prelude
begin

text \<open>
  \<^verbatim>\<open>FactStore\<close> of \<^verbatim>\<open>src/irgen_decisions.cpp\<close>: the record of decisions behind \<^verbatim>\<open>--print-facts\<close>.  The vectors
  of the class are lists and \<open>cur_\<close> is the index of the open procedure, \<open>-1\<close> when there is none.  The
  abstract store \<open>afacts\<close> says what the class means (a table per procedure name); every operation is
  shown to simulate it, and the report is a function of the store alone.
\<close>

section \<open>The store\<close>

record BuiltinFact =
  bf_op :: string
  bf_path :: string
  bf_count :: "32 word"
  bf_reason :: string

record ProcFacts =
  pf_name :: string
  pf_effect :: string
  pf_effectNote :: string
  pf_nounwind :: bool
  pf_willReturn :: bool
  pf_builtins :: "BuiltinFact list"
  pf_pinned :: "string list"

record FactStore =
  fs_loweringMode :: string
  fs_checks :: "(string \<times> bool) list"
  fs_procs :: "ProcFacts list"
  fs_cur :: int

definition emptyProc :: "string \<Rightarrow> ProcFacts" where
  "emptyProc name = \<lparr>pf_name = name, pf_effect = [], pf_effectNote = [], pf_nounwind = False,
     pf_willReturn = False, pf_builtins = [], pf_pinned = []\<rparr>"

definition emptyStore :: FactStore where
  "emptyStore = \<lparr>fs_loweringMode = ''auto'', fs_checks = [], fs_procs = [], fs_cur = - 1\<rparr>"

definition setLoweringMode :: "string \<Rightarrow> FactStore \<Rightarrow> FactStore" where
  "setLoweringMode mode s = s\<lparr>fs_loweringMode := mode\<rparr>"

definition setCheck :: "string \<Rightarrow> bool \<Rightarrow> FactStore \<Rightarrow> FactStore" where
  "setCheck kind on s =
     (case upd_first (\<lambda>c. fst c = kind) (\<lambda>c. (fst c, on)) (fs_checks s) of
        Some cs \<Rightarrow> s\<lparr>fs_checks := cs\<rparr>
      | None \<Rightarrow> s\<lparr>fs_checks := fs_checks s @ [(kind, on)]\<rparr>)"

text \<open>The loop of \<open>beginProc\<close> over the indices from \<open>i\<close>.\<close>

fun beginProc_loop :: "string \<Rightarrow> ProcFacts list \<Rightarrow> int \<Rightarrow> int option" where
  "beginProc_loop name [] i = None"
| "beginProc_loop name (p # ps) i = (if pf_name p = name then Some i else beginProc_loop name ps (i + 1))"

definition beginProc :: "string \<Rightarrow> FactStore \<Rightarrow> FactStore" where
  "beginProc name s =
     (case beginProc_loop name (fs_procs s) 0 of
        Some i \<Rightarrow> s\<lparr>fs_cur := i\<rparr>
      | None \<Rightarrow> s\<lparr>fs_procs := fs_procs s @ [emptyProc name], fs_cur := int (length (fs_procs s @ [emptyProc name])) - 1\<rparr>)"

definition setEffects :: "string \<Rightarrow> string \<Rightarrow> string \<Rightarrow> bool \<Rightarrow> bool \<Rightarrow> FactStore \<Rightarrow> FactStore" where
  "setEffects name effect enote nounwind willReturn s =
     (let upd = (\<lambda>p. p\<lparr>pf_effect := effect, pf_effectNote := enote, pf_nounwind := nounwind, pf_willReturn := willReturn\<rparr>)
      in case upd_first (\<lambda>p. pf_name p = name) upd (fs_procs s) of
           Some ps \<Rightarrow> s\<lparr>fs_procs := ps\<rparr>
         | None \<Rightarrow> s\<lparr>fs_procs := fs_procs s @ [upd (emptyProc name)]\<rparr>)"

definition bumpBuiltin :: "string \<Rightarrow> BuiltinFact \<Rightarrow> BuiltinFact" where
  "bumpBuiltin reason b =
     b\<lparr>bf_count := bf_count b + 1, bf_reason := (if bf_reason b = [] then reason else bf_reason b)\<rparr>"

definition recordBuiltin :: "string \<Rightarrow> string \<Rightarrow> string \<Rightarrow> FactStore \<Rightarrow> FactStore" where
  "recordBuiltin op path reason s =
     (if fs_cur s < 0 then s
      else
        let i = nat (fs_cur s);
            p = fs_procs s ! i;
            bs = (case upd_first (\<lambda>b. bf_op b = op \<and> bf_path b = path) (bumpBuiltin reason) (pf_builtins p) of
                    Some bs \<Rightarrow> bs
                  | None \<Rightarrow> pf_builtins p @ [\<lparr>bf_op = op, bf_path = path, bf_count = 1, bf_reason = reason\<rparr>])
        in s\<lparr>fs_procs := (fs_procs s)[i := p\<lparr>pf_builtins := bs\<rparr>]\<rparr>)"

definition recordPinned :: "string \<Rightarrow> FactStore \<Rightarrow> FactStore" where
  "recordPinned name s =
     (if fs_cur s < 0 then s
      else
        let i = nat (fs_cur s); p = fs_procs s ! i
        in if name \<in> set (pf_pinned p) then s
           else s\<lparr>fs_procs := (fs_procs s)[i := p\<lparr>pf_pinned := pf_pinned p @ [name]\<rparr>]\<rparr>)"

section \<open>The report\<close>

definition report_proc :: "ProcFacts \<Rightarrow> string" where
  "report_proc p =
     (if pf_builtins p = [] \<and> pf_effect p = [] \<and> pf_pinned p = [] then []
      else
        ''proc '' @ pf_name p @ [NL]
        @ (if pf_effect p \<noteq> [] then
             ''  effect: '' @ pf_effect p @ (if pf_effectNote p \<noteq> [] then '' ('' @ pf_effectNote p @ '')'' else []) @ [NL]
           else [])
        @ (if pf_pinned p \<noteq> [] then ''  pinned:'' @ concat (map (\<lambda>s. '' '' @ s) (pf_pinned p)) @ [NL] else [])
        @ (if pf_nounwind p \<or> pf_willReturn p then
             ''  control:'' @ (if pf_nounwind p then '' nounwind'' else []) @ (if pf_willReturn p then '' willreturn'' else []) @ [NL]
           else [])
        @ concat (map (\<lambda>b. ''  builtin '' @ bf_op b @ '' -> '' @ bf_path b @ '' x'' @ dec_of_nat (unat (bf_count b))
             @ (if bf_reason b \<noteq> [] then '' ('' @ bf_reason b @ '')'' else []) @ [NL]) (pf_builtins p)))"

definition report :: "FactStore \<Rightarrow> string" where
  "report s =
     ''; pli facts'' @ [NL] @ ''module'' @ [NL] @ ''  lowering: '' @ fs_loweringMode s @ [NL]
     @ (if fs_checks s \<noteq> [] then
          ''  checks:'' @ concat (map (\<lambda>c. '' '' @ fst c @ (if snd c then '' on'' else '' off'')) (fs_checks s)) @ [NL]
        else [])
     @ concat (map report_proc (fs_procs s))"

section \<open>What the store means\<close>

datatype fact_call =
    CSetMode string
  | CSetCheck string bool
  | CBeginProc string
  | CSetEffects string string string bool bool
  | CRecordBuiltin string string string
  | CRecordPinned string

fun fact_step :: "FactStore \<Rightarrow> fact_call \<Rightarrow> FactStore" where
  "fact_step s (CSetMode m) = setLoweringMode m s"
| "fact_step s (CSetCheck k on) = setCheck k on s"
| "fact_step s (CBeginProc n) = beginProc n s"
| "fact_step s (CSetEffects n e t u w) = setEffects n e t u w s"
| "fact_step s (CRecordBuiltin op path r) = recordBuiltin op path r s"
| "fact_step s (CRecordPinned n) = recordPinned n s"

text \<open>The abstract store: which checks are on, which procedure is open, and per procedure the verdict, how
  often each lowering was recorded and the set of pinned names.\<close>

record afacts =
  af_mode :: string
  af_check :: "string \<rightharpoonup> bool"
  af_open :: "string option"
  af_verdict :: "string \<Rightarrow> string \<times> string \<times> bool \<times> bool"
  af_count :: "string \<Rightarrow> string \<times> string \<Rightarrow> 32 word"
  af_pinned :: "string \<Rightarrow> string set"

fun afact_step :: "afacts \<Rightarrow> fact_call \<Rightarrow> afacts" where
  "afact_step a (CSetMode m) = a\<lparr>af_mode := m\<rparr>"
| "afact_step a (CSetCheck k on) = a\<lparr>af_check := (af_check a)(k \<mapsto> on)\<rparr>"
| "afact_step a (CBeginProc n) = a\<lparr>af_open := Some n\<rparr>"
| "afact_step a (CSetEffects n e t u w) = a\<lparr>af_verdict := (af_verdict a)(n := (e, t, u, w))\<rparr>"
| "afact_step a (CRecordBuiltin op path r) =
     (case af_open a of None \<Rightarrow> a
      | Some n \<Rightarrow> a\<lparr>af_count := (af_count a)(n := (af_count a n)((op, path) := af_count a n (op, path) + 1))\<rparr>)"
| "afact_step a (CRecordPinned x) =
     (case af_open a of None \<Rightarrow> a | Some n \<Rightarrow> a\<lparr>af_pinned := (af_pinned a)(n := insert x (af_pinned a n))\<rparr>)"

abbreviation bkey :: "BuiltinFact \<Rightarrow> string \<times> string" where
  "bkey b \<equiv> (bf_op b, bf_path b)"

definition proc_entry :: "FactStore \<Rightarrow> string \<Rightarrow> ProcFacts" where
  "proc_entry s n = (case lookup_by pf_name (fs_procs s) n of None \<Rightarrow> emptyProc n | Some p \<Rightarrow> p)"

definition verdict_of :: "ProcFacts \<Rightarrow> string \<times> string \<times> bool \<times> bool" where
  "verdict_of p = (pf_effect p, pf_effectNote p, pf_nounwind p, pf_willReturn p)"

definition count_of :: "ProcFacts \<Rightarrow> string \<times> string \<Rightarrow> 32 word" where
  "count_of p k = (case lookup_by bkey (pf_builtins p) k of None \<Rightarrow> 0 | Some b \<Rightarrow> bf_count b)"

definition facts_abs :: "FactStore \<Rightarrow> afacts" where
  "facts_abs s =
     \<lparr>af_mode = fs_loweringMode s,
      af_check = map_option snd \<circ> lookup_by fst (fs_checks s),
      af_open = (if fs_cur s < 0 then None else Some (pf_name (fs_procs s ! nat (fs_cur s)))),
      af_verdict = verdict_of \<circ> proc_entry s,
      af_count = count_of \<circ> proc_entry s,
      af_pinned = (\<lambda>n. set (pf_pinned (proc_entry s n)))\<rparr>"

definition facts_ok :: "FactStore \<Rightarrow> bool" where
  "facts_ok s \<longleftrightarrow>
     distinct (map pf_name (fs_procs s)) \<and> - 1 \<le> fs_cur s \<and> fs_cur s < int (length (fs_procs s)) \<and>
     distinct (map fst (fs_checks s)) \<and>
     list_all (\<lambda>p. distinct (map bkey (pf_builtins p)) \<and> distinct (pf_pinned p)) (fs_procs s)"

section \<open>Every operation keeps the invariant and simulates its meaning\<close>

lemma beginProc_loop_None: "beginProc_loop n ps i = None \<longleftrightarrow> n \<notin> pf_name ` set ps"
  by (induction n ps i rule: beginProc_loop.induct) auto

lemma beginProc_loop_Some:
  "beginProc_loop n ps i = Some j \<Longrightarrow> i \<le> j \<and> nat (j - i) < length ps \<and> pf_name (ps ! nat (j - i)) = n"
proof (induction n ps i rule: beginProc_loop.induct)
  case (2 name p ps i)
  show ?case
  proof (cases "pf_name p = name")
    case False
    with 2 have "i + 1 \<le> j \<and> nat (j - (i + 1)) < length ps \<and> pf_name (ps ! nat (j - (i + 1))) = name" by simp
    moreover from this have "nat (j - i) = Suc (nat (j - (i + 1)))" by (simp add: Suc_nat_eq_nat_zadd1)
    ultimately show ?thesis by simp
  qed (use 2 in auto)
qed simp

lemma bumpBuiltin_key [simp]: "bkey (bumpBuiltin r b) = bkey b" "bf_count (bumpBuiltin r b) = bf_count b + 1"
  by (simp_all add: bumpBuiltin_def)

lemma emptyProc_simps [simp]:
  "pf_name (emptyProc n) = n" "pf_builtins (emptyProc n) = []" "pf_pinned (emptyProc n) = []"
  "pf_effect (emptyProc n) = []" "pf_effectNote (emptyProc n) = []" "\<not> pf_nounwind (emptyProc n)" "\<not> pf_willReturn (emptyProc n)"
  by (simp_all add: emptyProc_def)

text \<open>Recording a lowering adds one to one entry of the count table.\<close>

definition add_builtin :: "string \<Rightarrow> string \<Rightarrow> string \<Rightarrow> BuiltinFact list \<Rightarrow> BuiltinFact list" where
  "add_builtin op path reason bs =
     (case upd_first (\<lambda>b. bf_op b = op \<and> bf_path b = path) (bumpBuiltin reason) bs of
        Some bs' \<Rightarrow> bs'
      | None \<Rightarrow> bs @ [\<lparr>bf_op = op, bf_path = path, bf_count = 1, bf_reason = reason\<rparr>])"

lemma upd_first_bkey:
  "upd_first (\<lambda>b. bf_op b = op \<and> bf_path b = path) f bs = upd_first (\<lambda>b. bkey b = (op, path)) f bs"
  by simp

lemma add_builtin_count:
  "count_of (p\<lparr>pf_builtins := add_builtin op path r (pf_builtins p)\<rparr>) =
     (count_of p)((op, path) := count_of p (op, path) + 1)"
proof (cases "upd_first (\<lambda>b. bkey b = (op, path)) (bumpBuiltin r) (pf_builtins p)")
  case None
  then have "lookup_by bkey (pf_builtins p) (op, path) = None" by (simp only: upd_first_None_iff)
  with None show ?thesis
    unfolding add_builtin_def upd_first_bkey by (auto simp: count_of_def lookup_by_append intro!: ext split: option.splits)
next
  case (Some bs)
  have "lookup_by bkey (pf_builtins p) (op, path) \<noteq> None"
    unfolding upd_first_None_iff [symmetric, where f = "bumpBuiltin r"] by (simp only: Some option.distinct not_False_eq_True)
  with Some show ?thesis
    using upd_first_lookup(1) [OF Some] unfolding add_builtin_def upd_first_bkey
    by (auto simp: count_of_def intro!: ext)
qed

lemma add_builtin_distinct: "distinct (map bkey bs) \<Longrightarrow> distinct (map bkey (add_builtin op path r bs))"
proof (cases "upd_first (\<lambda>b. bkey b = (op, path)) (bumpBuiltin r) bs")
  case None
  then have "lookup_by bkey bs (op, path) = None" by (simp only: upd_first_None_iff)
  then have "(op, path) \<notin> bkey ` set bs" by (simp only: lookup_by_None_iff not_False_eq_True)
  moreover assume "distinct (map bkey bs)"
  ultimately show ?thesis using None unfolding add_builtin_def upd_first_bkey by auto
next
  case (Some cs)
  moreover assume "distinct (map bkey bs)"
  ultimately show ?thesis using upd_first_lookup(2) [OF Some] unfolding add_builtin_def upd_first_bkey by simp
qed

text \<open>Changing the open procedure's entry changes the table at its name only.\<close>

lemma proc_entry_update:
  assumes "facts_ok s" and "0 \<le> fs_cur s" and "pf_name q = pf_name (fs_procs s ! nat (fs_cur s))"
  shows "proc_entry (s\<lparr>fs_procs := (fs_procs s)[nat (fs_cur s) := q]\<rparr>) = (proc_entry s)(pf_name q := q)"
  using assms lookup_by_list_update [of pf_name "fs_procs s" "nat (fs_cur s)" q]
  by (auto simp: facts_ok_def proc_entry_def intro!: ext)

lemma proc_entry_open:
  "facts_ok s \<Longrightarrow> 0 \<le> fs_cur s \<Longrightarrow> proc_entry s (pf_name (fs_procs s ! nat (fs_cur s))) = fs_procs s ! nat (fs_cur s)"
  using lookup_by_nth [of pf_name "fs_procs s" "nat (fs_cur s)"] by (simp add: facts_ok_def proc_entry_def nat_less_iff)

lemma facts_ok_open:
  assumes "facts_ok s" and "0 \<le> fs_cur s" and "pf_name q = pf_name (fs_procs s ! nat (fs_cur s))"
    and "distinct (map bkey (pf_builtins q))" and "distinct (pf_pinned q)"
  shows "facts_ok (s\<lparr>fs_procs := (fs_procs s)[nat (fs_cur s) := q]\<rparr>)"
  using assms map_key_list_update [of pf_name q "fs_procs s" "nat (fs_cur s)"]
  by (auto simp: facts_ok_def list_all_iff dest: set_update_subset_insert [THEN subsetD])

lemma facts_ok_entry:
  "facts_ok s \<Longrightarrow> 0 \<le> fs_cur s \<Longrightarrow>
     distinct (map bkey (pf_builtins (fs_procs s ! nat (fs_cur s)))) \<and> distinct (pf_pinned (fs_procs s ! nat (fs_cur s)))"
  by (simp add: facts_ok_def list_all_length nat_less_iff)

lemma recordBuiltin_alt:
  "0 \<le> fs_cur s \<Longrightarrow> recordBuiltin op path r s =
     s\<lparr>fs_procs := (fs_procs s)[nat (fs_cur s) := (fs_procs s ! nat (fs_cur s))
        \<lparr>pf_builtins := add_builtin op path r (pf_builtins (fs_procs s ! nat (fs_cur s)))\<rparr>]\<rparr>"
  by (simp add: recordBuiltin_def add_builtin_def Let_def)

lemma proc_entry_cong [simp]: "proc_entry (s\<lparr>fs_cur := i\<rparr>) = proc_entry s" "proc_entry (s\<lparr>fs_checks := cs\<rparr>) = proc_entry s"
  "proc_entry (s\<lparr>fs_loweringMode := m\<rparr>) = proc_entry s"
  by (simp_all add: proc_entry_def fun_eq_iff)

lemma sim_check:
  assumes "facts_ok s"
  shows "facts_ok (setCheck k on s) \<and> facts_abs (setCheck k on s) = afact_step (facts_abs s) (CSetCheck k on)"
proof (cases "upd_first (\<lambda>c. fst c = k) (\<lambda>c. (fst c, on)) (fs_checks s)")
  case None
  then have n: "lookup_by fst (fs_checks s) k = None" by (simp only: upd_first_None_iff)
  then have "k \<notin> fst ` set (fs_checks s)" by (simp only: lookup_by_None_iff not_False_eq_True)
  with n None assms show ?thesis
    by (auto simp: setCheck_def facts_ok_def facts_abs_def lookup_by_append fun_eq_iff split: option.splits)
next
  case (Some cs)
  have "lookup_by fst (fs_checks s) k \<noteq> None"
    unfolding upd_first_None_iff [symmetric, where f = "\<lambda>c. (fst c, on)"] by (simp only: Some option.distinct not_False_eq_True)
  with Some assms upd_first_lookup [OF Some] show ?thesis
    by (auto simp: setCheck_def facts_ok_def facts_abs_def fun_eq_iff)
qed

lemma sim_begin:
  assumes "facts_ok s"
  shows "facts_ok (beginProc n s) \<and> facts_abs (beginProc n s) = afact_step (facts_abs s) (CBeginProc n)"
proof (cases "beginProc_loop n (fs_procs s) 0")
  case None
  then have "n \<notin> pf_name ` set (fs_procs s)" by (simp only: beginProc_loop_None not_False_eq_True)
  moreover from this have "lookup_by pf_name (fs_procs s) n = None" by (simp add: lookup_by_None_iff)
  ultimately show ?thesis using None assms
    by (auto simp: beginProc_def facts_ok_def facts_abs_def proc_entry_def lookup_by_append fun_eq_iff nth_append
        split: option.splits)
next
  case (Some i)
  with beginProc_loop_Some [OF Some] assms show ?thesis
    by (auto simp: beginProc_def facts_ok_def facts_abs_def)
qed

definition set_verdict :: "string \<Rightarrow> string \<Rightarrow> bool \<Rightarrow> bool \<Rightarrow> ProcFacts \<Rightarrow> ProcFacts" where
  "set_verdict e t u w p = p\<lparr>pf_effect := e, pf_effectNote := t, pf_nounwind := u, pf_willReturn := w\<rparr>"

lemma set_verdict_simps [simp]:
  "pf_name (set_verdict e t u w p) = pf_name p" "pf_builtins (set_verdict e t u w p) = pf_builtins p"
  "pf_pinned (set_verdict e t u w p) = pf_pinned p" "verdict_of (set_verdict e t u w p) = (e, t, u, w)"
  "count_of (set_verdict e t u w p) = count_of p"
  by (simp_all add: set_verdict_def verdict_of_def count_of_def fun_eq_iff)

lemma setEffects_alt:
  "setEffects n e t u w s =
     (case upd_first (\<lambda>p. pf_name p = n) (set_verdict e t u w) (fs_procs s) of
        Some ps \<Rightarrow> s\<lparr>fs_procs := ps\<rparr>
      | None \<Rightarrow> s\<lparr>fs_procs := fs_procs s @ [set_verdict e t u w (emptyProc n)]\<rparr>)"
  unfolding setEffects_def set_verdict_def [abs_def] Let_def ..

lemma upd_first_Some_all:
  "upd_first P f xs = Some ys \<Longrightarrow> (\<And>x. Q x \<Longrightarrow> Q (f x)) \<Longrightarrow> list_all Q xs \<Longrightarrow> list_all Q ys"
  by (induction xs arbitrary: ys) (auto split: if_splits)

lemma upd_first_name_nth:
  "map pf_name ps = map pf_name qs \<Longrightarrow> i < length qs \<Longrightarrow> pf_name (ps ! i) = pf_name (qs ! i)"
  by (metis length_map nth_map)

lemma sim_effects:
  assumes "facts_ok s"
  shows "facts_ok (setEffects n e t u w s) \<and> facts_abs (setEffects n e t u w s) = afact_step (facts_abs s) (CSetEffects n e t u w)"
proof (cases "upd_first (\<lambda>p. pf_name p = n) (set_verdict e t u w) (fs_procs s)")
  case None
  then have n: "lookup_by pf_name (fs_procs s) n = None" by (simp only: upd_first_None_iff)
  then have "n \<notin> pf_name ` set (fs_procs s)" by (simp only: lookup_by_None_iff not_False_eq_True)
  with n None assms show ?thesis
    by (auto simp: setEffects_alt facts_ok_def facts_abs_def proc_entry_def lookup_by_append fun_eq_iff nth_append
        split: option.splits)
next
  case (Some ps)
  note l = upd_first_lookup [OF Some, simplified]
  have ok: "list_all (\<lambda>p. distinct (map bkey (pf_builtins p)) \<and> distinct (pf_pinned p)) ps"
    using assms by (intro upd_first_Some_all [OF Some]) (simp_all add: facts_ok_def)
  have "lookup_by pf_name (fs_procs s) n \<noteq> None"
    unfolding upd_first_None_iff [symmetric, where f = "set_verdict e t u w"] by (simp only: Some option.distinct not_False_eq_True)
  then obtain p where p: "lookup_by pf_name (fs_procs s) n = Some p" by blast
  have len: "length ps = length (fs_procs s)" using l(2) by (metis length_map)
  have "proc_entry (s\<lparr>fs_procs := ps\<rparr>) = (proc_entry s)(n := set_verdict e t u w (proc_entry s n))"
    using p by (auto simp: proc_entry_def l(1) fun_eq_iff)
  moreover have "facts_ok (s\<lparr>fs_procs := ps\<rparr>)" using assms l(2) ok len by (simp add: facts_ok_def)
  moreover have "0 \<le> fs_cur s \<Longrightarrow> pf_name (ps ! nat (fs_cur s)) = pf_name (fs_procs s ! nat (fs_cur s))"
    using assms by (intro upd_first_name_nth [OF l(2)]) (simp add: facts_ok_def nat_less_iff)
  ultimately show ?thesis using Some by (auto simp: setEffects_alt facts_abs_def fun_eq_iff)
qed

lemma sim_builtin:
  assumes "facts_ok s"
  shows "facts_ok (recordBuiltin op path r s) \<and>
    facts_abs (recordBuiltin op path r s) = afact_step (facts_abs s) (CRecordBuiltin op path r)"
proof (cases "fs_cur s < 0")
  case True
  with assms show ?thesis by (simp add: recordBuiltin_def facts_abs_def)
next
  case False
  then have c: "0 \<le> fs_cur s" by simp
  let ?p = "fs_procs s ! nat (fs_cur s)"
  let ?q = "?p\<lparr>pf_builtins := add_builtin op path r (pf_builtins ?p)\<rparr>"
  have lt: "nat (fs_cur s) < length (fs_procs s)" using assms c by (simp add: facts_ok_def nat_less_iff)
  have "facts_ok (s\<lparr>fs_procs := (fs_procs s)[nat (fs_cur s) := ?q]\<rparr>)"
    using facts_ok_entry [OF assms c] by (intro facts_ok_open [OF assms c]) (simp_all add: add_builtin_distinct)
  moreover have "proc_entry (s\<lparr>fs_procs := (fs_procs s)[nat (fs_cur s) := ?q]\<rparr>) = (proc_entry s)(pf_name ?p := ?q)"
    using proc_entry_update [OF assms c, of ?q] by simp
  ultimately show ?thesis
    using c lt add_builtin_count [where p = ?p and op = op and path = path and r = r] proc_entry_open [OF assms c]
    by (auto simp: recordBuiltin_alt facts_abs_def fun_eq_iff verdict_of_def)
qed

lemma sim_pinned:
  assumes "facts_ok s"
  shows "facts_ok (recordPinned x s) \<and> facts_abs (recordPinned x s) = afact_step (facts_abs s) (CRecordPinned x)"
proof (cases "fs_cur s < 0 \<or> x \<in> set (pf_pinned (fs_procs s ! nat (fs_cur s)))")
  case True
  with assms show ?thesis
    using proc_entry_open [OF assms] by (auto simp: recordPinned_def facts_abs_def Let_def fun_eq_iff)
next
  case False
  then have c: "0 \<le> fs_cur s" by simp
  let ?p = "fs_procs s ! nat (fs_cur s)"
  let ?q = "?p\<lparr>pf_pinned := pf_pinned ?p @ [x]\<rparr>"
  have lt: "nat (fs_cur s) < length (fs_procs s)" using assms c by (simp add: facts_ok_def nat_less_iff)
  have "facts_ok (s\<lparr>fs_procs := (fs_procs s)[nat (fs_cur s) := ?q]\<rparr>)"
    using facts_ok_entry [OF assms c] False by (intro facts_ok_open [OF assms c]) simp_all
  moreover have "proc_entry (s\<lparr>fs_procs := (fs_procs s)[nat (fs_cur s) := ?q]\<rparr>) = (proc_entry s)(pf_name ?p := ?q)"
    using proc_entry_update [OF assms c, of ?q] by simp
  ultimately show ?thesis
    using c lt False proc_entry_open [OF assms c]
    by (auto simp: recordPinned_def Let_def facts_abs_def fun_eq_iff verdict_of_def count_of_def)
qed

interpretation facts: simulation fact_step afact_step facts_abs facts_ok
proof unfold_locales
  fix s c
  assume "facts_ok s"
  note sims = sim_check sim_begin sim_effects sim_builtin sim_pinned
  have "facts_ok (fact_step s c) \<and> facts_abs (fact_step s c) = afact_step (facts_abs s) c"
    using sims [OF \<open>facts_ok s\<close>] \<open>facts_ok s\<close>
    by (cases c) (auto simp: setLoweringMode_def facts_ok_def facts_abs_def proc_entry_def fun_eq_iff simp del: afact_step.simps(2-6))
  then show "facts_ok (fact_step s c)" and "facts_abs (fact_step s c) = afact_step (facts_abs s) c" by auto
qed

lemma facts_ok_empty: "facts_ok emptyStore"
  by (simp add: facts_ok_def emptyStore_def)

text \<open>C23: After any sequence of calls the report agrees with what was decided: the store holds the last
  setting of every check, the last verdict of every procedure, exactly as many recordings of each
  lowering as were made while its procedure was open, and the pinned names, with one entry per
  procedure, lowering and name.\<close>
theorem fact_store_refines_its_specification:
  "facts_ok (foldl fact_step emptyStore cs) \<and>
   facts_abs (foldl fact_step emptyStore cs) = foldl afact_step (facts_abs emptyStore) cs"
  using facts.inv_run [OF facts_ok_empty] facts.sim_run [OF facts_ok_empty] by blast

end
