(* ===== verification/Lowering.thy ===== *)
theory Lowering
  imports Prelude
begin

text \<open>
  The lowering policy of \<^verbatim>\<open>src/irgen_decisions.cpp\<close>: which built-in operations have an expansion of
  their own, what a call site decides (\<open>decideInline\<close>), and the range fact a FIXED BINARY load may carry
  (\<open>fixedBinRangeFact\<close>).  The tables are transcribed in source order; the theorems state the decision as
  a closed formula and what the range promise means for the stored value.
\<close>

section \<open>Call sites and decisions\<close>

datatype InlinePath = Library | LLVM | ConstantTable

record InlineDecision =
  id_path :: InlinePath
  id_reason :: string

definition is_library :: "InlineDecision \<Rightarrow> bool" where
  "is_library d \<longleftrightarrow> id_path d = Library"

record CallSite =
  cs_constantArg :: bool
  cs_what :: "string option"

section \<open>The tables\<close>

definition runtimeDefaultTable :: "(string \<times> bool) list" where
  "runtimeDefaultTable =
     [(''assign_char'', True), (''index'', True), (''assign_varying'', True), (''high'', True),
      (''low'', True), (''uppercase'', True), (''lowercase'', True), (''reverse'', True),
      (''center'', True), (''cmp_char'', True), (''verify'', True), (''verify_from'', True),
      (''search'', True), (''tally'', True), (''substr'', True), (''substr_assign'', True),
      (''substr_assign_varying'', True), (''repeat'', True), (''translate'', True),
      (''picture'', True), (''trim'', True), (''fixed_of_float'', True), (''fixed_of_char'', True),
      (''char_of_fixed'', True), (''char_of_float'', True), (''pli_sqrt'', True),
      (''pli_exp'', True), (''pli_log'', True), (''pli_sin'', True), (''pli_cos'', True),
      (''pli_tan'', True), (''pli_log2'', True), (''pli_log10'', True), (''pli_atan'', True),
      (''pli_sinh'', True), (''pli_cosh'', True), (''pli_tanh'', True), (''pli_atanh'', True),
      (''pli_erf'', True), (''pli_erfc'', True), (''pli_sind'', True), (''pli_cosd'', True),
      (''pli_tand'', True), (''pli_atand'', True), (''pli_asin'', True), (''pli_acos'', True),
      (''pli_cbrt'', True), (''pli_atan2'', True), (''pli_rank'', True), (''pli_collate'', True),
      (''pli_isochar'', True), (''concat_const'', True), (''bit_merge'', True), (''bit_test'', True)]"

definition llvmLoweringOps :: "string list" where
  "llvmLoweringOps =
     [''assign_char'', ''index'', ''assign_varying'', ''high'', ''low'', ''uppercase'',
      ''lowercase'', ''reverse'', ''center'', ''cmp_char'', ''verify'', ''verify_from'',
      ''search'', ''tally'', ''substr'', ''substr_assign'', ''substr_assign_varying'', ''repeat'',
      ''translate'', ''picture'', ''trim'', ''fixed_of_float'', ''fixed_of_char'',
      ''char_of_fixed'', ''char_of_float'', ''pli_sqrt'', ''pli_exp'', ''pli_log'', ''pli_sin'',
      ''pli_cos'', ''pli_tan'', ''pli_log2'', ''pli_log10'', ''pli_atan'', ''pli_sinh'',
      ''pli_cosh'', ''pli_tanh'', ''pli_atanh'', ''pli_erf'', ''pli_erfc'', ''pli_sind'',
      ''pli_cosd'', ''pli_tand'', ''pli_atand'', ''pli_asin'', ''pli_acos'', ''pli_cbrt'',
      ''pli_atan2'', ''pli_rank'', ''pli_collate'', ''pli_isochar'', ''concat_const'',
      ''bit_merge'', ''bit_test'']"

definition hasLLVMLowering :: "string \<Rightarrow> bool" where
  "hasLLVMLowering op \<longleftrightarrow> op \<in> set llvmLoweringOps"

definition prefersLLVMLowering :: "string \<Rightarrow> bool" where
  "prefersLLVMLowering op = (case map_of runtimeDefaultTable op of None \<Rightarrow> False | Some b \<Rightarrow> b)"

definition indexPrefersLLVM :: "CallSite \<Rightarrow> bool" where "indexPrefersLLVM site = True"
definition verifyPrefersLLVM :: "CallSite \<Rightarrow> bool" where "verifyPrefersLLVM site = True"
definition searchPrefersLLVM :: "CallSite \<Rightarrow> bool" where "searchPrefersLLVM site = True"
definition tallyPrefersLLVM :: "CallSite \<Rightarrow> bool" where "tallyPrefersLLVM site = True"
definition substrPrefersLLVM :: "CallSite \<Rightarrow> bool" where "substrPrefersLLVM site = True"
definition repeatPrefersLLVM :: "CallSite \<Rightarrow> bool" where "repeatPrefersLLVM site = True"
definition translatePrefersLLVM :: "CallSite \<Rightarrow> bool" where "translatePrefersLLVM site = True"
definition trimPrefersLLVM :: "CallSite \<Rightarrow> bool" where "trimPrefersLLVM site = True"
definition charOfFixedPrefersLLVM :: "CallSite \<Rightarrow> bool" where "charOfFixedPrefersLLVM site = True"
definition charOfFloatPrefersLLVM :: "CallSite \<Rightarrow> bool" where "charOfFloatPrefersLLVM site = True"
definition fixedOfCharPrefersLLVM :: "CallSite \<Rightarrow> bool" where "fixedOfCharPrefersLLVM site = True"
definition fixedOfFloatPrefersLLVM :: "CallSite \<Rightarrow> bool" where "fixedOfFloatPrefersLLVM site = True"
definition mathPrefersLLVM :: "CallSite \<Rightarrow> bool" where "mathPrefersLLVM site = True"

definition builtinPredicate :: "string \<Rightarrow> (CallSite \<Rightarrow> bool) option" where
  "builtinPredicate op =
     map_of
       [(''index'', indexPrefersLLVM), (''verify'', verifyPrefersLLVM),
      (''verify_from'', verifyPrefersLLVM), (''search'', searchPrefersLLVM),
      (''tally'', tallyPrefersLLVM), (''substr'', substrPrefersLLVM),
      (''substr_assign'', substrPrefersLLVM), (''substr_assign_varying'', substrPrefersLLVM),
      (''repeat'', repeatPrefersLLVM), (''translate'', translatePrefersLLVM),
      (''trim'', trimPrefersLLVM), (''char_of_fixed'', charOfFixedPrefersLLVM),
      (''char_of_float'', charOfFloatPrefersLLVM), (''fixed_of_char'', fixedOfCharPrefersLLVM),
      (''fixed_of_float'', fixedOfFloatPrefersLLVM), (''pli_sqrt'', mathPrefersLLVM),
      (''pli_exp'', mathPrefersLLVM), (''pli_log'', mathPrefersLLVM),
      (''pli_sin'', mathPrefersLLVM), (''pli_cos'', mathPrefersLLVM),
      (''pli_tan'', mathPrefersLLVM), (''pli_log2'', mathPrefersLLVM),
      (''pli_log10'', mathPrefersLLVM), (''pli_atan'', mathPrefersLLVM),
      (''pli_sinh'', mathPrefersLLVM), (''pli_cosh'', mathPrefersLLVM),
      (''pli_tanh'', mathPrefersLLVM), (''pli_atanh'', mathPrefersLLVM),
      (''pli_erf'', mathPrefersLLVM), (''pli_erfc'', mathPrefersLLVM),
      (''pli_sind'', mathPrefersLLVM), (''pli_cosd'', mathPrefersLLVM),
      (''pli_tand'', mathPrefersLLVM), (''pli_atand'', mathPrefersLLVM),
      (''pli_asin'', mathPrefersLLVM), (''pli_acos'', mathPrefersLLVM),
      (''pli_cbrt'', mathPrefersLLVM), (''pli_atan2'', mathPrefersLLVM),
      (''pli_rank'', mathPrefersLLVM), (''pli_collate'', mathPrefersLLVM),
      (''pli_isochar'', mathPrefersLLVM)]
       op"

definition decideInline :: "string \<Rightarrow> CallSite \<Rightarrow> InlineDecision" where
  "decideInline op site =
     (if \<not> hasLLVMLowering op then
        \<lparr>id_path = Library, id_reason = ''no inline expansion for this operation''\<rparr>
      else if cs_constantArg site \<and> op \<noteq> ''picture'' then
        \<lparr>id_path = ConstantTable,
         id_reason = ''a constant '' @ (case cs_what site of Some w \<Rightarrow> w | None \<Rightarrow> ''argument'')
           @ '' becomes a compile-time table''\<rparr>
      else
        (case builtinPredicate op of
           Some pred \<Rightarrow>
             if pred site then
               \<lparr>id_path = LLVM, id_reason = ''the per-call-site predicate chooses inline''\<rparr>
             else \<lparr>id_path = Library, id_reason = ''the per-call-site predicate chooses the library call''\<rparr>
         | None \<Rightarrow>
             if prefersLLVMLowering op then
               \<lparr>id_path = LLVM, id_reason = ''the inline expansion is the default for this operation''\<rparr>
             else \<lparr>id_path = Library, id_reason = ''the library call is the default for this operation''\<rparr>))"

section \<open>The declared-precision range\<close>

record RangeSite =
  rs_storageBits :: nat
  rs_precisionChecked :: bool
  rs_privateStorage :: bool
  rs_unionMember :: bool

record RangeFact =
  rf_emit :: bool
  rf_lo :: int
  rf_hi :: int

definition fixedBinRangeFact :: "int \<Rightarrow> RangeSite \<Rightarrow> RangeFact" where
  "fixedBinRangeFact prec site =
     (let f = \<lparr>rf_emit = False, rf_lo = 0, rf_hi = 0\<rparr> in
      if prec \<le> 0 \<or> rs_storageBits site = 0 \<or> prec \<ge> int (rs_storageBits site) - 1 then f
      else if \<not> rs_precisionChecked site \<or> \<not> rs_privateStorage site \<or> rs_unionMember site then f
      else
        let lim = push_bit (nat prec) 1 :: 64 word
        in \<lparr>rf_emit = True, rf_lo = sint (- lim), rf_hi = sint lim\<rparr>)"

section \<open>The decision as a formula\<close>

lemma tables_agree: "map fst runtimeDefaultTable = llvmLoweringOps" "list_all snd runtimeDefaultTable"
  by code_simp+

lemma map_of_all_True: "list_all snd xs \<Longrightarrow> k \<in> fst ` set xs \<Longrightarrow> map_of xs k = Some True"
  by (induction xs) auto

lemma prefers_iff_has: "prefersLLVMLowering op \<longleftrightarrow> hasLLVMLowering op"
proof (cases "op \<in> fst ` set runtimeDefaultTable")
  case True
  then have "op \<in> set llvmLoweringOps" by (simp flip: tables_agree(1))
  moreover have "map_of runtimeDefaultTable op = Some True" using True tables_agree(2) by (rule map_of_all_True [rotated])
  ultimately show ?thesis by (simp add: prefersLLVMLowering_def hasLLVMLowering_def)
next
  case False
  then have "op \<notin> set llvmLoweringOps" by (simp flip: tables_agree(1))
  moreover have "map_of runtimeDefaultTable op = None" using False by (simp add: map_of_eq_None_iff)
  ultimately show ?thesis by (simp add: prefersLLVMLowering_def hasLLVMLowering_def)
qed

lemmas predicate_defs = indexPrefersLLVM_def verifyPrefersLLVM_def searchPrefersLLVM_def tallyPrefersLLVM_def substrPrefersLLVM_def repeatPrefersLLVM_def translatePrefersLLVM_def trimPrefersLLVM_def charOfFixedPrefersLLVM_def charOfFloatPrefersLLVM_def fixedOfCharPrefersLLVM_def fixedOfFloatPrefersLLVM_def mathPrefersLLVM_def

lemma predicate_true: "builtinPredicate op = Some pred \<Longrightarrow> pred site"
  unfolding builtinPredicate_def by (auto simp: predicate_defs split: if_splits)

text \<open>The decision for a built-in is total and consistent across its three tables: an operation without an
  expansion goes to the library, a constant argument (a picture apart) becomes a table, and every
  other operation with an expansion is inlined: the library is never chosen for one that has an
  expansion.\<close>
lemma decideInline_formula:
  "id_path (decideInline op site) =
     (if \<not> hasLLVMLowering op then Library
      else if cs_constantArg site \<and> op \<noteq> ''picture'' then ConstantTable
      else LLVM)"
  using prefers_iff_has [of op] predicate_true [of op _ site]
  by (auto simp: decideInline_def split: option.splits)

lemma sint_lim:
  assumes "n \<le> 62"
  shows "sint (push_bit n 1 :: 64 word) = 2 ^ n" and "sint (- push_bit n 1 :: 64 word) = - (2 ^ n)"
proof -
  have "(2 :: int) ^ n \<le> 2 ^ 62" using assms by (intro power_increasing) simp_all
  then obtain x :: int where x: "2 ^ n = x" "0 < x" "x \<le> 2 ^ 62" by simp
  have "sint (word_of_int x :: 64 word) = x" using x(2, 3) by (intro sint_of_int) simp_all
  moreover have "sint (word_of_int (- x) :: 64 word) = - x" using x(2, 3) by (intro sint_of_int) simp_all
  moreover have "(push_bit n 1 :: 64 word) = word_of_int x" by (simp add: push_bit_eq_mult flip: x(1))
  ultimately show "sint (push_bit n 1 :: 64 word) = 2 ^ n" and "sint (- push_bit n 1 :: 64 word) = - (2 ^ n)"
    by (simp_all add: x(1))
qed

lemma range_fact_values:
  assumes "rf_emit (fixedBinRangeFact p site)" and "rs_storageBits site \<le> 64"
  shows "rf_lo (fixedBinRangeFact p site) = - (2 ^ nat p)" and "rf_hi (fixedBinRangeFact p site) = 2 ^ nat p"
    and "nat p < rs_storageBits site - 1"
proof -
  have p: "0 < p" "p < int (rs_storageBits site) - 1"
    using assms(1) by (auto simp: fixedBinRangeFact_def Let_def split: if_splits)
  then have n: "nat p \<le> 62" using assms(2) by linarith
  show "rf_lo (fixedBinRangeFact p site) = - (2 ^ nat p)" and "rf_hi (fixedBinRangeFact p site) = 2 ^ nat p"
    using assms(1) sint_lim [OF n] by (auto simp: fixedBinRangeFact_def Let_def split: if_splits)
  show "nat p < rs_storageBits site - 1" using p by linarith
qed

text \<open>A range is promised for a FIXED BINARY(p) load exactly when SIZE enforces the precision, the storage is
  the item's own and the declared range is smaller than the slot; the promise then is the half-open
  interval of the declared values, strictly inside the integer type loaded.\<close>
lemma range_fact_is_the_declared_range:
  assumes "rs_storageBits site \<le> 64"
  shows "(rf_emit (fixedBinRangeFact p site) \<longleftrightarrow>
      0 < p \<and> p < int (rs_storageBits site) - 1 \<and> rs_precisionChecked site \<and> rs_privateStorage site \<and> \<not> rs_unionMember site) \<and>
    (rf_emit (fixedBinRangeFact p site) \<longrightarrow>
      (\<forall>v. rf_lo (fixedBinRangeFact p site) \<le> v \<and> v < rf_hi (fixedBinRangeFact p site) \<longleftrightarrow> - (2 ^ nat p) \<le> v \<and> v \<le> 2 ^ nat p - 1) \<and>
      - (2 ^ (rs_storageBits site - 1)) < rf_lo (fixedBinRangeFact p site) \<and>
      rf_hi (fixedBinRangeFact p site) < 2 ^ (rs_storageBits site - 1))"
proof
  show "rf_emit (fixedBinRangeFact p site) \<longleftrightarrow>
      0 < p \<and> p < int (rs_storageBits site) - 1 \<and> rs_precisionChecked site \<and> rs_privateStorage site \<and> \<not> rs_unionMember site"
    by (auto simp: fixedBinRangeFact_def Let_def)
  show "rf_emit (fixedBinRangeFact p site) \<longrightarrow>
      (\<forall>v. rf_lo (fixedBinRangeFact p site) \<le> v \<and> v < rf_hi (fixedBinRangeFact p site) \<longleftrightarrow> - (2 ^ nat p) \<le> v \<and> v \<le> 2 ^ nat p - 1) \<and>
      - (2 ^ (rs_storageBits site - 1)) < rf_lo (fixedBinRangeFact p site) \<and>
      rf_hi (fixedBinRangeFact p site) < 2 ^ (rs_storageBits site - 1)"
    using range_fact_values [OF _ assms, of p] by auto
qed

end
