(* ===== verification/Folds.thy ===== *)
theory Folds
  imports Prelude
begin

text \<open>
  The compile-time tables and plans of \<^verbatim>\<open>src/irgen_decisions.cpp\<close>: the text of a constant REPEAT, the
  membership table of SEARCH and VERIFY, the byte map of TRANSLATE, the store plan of a concatenation
  and the merged mask of two bit tests.  Each is compared with the operation it replaces.
\<close>

section \<open>The folds\<close>

definition foldRepeatText :: "string \<Rightarrow> int \<Rightarrow> string" where
  "foldRepeatText src count =
     (if src = [] \<or> count \<le> 0 then []
      else if count > 2 ^ 20 \<or> int (length src) * count > 2 ^ 20 then []
      else ((\<lambda>text. text @ src) ^^ nat count) [])"

definition searchTableBytes :: "string \<Rightarrow> string" where
  "searchTableBytes alphabet = foldl (\<lambda>bytes c. bytes[ucode c := CHR 0x01]) (replicate 256 NUL) alphabet"

text \<open>The loop of \<open>translateTableBytes\<close> over the indices of \<open>in\<close>: the table and the flags.\<close>

fun translate_loop :: "string \<Rightarrow> string \<Rightarrow> nat \<Rightarrow> string \<times> bool list \<Rightarrow> string \<times> bool list" where
  "translate_loop out [] j (bytes, mapped) = (bytes, mapped)"
| "translate_loop out (x # xs) j (bytes, mapped) =
     (let c = ucode x in
      if mapped ! c then translate_loop out xs (Suc j) (bytes, mapped)
      else translate_loop out xs (Suc j)
             (bytes[c := (if j < length out then out ! j else CHR '' '')], mapped[c := True]))"

definition translateTableBytes :: "string \<Rightarrow> string \<Rightarrow> string" where
  "translateTableBytes out inp =
     fst (translate_loop out inp 0 (map char_of [0 ..< 256 :: nat], replicate 256 False))"

record ConcatStorePlan =
  cp_ok :: bool
  cp_sizes :: "int list"
  cp_used :: int
  cp_pad :: int

fun concat_loop :: "int \<Rightarrow> int list \<Rightarrow> int list \<times> int \<Rightarrow> int list \<times> int" where
  "concat_loop cap [] (sizes, used) = (sizes, used)"
| "concat_loop cap (l # ls) (sizes, used) =
     (let room = cap - used; tk = (if l < room then l else room)
      in concat_loop cap ls (sizes @ [tk], used + tk))"

definition planConcatStore :: "int list \<Rightarrow> int \<Rightarrow> ConcatStorePlan" where
  "planConcatStore leafLen cap =
     (let plan = \<lparr>cp_ok = False, cp_sizes = [], cp_used = 0, cp_pad = 0\<rparr> in
      if cap \<le> 0 then plan
      else if list_ex (\<lambda>l. l < 0) leafLen then plan
      else
        let (sizes, used) = concat_loop cap leafLen ([], 0)
        in \<lparr>cp_ok = True, cp_sizes = sizes, cp_used = used, cp_pad = cap - used\<rparr>)"

record BitTestMerge =
  bm_ok :: bool
  bm_mask :: string
  bm_want :: string

text \<open>The position-wise loop of \<open>mergeBitTests\<close> over the characters of the four equally long strings:
  \<^const>\<open>None\<close> is the early return.\<close>

fun merge_loop :: "(char \<times> char \<times> char \<times> char) list \<Rightarrow> (string \<times> string) option" where
  "merge_loop [] = Some ([], [])"
| "merge_loop ((a, p, b, q) # cs) =
     (let m1 = (a = CHR ''1''); m2 = (b = CHR ''1''); w1 = (p = CHR ''1''); w2 = (q = CHR ''1'') in
      if m1 \<and> m2 then None
      else if w1 \<and> \<not> m1 \<or> w2 \<and> \<not> m2 then None
      else
        (case merge_loop cs of
           None \<Rightarrow> None
         | Some (ms, ws) \<Rightarrow>
             Some ((if m1 \<or> m2 then CHR ''1'' else CHR ''0'') # ms, (if w1 \<or> w2 then CHR ''1'' else CHR ''0'') # ws)))"

definition mergeBitTests :: "string \<Rightarrow> string \<Rightarrow> string \<Rightarrow> string \<Rightarrow> BitTestMerge" where
  "mergeBitTests mask1 want1 mask2 want2 =
     (let merge = \<lparr>bm_ok = False, bm_mask = [], bm_want = []\<rparr> in
      if length mask1 \<noteq> length mask2 \<or> length mask1 \<noteq> length want1 \<or> length mask1 \<noteq> length want2 then merge
      else
        (case merge_loop (zip mask1 (zip want1 (zip mask2 want2))) of
           None \<Rightarrow> merge
         | Some (ms, ws) \<Rightarrow> \<lparr>bm_ok = True, bm_mask = ms, bm_want = ws\<rparr>))"

section \<open>REPEAT and the tables\<close>

lemma funpow_append: "((\<lambda>t. t @ s) ^^ n) [] = concat (replicate n s)"
proof (induction n)
  case (Suc n)
  have "concat (replicate n s) @ s = s @ concat (replicate n s)" by (induction n) auto
  with Suc show ?case by simp
qed simp

lemma searchTable_fold:
  "length bytes = 256 \<Longrightarrow>
     length (foldl (\<lambda>bytes c. bytes[ucode c := CHR 0x01]) bytes al) = 256 \<and>
     (\<forall>i < 256. foldl (\<lambda>bytes c. bytes[ucode c := CHR 0x01]) bytes al ! i
        = (if i \<in> ucode ` set al then CHR 0x01 else bytes ! i))"
proof (induction al arbitrary: bytes)
  case (Cons a al)
  from Cons.IH [of "bytes[ucode a := CHR 0x01]"] Cons.prems show ?case
    by (auto simp: nth_list_update)
qed simp

text \<open>The membership table answers the question the scan answers: entry \<open>c\<close> is set exactly when the byte occurs
  in the alphabet.\<close>
lemma search_table_is_membership:
  "length (searchTableBytes al) = 256 \<and> (searchTableBytes al ! ucode c \<noteq> NUL \<longleftrightarrow> c \<in> set al)"
proof -
  have "ucode c \<in> ucode ` set al \<longleftrightarrow> c \<in> set al" by (auto simp: image_iff)
  then show ?thesis using searchTable_fold [of "replicate 256 NUL" al] by (simp add: searchTableBytes_def)
qed

text \<open>The scan TRANSLATE would make for one byte: the first occurrence in \<open>inp\<close> decides.\<close>

fun translate_scan :: "string \<Rightarrow> string \<Rightarrow> nat \<Rightarrow> char \<Rightarrow> char" where
  "translate_scan out [] j c = c"
| "translate_scan out (x # xs) j c =
     (if x = c then (if j < length out then out ! j else CHR '' '') else translate_scan out xs (Suc j) c)"

lemma translate_loop_inv:
  assumes "length bytes = 256" and "length mapped = 256"
  shows "length (fst (translate_loop out xs j (bytes, mapped))) = 256 \<and>
    fst (translate_loop out xs j (bytes, mapped)) ! ucode c =
      (if mapped ! ucode c \<or> c \<notin> set xs then bytes ! ucode c else translate_scan out xs j c)"
  using assms
proof (induction xs arbitrary: j bytes mapped)
  case (Cons x xs)
  show ?case
  proof (cases "mapped ! ucode x")
    case True
    with Cons show ?thesis by (auto simp: Let_def)
  next
    case False
    with Cons.prems Cons.IH [of "bytes[ucode x := (if j < length out then out ! j else CHR '' '')]" "mapped[ucode x := True]" "Suc j"]
    show ?thesis by (auto simp: Let_def nth_list_update)
  qed
qed simp

lemma translate_scan_absent: "c \<notin> set xs \<Longrightarrow> translate_scan out xs j c = c"
  by (induction xs arbitrary: j) auto

text \<open>The translate table is the scan evaluated once per byte value: each byte maps to the character at the first
  occurrence, to a blank past the end of the replacement text, and to itself when it does not occur.\<close>
lemma translate_table_is_scan:
  "length (translateTableBytes out inp) = 256 \<and> translateTableBytes out inp ! ucode c = translate_scan out inp 0 c"
proof -
  have "map char_of [0 ..< 256 :: nat] ! ucode c = c" by (simp add: nth_map)
  then show ?thesis
    using translate_loop_inv [of "map char_of [0 ..< 256 :: nat]" "replicate 256 False" out inp 0 c]
    by (simp add: translateTableBytes_def translate_scan_absent)
qed

section \<open>The store plan of a concatenation\<close>

lemma concat_loop_sizes:
  assumes "0 \<le> used" and "used \<le> cap"
  shows "\<exists>ts. concat_loop cap (map (int \<circ> length) leaves) (sizes, used) = (sizes @ map int ts, used + int (sum_list ts)) \<and>
     length ts = length leaves \<and> used + int (sum_list ts) \<le> cap \<and>
     concat (map2 take ts leaves) = take (nat (cap - used)) (concat leaves) \<and>
     int (sum_list ts) = min (int (length (concat leaves))) (cap - used)"
  using assms
proof (induction leaves arbitrary: sizes used)
  case (Cons l ls)
  let ?t = "min (length l) (nat (cap - used))"
  have tk: "(if int (length l) < cap - used then int (length l) else cap - used) = int ?t" using Cons.prems by auto
  have u: "0 \<le> used + int ?t" "used + int ?t \<le> cap" using Cons.prems by auto
  from Cons.IH [OF u, of "sizes @ [int ?t]"] obtain ts where
    ts: "concat_loop cap (map (int \<circ> length) ls) (sizes @ [int ?t], used + int ?t) = ((sizes @ [int ?t]) @ map int ts, used + int ?t + int (sum_list ts))"
      "length ts = length ls" "used + int ?t + int (sum_list ts) \<le> cap"
      "concat (map2 take ts ls) = take (nat (cap - (used + int ?t))) (concat ls)"
      "int (sum_list ts) = min (int (length (concat ls))) (cap - (used + int ?t))" by blast
  have "nat (cap - (used + int ?t)) = nat (cap - used) - length l" using Cons.prems by linarith
  then have "take (nat (cap - (used + int ?t))) (concat ls) = take (nat (cap - used) - length l) (concat ls)" by simp
  moreover have "take ?t l = take (nat (cap - used)) l" by (simp add: min_def)
  ultimately have "concat (map2 take (?t # ts) (l # ls)) = take (nat (cap - used)) (concat (l # ls))" using ts(4) by simp
  moreover have "int (sum_list (?t # ts)) = min (int (length (concat (l # ls)))) (cap - used)" using ts(5) Cons.prems by auto
  moreover have "concat_loop cap (map (int \<circ> length) (l # ls)) (sizes, used) =
      (sizes @ map int (?t # ts), used + int (sum_list (?t # ts)))"
    using ts(1) tk by (simp add: Let_def add.assoc)
  moreover have "used + int (sum_list (?t # ts)) \<le> cap" using ts(3) by (simp add: add.assoc)
  moreover have "length (?t # ts) = length (l # ls)" using ts(2) by simp
  ultimately show ?case by blast
qed (auto simp: min_def)

text \<open>C24: Storing each leaf's planned bytes one after the other and then the planned blanks leaves in the target exactly
  what assigning the concatenation to a CHARACTER of \<open>cap\<close> bytes does: its leftmost \<open>cap\<close> characters,
  blank-padded to \<open>cap\<close>.\<close>
theorem concat_plan_stores_the_concatenation:
  fixes leaves :: "string list"
  assumes "0 < cap"
  defines "plan \<equiv> planConcatStore (map (\<lambda>l. int (length l)) leaves) cap"
  shows "cp_ok plan \<and>
    concat (map2 (\<lambda>n l. take (nat n) l) (cp_sizes plan) leaves) @ replicate (nat (cp_pad plan)) CHR '' '' =
      take (nat cap) (concat leaves @ replicate (nat cap) CHR '' '')"
proof -
  obtain ts where
    ts: "concat_loop cap (map (int \<circ> length) leaves) ([], 0) = (map int ts, int (sum_list ts))"
      "concat (map2 take ts leaves) = take (nat cap) (concat leaves)"
      "int (sum_list ts) = min (int (length (concat leaves))) cap"
    using concat_loop_sizes [of 0 cap leaves "[]"] assms(1) by auto
  have "plan = \<lparr>cp_ok = True, cp_sizes = map int ts, cp_used = int (sum_list ts), cp_pad = cap - int (sum_list ts)\<rparr>"
    using assms(1) ts(1) by (auto simp: plan_def planConcatStore_def Let_def list_ex_iff comp_def)
  moreover have "map2 (\<lambda>n l. take (nat n) l) (map int ts) leaves = map2 take ts leaves"
    by (simp add: zip_map1 comp_def case_prod_beta)
  moreover have "nat (cap - int (sum_list ts)) = nat cap - length (concat leaves)"
    using ts(3) assms(1) by (auto simp: min_def nat_diff_distrib')
  ultimately show ?thesis using ts(2) by (simp add: min_def)
qed

theorem concat_plan_stores_the_concatenation_witness:
  "concat (map2 (\<lambda>n l. take (nat n) l) (cp_sizes (planConcatStore [2, 3] 4)) [''AB'', ''CDE'']) = ''ABCD''"
proof -
  have "cp_pad (planConcatStore [2, 3] 4) = 0" by code_simp
  then show ?thesis using concat_plan_stores_the_concatenation [of 4 "[''AB'', ''CDE'']"] by (simp add: numeral_eq_Suc)
qed

section \<open>Merged bit tests\<close>

text \<open>The test \<open>(X & M) = W\<close> on bit strings of one length.\<close>

definition bit_test :: "bool list \<Rightarrow> string \<Rightarrow> string \<Rightarrow> bool" where
  "bit_test x m w \<longleftrightarrow> list_all (\<lambda>(b, mc, wc). (b \<and> mc = CHR ''1'') = (wc = CHR ''1'')) (zip x (zip m w))"

lemma merge_loop_test:
  assumes "length m1 = length x" "length w1 = length x" "length m2 = length x" "length w2 = length x"
    and "merge_loop (zip m1 (zip w1 (zip m2 w2))) = Some (ms, ws)"
  shows "length ms = length x \<and> length ws = length x \<and> (bit_test x ms ws \<longleftrightarrow> bit_test x m1 w1 \<and> bit_test x m2 w2)"
  using assms
proof (induction x arbitrary: m1 w1 m2 w2 ms ws)
  case (Cons b x)
  then obtain a p c q m1' w1' m2' w2' where
    e: "m1 = a # m1'" "w1 = p # w1'" "m2 = c # m2'" "w2 = q # w2'" by (metis length_Suc_conv)
  with Cons.prems(5) obtain ms' ws' where r: "merge_loop (zip m1' (zip w1' (zip m2' w2'))) = Some (ms', ws')"
    by (auto simp: Let_def split: if_splits option.splits)
  have "length ms' = length x \<and> length ws' = length x \<and> (bit_test x ms' ws' \<longleftrightarrow> bit_test x m1' w1' \<and> bit_test x m2' w2')"
    using Cons.prems e by (intro Cons.IH [OF _ _ _ _ r]) simp_all
  with Cons.prems(5) r e show ?case by (auto simp: bit_test_def Let_def split: if_splits)
qed (simp add: bit_test_def)

text \<open>When two bit tests of one value are merged, the merged test decides exactly their conjunction, for every
  value of that length.\<close>
lemma merged_test_is_the_conjunction:
  assumes "bm_ok (mergeBitTests m1 w1 m2 w2)" and "length x = length m1"
  shows "bit_test x (bm_mask (mergeBitTests m1 w1 m2 w2)) (bm_want (mergeBitTests m1 w1 m2 w2)) \<longleftrightarrow>
    bit_test x m1 w1 \<and> bit_test x m2 w2"
proof -
  from assms(1) have l: "length m1 = length m2" "length m1 = length w1" "length m1 = length w2"
    unfolding mergeBitTests_def Let_def by (simp_all split: if_splits)
  then obtain ms ws where r: "merge_loop (zip m1 (zip w1 (zip m2 w2))) = Some (ms, ws)"
    using assms(1) unfolding mergeBitTests_def Let_def by (simp split: option.splits) auto
  then have "mergeBitTests m1 w1 m2 w2 = \<lparr>bm_ok = True, bm_mask = ms, bm_want = ws\<rparr>"
    using l unfolding mergeBitTests_def Let_def by simp
  moreover have "length m1 = length x" "length w1 = length x" "length m2 = length x" "length w2 = length x"
    using l assms(2) by linarith+
  from merge_loop_test [OF this r] have "bit_test x ms ws \<longleftrightarrow> bit_test x m1 w1 \<and> bit_test x m2 w2" by blast
  ultimately show ?thesis by simp
qed

text \<open>A folded REPEAT is the repeated text, and folding stops at a mebibyte.\<close>
lemma repeat_text_is_the_repetition:
  "foldRepeatText src n = (if 0 < n \<and> n \<le> 2 ^ 20 \<and> int (length src) * n \<le> 2 ^ 20 then concat (replicate (nat n) src) else [])"
  by (auto simp: foldRepeatText_def funpow_append)

end
