(* ===== verification/Hir.thy ===== *)
theory Hir
  imports Ast
begin

text \<open>
  \<^verbatim>\<open>src/hir.h\<close> and the symbol record of \<^verbatim>\<open>src/sema.h\<close>: the tree the decision layer reads.  As in the syntax
  tree, the scalar members of a node are a record and the owned children are arguments of the datatype.
  Pointers to shared objects are numbers: a \<^verbatim>\<open>Symbol*\<close> indexes the symbol table, a \<^verbatim>\<open>Proc*\<close> names an AST
  procedure and a \<^verbatim>\<open>HProc*\<close> is the position of the procedure in \<^verbatim>\<open>HProgram::procs\<close>.  The symbol, the
  declaration item and the statement carry the members the analyses read; the options of I/O, ALLOCATE and CALL statements, which neither reads, are left out.
\<close>

section \<open>Symbols\<close>

datatype SymKind = SK_Var | SK_Param | SK_ProcName | SK_Generic

record Symbol =
  sy_name :: string
  sy_ty :: PType
  sy_kind :: SymKind
  sy_isStatic :: bool
  sy_external :: bool
  sy_isEntry :: bool
  sy_isEntryVar :: bool
  sy_proc :: "nat option"
  sy_owner :: "nat option"
  sy_definedBase :: "nat option"
  sy_basedBase :: "nat option"
  sy_basedNoPtr :: bool
  sy_controlled :: bool
  sy_loc :: SourceLoc
  sy_implicit :: bool
  sy_isValue :: bool
  sy_isCond :: bool
  sy_fileAttr :: bool
  sy_irName :: string
  sy_initExpr :: "Expr option"
  sy_initElems :: "Expr list"
  sy_initCall :: "Expr option"
  sy_fileSlot :: int
  sy_genericEntries :: "(string \<times> PType) list"

definition default_symbol :: Symbol where
  "default_symbol = \<lparr>sy_name = [], sy_ty = Type default_attrs [], sy_kind = SK_Var, sy_isStatic = False, sy_external = False,
     sy_isEntry = False, sy_isEntryVar = False, sy_proc = None, sy_owner = None, sy_definedBase = None,
     sy_basedBase = None, sy_basedNoPtr = False, sy_controlled = False,
     sy_loc = \<lparr>loc_line = 0, loc_col = 0\<rparr>, sy_implicit = False, sy_isValue = False, sy_isCond = False,
     sy_fileAttr = False, sy_irName = [], sy_initExpr = None, sy_initElems = [], sy_initCall = None,
     sy_fileSlot = - 1, sy_genericEntries = []\<rparr>"

definition isBased :: "Symbol \<Rightarrow> bool" where
  "isBased s \<longleftrightarrow> sy_basedBase s \<noteq> None \<or> sy_basedNoPtr s"

section \<open>Expressions\<close>

datatype HExprKind =
  HE_IntLit | HE_FltLit | HE_DecLit | HE_CharLit | HE_BitLit | HE_VarRef | HE_Binary | HE_Unary | HE_Call
| HE_Subscript | HE_Star | HE_ComplexLit | HE_Convert | HE_TypeTag

record hexpr_attrs =
  h_kind :: HExprKind
  h_loc :: SourceLoc
  h_ty :: PType
  h_ival :: int
  h_wideIval :: "128 word"
  h_fval :: "64 word"
  h_decScale :: int
  h_decPrec :: int
  h_sval :: string
  h_name :: string
  h_path :: "string list"
  h_memberPath :: "nat list"
  h_sym :: "nat option"
  h_op :: Tok
  h_convTo :: PType
  h_isLabel :: bool

datatype HExpr =
  HExpr (ha: hexpr_attrs) (hlocPtr: "HExpr option") (hopa: "HExpr option") (hopb: "HExpr option") (hargs: "HExpr list")

definition default_hexpr :: hexpr_attrs where
  "default_hexpr = \<lparr>h_kind = HE_IntLit, h_loc = \<lparr>loc_line = 0, loc_col = 0\<rparr>, h_ty = Type default_attrs [], h_ival = 0,
     h_wideIval = 0, h_fval = 0, h_decScale = 0, h_decPrec = 0, h_sval = [], h_name = [], h_path = [],
     h_memberPath = [], h_sym = None, h_op = Tok_Eof, h_convTo = Type default_attrs [], h_isLabel = False\<rparr>"

abbreviation hkind :: "HExpr \<Rightarrow> HExprKind" where "hkind e \<equiv> h_kind (ha e)"
abbreviation hty :: "HExpr \<Rightarrow> PType" where "hty e \<equiv> h_ty (ha e)"

section \<open>Statements and procedures\<close>

record HDeclItem =
  di_name :: string
  di_init :: "HExpr option"
  di_initCall :: "HExpr option"
  di_dynLenBound :: "HExpr option"

datatype HStmtKind =
  HS_Null | HS_Declare | HS_Assign | HS_If | HS_Group | HS_Begin | HS_DoWhile | HS_DoIter | HS_Put | HS_Get
| HS_CallS | HS_Return | HS_Stop | HS_Goto | HS_Entry | HS_Allocate | HS_Free | HS_Open | HS_Close | HS_Leave
| HS_Iterate | HS_On | HS_Revert | HS_Signal | HS_Display | HS_Read | HS_Write | HS_Rewrite | HS_Delete
| HS_Wait | HS_Delay | HS_Format

record hstmt_attrs =
  s_kind :: HStmtKind
  s_decls :: "HDeclItem list"
  s_target :: "HExpr option"
  s_value :: "HExpr option"
  s_cond :: "HExpr option"
  s_from :: "HExpr option"
  s_to :: "HExpr option"
  s_by :: "HExpr option"
  s_extraTargets :: "HExpr list"
  s_sym :: "nat option"
  s_items :: "HExpr list"
  s_stringTarget :: "HExpr option"
  s_args :: "HExpr list"
  s_condKey :: int
  s_oncodeExpr :: "HExpr option"

datatype HStmt =
  HStmt (sa: hstmt_attrs) (thenS: "HStmt option") (elseS: "HStmt option") (sbody: "HStmt list") (sunit: "HStmt option")

definition default_hstmt :: hstmt_attrs where
  "default_hstmt = \<lparr>s_kind = HS_Null, s_decls = [], s_target = None, s_value = None, s_cond = None, s_from = None,
     s_to = None, s_by = None, s_extraTargets = [], s_sym = None, s_items = [], s_stringTarget = None,
     s_args = [], s_condKey = 0, s_oncodeExpr = None\<rparr>"

record HProc =
  hp_name :: string
  hp_isMain :: bool
  hp_isExternal :: bool
  hp_isRecursive :: bool
  hp_isFunction :: bool
  hp_retTy :: PType
  hp_isPackage :: bool
  hp_body :: "HStmt list"
  hp_paramSyms :: "nat list"
  hp_src :: "nat option"

type_synonym HProgram = "HProc list"

text \<open>The objects the tree points to: the symbol table and the PACKAGE flag of each AST procedure.\<close>

record symtab =
  tab_sym :: "nat \<Rightarrow> Symbol"
  tab_isPackage :: "nat \<Rightarrow> bool"

section \<open>The alias taxonomy\<close>

datatype AliasClass = AC_Disjoint | AC_Shares | AC_Unknown

definition aliasClass :: "Symbol option \<Rightarrow> AliasClass" where
  "aliasClass so =
     (case so of
        None \<Rightarrow> AC_Unknown
      | Some s \<Rightarrow>
          if isBased s then AC_Unknown
          else if sy_definedBase s \<noteq> None then AC_Shares
          else if sy_controlled s then AC_Shares
          else if sy_external s \<or> sy_isStatic s then AC_Shares
          else if sy_kind s = SK_Param then AC_Shares
          else if sy_kind s = SK_ProcName \<or> sy_isEntryVar s then AC_Shares
          else AC_Disjoint)"

end
