(* ===== verification/Published.thy ===== *)
theory Published
  imports Prelude
begin

text \<open>
  The published-effects file of \<^verbatim>\<open>src/irgen_decisions.cpp\<close>: the memory-effect ladder, one procedure's
  verdict, and the line format that carries it to another compilation unit.  Reading a line back gives
  the verdict that was written, and a line is accepted only when every word of it is understood.
\<close>

section \<open>Verdicts\<close>

datatype MemEffect = ME_Unknown | ME_Read | ME_ArgRead | ME_ArgReadWrite | ME_None

record ProcEffects =
  pe_effect :: MemEffect
  pe_nounwind :: bool
  pe_willReturn :: bool
  pe_note :: string

definition defaultEffects :: ProcEffects where
  "defaultEffects = \<lparr>pe_effect = ME_Unknown, pe_nounwind = False, pe_willReturn = False, pe_note = []\<rparr>"

section \<open>The line format\<close>

fun effectToken :: "MemEffect \<Rightarrow> string" where
  "effectToken ME_None = ''none''"
| "effectToken ME_ArgRead = ''argmem-read''"
| "effectToken ME_ArgReadWrite = ''argmem-readwrite''"
| "effectToken ME_Read = ''read''"
| "effectToken ME_Unknown = ''readwrite''"

definition formatEffectLine :: "string \<Rightarrow> ProcEffects \<Rightarrow> string \<Rightarrow> string" where
  "formatEffectLine name e digest =
     name @ '' '' @ digest @ '' '' @ effectToken (pe_effect e)
     @ (if pe_nounwind e then '' nounwind'' else []) @ (if pe_willReturn e then '' willreturn'' else [])"

text \<open>\<^verbatim>\<open>in >> tok\<close> on a string stream: skip white space, then take the bytes up to the next white space; it
  fails at the end of the text.\<close>

definition next_tok :: "string \<Rightarrow> (string \<times> string) option" where
  "next_tok s =
     (let r = dropWhile c_isspace s
      in if r = [] then None else Some (takeWhile (\<lambda>c. \<not> c_isspace c) r, dropWhile (\<lambda>c. \<not> c_isspace c) r))"

lemma next_tok_shorter: "next_tok s = Some (t, r) \<Longrightarrow> length r < length s"
proof -
  assume a: "next_tok s = Some (t, r)"
  define d where "d = dropWhile c_isspace s"
  have "d \<noteq> []" "r = dropWhile (\<lambda>c. \<not> c_isspace c) d" using a by (auto simp: next_tok_def d_def Let_def split: if_splits)
  moreover from this(1) have "\<not> c_isspace (hd d)" unfolding d_def by (rule hd_dropWhile)
  ultimately have "r = dropWhile (\<lambda>c. \<not> c_isspace c) (tl d)" by (cases d) auto
  then have "length r \<le> length (tl d)" by (simp only: length_dropWhile_le)
  also have "\<dots> < length d" using \<open>d \<noteq> []\<close> by simp
  also have "length d \<le> length s" unfolding d_def by (rule length_dropWhile_le)
  finally show ?thesis .
qed

text \<open>One flag of the line: the verdict so far and whether an effect was seen; \<^const>\<open>None\<close> is the refusal.\<close>

definition parse_flag :: "string \<Rightarrow> ProcEffects \<times> bool \<Rightarrow> (ProcEffects \<times> bool) option" where
  "parse_flag tok st =
     (case st of (e, saw) \<Rightarrow>
        if tok = ''none'' then Some (e\<lparr>pe_effect := ME_None\<rparr>, True)
        else if tok = ''argmem-read'' then Some (e\<lparr>pe_effect := ME_ArgRead\<rparr>, True)
        else if tok = ''argmem-readwrite'' then Some (e\<lparr>pe_effect := ME_ArgReadWrite\<rparr>, True)
        else if tok = ''read'' then Some (e\<lparr>pe_effect := ME_Read\<rparr>, True)
        else if tok = ''readwrite'' then Some (e\<lparr>pe_effect := ME_Unknown\<rparr>, True)
        else if tok = ''nounwind'' then Some (e\<lparr>pe_nounwind := True\<rparr>, saw)
        else if tok = ''willreturn'' then Some (e\<lparr>pe_willReturn := True\<rparr>, saw)
        else None)"

function parse_flags :: "string \<Rightarrow> ProcEffects \<times> bool \<Rightarrow> (ProcEffects \<times> bool) option" where
  "parse_flags s st =
     (case next_tok s of
        None \<Rightarrow> Some st
      | Some (tok, rest) \<Rightarrow> (case parse_flag tok st of None \<Rightarrow> None | Some st1 \<Rightarrow> parse_flags rest st1))"
  by pat_completeness auto

termination parse_flags
  by (relation "measure (\<lambda>(s, st). length s)") (auto dest: next_tok_shorter)

declare parse_flags.simps [simp del]

definition parseEffectLine :: "string \<Rightarrow> (string \<times> ProcEffects \<times> string) option" where
  "parseEffectLine line =
     (case next_tok line of
        None \<Rightarrow> None
      | Some (name, r1) \<Rightarrow>
          (case next_tok r1 of
             None \<Rightarrow> None
           | Some (digest, r2) \<Rightarrow>
               (case parse_flags r2 (defaultEffects, False) of
                  None \<Rightarrow> None
                | Some (e, sawEffect) \<Rightarrow> if sawEffect then Some (name, e, digest) else None)))"

definition kPublishedEffectsHeader :: string where
  "kPublishedEffectsHeader = ''# pli published effects v1''"

section \<open>Reading back what was written\<close>

definition word_text :: "string \<Rightarrow> bool" where
  "word_text w \<longleftrightarrow> w \<noteq> [] \<and> list_all (\<lambda>c. \<not> c_isspace c) w"

lemma takeWhile_word: "list_all P w \<Longrightarrow> \<not> P c \<Longrightarrow> takeWhile P (w @ c # r) = w \<and> dropWhile P (w @ c # r) = c # r"
  by (induction w) auto

lemma space_is_space [simp]: "c_isspace CHR '' ''"
  by (simp add: c_isspace_def)

lemma word_text_dropWhile: "word_text w \<Longrightarrow> dropWhile c_isspace (w @ r) = w @ r"
  by (cases w) (auto simp: word_text_def)

lemma next_tok_word: "word_text w \<Longrightarrow> next_tok (w @ CHR '' '' # r) = Some (w, CHR '' '' # r)"
  using takeWhile_word [of "\<lambda>c. \<not> c_isspace c" w "CHR '' ''" r]
  by (simp add: next_tok_def word_text_dropWhile word_text_def)

lemma next_tok_last: "word_text w \<Longrightarrow> next_tok w = Some (w, [])"
  using word_text_dropWhile [of w "[]"]
  by (simp add: next_tok_def word_text_def list_all_iff takeWhile_eq_all_conv [THEN iffD2] dropWhile_eq_Nil_conv [THEN iffD2])

lemma next_tok_blank: "next_tok (CHR '' '' # s) = next_tok s"
  by (simp add: next_tok_def)

lemma next_tok_Nil [simp]: "next_tok [] = None"
  by (simp add: next_tok_def)

text \<open>The stream as its list of words.\<close>

function stream_words :: "string \<Rightarrow> string list" where
  "stream_words s = (case next_tok s of None \<Rightarrow> [] | Some (t, r) \<Rightarrow> t # stream_words r)"
  by pat_completeness auto

termination stream_words
  by (relation "measure length") (auto dest: next_tok_shorter)

declare stream_words.simps [simp del]

fun flags_of :: "string list \<Rightarrow> ProcEffects \<times> bool \<Rightarrow> (ProcEffects \<times> bool) option" where
  "flags_of [] st = Some st"
| "flags_of (t # ts) st = (case parse_flag t st of None \<Rightarrow> None | Some st1 \<Rightarrow> flags_of ts st1)"

lemma parse_flags_words: "parse_flags s st = flags_of (stream_words s) st"
proof (induction s st rule: parse_flags.induct)
  case (1 s st)
  show ?case
  proof (cases "next_tok s")
    case None
    then show ?thesis by (simp add: parse_flags.simps [of s] stream_words.simps [of s])
  next
    case (Some p)
    obtain t r where p: "p = (t, r)" by fastforce
    with Some show ?thesis using "1.IH" [of "(t, r)" t r]
      by (auto simp: parse_flags.simps [of s] stream_words.simps [of s] split: option.splits)
  qed
qed

lemma parseEffectLine_words:
  "parseEffectLine line =
     (case stream_words line of
        name # digest # fs \<Rightarrow>
          (case flags_of fs (defaultEffects, False) of
             Some (e, True) \<Rightarrow> Some (name, e, digest)
           | _ \<Rightarrow> None)
      | _ \<Rightarrow> None)"
proof (cases "next_tok line")
  case None
  then show ?thesis by (simp add: parseEffectLine_def stream_words.simps [of line])
next
  case (Some p)
  obtain n r where p: "p = (n, r)" by fastforce
  show ?thesis
  proof (cases "next_tok r")
    case None
    with Some p show ?thesis by (simp add: parseEffectLine_def stream_words.simps [of line] stream_words.simps [of r])
  next
    case (Some q)
    obtain d r2 where q: "q = (d, r2)" by fastforce
    with Some p \<open>next_tok line = Some p\<close> show ?thesis
      by (auto simp: parseEffectLine_def stream_words.simps [of line] stream_words.simps [of r] parse_flags_words split: option.splits bool.splits)
  qed
qed

lemma stream_words_word: "word_text w \<Longrightarrow> stream_words (w @ CHR '' '' # s) = w # stream_words s"
  by (simp add: stream_words.simps [of "w @ CHR '' '' # s"] next_tok_word stream_words.simps [of "CHR '' '' # s"] next_tok_blank
      stream_words.simps [of s])

lemma stream_words_last: "word_text w \<Longrightarrow> stream_words w = [w]"
  by (simp add: stream_words.simps [of w] next_tok_last stream_words.simps [of "[]"])

lemma parse_format:
  assumes "word_text name" and "word_text digest"
  shows "parseEffectLine (formatEffectLine name e digest) = Some (name, e\<lparr>pe_note := []\<rparr>, digest)"
proof -
  let ?tail = "(if pe_nounwind e then [''nounwind''] else []) @ (if pe_willReturn e then [''willreturn''] else [])"
  have tok: "word_text (effectToken m)" "word_text ''nounwind''" "word_text ''willreturn''" for m
    by (cases m) (simp_all add: word_text_def c_isspace_def)
  have cw: "stream_words (t @ CHR '' '' # ''nounwind'' @ CHR '' '' # ''willreturn'') = [t, ''nounwind'', ''willreturn'']"
    "stream_words (t @ CHR '' '' # ''nounwind'') = [t, ''nounwind'']" "stream_words (t @ CHR '' '' # ''willreturn'') = [t, ''willreturn'']"
    if "word_text t" for t
    using that tok(2, 3) by (simp_all only: stream_words_word stream_words_last)
  have "stream_words (formatEffectLine name e digest) = name # digest # effectToken (pe_effect e) # ?tail"
    using assms cw [OF tok(1)] by (auto simp: formatEffectLine_def stream_words_word stream_words_last [OF tok(1)])
  moreover have "flags_of (effectToken (pe_effect e) # ?tail) (defaultEffects, False) = Some (e\<lparr>pe_note := []\<rparr>, True)"
    by (cases e; cases "pe_effect e") (auto simp: parse_flag_def defaultEffects_def)
  ultimately show ?thesis by (simp add: parseEffectLine_words del: flags_of.simps)
qed

text \<open>A published verdict survives the file: parsing the line written for it gives back the name, the digest and the
  verdict, the explanatory note apart.\<close>
lemma published_effects_roundtrip:
  assumes "word_text name" and "word_text digest"
  shows "parseEffectLine (formatEffectLine name e digest) = Some (name, e\<lparr>pe_note := []\<rparr>, digest)"
  using assms by (rule parse_format)

definition effect_tokens :: "string set" where
  "effect_tokens = range effectToken"

definition known_flags :: "string set" where
  "known_flags = effect_tokens \<union> {''nounwind'', ''willreturn''}"

lemma effect_tokens_list: "effect_tokens = {''none'', ''argmem-read'', ''argmem-readwrite'', ''read'', ''readwrite''}"
proof -
  have "UNIV = {ME_None, ME_ArgRead, ME_ArgReadWrite, ME_Read, ME_Unknown}"
    using MemEffect.exhaust by blast
  then have "range effectToken = effectToken ` {ME_None, ME_ArgRead, ME_ArgReadWrite, ME_Read, ME_Unknown}" by (rule arg_cong)
  then show ?thesis by (simp only: effect_tokens_def image_insert image_empty effectToken.simps)
qed

lemma parse_flag_cases:
  "parse_flag t (e, saw) = None \<longleftrightarrow> t \<notin> known_flags"
  "parse_flag t (e, saw) = Some (e', saw') \<Longrightarrow> saw' \<longleftrightarrow> saw \<or> t \<in> effect_tokens"
  by (auto simp: parse_flag_def known_flags_def effect_tokens_list split: if_splits)

lemma flags_of_iff:
  "(\<exists>e'. flags_of ts (e, saw) = Some (e', True)) \<longleftrightarrow> set ts \<subseteq> known_flags \<and> (saw \<or> set ts \<inter> effect_tokens \<noteq> {})"
proof (induction ts arbitrary: e saw)
  case (Cons t ts)
  show ?case
  proof (cases "parse_flag t (e, saw)")
    case None
    then have "t \<notin> known_flags" by (simp only: parse_flag_cases(1) not_False_eq_True)
    with None show ?thesis by simp
  next
    case (Some st)
    obtain e1 s1 where st: "st = (e1, s1)" by fastforce
    have "t \<in> known_flags" using parse_flag_cases(1) [of t e saw] Some by simp
    with Some st parse_flag_cases(2) [of t e saw e1 s1] Cons.IH [of e1 s1] show ?thesis by auto
  qed
qed auto

text \<open>A line is a promise only when it is understood completely: it has a name, a digest, at least one effect word, and
  no word outside the seven the format defines.  Everything else is refused.\<close>
lemma only_understood_lines_are_promises:
  "parseEffectLine line \<noteq> None \<longleftrightarrow>
     (\<exists>name digest fs. stream_words line = name # digest # fs \<and> set fs \<subseteq> known_flags \<and> set fs \<inter> effect_tokens \<noteq> {})"
proof -
  have "(case flags_of fs (defaultEffects, False) of Some (e, True) \<Rightarrow> Some (name, e, digest) | _ \<Rightarrow> None) \<noteq> None \<longleftrightarrow>
      set fs \<subseteq> known_flags \<and> set fs \<inter> effect_tokens \<noteq> {}" for name digest :: string and fs
    using flags_of_iff [of fs defaultEffects False] by (auto split: option.splits prod.splits bool.splits)
  then show ?thesis
    unfolding parseEffectLine_words by (auto split: list.splits)
qed

end
