(* ===== verification/Effects.thy ===== *)
theory Effects
  imports Hir Published
begin

text \<open>
  The effect walker of \<^verbatim>\<open>src/irgen_decisions.cpp\<close>: one pass over a procedure's body that records every memory
  access by where it lands, every condition it can raise, the procedures it calls and the procedure
  names that escape.  The walker object (\<open>b_\<close>, \<open>escaped_\<close>, \<open>calls_\<close> and the shared handler keys) is the record
  \<open>walker\<close>, threaded through the walk; what it only reads is the record \<open>walk_ctx\<close>.
\<close>

section \<open>Reach and the recorded bits\<close>

datatype Reach = R_Frame | R_Arg | R_Other

definition wider :: "Reach \<Rightarrow> Reach \<Rightarrow> Reach" where
  "wider a b =
     (if a = R_Other \<or> b = R_Other then R_Other
      else if a = R_Arg \<or> b = R_Arg then R_Arg
      else R_Frame)"

definition isArithOp :: "Tok \<Rightarrow> bool" where
  "isArithOp op \<longleftrightarrow> op = Tok_Plus \<or> op = Tok_Minus \<or> op = Tok_Star \<or> op = Tok_Power"

datatype BuiltinEffect = BE_Constant | BE_Pure | BE_Allocates | BE_Escapes | BE_Unknown

definition builtinEffect :: "string \<Rightarrow> BuiltinEffect" where
  "builtinEffect op =
     (if op \<in> set [''DECLARESIZE'', ''EPSILON'', ''MAXVAL'', ''MINVAL'', ''NULL'', ''OMITTED'', ''PRESENT'',
          ''PRECISION'', ''REAL'', ''IMAG'', ''EXPONENT'', ''ABS'', ''SIGN'', ''MAX'', ''MIN'', ''TRUNC'', ''ROUND'',
          ''CEIL'', ''FLOOR'', ''ACOS'', ''ASIN'', ''ATAN'', ''ATAN2'', ''ATAND'', ''ATANH'', ''CBRT'', ''COS'',
          ''COSD'', ''COSH'', ''ERF'', ''ERFC'', ''EXP'', ''LOG'', ''LOG10'', ''LOG2'', ''SIN'', ''SIND'', ''SINH'',
          ''SQRT'', ''TAN'', ''TAND'', ''TANH'', ''COMPLEX'', ''CONJG''] then BE_Constant
      else if op \<in> set [''INDEX'', ''LENGTH'', ''SUBSTR'', ''VERIFY'', ''SEARCH'', ''TRANSLATE'', ''MOD'', ''ADD'',
          ''SUBTRACT'', ''MULTIPLY'', ''DIVIDE''] then BE_Pure
      else if op \<in> set [''REPEAT'', ''REVERSE''] then BE_Allocates
      else if op \<in> set [''ADDR'', ''BYADDR''] then BE_Escapes
      else BE_Unknown)"

abbreviation kSizeCondKey :: int where "kSizeCondKey \<equiv> - 1"
abbreviation kSubscriptrangeCondKey :: int where "kSubscriptrangeCondKey \<equiv> - 2"
abbreviation kZerodivideCondKey :: int where "kZerodivideCondKey \<equiv> - 3"
abbreviation kConversionCondKey :: int where "kConversionCondKey \<equiv> - 4"
abbreviation kStringrangeCondKey :: int where "kStringrangeCondKey \<equiv> - 5"
abbreviation kOverflowCondKey :: int where "kOverflowCondKey \<equiv> - 9"
abbreviation kFixedoverflowCondKey :: int where "kFixedoverflowCondKey \<equiv> - 10"

record Bits =
  b_readsOther :: bool
  b_writesOther :: bool
  b_readsArg :: bool
  b_writesArg :: bool
  b_opaque :: bool
  b_io :: bool
  b_hasOnUnit :: bool
  b_nameEscapes :: bool
  b_mayUnwind :: bool
  b_mayNotReturn :: bool
  b_raiseKeys :: "int set"
  b_note :: string

definition emptyBits :: Bits where
  "emptyBits = \<lparr>b_readsOther = False, b_writesOther = False, b_readsArg = False, b_writesArg = False, b_opaque = False,
     b_io = False, b_hasOnUnit = False, b_nameEscapes = False, b_mayUnwind = False, b_mayNotReturn = False,
     b_raiseKeys = {}, b_note = []\<rparr>"

definition bits_eq :: "Bits \<Rightarrow> Bits \<Rightarrow> bool" where
  "bits_eq b o2 \<longleftrightarrow> b_readsOther b = b_readsOther o2 \<and> b_writesOther b = b_writesOther o2 \<and> b_readsArg b = b_readsArg o2 \<and>
     b_writesArg b = b_writesArg o2 \<and> b_opaque b = b_opaque o2 \<and> b_io b = b_io o2 \<and> b_hasOnUnit b = b_hasOnUnit o2 \<and>
     b_nameEscapes b = b_nameEscapes o2 \<and> b_mayUnwind b = b_mayUnwind o2 \<and> b_mayNotReturn b = b_mayNotReturn o2 \<and>
     b_raiseKeys b = b_raiseKeys o2"

definition noteReach :: "Bits \<Rightarrow> Reach \<Rightarrow> bool \<Rightarrow> Bits" where
  "noteReach b r isWrite =
     (case r of
        R_Other \<Rightarrow> if isWrite then b\<lparr>b_writesOther := True\<rparr> else b\<lparr>b_readsOther := True\<rparr>
      | R_Arg \<Rightarrow> if isWrite then b\<lparr>b_writesArg := True\<rparr> else b\<lparr>b_readsArg := True\<rparr>
      | R_Frame \<Rightarrow> b)"

definition effectNote :: "Bits \<Rightarrow> string" where
  "effectNote b =
     (if b_hasOnUnit b then ''establishes an ON unit''
      else if b_nameEscapes b then ''its name escapes''
      else if b_io b then ''does input or output''
      else if b_opaque b then ''calls something whose effects are unknown''
      else if b_writesOther b then ''writes memory outside its arguments''
      else if b_readsOther b then ''reads memory outside its arguments''
      else if b_writesArg b then ''writes its arguments''
      else if b_readsArg b then ''reads its arguments''
      else ''touches no memory'')"

section \<open>The walker\<close>

record EffectOptions =
  eo_sizeChecks :: bool
  eo_subscriptChecks :: bool
  eo_zerodivideChecks :: bool
  eo_conversionChecks :: bool
  eo_overflowChecks :: bool
  eo_fixedOverflowChecks :: bool

record walk_ctx =
  cx_tab :: symtab
  cx_src :: "nat option"
  cx_byValue :: "nat set"
  cx_opts :: EffectOptions
  cx_bySrc :: "nat \<rightharpoonup> nat"
  cx_params :: "nat \<Rightarrow> nat list"

record walker =
  w_bits :: Bits
  w_escaped :: "nat set"
  w_calls :: "(nat \<times> Reach) list"
  w_handlerKeys :: "int set"

definition w_note :: "Reach \<Rightarrow> bool \<Rightarrow> walker \<Rightarrow> walker" where
  "w_note r isWrite w = w\<lparr>w_bits := noteReach (w_bits w) r isWrite\<rparr>"

definition w_raise :: "int \<Rightarrow> walker \<Rightarrow> walker" where
  "w_raise k w = w\<lparr>w_bits := (w_bits w)\<lparr>b_raiseKeys := insert k (b_raiseKeys (w_bits w))\<rparr>\<rparr>"

definition w_raise_if :: "bool \<Rightarrow> int \<Rightarrow> walker \<Rightarrow> walker" where
  "w_raise_if on k w = (if on then w_raise k w else w)"

definition w_opaque :: "walker \<Rightarrow> walker" where
  "w_opaque w = w\<lparr>w_bits := (w_bits w)\<lparr>b_opaque := True\<rparr>\<rparr>"

definition w_mayUnwind :: "walker \<Rightarrow> walker" where
  "w_mayUnwind w = w\<lparr>w_bits := (w_bits w)\<lparr>b_mayUnwind := True\<rparr>\<rparr>"

definition w_mayNotReturn :: "walker \<Rightarrow> walker" where
  "w_mayNotReturn w = w\<lparr>w_bits := (w_bits w)\<lparr>b_mayNotReturn := True\<rparr>\<rparr>"

definition w_writesOther :: "walker \<Rightarrow> walker" where
  "w_writesOther w = w\<lparr>w_bits := (w_bits w)\<lparr>b_writesOther := True\<rparr>\<rparr>"

definition raiseSize :: "walk_ctx \<Rightarrow> walker \<Rightarrow> walker" where
  "raiseSize cx w = w_raise_if (eo_sizeChecks (cx_opts cx)) kSizeCondKey w"

definition raiseOverflow :: "walk_ctx \<Rightarrow> walker \<Rightarrow> walker" where
  "raiseOverflow cx w = w_raise_if (eo_overflowChecks (cx_opts cx)) kOverflowCondKey w"

definition raiseFixedOverflow :: "walk_ctx \<Rightarrow> walker \<Rightarrow> walker" where
  "raiseFixedOverflow cx w = w_raise_if (eo_fixedOverflowChecks (cx_opts cx)) kFixedoverflowCondKey w"

definition the_sym :: "walk_ctx \<Rightarrow> nat option \<Rightarrow> Symbol option" where
  "the_sym cx s = map_option (tab_sym (cx_tab cx)) s"

definition reachOf :: "walk_ctx \<Rightarrow> nat option \<Rightarrow> Reach" where
  "reachOf cx so =
     (case so of
        None \<Rightarrow> R_Other
      | Some i \<Rightarrow>
          let s = tab_sym (cx_tab cx) i in
          if sy_kind s = SK_ProcName then R_Frame
          else if sy_external s \<or> sy_isStatic s \<or> sy_controlled s then R_Other
          else if isBased s then R_Other
          else if sy_definedBase s \<noteq> None then R_Other
          else (case sy_owner s of
                  None \<Rightarrow> R_Other
                | Some ow \<Rightarrow>
                    if tab_isPackage (cx_tab cx) ow then R_Other
                    else if sy_owner s \<noteq> cx_src cx then R_Arg
                    else if sy_kind s = SK_Param then (if i \<in> cx_byValue cx then R_Frame else R_Arg)
                    else R_Frame))"

definition reachOfExpr :: "walk_ctx \<Rightarrow> HExpr option \<Rightarrow> Reach" where
  "reachOfExpr cx eo =
     (case eo of
        None \<Rightarrow> R_Frame
      | Some e \<Rightarrow>
          if hkind e = HE_VarRef \<or> hkind e = HE_Subscript then
            (if hlocPtr e \<noteq> None then R_Other else reachOf cx (h_sym (ha e)))
          else R_Frame)"

text \<open>The loop over the actuals with their positions.\<close>

fun callArgReach_loop :: "walk_ctx \<Rightarrow> nat list \<Rightarrow> HExpr list \<Rightarrow> nat \<Rightarrow> Reach \<Rightarrow> Reach" where
  "callArgReach_loop cx params [] i r = r"
| "callArgReach_loop cx params (a # as) i r =
     (if i < length params \<and> params ! i \<in> cx_byValue cx then callArgReach_loop cx params as (Suc i) r
      else callArgReach_loop cx params as (Suc i) (wider r (reachOfExpr cx (Some a))))"

definition callArgReach :: "walk_ctx \<Rightarrow> nat \<Rightarrow> HExpr list \<Rightarrow> Reach" where
  "callArgReach cx callee as = callArgReach_loop cx (cx_params cx callee) as 0 R_Frame"

definition markEscape :: "walk_ctx \<Rightarrow> Symbol \<Rightarrow> walker \<Rightarrow> walker" where
  "markEscape cx s w =
     (if sy_kind s \<noteq> SK_ProcName then w
      else (case sy_proc s of
              None \<Rightarrow> w
            | Some p \<Rightarrow> (case cx_bySrc cx p of None \<Rightarrow> w | Some t \<Rightarrow> w\<lparr>w_escaped := insert t (w_escaped w)\<rparr>)))"

definition args_reach :: "walk_ctx \<Rightarrow> HExpr list \<Rightarrow> Reach" where
  "args_reach cx as = foldl (\<lambda>r a. wider r (reachOfExpr cx (Some a))) R_Frame as"

definition w_call :: "walk_ctx \<Rightarrow> nat option \<Rightarrow> HExpr list \<Rightarrow> walker \<Rightarrow> walker" where
  "w_call cx p as w =
     (case p of
        None \<Rightarrow> w_opaque w
      | Some q \<Rightarrow>
          (case cx_bySrc cx q of
             None \<Rightarrow> w_opaque w
           | Some t \<Rightarrow> w\<lparr>w_calls := w_calls w @ [(t, callArgReach cx t as)]\<rparr>))"

text \<open>What a built-in call does after its arguments were walked.\<close>

definition walk_builtin :: "walk_ctx \<Rightarrow> hexpr_attrs \<Rightarrow> HExpr list \<Rightarrow> walker \<Rightarrow> walker" where
  "walk_builtin cx x as w =
     (case builtinEffect (h_name x) of
        BE_Constant \<Rightarrow> w
      | BE_Pure \<Rightarrow>
          (let w1 = w_note (args_reach cx as) False w;
               w2 = (if h_name x = ''MOD'' \<or> h_name x = ''DIVIDE''
                     then w_raise_if (eo_zerodivideChecks (cx_opts cx)) kZerodivideCondKey w1 else w1);
               w3 = (if h_name x = ''SUBSTR'' then w_raise kStringrangeCondKey w2 else w2)
           in if h_name x = ''ADD'' \<or> h_name x = ''SUBTRACT'' \<or> h_name x = ''MULTIPLY'' then
                let w4 = raiseSize cx w3
                in if kind_of (h_ty x) = TK_Float then raiseOverflow cx w4
                   else if kind_of (h_ty x) = TK_FixedDec then raiseFixedOverflow cx w4
                   else w4
              else w3)
      | BE_Allocates \<Rightarrow> w_writesOther w
      | BE_Escapes \<Rightarrow>
          (let r = args_reach cx as in if r = R_Frame then w_opaque w else w_note r False w)
      | BE_Unknown \<Rightarrow> w_opaque w)"

text \<open>Every branch of \<open>walkCallExpr\<close> walks the arguments first; this is the rest of it.\<close>

definition walkCallExpr :: "walk_ctx \<Rightarrow> hexpr_attrs \<Rightarrow> HExpr list \<Rightarrow> bool \<Rightarrow> walker \<Rightarrow> walker" where
  "walkCallExpr cx x as writeCtx w =
     (case the_sym cx (h_sym x) of
        Some callee \<Rightarrow>
          if sy_kind callee = SK_ProcName then w_call cx (sy_proc callee) as w
          else if sy_isEntryVar callee \<or> sy_isEntry callee then w_mayUnwind (w_opaque w)
          else
            let w1 = walk_builtin cx x as (w_mayUnwind w)
            in if writeCtx \<and> as \<noteq> [] then w_note (reachOfExpr cx (Some (hd as))) True w1 else w1
      | None \<Rightarrow>
          let w1 = walk_builtin cx x as (w_mayUnwind w)
          in if writeCtx \<and> as \<noteq> [] then w_note (reachOfExpr cx (Some (hd as))) True w1 else w1)"

fun walkExpr :: "walk_ctx \<Rightarrow> HExpr option \<Rightarrow> bool \<Rightarrow> walker \<Rightarrow> walker"
  and walkArgs :: "walk_ctx \<Rightarrow> HExpr list \<Rightarrow> walker \<Rightarrow> walker" where
  "walkExpr cx None writeCtx w = w"
| "walkExpr cx (Some (HExpr x lp a b as)) writeCtx w =
     (case h_kind x of
        HE_VarRef \<Rightarrow>
          (case h_sym x of
             None \<Rightarrow> w
           | Some i \<Rightarrow>
               if sy_kind (tab_sym (cx_tab cx) i) = SK_ProcName then markEscape cx (tab_sym (cx_tab cx) i) w
               else if lp \<noteq> None then w_note R_Other writeCtx (walkExpr cx lp False w)
               else w_note (reachOf cx (Some i)) writeCtx w)
      | HE_Subscript \<Rightarrow>
          (let w1 = walkArgs cx as w;
               w2 = (if lp \<noteq> None then w_note R_Other writeCtx (walkExpr cx lp False w1)
                     else if h_sym x \<noteq> None then w_note (reachOf cx (h_sym x)) writeCtx w1
                     else w1)
           in w_raise_if (eo_subscriptChecks (cx_opts cx)) kSubscriptrangeCondKey w2)
      | HE_Binary \<Rightarrow>
          (let w1 = walkExpr cx b False (walkExpr cx a False w);
               w2 = (if (case a of None \<Rightarrow> False | Some e \<Rightarrow> isFixed (hty e)) \<and> isArithOp (h_op x) then raiseSize cx w1 else w1);
               w3 = (if isArithOp (h_op x) then
                       (if kind_of (h_ty x) = TK_Float then raiseOverflow cx w2
                        else if kind_of (h_ty x) = TK_FixedDec then raiseFixedOverflow cx w2
                        else w2)
                     else w2)
           in w_raise_if (h_op x = Tok_Slash \<and> eo_zerodivideChecks (cx_opts cx)) kZerodivideCondKey w3)
      | HE_Unary \<Rightarrow>
          (let w1 = walkExpr cx a False w
           in if (case a of None \<Rightarrow> False | Some e \<Rightarrow> isFixed (hty e)) \<and> h_op x = Tok_Minus then raiseSize cx w1 else w1)
      | HE_Convert \<Rightarrow>
          w_mayUnwind (w_raise_if (eo_conversionChecks (cx_opts cx)) kConversionCondKey (walkExpr cx a False w))
      | HE_Call \<Rightarrow> walkCallExpr cx x as writeCtx (walkArgs cx as w)
      | _ \<Rightarrow> w)"
| "walkArgs cx [] w = w"
| "walkArgs cx (a # as) w = walkArgs cx as (walkExpr cx (Some a) False w)"

definition walkCallStmt :: "walk_ctx \<Rightarrow> hstmt_attrs \<Rightarrow> walker \<Rightarrow> walker" where
  "walkCallStmt cx st w =
     (let w1 = walkArgs cx (s_args st) w in
      case the_sym cx (s_sym st) of
        Some callee \<Rightarrow>
          if sy_kind callee = SK_ProcName \<and> sy_proc callee \<noteq> None then w_call cx (sy_proc callee) (s_args st) w1
          else w_mayUnwind (w_opaque w1)
      | None \<Rightarrow> w_mayUnwind (w_opaque w1))"

definition walkDecls :: "walk_ctx \<Rightarrow> HDeclItem list \<Rightarrow> walker \<Rightarrow> walker" where
  "walkDecls cx ds w =
     foldl (\<lambda>w d. walkExpr cx (di_dynLenBound d) False (walkExpr cx (di_initCall d) False (walkExpr cx (di_init d) False w))) w ds"

definition walkTargets :: "walk_ctx \<Rightarrow> HExpr list \<Rightarrow> walker \<Rightarrow> walker" where
  "walkTargets cx ts w = foldl (\<lambda>w t. walkExpr cx (Some t) True w) w ts"

definition walkAssign :: "walk_ctx \<Rightarrow> hstmt_attrs \<Rightarrow> walker \<Rightarrow> walker" where
  "walkAssign cx st w =
     (let w1 = walkExpr cx (s_value st) False (walkTargets cx (s_extraTargets st) (walkExpr cx (s_target st) True w))
      in if (case s_target st of None \<Rightarrow> False | Some t \<Rightarrow> isChar (hty t)) then raiseSize cx w1 else w1)"

text \<open>I/O, storage and condition statements.\<close>

definition walkIO :: "walk_ctx \<Rightarrow> hstmt_attrs \<Rightarrow> walker \<Rightarrow> walker" where
  "walkIO cx st w =
     (let w1 = walkExpr cx (s_by st) False (walkExpr cx (s_to st) False (walkExpr cx (s_from st) False
                 (walkExpr cx (s_cond st) False (walkExpr cx (s_value st) False (walkExpr cx (s_target st) False w)))));
          w2 = walkExpr cx (s_oncodeExpr st) False (walkExpr cx (s_stringTarget st) True (walkArgs cx (s_items st) w1))
      in w2\<lparr>w_bits := (w_bits w2)\<lparr>b_io := True, b_opaque := True\<rparr>\<rparr>)"

definition endless_by :: "HExpr option \<Rightarrow> bool" where
  "endless_by by1 = (case by1 of None \<Rightarrow> False | Some e \<Rightarrow> \<not> (hkind e = HE_IntLit \<and> h_ival (ha e) \<noteq> 0))"

fun walkStmt :: "walk_ctx \<Rightarrow> HStmt option \<Rightarrow> walker \<Rightarrow> walker"
  and walkBody :: "walk_ctx \<Rightarrow> HStmt list \<Rightarrow> walker \<Rightarrow> walker" where
  "walkStmt cx None w = w"
| "walkStmt cx (Some (HStmt st th el bd un)) w =
     (case s_kind st of
        HS_Null \<Rightarrow> w
      | HS_Leave \<Rightarrow> w
      | HS_Iterate \<Rightarrow> w
      | HS_Format \<Rightarrow> w
      | HS_Entry \<Rightarrow> w
      | HS_Stop \<Rightarrow> w_mayNotReturn w
      | HS_Goto \<Rightarrow> w_mayNotReturn w
      | HS_Declare \<Rightarrow> walkDecls cx (s_decls st) w
      | HS_Assign \<Rightarrow> walkAssign cx st w
      | HS_If \<Rightarrow> walkStmt cx el (walkStmt cx th (walkExpr cx (s_cond st) False w))
      | HS_Group \<Rightarrow> walkBody cx bd w
      | HS_Begin \<Rightarrow> walkBody cx bd w
      | HS_DoWhile \<Rightarrow> walkBody cx bd (walkExpr cx (s_cond st) False (w_mayNotReturn w))
      | HS_DoIter \<Rightarrow>
          walkBody cx bd (walkExpr cx (s_by st) False (walkExpr cx (s_to st) False (walkExpr cx (s_from st) False
            (if endless_by (s_by st) then w_mayNotReturn w else w))))
      | HS_Return \<Rightarrow> walkExpr cx (s_value st) False w
      | HS_On \<Rightarrow>
          (let w1 = w\<lparr>w_bits := (w_bits w)\<lparr>b_hasOnUnit := True, b_opaque := True\<rparr>,
                      w_handlerKeys := insert (s_condKey st) (w_handlerKeys w)\<rparr>
           in walkStmt cx un w1)
      | HS_CallS \<Rightarrow> walkCallStmt cx st w
      | _ \<Rightarrow> walkIO cx st w)"
| "walkBody cx [] w = w"
| "walkBody cx (st # sts) w = walkBody cx sts (walkStmt cx (Some st) w)"

definition walk_run :: "walk_ctx \<Rightarrow> HProc \<Rightarrow> int set \<Rightarrow> walker" where
  "walk_run cx p handlers =
     (let w = walkBody cx (hp_body p) \<lparr>w_bits = emptyBits, w_escaped = {}, w_calls = [], w_handlerKeys = handlers\<rparr>
      in if hp_isFunction p \<and> (isStruct (hp_retTy p) \<or> isChar (hp_retTy p))
         then w\<lparr>w_bits := (w_bits w)\<lparr>b_writesArg := True\<rparr>\<rparr> else w)"

end
