(* ===== verification/Analysis.thy ===== *)
theory Analysis
  imports Effects
begin

text \<open>
  \<open>analyzeEffects\<close> of \<^verbatim>\<open>src/irgen_decisions.cpp\<close>: walk every body, mark the procedures a depth-first search
  finds on a cycle, let the marks and the callees' bits flow to the callers for a bounded number of rounds
  and read off the verdicts.  A \<^verbatim>\<open>map<const HProc*, ...>\<close> is a list indexed by the procedure's position.
\<close>

section \<open>Walking all bodies\<close>

fun bySrc_loop :: "HProc list \<Rightarrow> nat \<Rightarrow> (nat \<rightharpoonup> nat) \<Rightarrow> (nat \<rightharpoonup> nat)" where
  "bySrc_loop [] i m = m"
| "bySrc_loop (p # ps) i m =
     bySrc_loop ps (Suc i) (case hp_src p of None \<Rightarrow> m | Some s \<Rightarrow> m(s \<mapsto> i))"

definition bySrc :: "HProgram \<Rightarrow> (nat \<rightharpoonup> nat)" where
  "bySrc prog = bySrc_loop prog 0 Map.empty"

definition proc_ctx :: "symtab \<Rightarrow> nat set \<Rightarrow> EffectOptions \<Rightarrow> HProgram \<Rightarrow> HProc \<Rightarrow> walk_ctx" where
  "proc_ctx tab byValue opts prog p =
     \<lparr>cx_tab = tab, cx_src = hp_src p, cx_byValue = byValue, cx_opts = opts, cx_bySrc = bySrc prog,
      cx_params = (\<lambda>t. if t < length prog then hp_paramSyms (prog ! t) else [])\<rparr>"

fun walk_all :: "(HProc \<Rightarrow> int set \<Rightarrow> walker) \<Rightarrow> HProc list \<Rightarrow> int set \<Rightarrow> walker list \<times> int set" where
  "walk_all f [] h = ([], h)"
| "walk_all f (p # ps) h =
     (let w = f p h; (ws, h1) = walk_all f ps (w_handlerKeys w) in (w # ws, h1))"

section \<open>Marking the procedures on a cycle\<close>

datatype Colour = White | Grey | Black

record dfs =
  df_colour :: "Colour list"
  df_marks :: "nat set"

definition colour_of :: "dfs \<Rightarrow> nat \<Rightarrow> Colour" where
  "colour_of s c = (if c < length (df_colour s) then df_colour s ! c else Black)"

definition paint :: "nat \<Rightarrow> Colour \<Rightarrow> dfs \<Rightarrow> dfs" where
  "paint n k s = s\<lparr>df_colour := (df_colour s)[n := k]\<rparr>"

definition whites :: "dfs \<Rightarrow> nat set" where
  "whites s = {c. colour_of s c = White}"

lemma colour_of_paint: "colour_of (paint n k s) c = (if c = n \<and> n < length (df_colour s) then k else colour_of s c)"
  by (auto simp: colour_of_def paint_def)

lemma whites_finite [simp]: "finite (whites s)"
proof (rule finite_subset)
  show "whites s \<subseteq> {..< length (df_colour s)}" by (auto simp: whites_def colour_of_def split: if_splits)
qed simp

text \<open>The loop of the visit over the callees of a procedure; a white callee is visited (painted grey, its callees
  visited, painted black) before the loop goes on.\<close>

function visit_edges :: "(nat \<Rightarrow> nat list) \<Rightarrow> nat list \<Rightarrow> dfs \<Rightarrow> dfs" where
  "visit_edges edges [] s = s"
| "visit_edges edges (c # cs) s =
     (case colour_of s c of
        Grey \<Rightarrow> visit_edges edges cs (s\<lparr>df_marks := insert c (df_marks s)\<rparr>)
      | White \<Rightarrow> visit_edges edges cs (paint c Black (visit_edges edges (edges c) (paint c Grey s)))
      | Black \<Rightarrow> visit_edges edges cs s)"
  by pat_completeness auto

lemma whites_paint_subset: "k \<noteq> White \<Longrightarrow> whites (paint c k s) \<subseteq> whites s"
  by (auto simp: whites_def colour_of_paint split: if_splits)

lemma whites_paint_less: "colour_of s c = White \<Longrightarrow> card (whites (paint c Grey s)) < card (whites s)"
proof (rule psubset_card_mono)
  assume w: "colour_of s c = White"
  then have "c < length (df_colour s)" by (simp add: colour_of_def split: if_splits)
  with w have "c \<in> whites s" "c \<notin> whites (paint c Grey s)" by (auto simp: whites_def colour_of_paint)
  then show "whites (paint c Grey s) \<subset> whites s" using whites_paint_subset [of Grey c s] by blast
qed simp

lemma whites_visit: "visit_edges_dom (edges, cs, s) \<Longrightarrow> whites (visit_edges edges cs s) \<subseteq> whites s"
proof (induction edges cs s rule: visit_edges.pinduct)
  case (2 edges c cs s)
  show ?case
  proof (cases "colour_of s c")
    case White
    let ?t = "visit_edges edges (edges c) (paint c Grey s)"
    have "whites ?t \<subseteq> whites (paint c Grey s)" using 2(2) [OF White] .
    then have "whites (paint c Black ?t) \<subseteq> whites s"
      using whites_paint_subset [of Black c ?t] whites_paint_subset [of Grey c s] by blast
    with 2(3) [OF White] White show ?thesis by (simp add: visit_edges.psimps(2) [OF 2(1)])
  next
    case Grey
    have "whites (s\<lparr>df_marks := insert c (df_marks s)\<rparr>) = whites s" by (simp add: whites_def colour_of_def)
    with 2(4) [OF Grey] Grey show ?thesis by (simp add: visit_edges.psimps(2) [OF 2(1)])
  next
    case Black
    with 2(5) [OF Black] show ?thesis by (simp add: visit_edges.psimps(2) [OF 2(1)])
  qed
qed (simp add: visit_edges.psimps)

termination visit_edges
proof (relation "measures [\<lambda>(e, cs, s). card (whites s), \<lambda>(e, cs, s). length cs]", goal_cases)
  case (2 edges c cs s)
  then show ?case by (simp add: whites_paint_less)
next
  case (3 edges c cs s)
  let ?t = "visit_edges edges (edges c) (paint c Grey s)"
  have "whites (paint c Black ?t) \<subseteq> whites (paint c Grey s)"
    using whites_visit [OF 3(2)] whites_paint_subset [of Black c ?t] by blast
  then have "card (whites (paint c Black ?t)) \<le> card (whites (paint c Grey s))" by (intro card_mono) simp_all
  also have "\<dots> < card (whites s)" using 3(1) by (rule whites_paint_less)
  finally show ?case by simp
qed (auto simp: whites_def colour_of_def)

definition visit :: "(nat \<Rightarrow> nat list) \<Rightarrow> nat \<Rightarrow> dfs \<Rightarrow> dfs" where
  "visit edges n s = paint n Black (visit_edges edges (edges n) (paint n Grey s))"

definition cycle_marks :: "(nat \<Rightarrow> nat list) \<Rightarrow> nat \<Rightarrow> nat set" where
  "cycle_marks edges n =
     df_marks (foldl (\<lambda>s p. if colour_of s p = White then visit edges p s else s)
       \<lparr>df_colour = replicate n White, df_marks = {}\<rparr> [0 ..< n])"

section \<open>The fixpoint\<close>

text \<open>What one callee adds to its caller.\<close>

definition merge_callee :: "Bits \<Rightarrow> Reach \<Rightarrow> Bits \<Rightarrow> Bits" where
  "merge_callee cb reach b0 =
     (let b1 = (if b_opaque cb then b0\<lparr>b_opaque := True\<rparr> else b0);
          b2 = (if b_readsOther cb then b1\<lparr>b_readsOther := True\<rparr> else b1);
          b3 = (if b_writesOther cb then b2\<lparr>b_writesOther := True\<rparr> else b2);
          b4 = (if b_readsArg cb then noteReach b3 reach False else b3);
          b5 = (if b_writesArg cb then noteReach b4 reach True else b4);
          b6 = b5\<lparr>b_raiseKeys := b_raiseKeys b5 \<union> b_raiseKeys cb\<rparr>;
          b7 = (if b_mayUnwind cb then b6\<lparr>b_mayUnwind := True\<rparr> else b6)
      in if b_mayNotReturn cb then b7\<lparr>b_mayNotReturn := True\<rparr> else b7)"

definition merge_all :: "Bits list \<Rightarrow> (nat \<times> Reach) list \<Rightarrow> Bits \<Rightarrow> Bits" where
  "merge_all bits calls b =
     foldl (\<lambda>b (c, r). if c < length bits then merge_callee (bits ! c) r b else b) b calls"

definition proc_step :: "(nat \<times> Reach) list list \<Rightarrow> Bits list \<times> bool \<Rightarrow> nat \<Rightarrow> Bits list \<times> bool" where
  "proc_step calls st p =
     (case st of (bits, changed) \<Rightarrow>
        let nxt = merge_all bits (calls ! p) (bits ! p)
        in if \<not> bits_eq nxt (bits ! p) then (bits[p := nxt], True) else (bits, changed))"

definition handled :: "int set \<Rightarrow> Bits \<Rightarrow> bool" where
  "handled handlerKeys b \<longleftrightarrow> (\<exists>k \<in> b_raiseKeys b. k \<in> handlerKeys \<or> 0 \<in> handlerKeys)"

definition handler_step :: "int set \<Rightarrow> Bits \<Rightarrow> Bits" where
  "handler_step handlerKeys b =
     (if handled handlerKeys b then b\<lparr>b_writesOther := True, b_mayUnwind := True\<rparr> else b)"

definition handler_changes :: "int set \<Rightarrow> Bits \<Rightarrow> bool" where
  "handler_changes handlerKeys b \<longleftrightarrow> handled handlerKeys b \<and> (\<not> b_writesOther b \<or> \<not> b_mayUnwind b)"

definition fix_round :: "(nat \<times> Reach) list list \<Rightarrow> int set \<Rightarrow> Bits list \<Rightarrow> Bits list \<times> bool" where
  "fix_round calls handlerKeys bits =
     (case foldl (proc_step calls) (bits, False) [0 ..< length bits] of
        (bits1, changed) \<Rightarrow> (map (handler_step handlerKeys) bits1, changed \<or> list_ex (handler_changes handlerKeys) bits1))"

fun fix_loop :: "nat \<Rightarrow> (nat \<times> Reach) list list \<Rightarrow> int set \<Rightarrow> Bits list \<Rightarrow> Bits list" where
  "fix_loop 0 calls handlerKeys bits = bits"
| "fix_loop (Suc k) calls handlerKeys bits =
     (case fix_round calls handlerKeys bits of
        (bits1, changed) \<Rightarrow> if changed then fix_loop k calls handlerKeys bits1 else bits1)"

section \<open>The verdict\<close>

definition verdict :: "Bits \<Rightarrow> ProcEffects" where
  "verdict b =
     \<lparr>pe_effect = (if b_opaque b then ME_Unknown
                   else if b_writesOther b then ME_Unknown
                   else if b_readsOther b then ME_Read
                   else if b_writesArg b then ME_ArgReadWrite
                   else if b_readsArg b then ME_ArgRead
                   else ME_None),
      pe_nounwind = (\<not> b_opaque b \<and> \<not> b_mayUnwind b),
      pe_willReturn = (\<not> b_opaque b \<and> \<not> b_mayNotReturn b \<and> b_raiseKeys b = {}),
      pe_note = effectNote b\<rparr>"

definition mark_start :: "nat set \<Rightarrow> nat set \<Rightarrow> nat \<Rightarrow> Bits \<Rightarrow> Bits" where
  "mark_start marks escaped i b =
     (let b1 = (if i \<in> marks then b\<lparr>b_mayNotReturn := True\<rparr> else b)
      in if i \<in> escaped then b1\<lparr>b_opaque := True, b_nameEscapes := True\<rparr> else b1)"

definition call_edges :: "(nat \<times> Reach) list list \<Rightarrow> nat \<Rightarrow> nat list" where
  "call_edges calls p = (if p < length calls then map fst (calls ! p) else [])"

definition analyzeEffects :: "symtab \<Rightarrow> HProgram \<Rightarrow> nat set \<Rightarrow> EffectOptions \<Rightarrow> ProcEffects list" where
  "analyzeEffects tab prog byValue opts =
     (let (ws, handlerKeys) = walk_all (\<lambda>p. walk_run (proc_ctx tab byValue opts prog p) p) prog {};
          calls = map w_calls ws;
          escaped = \<Union> (set (map w_escaped ws));
          marks = cycle_marks (call_edges calls) (length prog);
          start = map2 (mark_start marks escaped) [0 ..< length prog] (map w_bits ws);
          final = fix_loop (length prog + 2) calls handlerKeys start
      in map verdict final)"

section \<open>Every cycle has a marked procedure\<close>

definition greys :: "dfs \<Rightarrow> nat set" where "greys s = {c. colour_of s c = Grey}"
definition blacks :: "dfs \<Rightarrow> nat set" where "blacks s = {c. colour_of s c = Black}"

text \<open>A finished procedure calls only finished procedures that finished earlier, or marked ones.\<close>

definition ranked :: "(nat \<Rightarrow> nat list) \<Rightarrow> dfs \<Rightarrow> (nat \<Rightarrow> nat) \<Rightarrow> bool" where
  "ranked edges s rank \<longleftrightarrow>
     (\<forall>u \<in> blacks s. \<forall>c \<in> set (edges u). c \<in> df_marks s \<or> c \<in> blacks s \<and> rank c < rank u)"

definition dfs_post :: "(nat \<Rightarrow> nat list) \<Rightarrow> nat list \<Rightarrow> dfs \<Rightarrow> dfs \<Rightarrow> bool" where
  "dfs_post edges cs s t \<longleftrightarrow>
     length (df_colour t) = length (df_colour s) \<and> greys t = greys s \<and> blacks s \<subseteq> blacks t \<and> df_marks s \<subseteq> df_marks t \<and>
     set cs \<subseteq> df_marks t \<union> blacks t \<and> (\<exists>rank. ranked edges t rank)"

lemma marks_colour [simp]: "colour_of (s\<lparr>df_marks := M\<rparr>) = colour_of s" "greys (s\<lparr>df_marks := M\<rparr>) = greys s"
  "blacks (s\<lparr>df_marks := M\<rparr>) = blacks s" "df_marks (paint c k s) = df_marks s" "length (df_colour (paint c k s)) = length (df_colour s)"
  by (auto simp: colour_of_def greys_def blacks_def paint_def fun_eq_iff)

lemma ranked_marks: "ranked edges s rank \<Longrightarrow> ranked edges (s\<lparr>df_marks := insert c (df_marks s)\<rparr>) rank"
  by (auto simp: ranked_def)

lemma ranked_grey: "ranked edges s rank \<Longrightarrow> colour_of s c = White \<Longrightarrow> ranked edges (paint c Grey s) rank"
proof -
  assume "ranked edges s rank" and w: "colour_of s c = White"
  moreover have "blacks (paint c Grey s) = blacks s" using w by (auto simp: blacks_def colour_of_paint)
  ultimately show ?thesis by (simp add: ranked_def)
qed

text \<open>Painting a procedure black once all its callees are finished or marked.\<close>

lemma ranked_black:
  assumes r: "ranked edges t rank" and g: "c \<in> greys t" and e: "set (edges c) \<subseteq> df_marks t \<union> blacks t"
  shows "\<exists>rank. ranked edges (paint c Black t) rank"
proof -
  let ?r = "rank(c := Suc (Max (insert 0 (rank ` set (edges c)))))"
  have len: "c < length (df_colour t)" and nb: "c \<notin> blacks t" using g by (auto simp: greys_def blacks_def colour_of_def split: if_splits)
  then have bl: "blacks (paint c Black t) = insert c (blacks t)" by (auto simp: blacks_def colour_of_paint)
  have "ranked edges (paint c Black t) ?r" unfolding ranked_def bl
  proof (intro ballI)
    fix u d
    assume u: "u \<in> insert c (blacks t)" and d: "d \<in> set (edges u)"
    show "d \<in> df_marks (paint c Black t) \<or> d \<in> insert c (blacks t) \<and> ?r d < ?r u"
    proof (cases "u = c")
      case True
      have "rank d \<le> Max (insert 0 (rank ` set (edges c)))" using d True by (intro Max_ge) auto
      then have "rank d < Suc (Max (insert 0 (rank ` set (edges c))))" by (rule le_imp_less_Suc)
      then show ?thesis using e d True nb by (cases "d = c") (auto simp del: Max_insert)
    next
      case False
      then have "u \<in> blacks t" using u by simp
      with r d have "d \<in> df_marks t \<or> d \<in> blacks t \<and> rank d < rank u" unfolding ranked_def by blast
      then show ?thesis using False nb by auto
    qed
  qed
  then show ?thesis by blast
qed

lemma visit_post:
  assumes w: "colour_of s c = White" and p: "dfs_post edges (edges c) (paint c Grey s) t"
  shows "length (df_colour (paint c Black t)) = length (df_colour s) \<and> greys (paint c Black t) = greys s \<and>
    insert c (blacks s) \<subseteq> blacks (paint c Black t) \<and> df_marks s \<subseteq> df_marks (paint c Black t) \<and>
    (\<exists>rank. ranked edges (paint c Black t) rank)"
proof -
  have len: "c < length (df_colour s)" using w by (auto simp: colour_of_def split: if_splits)
  have gt: "greys t = insert c (greys s)" and lt: "length (df_colour t) = length (df_colour s)"
    using p w len by (auto simp: dfs_post_def greys_def colour_of_paint)
  have "greys (paint c Black t) = greys s"
    using gt lt len w by (auto simp: greys_def colour_of_paint)
  moreover have "insert c (blacks s) \<subseteq> blacks (paint c Black t)"
    using p lt len w by (auto simp: dfs_post_def blacks_def colour_of_paint subset_iff)
  moreover have "\<exists>rank. ranked edges (paint c Black t) rank"
  proof -
    from p obtain rank where "ranked edges t rank" by (auto simp: dfs_post_def)
    from ranked_black [OF this, of c] p gt show ?thesis by (auto simp: dfs_post_def)
  qed
  ultimately show ?thesis using p lt by (auto simp: dfs_post_def)
qed

lemma visit_edges_post: "\<exists>rank. ranked edges s rank \<Longrightarrow> dfs_post edges cs s (visit_edges edges cs s)"
proof (induction edges cs s rule: visit_edges.induct)
  case (2 edges c cs s)
  obtain rank where r: "ranked edges s rank" using "2.prems" by blast
  show ?case
  proof (cases "colour_of s c")
    case White
    let ?t = "visit_edges edges (edges c) (paint c Grey s)"
    have "dfs_post edges (edges c) (paint c Grey s) ?t" using "2.IH"(1) [OF White] ranked_grey [OF r White] by blast
    note v = visit_post [OF White this]
    then have "dfs_post edges cs (paint c Black ?t) (visit_edges edges cs (paint c Black ?t))" using "2.IH"(2) [OF White] by blast
    with v White show ?thesis unfolding dfs_post_def by auto
  next
    case Grey
    then have "dfs_post edges cs (s\<lparr>df_marks := insert c (df_marks s)\<rparr>) (visit_edges edges cs (s\<lparr>df_marks := insert c (df_marks s)\<rparr>))"
      using "2.IH"(3) [OF Grey] ranked_marks [OF r] by blast
    with Grey show ?thesis unfolding dfs_post_def by auto
  next
    case Black
    then have "dfs_post edges cs s (visit_edges edges cs s)" using "2.IH"(4) [OF Black] r by blast
    with Black show ?thesis unfolding dfs_post_def by (auto simp: blacks_def)
  qed
qed (simp add: dfs_post_def)

lemma main_loop_post:
  assumes "\<exists>rank. ranked edges s rank"
  shows "dfs_post edges ps s (foldl (\<lambda>s p. if colour_of s p = White then visit edges p s else s) s ps) \<or> greys s \<noteq> {}"
  using assms
proof (induction ps arbitrary: s)
  case (Cons p ps)
  let ?s1 = "if colour_of s p = White then visit edges p s else s"
  have "length (df_colour ?s1) = length (df_colour s) \<and> greys ?s1 = greys s \<and> blacks s \<subseteq> blacks ?s1 \<and> df_marks s \<subseteq> df_marks ?s1 \<and>
      (colour_of s p = White \<longrightarrow> p \<in> blacks ?s1) \<and> (\<exists>rank. ranked edges ?s1 rank)"
  proof (cases "colour_of s p = White")
    case True
    from Cons.prems obtain rank where "ranked edges s rank" by blast
    from visit_edges_post [of edges "paint p Grey s" "edges p"] ranked_grey [OF this True]
    have "dfs_post edges (edges p) (paint p Grey s) (visit_edges edges (edges p) (paint p Grey s))" by blast
    from visit_post [OF True this] True show ?thesis by (simp add: visit_def)
  qed (use Cons.prems in simp)
  moreover from this Cons.IH [of ?s1]
  have "dfs_post edges ps ?s1 (foldl (\<lambda>s p. if colour_of s p = White then visit edges p s else s) ?s1 ps) \<or> greys ?s1 \<noteq> {}" by blast
  moreover have "greys s = {} \<Longrightarrow> colour_of s p = White \<or> p \<in> blacks s" by (cases "colour_of s p") (auto simp: greys_def blacks_def)
  ultimately show ?case unfolding dfs_post_def by auto
qed (simp add: dfs_post_def)

definition call_rel :: "(nat \<times> Reach) list list \<Rightarrow> (nat \<times> nat) set" where
  "call_rel calls = {(p, c). p < length calls \<and> c < length calls \<and> c \<in> fst ` set (calls ! p)}"

lemma cycle_has_mark:
  assumes "(p, p) \<in> (call_rel calls)\<^sup>+"
  shows "\<exists>m \<in> cycle_marks (call_edges calls) (length calls). (p, m) \<in> (call_rel calls)\<^sup>*"
proof (rule ccontr)
  assume no: "\<not> ?thesis"
  let ?s0 = "\<lparr>df_colour = replicate (length calls) White, df_marks = {}\<rparr>"
  let ?t = "foldl (\<lambda>s p. if colour_of s p = White then visit (call_edges calls) p s else s) ?s0 [0 ..< length calls]"
  have "u \<in> blacks ?s0 \<Longrightarrow> length calls \<le> u" for u by (auto simp: blacks_def colour_of_def split: if_splits)
  then have "ranked (call_edges calls) ?s0 (\<lambda>_. 0)" by (auto simp: ranked_def call_edges_def dest!: leD)
  moreover have "greys ?s0 = {}" by (auto simp: greys_def colour_of_def split: if_splits)
  ultimately have post: "dfs_post (call_edges calls) [0 ..< length calls] ?s0 ?t" using main_loop_post by blast
  then obtain rank where r: "ranked (call_edges calls) ?t rank" by (auto simp: dfs_post_def)
  have m: "df_marks ?t = cycle_marks (call_edges calls) (length calls)" by (simp add: cycle_marks_def)
  have down: "rank c < rank u" if "(p, u) \<in> (call_rel calls)\<^sup>*" "(u, c) \<in> call_rel calls" for u c
  proof -
    have "(p, c) \<in> (call_rel calls)\<^sup>*" using that by (rule rtrancl_into_rtrancl)
    then have unm: "u \<notin> df_marks ?t" "c \<notin> df_marks ?t" using no that(1) m by auto
    have "u < length calls" "c \<in> set (call_edges calls u)" using that(2) by (auto simp: call_rel_def call_edges_def)
    moreover from this(1) post unm(1) have "u \<in> blacks ?t" by (auto simp: dfs_post_def)
    ultimately show ?thesis using r unm(2) by (auto simp: ranked_def)
  qed
  have "rank u < rank p" if "(p, u) \<in> (call_rel calls)\<^sup>+" for u
    using that
  proof (induction rule: trancl_induct)
    case (step y z)
    with down [of y z] show ?case by (meson less_trans trancl_into_rtrancl)
  qed (use down in blast)
  from this [OF assms] show False by simp
qed

section \<open>Bits that flow to the callers\<close>

definition has_flag :: "(Bits \<Rightarrow> bool) \<Rightarrow> Bits list \<Rightarrow> nat \<Rightarrow> bool" where
  "has_flag flag bits p \<longleftrightarrow> p < length bits \<and> flag (bits ! p)"

lemma proc_step_length [simp]: "length (fst (proc_step calls st p)) = length (fst st)"
  by (auto simp: proc_step_def Let_def split: prod.splits)

lemma steps_length [simp]: "length (fst (foldl (proc_step calls) st ps)) = length (fst st)"
  by (induction ps arbitrary: st) simp_all

lemma fst_fix_round:
  "fst (fix_round calls h bits) = map (handler_step h) (fst (foldl (proc_step calls) (bits, False) [0 ..< length bits]))"
  by (simp add: fix_round_def case_prod_beta)

lemma fix_round_length [simp]: "length (fst (fix_round calls h bits)) = length bits"
  by (simp add: fst_fix_round)

text \<open>A round that reports no change made none.\<close>

lemma proc_step_unchanged: "\<not> snd (proc_step calls st p) \<Longrightarrow> proc_step calls st p = st"
  by (auto simp: proc_step_def Let_def split: prod.splits if_splits)

lemma steps_unchanged: "\<not> snd (foldl (proc_step calls) st ps) \<Longrightarrow> foldl (proc_step calls) st ps = st"
proof (induction ps arbitrary: st)
  case (Cons p ps)
  then have "foldl (proc_step calls) (proc_step calls st p) ps = proc_step calls st p" by simp
  with Cons.prems show ?case using proc_step_unchanged [of calls st p] by simp
qed simp

lemma handler_unchanged: "\<not> handler_changes h b \<Longrightarrow> handler_step h b = b"
  by (cases b) (auto simp: handler_changes_def handler_step_def)

lemma round_unchanged: "\<not> snd (fix_round calls h bits) \<Longrightarrow> fst (fix_round calls h bits) = bits"
proof -
  assume n: "\<not> snd (fix_round calls h bits)"
  let ?st = "foldl (proc_step calls) (bits, False) [0 ..< length bits]"
  have ns: "\<not> snd ?st" "\<not> list_ex (handler_changes h) (fst ?st)" using n by (simp_all add: fix_round_def case_prod_beta)
  from steps_unchanged [OF ns(1)] ns(2) have "fst ?st = bits" "\<not> list_ex (handler_changes h) bits" by simp_all
  then show ?thesis by (simp add: fst_fix_round) (rule map_idI, auto simp: list_ex_iff handler_unchanged)
qed

text \<open>A call chain between two of \<open>n\<close> procedures can be cut to fewer than \<open>n\<close> calls.\<close>

lemma short_path:
  assumes "(p, q) \<in> R\<^sup>*" and "R \<subseteq> {..< n} \<times> {..< n}" and "p < n"
  shows "\<exists>j < n. (p, q) \<in> R ^^ j"
proof -
  define j where "j = (LEAST j. (p, q) \<in> R ^^ j)"
  have j: "(p, q) \<in> R ^^ j" unfolding j_def using assms(1) by (metis LeastI rtrancl_imp_relpow)
  then obtain f where f: "f 0 = p" "f j = q" "\<And>i. i < j \<Longrightarrow> (f i, f (Suc i)) \<in> R"
    by (auto simp: relpow_fun_conv)
  have seg: "(f a, f b) \<in> R ^^ (b - a)" if "a \<le> b" "b \<le> j" for a b
  proof -
    have "(f (a + 0), f (a + (b - a))) \<in> R ^^ (b - a)"
      unfolding relpow_fun_conv using f(3) that by (intro exI [of _ "\<lambda>i. f (a + i)"]) auto
    with that show ?thesis by simp
  qed
  have ne: "f a \<noteq> f b" if ab: "a < b" "b \<le> j" for a b
  proof
    assume e: "f a = f b"
    have "(p, f a) \<in> R ^^ a" "(f a, q) \<in> R ^^ (j - b)" using seg [of 0 a] seg [of b j] ab e f by auto
    then have "(p, q) \<in> R ^^ (a + (j - b))" by (auto simp: relpow_add)
    then have "j \<le> a + (j - b)" unfolding j_def by (rule Least_le)
    with ab show False by linarith
  qed
  then have "inj_on f {..j}" by (intro linorder_inj_onI) auto
  moreover have "f ` {..j} \<subseteq> {..< n}"
  proof
    fix x
    assume "x \<in> f ` {..j}"
    then obtain i where i: "i \<le> j" "x = f i" by auto
    show "x \<in> {..< n}"
    proof (cases i)
      case (Suc k)
      then have "(f k, f i) \<in> R" using i f(3) by simp
      with assms(2) i show ?thesis by auto
    qed (use f(1) assms(3) i in simp)
  qed
  ultimately have "card {..j} \<le> card {..< n}" by (metis card_image card_mono finite_lessThan)
  then have "j < n" by simp
  with j show ?thesis by blast
qed

text \<open>Every flag, once recorded, stays.  A flag of a callee that also becomes a flag of its callers flows: opaqueness, the
  accesses outside the arguments, unwinding, not returning, and each raised condition.\<close>

locale kept_flag =
  fixes flag :: "Bits \<Rightarrow> bool"
  assumes kept_by_merge: "flag b \<Longrightarrow> flag (merge_callee cb r b)"
    and kept_by_handler: "flag b \<Longrightarrow> flag (handler_step h b)"
    and kept_by_start: "flag b \<Longrightarrow> flag (mark_start M E i b)"
    and seen_by_eq: "bits_eq b b' \<Longrightarrow> flag b = flag b'"
begin

lemma merge_all_kept: "flag b \<Longrightarrow> flag (merge_all bits cs b)"
  unfolding merge_all_def
  by (induction cs arbitrary: b) (auto simp: kept_by_merge split: prod.splits)

lemma proc_step_kept: "has_flag flag bits q \<Longrightarrow> has_flag flag (fst (proc_step calls (bits, ch) p)) q"
  by (cases "q = p") (auto simp: proc_step_def has_flag_def Let_def nth_list_update merge_all_kept)

lemma steps_kept: "has_flag flag (fst st) q \<Longrightarrow> has_flag flag (fst (foldl (proc_step calls) st ps)) q"
proof (induction ps arbitrary: st)
  case (Cons p ps)
  then show ?case using proc_step_kept [of "fst st" q calls "snd st" p] by simp
qed simp

lemma round_kept: "has_flag flag bits q \<Longrightarrow> has_flag flag (fst (fix_round calls h bits)) q"
  using steps_kept [of "(bits, False)" q calls "[0 ..< length bits]"]
  by (simp add: fst_fix_round has_flag_def kept_by_handler)

lemma loop_kept: "has_flag flag bits q \<Longrightarrow> has_flag flag (fix_loop k calls h bits) q"
proof (induction k arbitrary: bits)
  case (Suc k)
  then show ?case using round_kept [OF Suc.prems, of calls h] by (auto split: prod.splits)
qed simp

end

locale flowing_flag = kept_flag +
  assumes from_callee: "flag cb \<Longrightarrow> flag (merge_callee cb r b)"
begin

lemma merge_all_callee: "(c, r) \<in> set cs \<Longrightarrow> has_flag flag bits c \<Longrightarrow> flag (merge_all bits cs b)"
proof (induction cs arbitrary: b)
  case (Cons d cs)
  show ?case
  proof (cases "d = (c, r)")
    case True
    with Cons.prems have "flag (merge_callee (bits ! c) r b)" "c < length bits" by (auto simp: has_flag_def from_callee)
    with True merge_all_kept [of _ bits cs] show ?thesis by (simp add: merge_all_def)
  next
    case False
    with Cons.prems have "(c, r) \<in> set cs" by simp
    from Cons.IH [OF this Cons.prems(2)] show ?thesis by (simp add: merge_all_def)
  qed
qed simp

lemma proc_step_callee:
  "p < length bits \<Longrightarrow> c \<in> fst ` set (calls ! p) \<Longrightarrow> has_flag flag bits c \<Longrightarrow> has_flag flag (fst (proc_step calls (bits, ch) p)) p"
proof -
  assume p: "p < length bits" and c: "c \<in> fst ` set (calls ! p)" and b: "has_flag flag bits c"
  from c obtain r where "(c, r) \<in> set (calls ! p)" by auto
  then have "flag (merge_all bits (calls ! p) (bits ! p))" using b by (rule merge_all_callee)
  with p show ?thesis using seen_by_eq [of "merge_all bits (calls ! p) (bits ! p)" "bits ! p"]
    by (auto simp: proc_step_def Let_def has_flag_def)
qed

lemma round_callee:
  assumes "p < length bits" and "c \<in> fst ` set (calls ! p)" and "has_flag flag bits c"
  shows "has_flag flag (fst (fix_round calls h bits)) p"
proof -
  obtain xs ys where ps: "[0 ..< length bits] = xs @ p # ys" using assms(1) by (metis atLeastLessThan_iff set_upt split_list zero_le)
  let ?st = "foldl (proc_step calls) (bits, False) xs"
  have "has_flag flag (fst ?st) c" using assms(3) steps_kept [of "(bits, False)" c] by simp
  then have "has_flag flag (fst (proc_step calls ?st p)) p"
    using proc_step_callee [of p "fst ?st" c calls "snd ?st"] assms(1, 2) by simp
  then have "has_flag flag (fst (foldl (proc_step calls) (bits, False) [0 ..< length bits])) p"
    unfolding ps foldl_append foldl_Cons by (rule steps_kept)
  then show ?thesis by (simp add: fst_fix_round has_flag_def kept_by_handler)
qed

lemma loop_relpow:
  "(p, q) \<in> call_rel calls ^^ j \<Longrightarrow> j \<le> k \<Longrightarrow> length bits = length calls \<Longrightarrow> has_flag flag bits q \<Longrightarrow>
     has_flag flag (fix_loop k calls h bits) p"
proof (induction k arbitrary: bits q j)
  case (Suc k)
  let ?b = "fst (fix_round calls h bits)"
  have step: "has_flag flag ?b u" if "(u, c) \<in> call_rel calls" "has_flag flag bits c" for u c
    using that Suc.prems(3) by (intro round_callee [of u bits c]) (auto simp: call_rel_def)
  show ?case
  proof (cases "snd (fix_round calls h bits)")
    case True
    then have f: "fix_loop (Suc k) calls h bits = fix_loop k calls h ?b" by (simp add: case_prod_beta)
    show ?thesis
    proof (cases j)
      case 0
      then have "has_flag flag bits p" using Suc.prems by simp
      then show ?thesis by (rule loop_kept)
    next
      case (Suc i)
      then obtain u where u: "(p, u) \<in> call_rel calls ^^ i" "(u, q) \<in> call_rel calls" using Suc.prems(1) by auto
      from Suc.IH [OF u(1)] Suc Suc.prems step [OF u(2)] show ?thesis unfolding f by simp
    qed
  next
    case False
    then have f: "fix_loop (Suc k) calls h bits = bits" using round_unchanged [OF False] by (simp add: case_prod_beta)
    have closed: "has_flag flag bits u" if "(u, c) \<in> call_rel calls" "has_flag flag bits c" for u c
      using step [OF that] round_unchanged [OF False] by simp
    have "has_flag flag bits p" using Suc.prems(1, 4)
      by (induction j arbitrary: q) (auto intro: closed)
    then show ?thesis unfolding f .
  qed
qed simp

lemma loop_reachable:
  assumes "(p, q) \<in> (call_rel calls)\<^sup>*" and "length bits = length calls" and "has_flag flag bits q"
  shows "has_flag flag (fix_loop (length calls + 2) calls h bits) p"
proof (cases "p < length calls")
  case True
  have "call_rel calls \<subseteq> {..< length calls} \<times> {..< length calls}" by (auto simp: call_rel_def)
  from short_path [OF assms(1) this True] obtain j where "j < length calls" "(p, q) \<in> call_rel calls ^^ j" by blast
  then show ?thesis using assms(2, 3) by (intro loop_relpow [where j = j]) auto
next
  case False
  with assms(1) have "p = q" by (auto elim: converse_rtranclE simp: call_rel_def)
  with loop_kept [OF assms(3)] show ?thesis by blast
qed

end

text \<open>The flags of the analysis that flow.\<close>

lemma noteReach_fields [simp]:
  "b_opaque (noteReach b r w) = b_opaque b" "b_mayUnwind (noteReach b r w) = b_mayUnwind b"
  "b_mayNotReturn (noteReach b r w) = b_mayNotReturn b" "b_raiseKeys (noteReach b r w) = b_raiseKeys b"
  "b_readsOther b \<Longrightarrow> b_readsOther (noteReach b r w)" "b_writesOther b \<Longrightarrow> b_writesOther (noteReach b r w)"
  "b_readsArg b \<Longrightarrow> b_readsArg (noteReach b r w)" "b_writesArg b \<Longrightarrow> b_writesArg (noteReach b r w)"
  by (auto simp: noteReach_def split: Reach.splits)

lemma merge_callee_fields:
  "b_opaque (merge_callee cb r b) \<longleftrightarrow> b_opaque b \<or> b_opaque cb"
  "b_mayUnwind (merge_callee cb r b) \<longleftrightarrow> b_mayUnwind b \<or> b_mayUnwind cb"
  "b_mayNotReturn (merge_callee cb r b) \<longleftrightarrow> b_mayNotReturn b \<or> b_mayNotReturn cb"
  "b_raiseKeys (merge_callee cb r b) = b_raiseKeys b \<union> b_raiseKeys cb"
  "b_readsOther b \<or> b_readsOther cb \<Longrightarrow> b_readsOther (merge_callee cb r b)"
  "b_writesOther b \<or> b_writesOther cb \<Longrightarrow> b_writesOther (merge_callee cb r b)"
  "b_readsArg b \<Longrightarrow> b_readsArg (merge_callee cb r b)" "b_writesArg b \<Longrightarrow> b_writesArg (merge_callee cb r b)"
  by (auto simp: merge_callee_def Let_def)

lemma mark_start_kept:
  "b_opaque b \<Longrightarrow> b_opaque (mark_start M E i b)" "b_mayUnwind (mark_start M E i b) = b_mayUnwind b"
  "b_mayNotReturn b \<or> i \<in> M \<Longrightarrow> b_mayNotReturn (mark_start M E i b)" "b_readsOther (mark_start M E i b) = b_readsOther b"
  "b_writesOther (mark_start M E i b) = b_writesOther b" "b_raiseKeys (mark_start M E i b) = b_raiseKeys b"
  "b_readsArg (mark_start M E i b) = b_readsArg b" "b_writesArg (mark_start M E i b) = b_writesArg b"
  by (auto simp: mark_start_def Let_def)

lemmas flag_simps = merge_callee_fields handler_step_def bits_eq_def mark_start_kept

interpretation opaque_flows: flowing_flag b_opaque
  by unfold_locales (auto simp: flag_simps)

interpretation unwind_flows: flowing_flag b_mayUnwind
  by unfold_locales (auto simp: flag_simps)

interpretation no_return_flows: flowing_flag b_mayNotReturn
  by unfold_locales (auto simp: flag_simps)

interpretation reads_flow: flowing_flag b_readsOther
  by unfold_locales (auto simp: flag_simps)

interpretation writes_flow: flowing_flag b_writesOther
  by unfold_locales (auto simp: flag_simps)

interpretation raise_flows: flowing_flag "\<lambda>b. k \<in> b_raiseKeys b" for k
  by unfold_locales (auto simp: flag_simps)

interpretation reads_arg_kept: kept_flag b_readsArg
  by unfold_locales (auto simp: flag_simps)

interpretation writes_arg_kept: kept_flag b_writesArg
  by unfold_locales (auto simp: flag_simps)

section \<open>What the verdicts promise\<close>

definition own_walks :: "symtab \<Rightarrow> HProgram \<Rightarrow> nat set \<Rightarrow> EffectOptions \<Rightarrow> walker list" where
  "own_walks tab prog byValue opts = fst (walk_all (\<lambda>p. walk_run (proc_ctx tab byValue opts prog p) p) prog {})"

definition unit_handlers :: "symtab \<Rightarrow> HProgram \<Rightarrow> nat set \<Rightarrow> EffectOptions \<Rightarrow> int set" where
  "unit_handlers tab prog byValue opts = snd (walk_all (\<lambda>p. walk_run (proc_ctx tab byValue opts prog p) p) prog {})"

definition call_graph :: "symtab \<Rightarrow> HProgram \<Rightarrow> nat set \<Rightarrow> EffectOptions \<Rightarrow> (nat \<times> nat) set" where
  "call_graph tab prog byValue opts = call_rel (map w_calls (own_walks tab prog byValue opts))"

definition own_bits :: "symtab \<Rightarrow> HProgram \<Rightarrow> nat set \<Rightarrow> EffectOptions \<Rightarrow> nat \<Rightarrow> Bits" where
  "own_bits tab prog byValue opts q = w_bits (own_walks tab prog byValue opts ! q)"

definition start_bits :: "symtab \<Rightarrow> HProgram \<Rightarrow> nat set \<Rightarrow> EffectOptions \<Rightarrow> Bits list" where
  "start_bits tab prog byValue opts =
     (let ws = own_walks tab prog byValue opts;
          marks = cycle_marks (call_edges (map w_calls ws)) (length prog);
          escaped = \<Union> (set (map w_escaped ws))
      in map2 (mark_start marks escaped) [0 ..< length prog] (map w_bits ws))"

definition final_bits :: "symtab \<Rightarrow> HProgram \<Rightarrow> nat set \<Rightarrow> EffectOptions \<Rightarrow> Bits list" where
  "final_bits tab prog byValue opts =
     fix_loop (length prog + 2) (map w_calls (own_walks tab prog byValue opts)) (unit_handlers tab prog byValue opts)
       (start_bits tab prog byValue opts)"

lemma walk_all_length [simp]: "length (fst (walk_all f ps h)) = length ps"
  by (induction ps arbitrary: h) (simp_all add: Let_def case_prod_beta)

lemma fix_loop_length [simp]: "length (fix_loop k calls h bits) = length bits"
proof (induction k arbitrary: bits)
  case (Suc k)
  then show ?case by (simp add: case_prod_beta)
qed simp

lemma own_walks_length [simp]: "length (own_walks tab prog byValue opts) = length prog"
  by (simp add: own_walks_def)

lemma start_bits_length [simp]: "length (start_bits tab prog byValue opts) = length prog"
  by (simp add: start_bits_def Let_def)

lemma final_bits_length [simp]: "length (final_bits tab prog byValue opts) = length prog"
  by (simp add: final_bits_def del: fix_loop.simps)

lemma analyzeEffects_final: "analyzeEffects tab prog byValue opts = map verdict (final_bits tab prog byValue opts)"
  by (simp add: analyzeEffects_def final_bits_def start_bits_def own_walks_def unit_handlers_def Let_def case_prod_beta del: fix_loop.simps)

lemma start_bits_nth:
  "q < length prog \<Longrightarrow> start_bits tab prog byValue opts ! q =
     mark_start (cycle_marks (call_edges (map w_calls (own_walks tab prog byValue opts))) (length prog))
       (\<Union> (set (map w_escaped (own_walks tab prog byValue opts)))) q (own_bits tab prog byValue opts q)"
  by (simp add: start_bits_def own_bits_def Let_def)

lemma graph_field: "(p, q) \<in> (call_graph tab prog byValue opts)\<^sup>* \<Longrightarrow> p < length prog \<Longrightarrow> q < length prog"
  by (induction rule: rtrancl_induct) (auto simp: call_graph_def call_rel_def)

context kept_flag
begin

lemma own_kept:
  assumes "p < length prog" and "flag (own_bits tab prog byValue opts p)"
  shows "flag (final_bits tab prog byValue opts ! p)"
proof -
  have "has_flag flag (start_bits tab prog byValue opts) p"
    using assms by (simp add: has_flag_def start_bits_nth kept_by_start)
  from loop_kept [OF this] show ?thesis by (simp only: final_bits_def has_flag_def)
qed

end

context flowing_flag
begin

lemma start_covers:
  assumes "(p, q) \<in> (call_graph tab prog byValue opts)\<^sup>*" and "q < length prog" and "flag (start_bits tab prog byValue opts ! q)"
  shows "flag (final_bits tab prog byValue opts ! p)"
proof -
  have "has_flag flag (start_bits tab prog byValue opts) q" using assms(2, 3) by (simp add: has_flag_def)
  then have "has_flag flag (final_bits tab prog byValue opts) p"
    using loop_reachable [of p q "map w_calls (own_walks tab prog byValue opts)" "start_bits tab prog byValue opts"
        "unit_handlers tab prog byValue opts"] assms(1) by (simp add: final_bits_def call_graph_def del: fix_loop.simps)
  then show ?thesis by (simp add: has_flag_def)
qed

lemma final_covers:
  "(p, q) \<in> (call_graph tab prog byValue opts)\<^sup>* \<Longrightarrow> q < length prog \<Longrightarrow> flag (own_bits tab prog byValue opts q) \<Longrightarrow>
     flag (final_bits tab prog byValue opts ! p)"
  using start_covers [of p q tab prog byValue opts] by (simp add: start_bits_nth kept_by_start)

end

text \<open>C2: \<open>willreturn\<close> is only promised for a procedure from which nothing that may not return can be called: no procedure
  it reaches lies on a call cycle, contains a STOP, a GO TO or an unbounded loop, raises a condition,
  or does something the walk does not understand.\<close>
theorem willreturn_is_sound:
  assumes "p < length prog" and "pe_willReturn (analyzeEffects tab prog byValue opts ! p)"
    and "(p, q) \<in> (call_graph tab prog byValue opts)\<^sup>*"
  shows "(q, q) \<notin> (call_graph tab prog byValue opts)\<^sup>+ \<and> \<not> b_mayNotReturn (own_bits tab prog byValue opts q) \<and>
    b_raiseKeys (own_bits tab prog byValue opts q) = {} \<and> \<not> b_opaque (own_bits tab prog byValue opts q)"
proof -
  let ?f = "final_bits tab prog byValue opts ! p"
  have v: "\<not> b_opaque ?f" "\<not> b_mayNotReturn ?f" "b_raiseKeys ?f = {}"
    using assms(1, 2) by (simp_all add: analyzeEffects_final verdict_def)
  have q: "q < length prog" using graph_field [OF assms(3, 1)] .
  have "(q, q) \<notin> (call_graph tab prog byValue opts)\<^sup>+"
  proof
    assume "(q, q) \<in> (call_graph tab prog byValue opts)\<^sup>+"
    then obtain m where m: "m \<in> cycle_marks (call_edges (map w_calls (own_walks tab prog byValue opts))) (length prog)"
      "(q, m) \<in> (call_graph tab prog byValue opts)\<^sup>*"
      using cycle_has_mark [of q "map w_calls (own_walks tab prog byValue opts)"] unfolding call_graph_def by auto
    have "(p, m) \<in> (call_graph tab prog byValue opts)\<^sup>*" using assms(3) m(2) by (rule rtrancl_trans)
    moreover have "m < length prog" using graph_field [OF m(2) q] .
    ultimately show False using no_return_flows.start_covers [of p m tab prog byValue opts] m(1) v(2)
      by (simp add: start_bits_nth mark_start_kept)
  qed
  moreover have "\<not> b_mayNotReturn (own_bits tab prog byValue opts q)"
    using no_return_flows.final_covers [OF assms(3) q] v(2) by auto
  moreover have "b_raiseKeys (own_bits tab prog byValue opts q) = {}"
    using raise_flows.final_covers [OF assms(3) q] v(3) by auto
  moreover have "\<not> b_opaque (own_bits tab prog byValue opts q)"
    using opaque_flows.final_covers [OF assms(3) q] v(1) by auto
  ultimately show ?thesis by blast
qed

text \<open>A small unit: procedure 0 calls procedure 1, which does nothing.\<close>

definition no_checks :: EffectOptions where
  "no_checks = \<lparr>eo_sizeChecks = False, eo_subscriptChecks = False, eo_zerodivideChecks = False,
     eo_conversionChecks = False, eo_overflowChecks = False, eo_fixedOverflowChecks = False\<rparr>"

definition plain_proc :: "nat \<Rightarrow> nat list \<Rightarrow> HStmt list \<Rightarrow> HProc" where
  "plain_proc src params body =
     \<lparr>hp_name = [], hp_isMain = False, hp_isExternal = False, hp_isRecursive = False, hp_isFunction = False,
      hp_retTy = voidTy, hp_isPackage = False, hp_body = body, hp_paramSyms = params, hp_src = Some src\<rparr>"

definition call_stmt :: "nat \<Rightarrow> HExpr list \<Rightarrow> HStmt" where
  "call_stmt callee as = HStmt (default_hstmt\<lparr>s_kind := HS_CallS, s_sym := Some callee, s_args := as\<rparr>) None None [] None"

definition proc_symbols :: symtab where
  "proc_symbols = \<lparr>tab_sym = (\<lambda>i. default_symbol\<lparr>sy_kind := SK_ProcName, sy_proc := Some i\<rparr>), tab_isPackage = (\<lambda>_. False)\<rparr>"

definition two_procs :: HProgram where
  "two_procs = [plain_proc 0 [] [call_stmt 1 []], plain_proc 1 [] []]"

theorem willreturn_is_sound_witness:
  "(0, 0) \<notin> (call_graph proc_symbols two_procs {} no_checks)\<^sup>+ \<and>
   \<not> b_mayNotReturn (own_bits proc_symbols two_procs {} no_checks 1)"
proof -
  have w: "pe_willReturn (analyzeEffects proc_symbols two_procs {} no_checks ! 0)" by code_simp
  have n: "0 < length two_procs" by (simp add: two_procs_def)
  have "map w_calls (own_walks proc_symbols two_procs {} no_checks) = [[(1, R_Frame)], []]" by code_simp
  then have "(0, 1) \<in> call_graph proc_symbols two_procs {} no_checks" by (simp add: call_graph_def call_rel_def)
  then have "(0, 1) \<in> (call_graph proc_symbols two_procs {} no_checks)\<^sup>*" by (rule r_into_rtrancl)
  from willreturn_is_sound [OF n w rtrancl.rtrancl_refl] willreturn_is_sound [OF n w this] show ?thesis by blast
qed

text \<open>The handler rule closes every round, so it holds of the result.\<close>

lemma handler_step_closed: "handled h (handler_step h b) \<Longrightarrow> b_writesOther (handler_step h b) \<and> b_mayUnwind (handler_step h b)"
  by (auto simp: handler_step_def handled_def split: if_splits)

lemma fix_loop_handled:
  "0 < k \<Longrightarrow> p < length bits \<Longrightarrow> handled h (fix_loop k calls h bits ! p) \<Longrightarrow>
     b_writesOther (fix_loop k calls h bits ! p) \<and> b_mayUnwind (fix_loop k calls h bits ! p)"
proof (induction k arbitrary: bits)
  case (Suc k)
  let ?b = "fst (fix_round calls h bits)"
  have closed: "handled h (?b ! p) \<Longrightarrow> b_writesOther (?b ! p) \<and> b_mayUnwind (?b ! p)"
    using Suc.prems(2) handler_step_closed by (simp add: fst_fix_round)
  show ?case
  proof (cases "snd (fix_round calls h bits) \<and> 0 < k")
    case True
    then have f: "fix_loop (Suc k) calls h bits = fix_loop k calls h ?b" by (simp add: case_prod_beta)
    show ?thesis unfolding f using True Suc.prems(2, 3) [unfolded f] by (intro Suc.IH) simp_all
  next
    case False
    then have f: "fix_loop (Suc k) calls h bits = ?b" by (auto simp: case_prod_beta)
    show ?thesis unfolding f using Suc.prems(3) [unfolded f] by (rule closed)
  qed
qed simp

lemma final_handled:
  assumes "p < length prog" and "(p, q) \<in> (call_graph tab prog byValue opts)\<^sup>*"
    and "handled (unit_handlers tab prog byValue opts) (own_bits tab prog byValue opts q)"
  shows "b_writesOther (final_bits tab prog byValue opts ! p) \<and> b_mayUnwind (final_bits tab prog byValue opts ! p)"
proof -
  have q: "q < length prog" using graph_field [OF assms(2, 1)] .
  from assms(3) have "handled (unit_handlers tab prog byValue opts) (final_bits tab prog byValue opts ! p)"
    using raise_flows.final_covers [OF assms(2) q] unfolding handled_def by blast
  then show ?thesis using assms(1) unfolding final_bits_def by (intro fix_loop_handled) simp_all
qed

text \<open>C3: The memory promise covers every procedure that can be reached by calls: with any promise none of them does
  something unknown, writes outside its arguments, or raises a condition the unit handles; with an
  argument-only promise none reads outside its arguments; \<open>argmem-read\<close> and \<open>none\<close> exclude the procedure's
  own argument writes, and \<open>none\<close> its argument reads.\<close>
theorem memory_promise_covers_callees:
  assumes "p < length prog" and "(p, q) \<in> (call_graph tab prog byValue opts)\<^sup>*"
    and e: "pe_effect (analyzeEffects tab prog byValue opts ! p) = e"
  shows "(e \<noteq> ME_Unknown \<longrightarrow> \<not> b_opaque (own_bits tab prog byValue opts q) \<and> \<not> b_writesOther (own_bits tab prog byValue opts q) \<and>
      \<not> handled (unit_handlers tab prog byValue opts) (own_bits tab prog byValue opts q)) \<and>
    (e \<in> {ME_None, ME_ArgRead, ME_ArgReadWrite} \<longrightarrow> \<not> b_readsOther (own_bits tab prog byValue opts q)) \<and>
    (e \<in> {ME_None, ME_ArgRead} \<longrightarrow> \<not> b_writesArg (own_bits tab prog byValue opts p)) \<and>
    (e = ME_None \<longrightarrow> \<not> b_readsArg (own_bits tab prog byValue opts p))"
proof -
  let ?f = "final_bits tab prog byValue opts ! p"
  have q: "q < length prog" using graph_field [OF assms(2, 1)] .
  have "e = pe_effect (verdict ?f)" using assms(1) e by (simp add: analyzeEffects_final)
  then have v: "e \<noteq> ME_Unknown \<longrightarrow> \<not> b_opaque ?f \<and> \<not> b_writesOther ?f"
    "e \<in> {ME_None, ME_ArgRead, ME_ArgReadWrite} \<longrightarrow> \<not> b_readsOther ?f"
    "e \<in> {ME_None, ME_ArgRead} \<longrightarrow> \<not> b_writesArg ?f" "e = ME_None \<longrightarrow> \<not> b_readsArg ?f"
    by (auto simp: verdict_def split: if_splits)
  then show ?thesis
    using opaque_flows.final_covers [OF assms(2) q] writes_flow.final_covers [OF assms(2) q]
      reads_flow.final_covers [OF assms(2) q] final_handled [OF assms(1, 2)]
      writes_arg_kept.own_kept [OF assms(1)] reads_arg_kept.own_kept [OF assms(1)] by blast
qed

theorem memory_promise_covers_callees_witness:
  "\<not> b_readsOther (own_bits proc_symbols two_procs {} no_checks 1) \<and> \<not> b_writesArg (own_bits proc_symbols two_procs {} no_checks 0)"
proof -
  have n: "0 < length two_procs" by (simp add: two_procs_def)
  have e: "pe_effect (analyzeEffects proc_symbols two_procs {} no_checks ! 0) = ME_None" by code_simp
  have "map w_calls (own_walks proc_symbols two_procs {} no_checks) = [[(1, R_Frame)], []]" by code_simp
  then have "(0, 1) \<in> call_graph proc_symbols two_procs {} no_checks" by (simp add: call_graph_def call_rel_def)
  then have "(0, 1) \<in> (call_graph proc_symbols two_procs {} no_checks)\<^sup>*" by (rule r_into_rtrancl)
  from memory_promise_covers_callees [OF n this e] show ?thesis by simp
qed

text \<open>C4: \<open>nounwind\<close> is only promised when no procedure reachable by calls makes a call whose unwinding is unknown, is
  opaque, or raises a condition the unit handles.\<close>
theorem nounwind_is_sound:
  assumes "p < length prog" and "pe_nounwind (analyzeEffects tab prog byValue opts ! p)"
    and "(p, q) \<in> (call_graph tab prog byValue opts)\<^sup>*"
  shows "\<not> b_mayUnwind (own_bits tab prog byValue opts q) \<and> \<not> b_opaque (own_bits tab prog byValue opts q) \<and>
    \<not> handled (unit_handlers tab prog byValue opts) (own_bits tab prog byValue opts q)"
proof -
  let ?f = "final_bits tab prog byValue opts ! p"
  have v: "\<not> b_opaque ?f" "\<not> b_mayUnwind ?f" using assms(1, 2) by (simp_all add: analyzeEffects_final verdict_def)
  have q: "q < length prog" using graph_field [OF assms(3, 1)] .
  show ?thesis
    using v opaque_flows.final_covers [OF assms(3) q] unwind_flows.final_covers [OF assms(3) q]
      final_handled [OF assms(1, 3)] by blast
qed

theorem nounwind_is_sound_witness:
  "\<not> b_mayUnwind (own_bits proc_symbols two_procs {} no_checks 0)"
proof -
  have n: "0 < length two_procs" by (simp add: two_procs_def)
  have w: "pe_nounwind (analyzeEffects proc_symbols two_procs {} no_checks ! 0)" by code_simp
  from nounwind_is_sound [OF n w rtrancl.rtrancl_refl] show ?thesis by blast
qed

text \<open>A procedure \<open>P(X)\<close> whose body is \<open>X = G\<close> with a STATIC \<open>G\<close>: symbol 0 is the parameter, symbol 1 the variable.\<close>

definition var_ref :: "nat \<Rightarrow> HExpr" where
  "var_ref i = HExpr (default_hexpr\<lparr>h_kind := HE_VarRef, h_sym := Some i\<rparr>) None None None []"

definition assign_stmt :: "HExpr \<Rightarrow> HExpr \<Rightarrow> HStmt" where
  "assign_stmt t v = HStmt (default_hstmt\<lparr>s_kind := HS_Assign, s_target := Some t, s_value := Some v\<rparr>) None None [] None"

definition copy_symbols :: symtab where
  "copy_symbols =
     \<lparr>tab_sym = (\<lambda>i. if i = 0 then default_symbol\<lparr>sy_kind := SK_Param, sy_owner := Some 0\<rparr>
                      else default_symbol\<lparr>sy_isStatic := True, sy_owner := Some 0\<rparr>),
      tab_isPackage = (\<lambda>_. False)\<rparr>"

definition copy_proc :: HProgram where
  "copy_proc = [plain_proc 0 [0] [assign_stmt (var_ref 0) (var_ref 1)]]"

text \<open>The \<open>read\<close> rung does not exclude argument writes: a procedure that copies a STATIC variable to its parameter
  gets the verdict that promises no writes at all.\<close>
lemma read_verdict_hides_argument_writes:
  "b_writesArg (own_bits copy_symbols copy_proc {} no_checks 0) \<and>
   pe_effect (analyzeEffects copy_symbols copy_proc {} no_checks ! 0) = ME_Read"
proof
  show "b_writesArg (own_bits copy_symbols copy_proc {} no_checks 0)" by code_simp
  show "pe_effect (analyzeEffects copy_symbols copy_proc {} no_checks ! 0) = ME_Read" by code_simp
qed

text \<open>\<open>DO I = 1 TO 10; END;\<close> and \<open>DO I = 1 BY 1; END;\<close> with symbol 1, the STATIC variable, as \<open>I\<close>.\<close>

definition int_lit :: "int \<Rightarrow> HExpr" where
  "int_lit v = HExpr (default_hexpr\<lparr>h_kind := HE_IntLit, h_ival := v\<rparr>) None None None []"

definition do_stmt :: "HExpr option \<Rightarrow> HExpr option \<Rightarrow> HStmt" where
  "do_stmt to1 by1 =
     HStmt (default_hstmt\<lparr>s_kind := HS_DoIter, s_sym := Some 1, s_from := Some (int_lit 1), s_to := to1, s_by := by1\<rparr>) None None [] None"

text \<open>The walk of an iterative DO looks at neither its control variable nor whether it has a limit: a loop over a STATIC
  variable is judged to touch no memory, and one without TO to return.\<close>
lemma do_loops_are_underestimated:
  "pe_effect (analyzeEffects copy_symbols [plain_proc 0 [] [do_stmt (Some (int_lit 10)) None]] {} no_checks ! 0) = ME_None \<and>
   pe_willReturn (analyzeEffects copy_symbols [plain_proc 0 [] [do_stmt None (Some (int_lit 1))]] {} no_checks ! 0)"
proof
  show "pe_effect (analyzeEffects copy_symbols [plain_proc 0 [] [do_stmt (Some (int_lit 10)) None]] {} no_checks ! 0) = ME_None"
    by code_simp
  show "pe_willReturn (analyzeEffects copy_symbols [plain_proc 0 [] [do_stmt None (Some (int_lit 1))]] {} no_checks ! 0)"
    by code_simp
qed

end
