(* ===== verification/Soundness.thy ===== *)
theory Soundness
  imports Analysis
begin

text \<open>
  What the verdicts of \<open>analyzeEffects\<close> say of the program text: the walk only ever turns bits on, so every
  statement that occurs in a body has left its mark, and a promise excludes the statements whose mark it
  denies from every procedure that calls can reach.
\<close>

section \<open>The walk only turns bits on\<close>

definition bits_le :: "Bits \<Rightarrow> Bits \<Rightarrow> bool" where
  "bits_le b c \<longleftrightarrow> (b_readsOther b \<longrightarrow> b_readsOther c) \<and> (b_writesOther b \<longrightarrow> b_writesOther c) \<and> (b_readsArg b \<longrightarrow> b_readsArg c) \<and>
     (b_writesArg b \<longrightarrow> b_writesArg c) \<and> (b_opaque b \<longrightarrow> b_opaque c) \<and> (b_io b \<longrightarrow> b_io c) \<and> (b_hasOnUnit b \<longrightarrow> b_hasOnUnit c) \<and>
     (b_nameEscapes b \<longrightarrow> b_nameEscapes c) \<and> (b_mayUnwind b \<longrightarrow> b_mayUnwind c) \<and> (b_mayNotReturn b \<longrightarrow> b_mayNotReturn c) \<and>
     b_raiseKeys b \<subseteq> b_raiseKeys c"

definition grows :: "(walker \<Rightarrow> walker) \<Rightarrow> bool" where
  "grows f \<longleftrightarrow> (\<forall>w. bits_le (w_bits w) (w_bits (f w)))"

named_theorems growing

lemma bits_le_refl [simp]: "bits_le b b"
  by (simp add: bits_le_def)

lemma bits_le_trans: "bits_le a b \<Longrightarrow> bits_le b c \<Longrightarrow> bits_le a c"
  unfolding bits_le_def by (elim conjE, intro conjI impI subsetI; simp add: subset_iff)

lemma growsD: "grows f \<Longrightarrow> bits_le (w_bits w) (w_bits (f w))"
  by (simp add: grows_def)

lemma grows_step: "grows f \<Longrightarrow> bits_le b (w_bits w) \<Longrightarrow> bits_le b (w_bits (f w))"
  using bits_le_trans growsD by blast

lemma if_le: "(c \<Longrightarrow> bits_le b (w_bits v)) \<Longrightarrow> (\<not> c \<Longrightarrow> bits_le b (w_bits w)) \<Longrightarrow> bits_le b (w_bits (if c then v else w))"
  by simp

lemma noteReach_le: "bits_le b (noteReach b r k)"
  by (cases r) (simp_all add: noteReach_def bits_le_def)

lemma grows_note [growing]: "grows (w_note r k)"
  by (simp add: grows_def w_note_def noteReach_le)

lemma grows_raise [growing]: "grows (w_raise key)" "grows (w_raise_if c key)"
  by (auto simp: grows_def w_raise_def w_raise_if_def bits_le_def)

lemma grows_flags [growing]: "grows w_opaque" "grows w_mayUnwind" "grows w_mayNotReturn" "grows w_writesOther"
  by (simp_all add: grows_def w_opaque_def w_mayUnwind_def w_mayNotReturn_def w_writesOther_def bits_le_def)

lemma grows_checks [growing]: "grows (raiseSize cx)" "grows (raiseOverflow cx)" "grows (raiseFixedOverflow cx)"
  using grows_raise(2) by (simp_all add: grows_def raiseSize_def raiseOverflow_def raiseFixedOverflow_def)

lemma grows_markEscape [growing]: "grows (markEscape cx s)"
  by (simp add: grows_def markEscape_def split: option.split)

lemma grows_call [growing]: "grows (w_call cx p as)"
  by (auto simp: grows_def w_call_def w_opaque_def bits_le_def split: option.split)

lemmas le_steps = growing [THEN grows_step] if_le

lemma grows_builtin: "grows (walk_builtin cx x as)"
  unfolding grows_def walk_builtin_def Let_def
  by (cases "builtinEffect (h_name x)") (simp_all only: BuiltinEffect.case, (intro allI le_steps bits_le_refl)+)

lemma builtin_le: "bits_le b (w_bits w) \<Longrightarrow> bits_le b (w_bits (walk_builtin cx x as w))"
  using grows_builtin by (rule grows_step)

lemma callExpr_le: "bits_le b (w_bits w) \<Longrightarrow> bits_le b (w_bits (walkCallExpr cx x as k w))"
  unfolding walkCallExpr_def Let_def
  by (cases "the_sym cx (h_sym x)") (simp_all only: option.case, (intro le_steps builtin_le; assumption)+)

lemma walkExpr_le: "bits_le b (w_bits w) \<Longrightarrow> bits_le b (w_bits (walkExpr cx e k w))"
  and walkArgs_le: "bits_le b (w_bits w) \<Longrightarrow> bits_le b (w_bits (walkArgs cx es w))"
proof (induction cx e k w and cx es w rule: walkExpr_walkArgs.induct)
  case (2 cx x lp a b as k w)
  note kinds = HExprKind.case Let_def walkExpr.simps(2)
  show ?case
  proof (cases "h_kind x")
    case HE_VarRef
    then show ?thesis using 2 by (cases "h_sym x") (simp_all only: kinds option.case, (intro le_steps; simp)+)
  next
    case HE_Subscript
    with 2 show ?thesis by (simp only: kinds) (intro le_steps; simp)
  next
    case HE_Binary
    with 2 show ?thesis by (simp only: kinds) (intro le_steps; simp)
  next
    case HE_Unary
    with 2 show ?thesis by (simp only: kinds) (intro le_steps; simp)
  next
    case HE_Convert
    with 2 show ?thesis by (simp only: kinds) (intro le_steps; simp)
  next
    case HE_Call
    with 2 show ?thesis by (simp only: kinds) (intro callExpr_le; simp)
  qed (use 2 in simp_all)
qed simp_all

lemma foldl_le: "(\<And>w x. bits_le b (w_bits w) \<Longrightarrow> bits_le b (w_bits (f w x))) \<Longrightarrow> bits_le b (w_bits w) \<Longrightarrow> bits_le b (w_bits (foldl f w xs))"
  by (induction xs arbitrary: w) simp_all

lemma record_le: "bits_le b (w_bits w) \<Longrightarrow> bits_le b (w_bits (w\<lparr>w_bits := (w_bits w)\<lparr>b_io := True, b_opaque := True\<rparr>\<rparr>))"
  "bits_le b (w_bits w) \<Longrightarrow>
     bits_le b (w_bits (w\<lparr>w_bits := (w_bits w)\<lparr>b_hasOnUnit := True, b_opaque := True\<rparr>, w_handlerKeys := h\<rparr>))"
  "bits_le b (w_bits w) \<Longrightarrow> bits_le b (w_bits (w\<lparr>w_bits := (w_bits w)\<lparr>b_writesArg := True\<rparr>\<rparr>))"
  by (simp_all add: bits_le_def)

lemmas walk_le = le_steps walkExpr_le walkArgs_le foldl_le record_le

lemma simple_stmts_le:
  "bits_le b (w_bits w) \<Longrightarrow> bits_le b (w_bits (walkCallStmt cx st w))"
  "bits_le b (w_bits w) \<Longrightarrow> bits_le b (w_bits (walkDecls cx ds w))"
  "bits_le b (w_bits w) \<Longrightarrow> bits_le b (w_bits (walkAssign cx st w))"
  "bits_le b (w_bits w) \<Longrightarrow> bits_le b (w_bits (walkIO cx st w))"
  unfolding walkCallStmt_def walkDecls_def walkAssign_def walkTargets_def walkIO_def Let_def
  by (cases "the_sym cx (s_sym st)"; simp only: option.case; intro walk_le; assumption)
    (intro walk_le; assumption)+

lemma walkStmt_le: "bits_le b (w_bits w) \<Longrightarrow> bits_le b (w_bits (walkStmt cx s w))"
  and walkBody_le: "bits_le b (w_bits w) \<Longrightarrow> bits_le b (w_bits (walkBody cx sts w))"
proof (induction cx s w and cx sts w rule: walkStmt_walkBody.induct)
  case (2 cx st th el bd un w)
  have unfolded: "bits_le b (w_bits w) \<Longrightarrow> bits_le b ((w_bits w)\<lparr>b_hasOnUnit := True, b_opaque := True\<rparr>)"
    using record_le(2) by simp
  have endless: "bits_le b (w_bits w) \<Longrightarrow> bits_le b (w_bits (if c then w_mayNotReturn w else w))" for c
    by (intro walk_le)
  show ?case
    using 2 by (cases "s_kind st") (simp_all add: Let_def walkExpr_le simple_stmts_le unfolded endless grows_flags(3) [THEN grows_step])
qed simp_all

section \<open>A statement that occurs has left its mark\<close>

text \<open>Occurrence of a statement in a body, through the branches of IF, the bodies of groups, blocks and loops, and ON units.\<close>

inductive occurs :: "HStmt \<Rightarrow> HStmt list \<Rightarrow> bool" where
  here: "s \<in> set body \<Longrightarrow> occurs s body"
| in_then: "HStmt st (Some t) el bd un \<in> set body \<Longrightarrow> s_kind st = HS_If \<Longrightarrow> occurs s [t] \<Longrightarrow> occurs s body"
| in_else: "HStmt st th (Some e) bd un \<in> set body \<Longrightarrow> s_kind st = HS_If \<Longrightarrow> occurs s [e] \<Longrightarrow> occurs s body"
| in_body: "HStmt st th el bd un \<in> set body \<Longrightarrow> s_kind st \<in> {HS_Group, HS_Begin, HS_DoWhile, HS_DoIter} \<Longrightarrow> occurs s bd \<Longrightarrow> occurs s body"
| in_unit: "HStmt st th el bd (Some u) \<in> set body \<Longrightarrow> s_kind st = HS_On \<Longrightarrow> occurs s [u] \<Longrightarrow> occurs s body"

lemma member_walked: "s \<in> set body \<Longrightarrow> \<exists>v. bits_le (w_bits (walkStmt cx (Some s) v)) (w_bits (walkBody cx body w))"
proof (induction body arbitrary: w)
  case (Cons t body)
  then show ?case by (cases "s = t") (auto intro: walkBody_le [OF bits_le_refl])
qed simp

lemma occurs_walked: "occurs s body \<Longrightarrow> \<exists>v. bits_le (w_bits (walkStmt cx (Some s) v)) (w_bits (walkBody cx body w))"
proof (induction arbitrary: w rule: occurs.induct)
  case (here s body)
  then show ?case by (rule member_walked)
next
  case (in_then st t el bd un body s)
  obtain v where v: "bits_le (w_bits (walkStmt cx (Some (HStmt st (Some t) el bd un)) v)) (w_bits (walkBody cx body w))"
    using member_walked [OF in_then.hyps(1)] by blast
  obtain v2 where "bits_le (w_bits (walkStmt cx (Some s) v2)) (w_bits (walkBody cx [t] (walkExpr cx (s_cond st) False v)))"
    using in_then.IH by blast
  with in_then.hyps(2) have "bits_le (w_bits (walkStmt cx (Some s) v2)) (w_bits (walkStmt cx (Some (HStmt st (Some t) el bd un)) v))"
    by (auto intro: walkStmt_le)
  with v show ?case using bits_le_trans by blast
next
  case (in_else st th e bd un body s)
  obtain v where v: "bits_le (w_bits (walkStmt cx (Some (HStmt st th (Some e) bd un)) v)) (w_bits (walkBody cx body w))"
    using member_walked [OF in_else.hyps(1)] by blast
  obtain v2 where "bits_le (w_bits (walkStmt cx (Some s) v2))
      (w_bits (walkBody cx [e] (walkStmt cx th (walkExpr cx (s_cond st) False v))))"
    using in_else.IH by blast
  with in_else.hyps(2) v show ?case using bits_le_trans by auto
next
  case (in_body st th el bd un body s)
  obtain v where v: "bits_le (w_bits (walkStmt cx (Some (HStmt st th el bd un)) v)) (w_bits (walkBody cx body w))"
    using member_walked [OF in_body.hyps(1)] by blast
  have "\<exists>u. walkStmt cx (Some (HStmt st th el bd un)) v = walkBody cx bd u" using in_body.hyps(2) by auto
  with in_body.IH v show ?case using bits_le_trans by metis
next
  case (in_unit st th el bd u body s)
  obtain v where v: "bits_le (w_bits (walkStmt cx (Some (HStmt st th el bd (Some u))) v)) (w_bits (walkBody cx body w))"
    using member_walked [OF in_unit.hyps(1)] by blast
  have "\<exists>x. walkStmt cx (Some (HStmt st th el bd (Some u))) v = walkBody cx [u] x" using in_unit.hyps(2) by (auto simp: Let_def)
  with in_unit.IH v show ?case using bits_le_trans by metis
qed

section \<open>What a promise excludes from the program text\<close>

lemma walk_all_nth: "q < length ps \<Longrightarrow> \<exists>h1. fst (walk_all f ps h) ! q = f (ps ! q) h1"
proof (induction ps arbitrary: h q)
  case (Cons p ps)
  then show ?case by (cases q) (auto simp: Let_def case_prod_beta)
qed simp

lemma own_occurs:
  assumes "q < length prog" and "occurs s (hp_body (prog ! q))"
  shows "\<exists>v. bits_le (w_bits (walkStmt (proc_ctx tab byValue opts prog (prog ! q)) (Some s) v)) (own_bits tab prog byValue opts q)"
proof -
  obtain h where h: "own_walks tab prog byValue opts ! q = walk_run (proc_ctx tab byValue opts prog (prog ! q)) (prog ! q) h"
    using walk_all_nth [OF assms(1)] unfolding own_walks_def by blast
  obtain v where "bits_le (w_bits (walkStmt (proc_ctx tab byValue opts prog (prog ! q)) (Some s) v))
      (w_bits (walkBody (proc_ctx tab byValue opts prog (prog ! q)) (hp_body (prog ! q))
        \<lparr>w_bits = emptyBits, w_escaped = {}, w_calls = [], w_handlerKeys = h\<rparr>))"
    using occurs_walked [OF assms(2)] by blast
  then have "bits_le (w_bits (walkStmt (proc_ctx tab byValue opts prog (prog ! q)) (Some s) v)) (own_bits tab prog byValue opts q)"
    unfolding own_bits_def h walk_run_def Let_def by (intro if_le record_le)
  then show ?thesis by blast
qed

text \<open>The marks of the statements that may not return, or of which nothing is known.\<close>

definition bounded_kinds :: "HStmtKind set" where
  "bounded_kinds = {HS_Null, HS_Declare, HS_Assign, HS_If, HS_Group, HS_Begin, HS_DoIter, HS_CallS, HS_Return, HS_Leave,
     HS_Iterate, HS_Format, HS_Entry}"

lemma unbounded_marks:
  assumes "s_kind st \<notin> bounded_kinds \<or> s_kind st = HS_DoIter \<and> endless_by (s_by st)"
  shows "b_mayNotReturn (w_bits (walkStmt cx (Some (HStmt st th el bd un)) v)) \<or>
    b_opaque (w_bits (walkStmt cx (Some (HStmt st th el bd un)) v))"
proof -
  have mark: "b_mayNotReturn b \<or> b_opaque b" if "bits_le c b" "b_mayNotReturn c \<or> b_opaque c" for b c
    using that by (auto simp: bits_le_def)
  have "bits_le (w_bits (w_mayNotReturn v)) (w_bits (walkStmt cx (Some (HStmt st th el bd un)) v))"
    if "s_kind st = HS_DoWhile \<or> s_kind st = HS_DoIter \<and> endless_by (s_by st)"
    using that by (auto intro!: walkBody_le walkExpr_le)
  moreover have "bits_le ((w_bits v)\<lparr>b_hasOnUnit := True, b_opaque := True\<rparr>) (w_bits (walkStmt cx (Some (HStmt st th el bd un)) v))"
    if "s_kind st = HS_On" using that by (auto simp: Let_def intro!: walkStmt_le)
  ultimately show ?thesis
    using assms mark by (cases "s_kind st") (auto simp: bounded_kinds_def w_mayNotReturn_def walkIO_def Let_def)
qed

lemma willreturn_text:
  assumes "p < length prog" and "pe_willReturn (analyzeEffects tab prog byValue opts ! p)"
    and "(p, q) \<in> (call_graph tab prog byValue opts)\<^sup>*"
    and "occurs (HStmt st th el bd un) (hp_body (prog ! q))"
  shows "s_kind st \<in> bounded_kinds \<and> (s_kind st = HS_DoIter \<longrightarrow> \<not> endless_by (s_by st))"
proof -
  let ?f = "final_bits tab prog byValue opts ! p"
  have v: "\<not> b_opaque ?f" "\<not> b_mayNotReturn ?f" using assms(1, 2) by (simp_all add: analyzeEffects_final verdict_def)
  have q: "q < length prog" using graph_field [OF assms(3, 1)] .
  have "\<not> b_mayNotReturn (own_bits tab prog byValue opts q)" "\<not> b_opaque (own_bits tab prog byValue opts q)"
    using no_return_flows.final_covers [OF assms(3) q] opaque_flows.final_covers [OF assms(3) q] v by blast+
  with own_occurs [OF q assms(4)] unbounded_marks show ?thesis unfolding bits_le_def by blast
qed

text \<open>C5: A procedure promised to return reaches, through any chain of calls, only procedures whose bodies are free of STOP, GO TO,
  DO WHILE, ON units, I/O, storage and condition statements at every depth, and whose DO loops step by one or by
  a non-zero constant.\<close>
theorem willreturn_excludes_statements:
  assumes "p < length prog" and "pe_willReturn (analyzeEffects tab prog byValue opts ! p)"
    and "(p, q) \<in> (call_graph tab prog byValue opts)\<^sup>*"
    and "occurs (HStmt st th el bd un) (hp_body (prog ! q))"
  shows "s_kind st \<in> bounded_kinds \<and> (s_kind st = HS_DoIter \<longrightarrow> \<not> endless_by (s_by st))"
  using assms by (rule willreturn_text)

text \<open>Procedure 0 assigns its local and loops ten times.\<close>

definition local_symbols :: symtab where
  "local_symbols = \<lparr>tab_sym = (\<lambda>i. default_symbol\<lparr>sy_owner := Some 0\<rparr>), tab_isPackage = (\<lambda>_. False)\<rparr>"

definition loop_proc :: HProgram where
  "loop_proc = [plain_proc 0 [] [do_stmt (Some (int_lit 10)) (Some (int_lit 2)), assign_stmt (var_ref 0) (int_lit 1)]]"

theorem willreturn_excludes_statements_witness:
  "HS_DoIter \<in> bounded_kinds \<and> \<not> endless_by (Some (int_lit 2))"
proof -
  let ?st = "default_hstmt\<lparr>s_kind := HS_DoIter, s_sym := Some 1, s_from := Some (int_lit 1), s_to := Some (int_lit 10), s_by := Some (int_lit 2)\<rparr>"
  have n: "0 < length loop_proc" by (simp add: loop_proc_def)
  have w: "pe_willReturn (analyzeEffects local_symbols loop_proc {} no_checks ! 0)" by code_simp
  have "occurs (HStmt ?st None None [] None) (hp_body (loop_proc ! 0))"
    by (rule occurs.here) (simp add: loop_proc_def plain_proc_def do_stmt_def)
  from willreturn_excludes_statements [OF n w rtrancl.rtrancl_refl this] show ?thesis by simp
qed








end
