(* ===== verification/Picture.thy ===== *)
theory Picture
  imports Prelude
begin

text \<open>
  PICTURE specifications in \<^verbatim>\<open>src/irgen_decisions.cpp\<close>: \<open>classifyPicture\<close> expands the repetition factors,
  validates the characters and records the digit layout; \<open>foldPictureConversion\<close> edits a constant through a
  foldable picture.  The scan over \<open>pic[i]\<close> is a recursion over the rest of the string; an early
  \<^verbatim>\<open>return s\<close> is the flag \<^const>\<open>False\<close> beside the specification built so far.
\<close>

section \<open>Character classes\<close>

definition isPictureChar :: "char \<Rightarrow> bool" where
  "isPictureChar c \<longleftrightarrow> c \<in> set ''ABCDEGHIKMPSTVYZ$.,*/1236789XFR+-''"

definition isNumericPictureChar :: "char \<Rightarrow> bool" where
  "isNumericPictureChar c \<longleftrightarrow> c \<in> set (''9ZV.,$+-SY*EK'' @ ''CRDTI'' @ ''B/'' @ ''GHMP678'')"

definition isFoldablePictureChar :: "char \<Rightarrow> bool" where
  "isFoldablePictureChar c \<longleftrightarrow> c \<in> set ''9ZV.+-SXA''"

record PictureSpec =
  ps_valid :: bool
  ps_numeric :: bool
  ps_foldable :: bool
  ps_sterling :: bool
  ps_binary :: bool
  ps_hasRepeat :: bool
  ps_hasScale :: bool
  ps_width :: int
  ps_intDigits :: int
  ps_fracDigits :: int
  ps_point :: int
  ps_scale :: int
  ps_badChar :: char
  ps_expanded :: string

definition emptySpec :: PictureSpec where
  "emptySpec = \<lparr>ps_valid = False, ps_numeric = False, ps_foldable = False, ps_sterling = False, ps_binary = False,
     ps_hasRepeat = False, ps_hasScale = False, ps_width = 0, ps_intDigits = 0, ps_fracDigits = 0, ps_point = - 1,
     ps_scale = 0, ps_badChar = NUL, ps_expanded = []\<rparr>"

section \<open>Expansion\<close>

text \<open>The digit loop shared by repetition and scaling factors: the number, whether a digit was seen and the rest;
  \<^const>\<open>None\<close> when the number passes a million.\<close>

fun pic_number :: "string \<Rightarrow> int \<Rightarrow> bool \<Rightarrow> (int \<times> bool \<times> string) option" where
  "pic_number [] n digits = Some (n, digits, [])"
| "pic_number (c # cs) n digits =
     (if c_isdigit c then
        let n1 = n * 10 + int (digit_val c)
        in if n1 > 1000000 then None else pic_number cs n1 True
      else Some (n, digits, c # cs))"

text \<open>A repetition factor \<open>(n)\<close> before the next character: the count, whether one was written, and the rest;
  \<^const>\<open>None\<close> is the early return.\<close>

definition pic_repeat :: "string \<Rightarrow> (int \<times> bool \<times> string) option" where
  "pic_repeat s =
     (if s \<noteq> [] \<and> hd s = CHR ''('' then
        (case pic_number (tl s) 0 False of
           None \<Rightarrow> None
         | Some (n, digits, r) \<Rightarrow>
             if \<not> digits \<or> r = [] \<or> hd r \<noteq> CHR '')'' then None
             else if tl r = [] then None
             else Some (n, True, tl r))
      else Some (1, False, s))"

text \<open>The scaling factor \<open>F(+n)\<close> that ends a picture, from the parenthesis on: its value.\<close>

definition pic_scale :: "string \<Rightarrow> int option" where
  "pic_scale r =
     (if r = [] \<or> hd r \<noteq> CHR ''('' then None
      else
        let r1 = tl r;
            signed = (r1 \<noteq> [] \<and> (hd r1 = CHR ''+'' \<or> hd r1 = CHR ''-''));
            sign = (if signed \<and> hd r1 = CHR ''-'' then - 1 else 1);
            r2 = (if signed then tl r1 else r1)
        in case pic_number r2 0 False of
             None \<Rightarrow> None
           | Some (n, digits, r3) \<Rightarrow>
               if \<not> digits \<or> r3 = [] \<or> hd r3 \<noteq> CHR '')'' \<or> tl r3 \<noteq> [] then None
               else Some (sign * n))"

definition pic_take :: "char \<Rightarrow> int \<Rightarrow> bool \<Rightarrow> PictureSpec \<Rightarrow> PictureSpec" where
  "pic_take c rpt repeated s =
     s\<lparr>ps_binary := (ps_binary s \<or> c = CHR ''1'' \<or> c = CHR ''2'' \<or> c = CHR ''3''),
       ps_hasRepeat := (ps_hasRepeat s \<or> repeated),
       ps_expanded := ps_expanded s @ replicate (nat rpt) c,
       ps_width := ps_width s + (if c \<noteq> CHR ''V'' then int (nat rpt) else 0)\<rparr>"

lemma pic_number_length: "pic_number s n d = Some (m, e, r) \<Longrightarrow> length r \<le> length s"
  by (induction s n d rule: pic_number.induct) (auto simp: Let_def split: if_splits)

lemma pic_repeat_length: "pic_repeat s = Some (n, b, r) \<Longrightarrow> length r \<le> length s"
  by (cases s) (auto simp: pic_repeat_def split: if_splits option.splits dest!: pic_number_length)

function pic_expand :: "string \<Rightarrow> PictureSpec \<Rightarrow> bool \<times> PictureSpec" where
  "pic_expand s spec =
     (if s = [] then (True, spec)
      else
        (case pic_repeat s of
           None \<Rightarrow> (False, spec)
         | Some (rpt, repeated, []) \<Rightarrow> (False, spec)
         | Some (rpt, repeated, c # rest) \<Rightarrow>
             if c = CHR ''F'' then
               (if repeated then (False, spec)
                else
                  (case pic_scale rest of
                     None \<Rightarrow> (False, spec)
                   | Some n \<Rightarrow> (True, spec\<lparr>ps_hasScale := True, ps_scale := n\<rparr>)))
             else if \<not> isPictureChar c then (False, spec\<lparr>ps_badChar := c\<rparr>)
             else pic_expand rest (pic_take c rpt repeated spec)))"
  by pat_completeness auto

termination pic_expand
  by (relation "measure (\<lambda>(s, spec). length s)") (auto dest: pic_repeat_length)

declare pic_expand.simps [simp del]

section \<open>Classification\<close>

text \<open>The sterling scan after \<open>GM\<close>: the field number, the digits of the current field, and the specification.\<close>

fun sterling_loop :: "string \<Rightarrow> int \<Rightarrow> int \<Rightarrow> PictureSpec \<Rightarrow> bool \<times> int \<times> int \<times> PictureSpec" where
  "sterling_loop [] field digits s = (True, field, digits, s)"
| "sterling_loop (c # cs) field digits s =
     (if c = CHR ''M'' then
        (if digits = 0 \<or> field \<ge> 2 then (False, field, digits, s) else sterling_loop cs (field + 1) 0 s)
      else if c = CHR ''9'' \<or> c = CHR ''Z'' then
        sterling_loop cs field (digits + 1) (s\<lparr>ps_width := ps_width s + 1, ps_intDigits := ps_intDigits s + 1\<rparr>)
      else if field = 0 \<or> c \<notin> {CHR ''.'', CHR ''B'', CHR ''/'', CHR ''H'', CHR ''P''} then (False, field, digits, s)
      else sterling_loop cs field digits (s\<lparr>ps_width := ps_width s + 1\<rparr>))"

definition classify_sterling :: "PictureSpec \<Rightarrow> PictureSpec" where
  "classify_sterling s0 =
     (let s = s0\<lparr>ps_sterling := True, ps_numeric := True, ps_foldable := False, ps_width := 0,
                 ps_intDigits := 0, ps_fracDigits := 0\<rparr>
      in if length (ps_expanded s) \<le> 1 \<or> ps_expanded s ! 1 \<noteq> CHR ''M'' then s
         else
           (case sterling_loop (drop 2 (ps_expanded s)) 0 0 s of
              (ok, field, digits, s1) \<Rightarrow>
                if \<not> ok then s1
                else if field \<noteq> 2 \<or> digits = 0 \<or> ps_width s1 \<le> 0 \<or> ps_width s1 > 127 \<or> ps_intDigits s1 > 38 then s1
                else s1\<lparr>ps_valid := True\<rparr>))"

fun find_point :: "string \<Rightarrow> int \<Rightarrow> int" where
  "find_point [] i = - 1"
| "find_point (c # cs) i = (if c = CHR ''V'' \<or> c = CHR ''.'' then i else find_point cs (i + 1))"

definition is_digit_slot :: "char \<Rightarrow> bool" where
  "is_digit_slot c \<longleftrightarrow> c \<in> set ''9ZY*$TIR''"

fun count_digits :: "int \<Rightarrow> string \<Rightarrow> int \<Rightarrow> int \<times> int \<Rightarrow> int \<times> int" where
  "count_digits point [] i (ints, fracs) = (ints, fracs)"
| "count_digits point (c # cs) i (ints, fracs) =
     (if \<not> is_digit_slot c then count_digits point cs (i + 1) (ints, fracs)
      else if point \<ge> 0 \<and> i > point then count_digits point cs (i + 1) (ints, fracs + 1)
      else count_digits point cs (i + 1) (ints + 1, fracs))"

definition classifyPicture :: "string \<Rightarrow> PictureSpec" where
  "classifyPicture pic =
     (if pic = [] then emptySpec
      else
        (case pic_expand pic emptySpec of
           (ok, s) \<Rightarrow>
             if \<not> ok then s
             else if ps_expanded s = [] then s
             else if hd (ps_expanded s) = CHR ''G'' then classify_sterling s
             else
               let point = find_point (ps_expanded s) 0;
                   (ints, fracs) = count_digits point (ps_expanded s) 0 (ps_intDigits s, ps_fracDigits s);
                   numeric = list_ex isNumericPictureChar (ps_expanded s);
                   foldable = (numeric \<and> \<not> ps_hasRepeat s \<and> \<not> ps_hasScale s \<and> ps_width s > 0 \<and>
                               length (ps_expanded s) \<le> 127 \<and> ints + fracs > 0 \<and>
                               list_all isFoldablePictureChar (ps_expanded s))
               in s\<lparr>ps_point := point, ps_intDigits := ints, ps_fracDigits := fracs, ps_numeric := numeric,
                    ps_foldable := foldable, ps_valid := True\<rparr>))"

section \<open>Editing a constant\<close>

text \<open>The digits of the magnitude, low digit first, at most \<open>fuel\<close> of them.\<close>

fun digit_loop :: "nat \<Rightarrow> nat \<Rightarrow> nat list" where
  "digit_loop 0 av = []"
| "digit_loop (Suc fuel) av = (if av > 0 then (av mod 10) # digit_loop fuel (av div 10) else [])"

definition value_digits :: "nat \<Rightarrow> nat list" where
  "value_digits av = (if av = 0 then [0] else swap_loop 0 (digit_loop 64 av))"

definition count_slots :: "string \<Rightarrow> int" where
  "count_slots s = int (length (filter (\<lambda>c. c = CHR ''Z'' \<or> c = CHR ''9'') s))"

record edit_state =
  es_text :: string
  es_led_zero :: bool
  es_frac_idx :: int

definition edit_char :: "PictureSpec \<Rightarrow> bool \<Rightarrow> nat list \<Rightarrow> int \<Rightarrow> int \<Rightarrow> nat \<Rightarrow> edit_state \<Rightarrow> edit_state" where
  "edit_char spec isneg digits val_int val_frac i es =
     (let c = ps_expanded spec ! i;
          is_fractional = (ps_point spec \<ge> 0 \<and> int i > ps_point spec);
          push = (\<lambda>d es. es\<lparr>es_text := es_text es @ [d]\<rparr>)
      in if c = CHR ''V'' then es
         else if c = CHR ''9'' \<or> c = CHR ''Z'' then
           (if is_fractional then
              (let es1 = (if es_frac_idx es < val_frac
                          then (push (digit_char (digits ! nat (val_int + es_frac_idx es))) es)\<lparr>es_led_zero := False\<rparr>
                          else push CHR ''0'' es)
               in es1\<lparr>es_frac_idx := es_frac_idx es1 + 1\<rparr>)
            else
              (let int_idx = count_slots (take i (ps_expanded spec));
                   src_idx = int_idx - (ps_intDigits spec - val_int)
               in if src_idx < 0 then push (if c = CHR ''9'' then CHR ''0'' else CHR '' '') es
                  else if src_idx < val_int then
                    (let d = digit_char (digits ! nat src_idx)
                     in if c = CHR ''Z'' \<and> d = CHR ''0'' \<and> es_led_zero es then push CHR '' '' es
                        else push d (es\<lparr>es_led_zero := False\<rparr>))
                  else push (if c = CHR ''9'' then CHR ''0'' else CHR '' '') es))
         else if c = CHR ''.'' then push CHR ''.'' es
         else if c = CHR ''+'' then push (if isneg then CHR ''-'' else CHR ''+'') es
         else if c = CHR ''-'' \<or> c = CHR ''S'' then push (if isneg then CHR ''-'' else CHR '' '') es
         else if c = CHR ''X'' \<or> c = CHR ''A'' then push CHR '' '' es
         else push c es)"

definition foldPictureConversion :: "int \<Rightarrow> int \<Rightarrow> PictureSpec \<Rightarrow> string option" where
  "foldPictureConversion v scale spec =
     (if \<not> ps_valid spec \<or> \<not> ps_foldable spec \<or> scale < 0 then None
      else if v = - (2 ^ 63) then None
      else
        let digits = value_digits (nat \<bar>v\<bar>);
            ndig = int (length digits);
            val_int = (if ndig > scale then ndig - scale else 0);
            val_frac = (if scale < ndig then scale else ndig);
            es = foldl (\<lambda>es i. edit_char spec (v < 0) digits val_int val_frac i es)
                   \<lparr>es_text = [], es_led_zero = True, es_frac_idx = 0\<rparr> [0 ..< length (ps_expanded spec)]
        in if int (length (es_text es)) \<noteq> ps_width spec then None else Some (es_text es))"

section \<open>What the classifier records\<close>

definition output_chars :: "string \<Rightarrow> nat" where
  "output_chars s = length (filter (\<lambda>c. c \<noteq> CHR ''V'') s)"

lemma output_chars_append [simp]: "output_chars (s @ t) = output_chars s + output_chars t"
  by (simp add: output_chars_def)

lemma output_chars_Cons: "output_chars (c # s) = (if c = CHR ''V'' then 0 else 1) + output_chars s"
  by (simp add: output_chars_def)

lemma output_chars_replicate [simp]: "output_chars (replicate n c) = (if c = CHR ''V'' then 0 else n)"
  by (simp add: output_chars_def)

definition expand_ok :: "PictureSpec \<Rightarrow> bool" where
  "expand_ok s \<longleftrightarrow> ps_width s = int (output_chars (ps_expanded s)) \<and> list_all isPictureChar (ps_expanded s) \<and>
     ps_intDigits s = 0 \<and> ps_fracDigits s = 0 \<and> \<not> ps_sterling s \<and> \<not> ps_valid s \<and> \<not> ps_foldable s"

lemma pic_take_ok: "expand_ok s \<Longrightarrow> isPictureChar c \<Longrightarrow> expand_ok (pic_take c n b s)"
  by (auto simp: expand_ok_def pic_take_def list_all_iff)

lemma pic_expand_ok: "expand_ok spec \<Longrightarrow> expand_ok (snd (pic_expand s spec))"
proof (induction s spec rule: pic_expand.induct)
  case (1 s spec)
  have upd: "expand_ok (spec\<lparr>ps_hasScale := True, ps_scale := n\<rparr>)" "expand_ok (spec\<lparr>ps_badChar := c\<rparr>)" for n c
    using "1.prems" by (simp_all add: expand_ok_def)
  show ?case
  proof (cases "pic_repeat s")
    case None
    then show ?thesis using "1.prems" by (simp add: pic_expand.simps [of s])
  next
    case (Some p)
    obtain n b r where p: "p = (n, b, r)" by (cases p)
    show ?thesis
    proof (cases r)
      case Nil
      then show ?thesis using "1.prems" Some p by (simp add: pic_expand.simps [of s])
    next
      case (Cons c rest)
      have "expand_ok (snd (pic_expand rest (pic_take c n b spec)))" if "s \<noteq> []" "c \<noteq> CHR ''F''" "isPictureChar c"
        using "1.IH" [of p n "(b, r)" b r c rest] that Some p Cons pic_take_ok [OF "1.prems" that(3)] by simp
      then show ?thesis using Some p Cons upd "1.prems"
        by (auto simp: pic_expand.simps [of s] split: option.splits)
    qed
  qed
qed

lemma expand_ok_empty: "expand_ok emptySpec"
  by (simp add: expand_ok_def emptySpec_def output_chars_def)

lemma count_digits_sum:
  "fst (count_digits point s i (a, b)) + snd (count_digits point s i (a, b)) = a + b + int (length (filter is_digit_slot s))"
  by (induction s arbitrary: i a b) (simp_all)

lemma sterling_loop_flags:
  "sterling_loop cs f d s = (ok, f', d', s') \<Longrightarrow> ps_sterling s' = ps_sterling s \<and> ps_foldable s' = ps_foldable s \<and> ps_expanded s' = ps_expanded s"
  by (induction cs f d s rule: sterling_loop.induct) (auto split: if_splits)

lemma classify_sterling_flags: "ps_sterling (classify_sterling s)" "\<not> ps_foldable (classify_sterling s)"
  by (auto simp: classify_sterling_def Let_def split: prod.splits dest!: sterling_loop_flags)

definition classified :: "PictureSpec \<Rightarrow> PictureSpec" where
  "classified s =
     (let point = find_point (ps_expanded s) 0; n = count_digits point (ps_expanded s) 0 (0, 0)
      in s\<lparr>ps_point := point, ps_intDigits := fst n, ps_fracDigits := snd n,
           ps_numeric := list_ex isNumericPictureChar (ps_expanded s),
           ps_foldable := (list_ex isNumericPictureChar (ps_expanded s) \<and> \<not> ps_hasRepeat s \<and> \<not> ps_hasScale s \<and> ps_width s > 0 \<and>
             length (ps_expanded s) \<le> 127 \<and> fst n + snd n > 0 \<and> list_all isFoldablePictureChar (ps_expanded s)),
           ps_valid := True\<rparr>)"

lemma classify_validE:
  assumes "ps_valid (classifyPicture pic)" and "\<not> ps_sterling (classifyPicture pic)"
  obtains s where "pic_expand pic emptySpec = (True, s)" and "expand_ok s" and "classifyPicture pic = classified s"
proof -
  obtain ok s where e: "pic_expand pic emptySpec = (ok, s)" by fastforce
  have x: "expand_ok s" using pic_expand_ok [OF expand_ok_empty, of pic] e by simp
  have empty: "\<not> ps_valid emptySpec" by (simp add: emptySpec_def)
  have "ok \<and> pic \<noteq> [] \<and> ps_expanded s \<noteq> [] \<and> hd (ps_expanded s) \<noteq> CHR ''G''"
    using assms x classify_sterling_flags(1) [of s] empty
    by (auto simp: classifyPicture_def e expand_ok_def split: if_splits)
  with x e show thesis
    by (intro that [of s]) (simp_all add: classifyPicture_def expand_ok_def classified_def Let_def case_prod_beta)
qed

text \<open>A valid picture that is not sterling records its layout truly: the width is the number of expanded positions that
  print (all but V), the integer and fraction digits together are the digit positions, and only
  characters of the rule's classes remain.\<close>
lemma classified_layout:
  assumes "ps_valid (classifyPicture pic)" and "\<not> ps_sterling (classifyPicture pic)"
  shows "ps_width (classifyPicture pic) = int (output_chars (ps_expanded (classifyPicture pic))) \<and>
    ps_intDigits (classifyPicture pic) + ps_fracDigits (classifyPicture pic) =
      int (length (filter is_digit_slot (ps_expanded (classifyPicture pic)))) \<and>
    list_all isPictureChar (ps_expanded (classifyPicture pic))"
proof -
  obtain s where x: "expand_ok s" and c: "classifyPicture pic = classified s" by (rule classify_validE [OF assms])
  show ?thesis using x count_digits_sum [of "find_point (ps_expanded s) 0" "ps_expanded s" 0 0 0]
    unfolding c by (simp add: classified_def expand_ok_def Let_def)
qed

section \<open>Folding succeeds on every foldable picture\<close>






section \<open>The digits of a picture of nines\<close>

lemma digit_loop_nth:
  "v < 10 ^ fuel \<Longrightarrow> i < length (digit_loop fuel v) \<Longrightarrow> digit_loop fuel v ! i = v div 10 ^ i mod 10"
proof (induction fuel v arbitrary: i rule: digit_loop.induct)
  case (2 fuel av)
  show ?case
  proof (cases i)
    case (Suc j)
    have "av div 10 < 10 ^ fuel" using "2.prems"(1) by (simp add: div_less_iff_less_mult mult.commute)
    then show ?thesis using "2.IH" [of j] "2.prems" Suc by (simp add: div_mult2_eq split: if_splits)
  qed (use "2.prems" in \<open>simp split: if_splits\<close>)
qed simp

lemma digit_loop_length:
  "v < 10 ^ fuel \<Longrightarrow> v < 10 ^ length (digit_loop fuel v) \<and> (0 < v \<longrightarrow> 0 < length (digit_loop fuel v) \<and> 10 ^ (length (digit_loop fuel v) - 1) \<le> v)"
proof (induction fuel v rule: digit_loop.induct)
  case (2 fuel av)
  show ?case
  proof (cases "0 < av")
    case True
    have lt: "av div 10 < 10 ^ fuel" using "2.prems" by (simp add: div_less_iff_less_mult mult.commute)
    let ?l = "length (digit_loop fuel (av div 10))"
    have a: "av div 10 < 10 ^ ?l" and b: "0 < av div 10 \<longrightarrow> 0 < ?l \<and> 10 ^ (?l - 1) \<le> av div 10"
      using "2.IH" [OF True lt] by auto
    have "av < 10 ^ Suc ?l" using a by (simp add: div_less_iff_less_mult mult.commute)
    moreover have "10 ^ ?l \<le> av"
    proof (cases "0 < av div 10")
      case True
      with b have "10 * 10 ^ (?l - 1) \<le> 10 * (av div 10)" "0 < ?l" by auto
      then have "10 ^ ?l \<le> 10 * (av div 10)" by (cases ?l) auto
      then show ?thesis using div_mult_mod_eq [of av 10] by linarith
    next
      case False
      then have "digit_loop fuel (av div 10) = []" by (cases fuel) auto
      with True show ?thesis by simp
    qed
    ultimately show ?thesis using True by simp
  qed (use "2.prems" in simp)
qed simp

lemma value_digits_nth:
  assumes "v < 2 ^ 63" and "i < length (value_digits v)"
  shows "value_digits v ! i = v div 10 ^ (length (value_digits v) - 1 - i) mod 10"
proof (cases "v = 0")
  case True
  with assms show ?thesis by (simp add: value_digits_def)
next
  case False
  have "v < 10 ^ 64" using assms(1) by (rule less_trans) simp
  with False assms(2) show ?thesis
    by (simp add: value_digits_def swap_loop_rev rev_nth digit_loop_nth)
qed

lemma value_digits_length:
  assumes "v < 2 ^ 63"
  shows "v < 10 ^ length (value_digits v)" and "0 < length (value_digits v)"
    and "0 < v \<Longrightarrow> 10 ^ (length (value_digits v) - 1) \<le> v"
proof -
  have "v < 10 ^ 64" using assms(1) by (rule less_trans) simp
  from digit_loop_length [OF this] show "v < 10 ^ length (value_digits v)" and "0 < length (value_digits v)"
    and "0 < v \<Longrightarrow> 10 ^ (length (value_digits v) - 1) \<le> v"
    by (auto simp: value_digits_def swap_loop_rev)
qed

lemma nat_of_dec_digits:
  "nat_of_dec (map (\<lambda>p. digit_char (v div 10 ^ (n - 1 - p) mod 10)) [0 ..< n]) = v mod 10 ^ n"
proof (induction n arbitrary: v)
  case (Suc n)
  have "map (\<lambda>p. digit_char (v div 10 ^ (Suc n - 1 - p) mod 10)) [0 ..< Suc n] =
      map (\<lambda>p. digit_char (v div 10 div 10 ^ (n - 1 - p) mod 10)) [0 ..< n] @ [digit_char (v mod 10)]"
  proof -
    have "v div 10 ^ (n - p) = v div 10 div 10 ^ (n - 1 - p)" if "p < n" for p
    proof -
      have "n - p = Suc (n - 1 - p)" using that by simp
      then show ?thesis by (simp only: power_Suc div_mult2_eq)
    qed
    then show ?thesis by simp
  qed
  then have "nat_of_dec (map (\<lambda>p. digit_char (v div 10 ^ (Suc n - 1 - p) mod 10)) [0 ..< Suc n]) = 10 * (v div 10 mod 10 ^ n) + v mod 10"
    by (simp only: nat_of_dec_snoc Suc.IH) simp
  also have "\<dots> = v mod 10 ^ Suc n" by (simp add: mod_mult2_eq)
  finally show ?case .
qed (simp add: nat_of_dec_def)

text \<open>The picture \<open>9...9V9...9\<close> with \<open>m\<close> integer and \<open>k\<close> fraction positions, and its classification.\<close>

definition nines :: "nat \<Rightarrow> nat \<Rightarrow> string" where
  "nines m k = replicate m CHR ''9'' @ CHR ''V'' # replicate k CHR ''9''"

lemma pic_expand_plain:
  "list_all (\<lambda>c. isPictureChar c \<and> c \<noteq> CHR ''F'') s \<Longrightarrow> pic_expand s spec = (True, foldl (\<lambda>sp c. pic_take c 1 False sp) spec s)"
proof (induction s arbitrary: spec)
  case (Cons c s)
  then have "c \<noteq> CHR ''(''" by (auto simp: isPictureChar_def)
  then have "pic_repeat (c # s) = Some (1, False, c # s)" by (simp add: pic_repeat_def)
  with Cons show ?case by (simp add: pic_expand.simps [of "c # s"])
qed (simp add: pic_expand.simps)

lemma foldl_pic_take:
  "foldl (\<lambda>sp c. pic_take c 1 False sp) spec s =
     spec\<lparr>ps_binary := (ps_binary spec \<or> list_ex (\<lambda>c. c = CHR ''1'' \<or> c = CHR ''2'' \<or> c = CHR ''3'') s),
          ps_expanded := ps_expanded spec @ s, ps_width := ps_width spec + int (output_chars s)\<rparr>"
  by (induction s arbitrary: spec) (auto simp: pic_take_def output_chars_def)

lemma find_point_nines: "find_point (nines m k) i = i + int m"
  by (induction m arbitrary: i) (simp_all add: nines_def)

lemma count_digits_high: "i > p \<Longrightarrow> p \<ge> 0 \<Longrightarrow> count_digits p (replicate k CHR ''9'') i (a, b) = (a, b + int k)"
  by (induction k arbitrary: i b) (simp_all add: is_digit_slot_def)

lemma count_digits_nines: "0 \<le> i \<Longrightarrow> p = i + int m \<Longrightarrow> count_digits p (nines m k) i (a, b) = (a + int m, b + int k)"
proof (induction m arbitrary: i a)
  case 0
  then show ?case by (simp add: nines_def is_digit_slot_def count_digits_high)
next
  case (Suc m)
  then have "count_digits p (nines m k) (i + 1) (a + 1, b) = (a + 1 + int m, b + int k)" by simp
  with Suc.prems show ?case by (simp add: nines_def is_digit_slot_def)
qed

lemma nines_set: "c \<in> set (nines m k) \<Longrightarrow> c = CHR ''9'' \<or> c = CHR ''V''"
  by (auto simp: nines_def)

lemma classify_nines:
  assumes "0 < m + k" and "m + k < 127"
  shows "classifyPicture (nines m k) =
     emptySpec\<lparr>ps_expanded := nines m k, ps_width := int (m + k), ps_point := int m, ps_intDigits := int m,
       ps_fracDigits := int k, ps_numeric := True, ps_foldable := True, ps_valid := True\<rparr>"
proof -
  have "list_all (\<lambda>c. isPictureChar c \<and> c \<noteq> CHR ''F'') (nines m k)"
    by (auto simp: isPictureChar_def list_all_iff dest!: nines_set)
  moreover have nb: "\<not> list_ex (\<lambda>c. c = CHR ''1'' \<or> c = CHR ''2'' \<or> c = CHR ''3'') (nines m k)"
    by (auto simp: list_ex_iff dest!: nines_set)
  moreover have w: "output_chars (nines m k) = m + k" by (simp add: nines_def output_chars_Cons)
  ultimately have e: "pic_expand (nines m k) emptySpec = (True, emptySpec\<lparr>ps_expanded := nines m k, ps_width := int (m + k)\<rparr>)"
    using nb w by (simp add: pic_expand_plain foldl_pic_take) (simp add: emptySpec_def)
  have "hd (nines m k) \<noteq> CHR ''G''" by (cases m) (simp_all add: nines_def)
  moreover have "list_ex isNumericPictureChar (nines m k)" by (simp add: nines_def isNumericPictureChar_def)
  moreover have "list_all isFoldablePictureChar (nines m k)" by (auto simp: list_all_iff isFoldablePictureChar_def dest!: nines_set)
  moreover have "nines m k \<noteq> []" "length (nines m k) = m + k + 1" by (simp_all add: nines_def)
  ultimately show ?thesis using assms
    by (simp add: classifyPicture_def e find_point_nines count_digits_nines Let_def) (auto simp: emptySpec_def)
qed

text \<open>The digit the picture shows at position \<open>p\<close> of its \<open>m + k\<close> digit positions.\<close>

definition shown_digit :: "nat \<Rightarrow> nat \<Rightarrow> nat \<Rightarrow> char" where
  "shown_digit v n p = digit_char (v div 10 ^ (n - 1 - p) mod 10)"

text \<open>The value has at least as many digits as the scale, or it is zero: its fraction digits then start at the
  point.\<close>

definition aligned :: "nat \<Rightarrow> nat \<Rightarrow> bool" where
  "aligned v k \<longleftrightarrow> v = 0 \<or> k \<le> length (value_digits v)"

lemma shown_zero: "v < 10 ^ (n - 1 - p) \<Longrightarrow> shown_digit v n p = CHR ''0''"
  by (simp add: shown_digit_def digit_char_def) code_simp

lemma edit_int_digit:
  assumes "v < 2 ^ 63" and "aligned v k" and "i < m"
    and spec: "ps_expanded spec = nines m k" "ps_point spec = int m" "ps_intDigits spec = int m"
    and len: "l = int (length (value_digits v))" and vi: "vi = (if l > int k then l - int k else 0)"
  shows "es_text (edit_char spec neg (value_digits v) vi b i es) = es_text es @ [shown_digit v (m + k) i] \<and>
    es_frac_idx (edit_char spec neg (value_digits v) vi b i es) = es_frac_idx es"
proof -
  let ?src = "int i - (int m - vi)"
  have c: "nines m k ! i = CHR ''9''" using assms(3) by (simp add: nines_def nth_append)
  have idx: "count_slots (take i (nines m k)) = int i"
    using assms(3) by (simp add: count_slots_def nines_def take_append)
  have lt: "?src < vi" using assms(3) by linarith
  have d: "digit_char (value_digits v ! nat ?src) = shown_digit v (m + k) i" if "0 \<le> ?src"
  proof (cases "l > int k")
    case True
    then have n: "nat ?src < length (value_digits v)" "length (value_digits v) - 1 - nat ?src = m + k - 1 - i"
      using that len vi assms(3) by auto
    show ?thesis using value_digits_nth [OF assms(1) n(1)] unfolding n(2) by (simp add: shown_digit_def)
  qed (use that vi assms(3) in auto)
  have z: "shown_digit v (m + k) i = CHR ''0''" if "?src < 0"
  proof -
    have "length (value_digits v) \<le> m + k - 1 - i \<or> v = 0" using that assms(2, 3) len vi by (auto simp: aligned_def split: if_splits)
    then have "v < 10 ^ (m + k - 1 - i)"
    proof
      assume "length (value_digits v) \<le> m + k - 1 - i"
      then have "(10 :: nat) ^ length (value_digits v) \<le> 10 ^ (m + k - 1 - i)" by (rule power_increasing) simp
      with value_digits_length(1) [OF assms(1)] show ?thesis by linarith
    qed simp
    then show ?thesis by (rule shown_zero)
  qed
  show ?thesis
    using c idx lt d z assms(3) unfolding edit_char_def spec Let_def by (cases "?src < 0") simp_all
qed

lemma edit_frac_digit:
  assumes "v < 2 ^ 63" and "aligned v k" and "j < k"
    and spec: "ps_expanded spec = nines m k" "ps_point spec = int m" "ps_intDigits spec = int m"
    and len: "l = int (length (value_digits v))" and vi: "vi = (if l > int k then l - int k else 0)"
    and vf: "vf = (if int k < l then int k else l)" and fi: "es_frac_idx es = int j"
  shows "es_text (edit_char spec neg (value_digits v) vi vf (m + 1 + j) es) = es_text es @ [shown_digit v (m + k) (m + j)] \<and>
    es_frac_idx (edit_char spec neg (value_digits v) vi vf (m + 1 + j) es) = int j + 1"
proof -
  have c: "nines m k ! (m + 1 + j) = CHR ''9''" using assms(3) by (simp add: nines_def nth_append)
  have d: "digit_char (value_digits v ! nat (vi + int j)) = shown_digit v (m + k) (m + j)" if "int j < vf"
  proof (cases "v = 0")
    case True
    then have "value_digits v = [0]" by (simp add: value_digits_def)
    moreover from this True have "nat (vi + int j) = 0" using that len vi vf assms(3) by (auto split: if_splits)
    ultimately show ?thesis using True by (simp add: shown_digit_def)
  next
    case False
    then have "int k \<le> l" using assms(2) len by (simp add: aligned_def)
    then have n: "nat (vi + int j) < length (value_digits v)"
      "length (value_digits v) - 1 - nat (vi + int j) = m + k - 1 - (m + j)" using len vi assms(3) by auto
    show ?thesis using value_digits_nth [OF assms(1) n(1)] unfolding n(2) by (simp add: shown_digit_def)
  qed
  have z: "shown_digit v (m + k) (m + j) = CHR ''0''" if "\<not> int j < vf"
  proof -
    have "v = 0" using that assms(2, 3) len vf by (auto simp: aligned_def split: if_splits)
    then show ?thesis by (simp add: shown_zero)
  qed
  show ?thesis using c d z fi unfolding edit_char_def spec Let_def by (cases "int j < vf") simp_all
qed

lemma edit_nines:
  assumes "v < 2 ^ 63" and "aligned v k"
    and spec: "ps_expanded spec = nines m k" "ps_point spec = int m" "ps_intDigits spec = int m"
    and len: "l = int (length (value_digits v))" and vi: "vi = (if l > int k then l - int k else 0)"
    and vf: "vf = (if int k < l then int k else l)" and es0: "es_text es0 = []" "es_frac_idx es0 = 0"
  shows "n \<le> m + k + 1 \<Longrightarrow>
    es_text (foldl (\<lambda>es i. edit_char spec neg (value_digits v) vi vf i es) es0 [0 ..< n]) =
      map (shown_digit v (m + k)) [0 ..< (if n \<le> m then n else n - 1)] \<and>
    es_frac_idx (foldl (\<lambda>es i. edit_char spec neg (value_digits v) vi vf i es) es0 [0 ..< n]) = int (n - m - 1)"
proof (induction n)
  case (Suc n)
  let ?es = "foldl (\<lambda>es i. edit_char spec neg (value_digits v) vi vf i es) es0 [0 ..< n]"
  have IH: "es_text ?es = map (shown_digit v (m + k)) [0 ..< (if n \<le> m then n else n - 1)]" "es_frac_idx ?es = int (n - m - 1)"
    using Suc by simp_all
  consider "n < m" | "n = m" | "n = m + 1 + (n - m - 1)" by linarith
  then show ?case
  proof cases
    case 1
    with edit_int_digit [OF assms(1, 2) 1 spec len vi, of neg vf ?es] IH show ?thesis by simp
  next
    case 2
    have "nines m k ! n = CHR ''V''" using 2 by (simp add: nines_def nth_append)
    then have "edit_char spec neg (value_digits v) vi vf n ?es = ?es" by (simp add: edit_char_def spec)
    then show ?thesis using 2 IH by simp
  next
    case 3
    then obtain j where j: "n = m + 1 + j" "j < k" using Suc.prems by fastforce
    have "es_frac_idx ?es = int j" using IH(2) j(1) by simp
    from edit_frac_digit [OF assms(1, 2) j(2) spec len vi vf this, of neg] IH j(1) show ?thesis by simp
  qed
qed (simp add: es0)

text \<open>A picture of nines shows the value: for \<open>m\<close> integer and \<open>k\<close> fraction positions and a value scaled by \<open>10^k\<close> that
  has at least \<open>k\<close> digits (or is zero), the text is the last \<open>m + k\<close> digits of the magnitude,
  zero-padded on the left.\<close>
lemma nines_show_the_value:
  assumes "0 < m + k" and "m + k < 127" and "\<bar>v\<bar> < 2 ^ 63" and "v = 0 \<or> 10 ^ k \<le> 10 * \<bar>v\<bar>"
  shows "\<exists>text. foldPictureConversion v (int k) (classifyPicture (nines m k)) = Some text \<and>
    length text = m + k \<and> nat_of_dec text = nat \<bar>v\<bar> mod 10 ^ (m + k)"
proof -
  have lt: "nat \<bar>v\<bar> < 2 ^ 63" using assms(3) by (simp add: nat_less_iff)
  have al: "aligned (nat \<bar>v\<bar>) k"
  proof (cases "v = 0")
    case False
    have "(10 :: int) ^ k \<le> 10 * int (nat \<bar>v\<bar>)" using assms(4) False by simp
    also have "\<dots> < 10 * 10 ^ length (value_digits (nat \<bar>v\<bar>))"
      using value_digits_length(1) [OF lt] by (simp add: nat_less_iff)
    finally have "(10 :: int) ^ k < 10 ^ Suc (length (value_digits (nat \<bar>v\<bar>)))" by simp
    then have "k < Suc (length (value_digits (nat \<bar>v\<bar>)))" by (rule power_less_imp_less_exp [rotated]) simp
    then show ?thesis by (simp add: aligned_def)
  qed (simp add: aligned_def)
  let ?sp = "classifyPicture (nines m k)"
  note cn = classify_nines [OF assms(1, 2)]
  have sp: "ps_expanded ?sp = nines m k" "ps_point ?sp = int m" "ps_intDigits ?sp = int m" "ps_width ?sp = int (m + k)"
    "ps_valid ?sp" "ps_foldable ?sp" by (simp_all add: cn)
  have len: "length (nines m k) = m + k + 1" by (simp add: nines_def)
  have tx: "es_text (foldl (\<lambda>es i. edit_char ?sp (v < 0) (value_digits (nat \<bar>v\<bar>)) vi vf i es)
      \<lparr>es_text = [], es_led_zero = True, es_frac_idx = 0\<rparr> [0 ..< m + k + 1]) = map (shown_digit (nat \<bar>v\<bar>) (m + k)) [0 ..< m + k]"
    if "vi = (if int (length (value_digits (nat \<bar>v\<bar>))) > int k then int (length (value_digits (nat \<bar>v\<bar>))) - int k else 0)"
      "vf = (if int k < int (length (value_digits (nat \<bar>v\<bar>))) then int k else int (length (value_digits (nat \<bar>v\<bar>))))" for vi vf
    using edit_nines [OF lt al sp(1-3) refl that, of "\<lparr>es_text = [], es_led_zero = True, es_frac_idx = 0\<rparr>" "m + k + 1"] by simp
  have "v \<noteq> - (2 ^ 63)" using assms(3) by auto
  then have "foldPictureConversion v (int k) ?sp = Some (map (shown_digit (nat \<bar>v\<bar>) (m + k)) [0 ..< m + k])"
    using sp(4-6) unfolding foldPictureConversion_def Let_def sp(1) len tx [OF refl refl] by simp
  moreover have "nat_of_dec (map (shown_digit (nat \<bar>v\<bar>) (m + k)) [0 ..< m + k]) = nat \<bar>v\<bar> mod 10 ^ (m + k)"
    unfolding shown_digit_def by (rule nat_of_dec_digits)
  ultimately show ?thesis by simp
qed

text \<open>Without that many digits the fraction is shifted: 0.05 through \<open>9V99\<close> is edited as \<open>050\<close>, the text of 0.50.\<close>
lemma short_fractions_are_misplaced:
  "foldPictureConversion 5 2 (classifyPicture ''9V99'') = Some ''050'' \<and>
   foldPictureConversion 50 2 (classifyPicture ''9V99'') = Some ''050''"
proof
  show "foldPictureConversion 5 2 (classifyPicture ''9V99'') = Some ''050''" by code_simp
  show "foldPictureConversion 50 2 (classifyPicture ''9V99'') = Some ''050''" by code_simp
qed

end
