(* ===== verification/Fuel.thy ===== *)
theory Fuel
  imports Prelude "HOL-Library.Monad_Syntax"
begin

text \<open>
  Recursive members that call each other without a measure a single recursion could use: each takes the function that performs
  the calls, and \<open>run_fuel\<close> ties the knot with a bound on the depth of calls.  \<^const>\<open>None\<close> is a bound that was too
  small; the answers do not depend on it.
\<close>

section \<open>Bounded open recursion\<close>

fun run_fuel :: "(('c \<Rightarrow> 's \<Rightarrow> 'r option) \<Rightarrow> 'c \<Rightarrow> 's \<Rightarrow> 'r option) \<Rightarrow> nat \<Rightarrow> 'c \<Rightarrow> 's \<Rightarrow> 'r option" where
  "run_fuel body 0 c s = None"
| "run_fuel body (Suc k) c s = body (run_fuel body k) c s"

definition agrees :: "('c \<Rightarrow> 's \<Rightarrow> 'r option) \<Rightarrow> ('c \<Rightarrow> 's \<Rightarrow> 'r option) \<Rightarrow> bool" where
  "agrees f g \<longleftrightarrow> (\<forall>c s r. f c s = Some r \<longrightarrow> g c s = Some r)"

text \<open>A body that only looks at the results of its calls keeps its answer when the calls have more room.\<close>

locale fuelled =
  fixes body :: "('c \<Rightarrow> 's \<Rightarrow> 'r option) \<Rightarrow> 'c \<Rightarrow> 's \<Rightarrow> 'r option"
  assumes body_mono: "agrees f g \<Longrightarrow> body f c s = Some r \<Longrightarrow> body g c s = Some r"
begin

lemma run_Suc: "run_fuel body k c s = Some r \<Longrightarrow> run_fuel body (Suc k) c s = Some r"
proof (induction k arbitrary: c s r)
  case (Suc k)
  then have "agrees (run_fuel body k) (run_fuel body (Suc k))" by (auto simp: agrees_def)
  from body_mono [OF this] Suc.prems show ?case by simp
qed simp

lemma run_mono: "run_fuel body k c s = Some r \<Longrightarrow> k \<le> m \<Longrightarrow> run_fuel body m c s = Some r"
  by (induction m) (auto simp: le_Suc_eq simp del: run_fuel.simps intro: run_Suc)

lemma run_det: "run_fuel body k c s = Some r \<Longrightarrow> run_fuel body m c s = Some r2 \<Longrightarrow> r = r2"
  using run_mono [of k c s r "max k m"] run_mono [of m c s r2 "max k m"] by simp

definition evals :: "'c \<Rightarrow> 's \<Rightarrow> 'r \<Rightarrow> bool" where
  "evals c s r \<longleftrightarrow> (\<exists>k. run_fuel body k c s = Some r)"

lemma evals_run: "evals c s r \<Longrightarrow> run_fuel body k c s \<noteq> None \<Longrightarrow> run_fuel body k c s = Some r"
  unfolding evals_def using run_det by blast

text \<open>One step: whatever finitely many calls the body needs, a common bound serves them all.\<close>

lemma evals_step0: "body (\<lambda>_ _. None) c s = Some r \<Longrightarrow> evals c s r"
  unfolding evals_def by (rule exI [of _ 1]) (metis (no_types, lifting) One_nat_def ext run_fuel.simps)

lemma evals_step1:
  assumes "evals c1 s1 r1" and "\<And>f. f c1 s1 = Some r1 \<Longrightarrow> body f c s = Some r"
  shows "evals c s r"
proof -
  from assms(1) obtain k where "run_fuel body k c1 s1 = Some r1" unfolding evals_def by blast
  then have "run_fuel body (Suc k) c s = Some r" using assms(2) by simp
  then show ?thesis unfolding evals_def by blast
qed

lemma evals_step2:
  assumes "evals c1 s1 r1" and "evals c2 s2 r2"
    and "\<And>f. f c1 s1 = Some r1 \<Longrightarrow> f c2 s2 = Some r2 \<Longrightarrow> body f c s = Some r"
  shows "evals c s r"
proof -
  from assms(1, 2) obtain k m where "run_fuel body k c1 s1 = Some r1" "run_fuel body m c2 s2 = Some r2" unfolding evals_def by blast
  then have "run_fuel body (max k m) c1 s1 = Some r1" "run_fuel body (max k m) c2 s2 = Some r2"
    using run_mono max.cobounded1 max.cobounded2 by metis+
  then have "run_fuel body (Suc (max k m)) c s = Some r" using assms(3) by simp
  then show ?thesis unfolding evals_def by blast
qed

end

end
