(* ===== verification/PPExpr.thy ===== *)
theory PPExpr
  imports Fuel
begin

text \<open>
  The integer expressions of the preprocessor: \<^verbatim>\<open>PPCondParser\<close> and \<^verbatim>\<open>evalCondExpr\<close> of \<^verbatim>\<open>src/preprocessor.cpp\<close>.
  The parser evaluates while it parses, records the last error and goes on.  Its members call each other;
  here each takes the function that performs the calls, and \<open>run_fuel\<close> ties the knot with a bound on the
  depth of calls.  A text of length \<open>n\<close> never needs more than \<open>9 * n + 8\<close>.
  A \<^verbatim>\<open>long long\<close> result that overflows, which C++ leaves undefined, is taken in two's complement.
\<close>

section \<open>The parser\<close>

definition c_isalpha :: "char \<Rightarrow> bool" where
  [char_class]: "c_isalpha c \<longleftrightarrow> c_isupper c \<or> c_islower c"

definition is_ws :: "char \<Rightarrow> bool" where
  "is_ws c \<longleftrightarrow> c = CHR '' '' \<or> c = CHR 0x09 \<or> c = CHR 0x0D \<or> c = CHR 0x0A \<or> c = CHR 0x0C"

definition upper :: "string \<Rightarrow> string" where
  "upper value = map c_toupper value"

definition pp_trim :: "string \<Rightarrow> string" where
  "pp_trim value = rev (dropWhile is_ws (rev (dropWhile is_ws value)))"

definition isWordChar :: "char \<Rightarrow> bool" where
  "isWordChar c \<longleftrightarrow> c_isalpha c \<or> c_isdigit c \<or> c = CHR ''_'' \<or> c = CHR ''$'' \<or> c = CHR ''#'' \<or> c = CHR ''@''"

definition isWordStart :: "char \<Rightarrow> bool" where
  "isWordStart c \<longleftrightarrow> c_isalpha c \<or> c = CHR ''$'' \<or> c = CHR ''#'' \<or> c = CHR ''@''"

definition wrap64 :: "int \<Rightarrow> int" where
  "wrap64 v = sint (word_of_int v :: 64 word)"

record cond_ctx =
  px_text :: string
  px_vars :: "string \<rightharpoonup> int"

record PPCondParser =
  pc_pos :: nat
  pc_error :: string
  pc_depth :: nat

definition kMaxDepth :: nat where
  "kMaxDepth = 128"

definition at :: "cond_ctx \<Rightarrow> PPCondParser \<Rightarrow> char \<Rightarrow> bool" where
  "at x s c \<longleftrightarrow> pc_pos s < length (px_text x) \<and> px_text x ! pc_pos s = c"

definition at_class :: "cond_ctx \<Rightarrow> PPCondParser \<Rightarrow> (char \<Rightarrow> bool) \<Rightarrow> bool" where
  "at_class x s P \<longleftrightarrow> pc_pos s < length (px_text x) \<and> P (px_text x ! pc_pos s)"

definition adv :: "nat \<Rightarrow> PPCondParser \<Rightarrow> PPCondParser" where
  "adv n s = s\<lparr>pc_pos := pc_pos s + n\<rparr>"

text \<open>A loop that advances while the byte is in a class moves past the longest run of such bytes.\<close>

definition run_of :: "cond_ctx \<Rightarrow> PPCondParser \<Rightarrow> (char \<Rightarrow> bool) \<Rightarrow> string" where
  "run_of x s P = takeWhile P (drop (pc_pos s) (px_text x))"

definition skipWs :: "cond_ctx \<Rightarrow> PPCondParser \<Rightarrow> PPCondParser" where
  "skipWs x s = adv (length (run_of x s is_ws)) s"

definition atEnd :: "cond_ctx \<Rightarrow> PPCondParser \<Rightarrow> bool" where
  "atEnd x s \<longleftrightarrow> length (px_text x) \<le> pc_pos (skipWs x s)"

definition matchNot :: "cond_ctx \<Rightarrow> PPCondParser \<Rightarrow> bool \<times> PPCondParser" where
  "matchNot x s =
     (if at x s CHR ''^'' \<or> at x s CHR ''~'' then (True, adv 1 s)
      else if pc_pos s + 1 < length (px_text x) \<and> px_text x ! pc_pos s = CHR 0xC2 \<and> px_text x ! (pc_pos s + 1) = CHR 0xAC
      then (True, adv 2 s)
      else if at x s CHR 0xAC then (True, adv 1 s)
      else (False, s))"

text \<open>The calls the members make to each other; the loops carry the value computed so far.\<close>

datatype pcall = C_Or | C_OrLoop int | C_And | C_AndLoop int | C_Not | C_Cmp | C_CmpLoop int | C_Add | C_AddLoop int
  | C_Mul | C_MulLoop int | C_Unary | C_Primary

type_synonym pres = "(int \<times> PPCondParser) option"
type_synonym prec = "pcall \<Rightarrow> PPCondParser \<Rightarrow> pres"

definition of_bool_int :: "bool \<Rightarrow> int" where
  "of_bool_int b = (if b then 1 else 0)"

definition parseOr :: "prec \<Rightarrow> PPCondParser \<Rightarrow> pres" where
  "parseOr rec s = do { (v, s1) \<leftarrow> rec C_And s; rec (C_OrLoop v) s1 }"

definition orLoop :: "cond_ctx \<Rightarrow> prec \<Rightarrow> int \<Rightarrow> PPCondParser \<Rightarrow> pres" where
  "orLoop x rec v s =
     (let s1 = skipWs x s in
      if at x s1 CHR ''|'' then do {
        (rhs, s2) \<leftarrow> rec C_And (adv 1 s1);
        rec (C_OrLoop (of_bool_int (v \<noteq> 0 \<or> rhs \<noteq> 0))) s2 }
      else Some (v, s1))"

definition parseAnd :: "prec \<Rightarrow> PPCondParser \<Rightarrow> pres" where
  "parseAnd rec s = do { (v, s1) \<leftarrow> rec C_Not s; rec (C_AndLoop v) s1 }"

definition andLoop :: "cond_ctx \<Rightarrow> prec \<Rightarrow> int \<Rightarrow> PPCondParser \<Rightarrow> pres" where
  "andLoop x rec v s =
     (let s1 = skipWs x s in
      if at x s1 CHR ''&'' then do {
        (rhs, s2) \<leftarrow> rec C_Not (adv 1 s1);
        rec (C_AndLoop (of_bool_int (v \<noteq> 0 \<and> rhs \<noteq> 0))) s2 }
      else Some (v, s1))"

definition parseNot :: "cond_ctx \<Rightarrow> prec \<Rightarrow> PPCondParser \<Rightarrow> pres" where
  "parseNot x rec s =
     (let s1 = skipWs x s; (m, s2) = matchNot x s1 in
      if m then
        let s3 = skipWs x s2 in
        if at x s3 CHR ''='' then rec C_Cmp (s3\<lparr>pc_pos := pc_pos s1\<rparr>)
        else do { (v, s4) \<leftarrow> rec C_Not s3; Some (of_bool_int (v = 0), s4) }
      else rec C_Cmp s2)"

definition parseCmp :: "prec \<Rightarrow> PPCondParser \<Rightarrow> pres" where
  "parseCmp rec s = do { (v, s1) \<leftarrow> rec C_Add s; rec (C_CmpLoop v) s1 }"

definition cmpLoop :: "cond_ctx \<Rightarrow> prec \<Rightarrow> int \<Rightarrow> PPCondParser \<Rightarrow> pres" where
  "cmpLoop x rec v s =
     (let s1 = skipWs x s in
      if at x s1 CHR ''='' then do {
        (rhs, s2) \<leftarrow> rec C_Add (adv 1 s1);
        rec (C_CmpLoop (of_bool_int (v = rhs))) s2 }
      else if at x s1 CHR ''<'' \<or> at x s1 CHR ''>'' then
        let less = at x s1 CHR ''<'';
            s2 = adv 1 s1;
            eq = at x s2 CHR ''='';
            s3 = (if eq then adv 1 s2 else s2)
        in do {
          (rhs, s4) \<leftarrow> rec C_Add s3;
          rec (C_CmpLoop (of_bool_int (if less then (if eq then v \<le> rhs else v < rhs) else (if eq then v \<ge> rhs else v > rhs)))) s4 }
      else
        let (m, s2) = matchNot x s1; s3 = skipWs x s2 in
        if m \<and> at x s3 CHR ''='' then do {
          (rhs, s4) \<leftarrow> rec C_Add (adv 1 s3);
          rec (C_CmpLoop (of_bool_int (v \<noteq> rhs))) s4 }
        else Some (v, s1))"

definition parseAdd :: "prec \<Rightarrow> PPCondParser \<Rightarrow> pres" where
  "parseAdd rec s = do { (v, s1) \<leftarrow> rec C_Mul s; rec (C_AddLoop v) s1 }"

definition addLoop :: "cond_ctx \<Rightarrow> prec \<Rightarrow> int \<Rightarrow> PPCondParser \<Rightarrow> pres" where
  "addLoop x rec v s =
     (let s1 = skipWs x s in
      if at x s1 CHR ''+'' \<or> at x s1 CHR ''-'' then do {
        (rhs, s2) \<leftarrow> rec C_Mul (adv 1 s1);
        rec (C_AddLoop (wrap64 (if at x s1 CHR ''+'' then v + rhs else v - rhs))) s2 }
      else Some (v, s1))"

definition parseMul :: "prec \<Rightarrow> PPCondParser \<Rightarrow> pres" where
  "parseMul rec s = do { (v, s1) \<leftarrow> rec C_Unary s; rec (C_MulLoop v) s1 }"

definition mulLoop :: "cond_ctx \<Rightarrow> prec \<Rightarrow> int \<Rightarrow> PPCondParser \<Rightarrow> pres" where
  "mulLoop x rec v s =
     (let s1 = skipWs x s in
      if at x s1 CHR ''*'' \<or> at x s1 CHR ''/'' then do {
        (rhs, s2) \<leftarrow> rec C_Unary (adv 1 s1);
        if at x s1 CHR ''/'' then
          (if rhs = 0 then Some (0, s2\<lparr>pc_error := ''division by zero in preprocessor expression''\<rparr>)
           else rec (C_MulLoop (wrap64 (c_div v rhs))) s2)
        else rec (C_MulLoop (wrap64 (v * rhs))) s2 }
      else Some (v, s1))"

definition parseUnary :: "cond_ctx \<Rightarrow> prec \<Rightarrow> PPCondParser \<Rightarrow> pres" where
  "parseUnary x rec s =
     (let s1 = skipWs x s in
      if at x s1 CHR ''-'' then do { (v, s2) \<leftarrow> rec C_Unary (adv 1 s1); Some (wrap64 (- v), s2) }
      else rec C_Primary s1)"

text \<open>The value of a run of digits.\<close>

definition digits_value :: "string \<Rightarrow> int" where
  "digits_value ds = foldl (\<lambda>v c. wrap64 (v * 10 + (int (ucode c) - 48))) 0 ds"

definition name_start :: "char \<Rightarrow> bool" where
  "name_start c \<longleftrightarrow> c_isalpha c \<or> c = CHR ''_'' \<or> c = CHR ''$'' \<or> c = CHR ''#'' \<or> c = CHR ''@''"

definition parsePrimary :: "cond_ctx \<Rightarrow> prec \<Rightarrow> PPCondParser \<Rightarrow> pres" where
  "parsePrimary x rec s =
     (let s1 = skipWs x s in
      if at x s1 CHR ''('' then
        (if pc_depth s1 \<ge> kMaxDepth then Some (0, s1\<lparr>pc_error := ''preprocessor expression nesting is too deep''\<rparr>)
         else do {
           (v, s2) \<leftarrow> rec C_Or ((adv 1 s1)\<lparr>pc_depth := pc_depth s1 + 1\<rparr>);
           let s3 = skipWs x s2; s4 = s3\<lparr>pc_depth := pc_depth s3 - 1\<rparr> in
           if \<not> at x s4 CHR '')'' then Some (0, s4\<lparr>pc_error := ''expected '' @ [QUOTE] @ '')'' @ [QUOTE] @ '' in preprocessor expression''\<rparr>)
           else Some (v, adv 1 s4) })
      else if at_class x s1 c_isdigit then
        let ds = run_of x s1 c_isdigit in Some (digits_value ds, adv (length ds) s1)
      else if at_class x s1 name_start then
        let w = run_of x s1 isWordChar; s2 = adv (length w) s1; name = upper w in
        (case px_vars x name of
           None \<Rightarrow> Some (0, s2\<lparr>pc_error := ''unknown preprocessor variable '' @ [QUOTE] @ ''%'' @ name @ [QUOTE]\<rparr>)
         | Some v \<Rightarrow> Some (v, s2))
      else Some (0, s1\<lparr>pc_error := ''expected a number, variable, or '' @ [QUOTE] @ ''('' @ [QUOTE] @ '' in preprocessor expression''\<rparr>))"

fun cond_body :: "cond_ctx \<Rightarrow> prec \<Rightarrow> pcall \<Rightarrow> PPCondParser \<Rightarrow> pres" where
  "cond_body x rec C_Or s = parseOr rec s"
| "cond_body x rec (C_OrLoop v) s = orLoop x rec v s"
| "cond_body x rec C_And s = parseAnd rec s"
| "cond_body x rec (C_AndLoop v) s = andLoop x rec v s"
| "cond_body x rec C_Not s = parseNot x rec s"
| "cond_body x rec C_Cmp s = parseCmp rec s"
| "cond_body x rec (C_CmpLoop v) s = cmpLoop x rec v s"
| "cond_body x rec C_Add s = parseAdd rec s"
| "cond_body x rec (C_AddLoop v) s = addLoop x rec v s"
| "cond_body x rec C_Mul s = parseMul rec s"
| "cond_body x rec (C_MulLoop v) s = mulLoop x rec v s"
| "cond_body x rec C_Unary s = parseUnary x rec s"
| "cond_body x rec C_Primary s = parsePrimary x rec s"

lemmas cond_defs = parseOr_def orLoop_def parseAnd_def andLoop_def parseNot_def parseCmp_def cmpLoop_def parseAdd_def addLoop_def
  parseMul_def mulLoop_def parseUnary_def parsePrimary_def

definition cond_fuel :: "string \<Rightarrow> nat" where
  "cond_fuel t = 9 * length t + 8"

text \<open>The result is the printed message or the value; running out of the call bound would be no result.\<close>

definition evalCondExpr :: "(string \<rightharpoonup> int) \<Rightarrow> string \<Rightarrow> (string + int) option" where
  "evalCondExpr vars t =
     (let x = \<lparr>px_text = pp_trim t, px_vars = vars\<rparr> in
      do { (v, s) \<leftarrow> run_fuel (cond_body x) (cond_fuel (px_text x)) C_Or \<lparr>pc_pos = 0, pc_error = [], pc_depth = 0\<rparr>;
           Some (if pc_error s \<noteq> [] then Inl (pc_error s)
                 else if \<not> atEnd x s then Inl ''unexpected text in preprocessor expression''
                 else Inr v) })"

interpretation cond: fuelled "cond_body x" for x
proof
  fix f g :: prec and c s r
  assume a: "agrees f g" and b: "cond_body x f c s = Some r"
  have ag: "f c s = Some r \<Longrightarrow> g c s = Some r" for c s r using a unfolding agrees_def by blast
  from b show "cond_body x g c s = Some r"
    by (cases c) (auto simp: cond_defs Let_def bind_eq_Some_conv split: if_splits prod.splits dest!: ag)
qed

section \<open>The bound is enough\<close>

definition rem :: "cond_ctx \<Rightarrow> PPCondParser \<Rightarrow> nat" where
  "rem x s = length (px_text x) - pc_pos s"

fun call_rank :: "pcall \<Rightarrow> nat" where
  "call_rank C_Or = 8"
| "call_rank C_And = 7"
| "call_rank C_Not = 6"
| "call_rank C_Cmp = 5"
| "call_rank C_Add = 4"
| "call_rank C_Mul = 3"
| "call_rank C_Unary = 2"
| "call_rank _ = 1"

lemma pos_adv [simp]: "pc_pos (adv n s) = pc_pos s + n" "pc_error (adv n s) = pc_error s" "pc_depth (adv n s) = pc_depth s"
  by (simp_all add: adv_def)

lemma rem_adv [simp]: "rem x (adv n s) = rem x s - n"
  by (simp add: rem_def)

lemma rem_fields [simp]: "rem x (s\<lparr>pc_error := e\<rparr>) = rem x s" "rem x (s\<lparr>pc_depth := d\<rparr>) = rem x s"
  by (simp_all add: rem_def)

lemma rem_skipWs: "rem x (skipWs x s) \<le> rem x s"
  by (simp add: skipWs_def)

lemma at_rem: "at x s c \<Longrightarrow> 0 < rem x s"
  by (simp add: at_def rem_def)

lemma matchNot_rem: "rem x (snd (matchNot x s)) \<le> rem x s" "fst (matchNot x s) \<Longrightarrow> rem x (snd (matchNot x s)) < rem x s"
  by (auto simp: matchNot_def rem_def at_def split: if_splits)

text \<open>A call with room for its rank and the text ahead returns, without moving back.\<close>

definition returns :: "cond_ctx \<Rightarrow> nat \<Rightarrow> pres \<Rightarrow> bool" where
  "returns x n m \<longleftrightarrow> (\<exists>v t. m = Some (v, t) \<and> rem x t \<le> n)"

definition has_room :: "cond_ctx \<Rightarrow> prec \<Rightarrow> nat \<Rightarrow> bool" where
  "has_room x f k \<longleftrightarrow> (\<forall>c s. call_rank c + 9 * rem x s \<le> k \<longrightarrow> returns x (rem x s) (f c s))"

lemma ret_Some: "rem x t \<le> n \<Longrightarrow> returns x n (Some (v, t))"
  by (simp add: returns_def)

lemma ret_call: "has_room x f k \<Longrightarrow> call_rank c + 9 * rem x s \<le> k \<Longrightarrow> rem x s \<le> n \<Longrightarrow> returns x n (f c s)"
  unfolding has_room_def returns_def using order_trans by blast

lemma ret_bind:
  "has_room x f k \<Longrightarrow> call_rank c + 9 * rem x s \<le> k \<Longrightarrow> (\<And>v t. rem x t \<le> rem x s \<Longrightarrow> returns x n (g v t)) \<Longrightarrow>
     returns x n (do { (v, t) \<leftarrow> f c s; g v t })"
  using ret_call [of x f k c s "rem x s"] by (auto simp: returns_def)

lemma ret_if: "(b \<Longrightarrow> returns x n m) \<Longrightarrow> (\<not> b \<Longrightarrow> returns x n m2) \<Longrightarrow> returns x n (if b then m else m2)"
  by simp

lemmas ret_rules = ret_if ret_Some ret_bind ret_call

lemma two_step_room:
  assumes "has_room x f k" and "call_rank c1 + 9 * rem x s \<le> k" and "\<And>v. call_rank (c2 v) = 1" and "0 < call_rank c1"
  shows "returns x (rem x s) (do { (v, t) \<leftarrow> f c1 s; f (c2 v) t })"
  using assms by (intro ret_bind ret_call [OF assms(1)]) auto

text \<open>The shape all the operator loops share: skip blanks, take the operator, parse an operand, go on.\<close>

lemma loop_room:
  assumes f: "has_room x f k" and k: "1 + 9 * rem x s \<le> Suc k" and u: "rem x u < rem x s" and c: "call_rank c1 \<le> 8"
    and g: "\<And>v t. rem x t < rem x s \<Longrightarrow> returns x (rem x s) (g v t)"
  shows "returns x (rem x s) (do { (v, t) \<leftarrow> f c1 u; g v t })"
  using assms by (intro ret_bind [OF f]) auto

lemma loop_again:
  assumes "has_room x f k" and "1 + 9 * rem x s \<le> Suc k" and "rem x t < rem x s" and "call_rank c = 1"
  shows "returns x (rem x s) (f c t)"
  using assms(2-) by (intro ret_call [OF assms(1)]) auto

lemma body_room:
  assumes f: "has_room x f k" and k: "call_rank c + 9 * rem x s \<le> Suc k"
  shows "returns x (rem x s) (cond_body x f c s)"
proof -
  have ws: "rem x (skipWs x s) \<le> rem x s" by (rule rem_skipWs)
  note again = loop_again [OF f]
  show ?thesis
  proof (cases c)
    case (C_OrLoop v)
    then show ?thesis using k ws
      by (auto simp: orLoop_def Let_def intro!: ret_Some loop_room [OF f] again dest: at_rem)
  next
    case (C_AndLoop v)
    then show ?thesis using k ws
      by (auto simp: andLoop_def Let_def intro!: ret_Some loop_room [OF f] again dest: at_rem)
  next
    case (C_AddLoop v)
    then show ?thesis using k ws
      by (auto simp: addLoop_def Let_def intro!: ret_Some loop_room [OF f] again dest: at_rem)
  next
    case (C_MulLoop v)
    then show ?thesis using k ws
      by (auto simp: mulLoop_def Let_def intro!: ret_Some loop_room [OF f] again dest: at_rem)
  next
    case (C_CmpLoop v)
    let ?m = "matchNot x (skipWs x s)"
    have "fst ?m \<Longrightarrow> rem x (skipWs x (snd ?m)) < rem x s" using matchNot_rem(2) [of x "skipWs x s"] rem_skipWs [of x "snd ?m"] ws by linarith
    then show ?thesis using C_CmpLoop k ws
      by (auto simp: cmpLoop_def Let_def case_prod_beta intro!: ret_Some loop_room [OF f] again dest: at_rem)
  next
    case C_Not
    let ?m = "matchNot x (skipWs x s)"
    have "rem x (snd ?m) \<le> rem x s" "fst ?m \<Longrightarrow> rem x (skipWs x (snd ?m)) < rem x s"
      using matchNot_rem [of x "skipWs x s"] rem_skipWs [of x "snd ?m"] ws by linarith+
    moreover have "rem x ((skipWs x (snd ?m))\<lparr>pc_pos := pc_pos (skipWs x s)\<rparr>) \<le> rem x s" using ws by (simp add: rem_def)
    ultimately show ?thesis using C_Not k
      by (auto simp: parseNot_def Let_def case_prod_beta intro!: ret_Some ret_call [OF f] ret_bind [OF f])
  next
    case C_Unary
    then show ?thesis using k ws
      by (auto simp: parseUnary_def Let_def intro!: ret_Some ret_call [OF f] ret_bind [OF f] dest: at_rem)
  next
    case C_Primary
    have stay: "rem x (skipWs x t) \<le> rem x s" if "rem x t \<le> rem x (skipWs x s) - 1" for t
      using that ws rem_skipWs [of x t] by linarith
    show ?thesis using C_Primary k ws
      by (auto simp: parsePrimary_def Let_def split: option.split intro!: ret_Some ret_bind [OF f] le_trans [OF diff_le_self] stay dest: at_rem)
  qed (use k in \<open>simp_all add: parseOr_def parseAnd_def parseCmp_def parseAdd_def parseMul_def two_step_room [OF f]\<close>)
qed

lemma rank_pos [simp]: "call_rank c \<noteq> 0"
  by (cases c) simp_all

lemma run_room: "has_room x (run_fuel (cond_body x) k) k"
proof (induction k)
  case 0
  then show ?case by (simp add: has_room_def)
next
  case (Suc k)
  then show ?case using body_room unfolding has_room_def by simp
qed

lemma cond_total: "run_fuel (cond_body x) (cond_fuel (px_text x)) C_Or s \<noteq> None"
proof -
  have "call_rank C_Or + 9 * rem x s \<le> cond_fuel (px_text x)" by (simp add: cond_fuel_def rem_def)
  then have "returns x (rem x s) (run_fuel (cond_body x) (cond_fuel (px_text x)) C_Or s)"
    using run_room unfolding has_room_def by blast
  then show ?thesis by (auto simp: returns_def)
qed

section \<open>Expressions, their text and their value\<close>

datatype pop = P_Or | P_And | P_Eq | P_Ne | P_Lt | P_Le | P_Gt | P_Ge | P_Add | P_Sub | P_Mul | P_Div

datatype pexpr = P_Num nat | P_Var string | P_Neg pexpr | P_Not pexpr | P_Bin pop pexpr pexpr

fun op_level :: "pop \<Rightarrow> nat" where
  "op_level P_Or = 1"
| "op_level P_And = 2"
| "op_level P_Add = 5"
| "op_level P_Sub = 5"
| "op_level P_Mul = 6"
| "op_level P_Div = 6"
| "op_level _ = 4"

fun op_text :: "pop \<Rightarrow> string" where
  "op_text P_Or = ''|''"
| "op_text P_And = ''&''"
| "op_text P_Eq = ''=''"
| "op_text P_Ne = ''^=''"
| "op_text P_Lt = ''<''"
| "op_text P_Le = ''<=''"
| "op_text P_Gt = ''>''"
| "op_text P_Ge = ''>=''"
| "op_text P_Add = ''+''"
| "op_text P_Sub = ''-''"
| "op_text P_Mul = ''*''"
| "op_text P_Div = ''/''"

fun level_of :: "pexpr \<Rightarrow> nat" where
  "level_of (P_Num n) = 8"
| "level_of (P_Var x) = 8"
| "level_of (P_Neg a) = 7"
| "level_of (P_Not a) = 3"
| "level_of (P_Bin b l r) = op_level b"

text \<open>The text of an expression with \<open>f\<close> before its first token, \<open>sp\<close> before every other one, and parentheses only where
  precedence or left associativity needs them.\<close>

fun raw :: "string \<Rightarrow> string \<Rightarrow> pexpr \<Rightarrow> string"
  and shown :: "string \<Rightarrow> string \<Rightarrow> nat \<Rightarrow> pexpr \<Rightarrow> string" where
  "raw f sp (P_Num n) = f @ dec_of_nat n"
| "raw f sp (P_Var x) = f @ x"
| "raw f sp (P_Neg a) = f @ ''-'' @ shown sp sp 7 a"
| "raw f sp (P_Not a) = f @ ''^'' @ shown sp sp 3 a"
| "raw f sp (P_Bin b l r) = shown f sp (op_level b) l @ sp @ op_text b @ shown sp sp (Suc (op_level b)) r"
| "shown f sp l e = (if level_of e < l then f @ ''('' @ raw sp sp e @ sp @ '')'' else raw f sp e)"

declare shown.simps [simp del]

primrec nesting :: "pexpr \<Rightarrow> nat" where
  "nesting (P_Num n) = 0"
| "nesting (P_Var x) = 0"
| "nesting (P_Neg a) = Suc (nesting a)"
| "nesting (P_Not a) = Suc (nesting a)"
| "nesting (P_Bin b l r) = Suc (max (nesting l) (nesting r))"

definition fits64 :: "int \<Rightarrow> bool" where
  "fits64 v \<longleftrightarrow> - (2 ^ 63) \<le> v \<and> v < 2 ^ 63"

definition within64 :: "int \<Rightarrow> int option" where
  "within64 v = (if fits64 v then Some v else None)"

fun apply_op :: "pop \<Rightarrow> int \<Rightarrow> int \<Rightarrow> int option" where
  "apply_op P_Or v w = Some (of_bool_int (v \<noteq> 0 \<or> w \<noteq> 0))"
| "apply_op P_And v w = Some (of_bool_int (v \<noteq> 0 \<and> w \<noteq> 0))"
| "apply_op P_Eq v w = Some (of_bool_int (v = w))"
| "apply_op P_Ne v w = Some (of_bool_int (v \<noteq> w))"
| "apply_op P_Lt v w = Some (of_bool_int (v < w))"
| "apply_op P_Le v w = Some (of_bool_int (v \<le> w))"
| "apply_op P_Gt v w = Some (of_bool_int (v > w))"
| "apply_op P_Ge v w = Some (of_bool_int (v \<ge> w))"
| "apply_op P_Add v w = within64 (v + w)"
| "apply_op P_Sub v w = within64 (v - w)"
| "apply_op P_Mul v w = within64 (v * w)"
| "apply_op P_Div v w = (if w = 0 then None else within64 (c_div v w))"

text \<open>The value of an expression; there is none with an unknown name, a division by zero or an overflow.\<close>

primrec value_of :: "(string \<rightharpoonup> int) \<Rightarrow> pexpr \<Rightarrow> int option" where
  "value_of vars (P_Num n) = within64 (int n)"
| "value_of vars (P_Var x) = (if x \<noteq> [] \<and> name_start (hd x) \<and> list_all isWordChar x then vars (upper x) else None)"
| "value_of vars (P_Neg a) = do { v \<leftarrow> value_of vars a; within64 (- v) }"
| "value_of vars (P_Not a) = do { v \<leftarrow> value_of vars a; Some (of_bool_int (v = 0)) }"
| "value_of vars (P_Bin b l r) = do { v \<leftarrow> value_of vars l; w \<leftarrow> value_of vars r; apply_op b v w }"

section \<open>Reading tokens off the remaining text\<close>

definition ahead :: "cond_ctx \<Rightarrow> PPCondParser \<Rightarrow> string" where
  "ahead x s = drop (pc_pos s) (px_text x)"

lemma at_ahead: "at x s c \<longleftrightarrow> (\<exists>r. ahead x s = c # r)"
  by (auto simp: at_def ahead_def list_helpers intro: nth_via_drop dest: arg_cong [where f = length])

lemma at_class_ahead: "at_class x s P \<longleftrightarrow> (\<exists>c r. ahead x s = c # r \<and> P c)"
  by (auto simp: at_class_def ahead_def list_helpers dest: arg_cong [where f = length] nth_via_drop)

lemma ahead_adv: "ahead x (adv n s) = drop n (ahead x s)"
  by (simp add: ahead_def add.commute)

lemma ahead_adv_app: "ahead x s = u @ r \<Longrightarrow> ahead x (adv (length u) s) = r"
  by (simp add: ahead_adv)

lemma ahead_fields [simp]: "ahead x (s\<lparr>pc_error := e\<rparr>) = ahead x s" "ahead x (s\<lparr>pc_depth := d\<rparr>) = ahead x s"
  by (simp_all add: ahead_def)

lemma run_of_ahead: "run_of x s P = takeWhile P (ahead x s)"
  by (simp add: run_of_def ahead_def)

lemma ahead_skipWs: "ahead x (skipWs x s) = dropWhile is_ws (ahead x s)"
  by (simp add: skipWs_def ahead_adv run_of_ahead dropWhile_eq_drop)

lemma takeWhile_dropWhile: "takeWhile P (dropWhile P xs) = []"
  by (induction xs) auto

lemma skipWs_idem [simp]: "skipWs x (skipWs x s) = skipWs x s"
  by (subst skipWs_def) (simp add: run_of_ahead ahead_skipWs takeWhile_dropWhile adv_def)

lemma skipWs_fields [simp]: "pc_error (skipWs x s) = pc_error s" "pc_depth (skipWs x s) = pc_depth s"
  by (simp_all add: skipWs_def)

lemma adv_adv [simp]: "adv m (adv n s) = adv (n + m) s" "adv 0 s = s"
  by (simp_all add: adv_def add.assoc)

lemma skipWs_blanks: "list_all is_ws sp \<Longrightarrow> ahead x s = sp @ c # r \<Longrightarrow> \<not> is_ws c \<Longrightarrow> skipWs x s = adv (length sp) s"
  by (simp add: skipWs_def run_of_ahead list_all_iff)

lemma skipWs_none: "ahead x s = c # r \<Longrightarrow> \<not> is_ws c \<Longrightarrow> skipWs x s = s"
  by (simp add: skipWs_def run_of_ahead)

text \<open>Every member skips blanks first, so blanks before a call do not matter.\<close>

lemma run_skip: "run_fuel (cond_body x) k c (skipWs x s) = run_fuel (cond_body x) k c s"
proof (induction k arbitrary: c)
  case (Suc k)
  then show ?case by (cases c) (simp_all add: cond_defs)
qed simp

lemma evals_skip: "cond.evals x c (skipWs x s) r \<longleftrightarrow> cond.evals x c s r"
  by (simp add: cond.evals_def run_skip)

section \<open>Where an operand ends\<close>

definition op_class :: "char \<Rightarrow> nat" where
  "op_class c =
     (if c = CHR ''|'' then 1 else if c = CHR ''&'' then 2
      else if c \<in> {CHR ''='', CHR ''<'', CHR ''>'', CHR ''^'', CHR ''~'', CHR 0xAC, CHR 0xC2} then 4
      else if c = CHR ''+'' \<or> c = CHR ''-'' then 5 else if c = CHR ''*'' \<or> c = CHR ''/'' then 6 else 0)"

definition stops :: "nat \<Rightarrow> string \<Rightarrow> bool" where
  "stops l r \<longleftrightarrow> (case dropWhile is_ws r of [] \<Rightarrow> True | c # _ \<Rightarrow> op_class c \<le> l)"

definition breaks :: "string \<Rightarrow> bool" where
  "breaks r \<longleftrightarrow> (case r of [] \<Rightarrow> True | c # _ \<Rightarrow> \<not> isWordChar c)"

definition entry :: "nat \<Rightarrow> pcall" where
  "entry l = (if l = 1 then C_Or else if l = 2 then C_And else if l = 3 then C_Not else if l = 4 then C_Cmp
     else if l = 5 then C_Add else if l = 6 then C_Mul else if l = 7 then C_Unary else C_Primary)"

definition loop :: "nat \<Rightarrow> int \<Rightarrow> pcall" where
  "loop l v = (if l = 1 then C_OrLoop v else if l = 2 then C_AndLoop v else if l = 4 then C_CmpLoop v
     else if l = 5 then C_AddLoop v else C_MulLoop v)"

definition loop_levels :: "nat set" where
  "loop_levels = {1, 2, 4, 5, 6}"

text \<open>An operand of a level was read and the parser stands at \<open>t\<close>: the member of that level goes on with its loop there.\<close>

definition parsed :: "cond_ctx \<Rightarrow> nat \<Rightarrow> PPCondParser \<Rightarrow> int \<Rightarrow> PPCondParser \<Rightarrow> bool" where
  "parsed x l s v t \<longleftrightarrow>
     (if l = 3 then cond.evals x C_Not s (v, skipWs x t)
      else if l \<in> loop_levels then \<forall>res. cond.evals x (loop l v) t res \<longrightarrow> cond.evals x (entry l) s res
      else cond.evals x (entry l) s (v, t))"

lemma stops_mono: "stops l r \<Longrightarrow> l \<le> m \<Longrightarrow> stops m r"
  by (auto simp: stops_def simp del: dropWhile_eq_Nil_conv split: list.splits)

lemma stops_at: "stops l (ahead x t) \<Longrightarrow> at x (skipWs x t) c \<Longrightarrow> op_class c \<le> l"
  by (auto simp: stops_def at_ahead ahead_skipWs)

lemma loop_stop:
  assumes "l \<in> loop_levels" and "stops (l - 1) (ahead x t)"
  shows "cond.evals x (loop l v) t (v, skipWs x t)"
proof (rule cond.evals_step0)
  have "\<not> at x (skipWs x t) c" if "l \<le> op_class c" for c using stops_at [OF assms(2)] that assms(1) by (force simp: loop_levels_def)
  note n = this
  have m: "l \<le> 4 \<Longrightarrow> \<not> fst (matchNot x (skipWs x t))"
    using n [of "CHR ''^''"] n [of "CHR ''~''"] n [of "CHR 0xAC"] n [of "CHR 0xC2"] by (auto simp: matchNot_def op_class_def at_def)
  show "cond_body x (\<lambda>_ _. None) (loop l v) t = Some (v, skipWs x t)"
    using assms(1) n [of "CHR ''|''"] n [of "CHR ''&''"] n [of "CHR ''=''"] n [of "CHR ''<''"] n [of "CHR ''>''"]
      n [of "CHR ''+''"] n [of "CHR ''-''"] n [of "CHR ''*''"] n [of "CHR ''/''"] m
    by (auto simp: loop_levels_def loop_def cond_defs Let_def op_class_def case_prod_beta)
qed

lemma parsed_done:
  assumes "parsed x l s v t" and "stops (l - 1) (ahead x t)"
  shows "\<exists>t2. (t2 = t \<or> t2 = skipWs x t) \<and> cond.evals x (entry l) s (v, t2)"
  using assms loop_stop [OF _ assms(2), of v] unfolding parsed_def
  by (cases "l = 3"; cases "l \<in> loop_levels") (auto simp: entry_def)

lemma evals_after: "t2 = t \<or> t2 = skipWs x t \<Longrightarrow> cond.evals x c t r \<Longrightarrow> cond.evals x c t2 r"
  using evals_skip by blast

text \<open>What the first byte of an operand of a level can be.\<close>

definition head_class :: "nat \<Rightarrow> char \<Rightarrow> bool" where
  "head_class l c \<longleftrightarrow> c_isdigit c \<or> name_start c \<or> c = CHR ''('' \<or> c = CHR ''-'' \<and> l \<le> 7 \<or> c = CHR ''^'' \<and> l \<le> 3"

definition starts :: "nat \<Rightarrow> string \<Rightarrow> bool" where
  "starts l u \<longleftrightarrow> (\<exists>c r. dropWhile is_ws u = c # r \<and> head_class l c)"

lemma head_class_codes: "head_class l c \<Longrightarrow> \<not> is_ws c \<and> c \<noteq> CHR ''='' \<and> c \<noteq> CHR ''~'' \<and> c \<noteq> CHR 0xAC \<and> c \<noteq> CHR 0xC2"
  by (auto simp: head_class_def name_start_def is_ws_def char_class ucode_def)

lemma head_class_level: "head_class l c \<Longrightarrow> 3 < l \<Longrightarrow> c \<noteq> CHR ''^''" "head_class l c \<Longrightarrow> 7 < l \<Longrightarrow> c \<noteq> CHR ''-''"
  by (auto simp: head_class_def name_start_def char_class ucode_def)

lemma starts_mono: "starts l u \<Longrightarrow> m \<le> l \<Longrightarrow> starts m u"
  by (auto simp: starts_def head_class_def)

lemma starts_at: "starts l (ahead x s) \<Longrightarrow> at x (skipWs x s) c \<Longrightarrow> head_class l c"
  by (auto simp: starts_def at_ahead ahead_skipWs)

lemma starts_matchNot:
  assumes "starts l (ahead x s)" and "3 < l"
  shows "matchNot x (skipWs x s) = (False, skipWs x s)"
proof -
  have n: "\<not> at x (skipWs x s) CHR ''^''" "\<not> at x (skipWs x s) CHR ''~''" "\<not> at x (skipWs x s) CHR 0xAC" "\<not> at x (skipWs x s) CHR 0xC2"
    using starts_at [OF assms(1)] head_class_codes head_class_level(1) [OF _ assms(2)] by blast+
  then have "\<not> (pc_pos (skipWs x s) + 1 < length (px_text x) \<and> px_text x ! pc_pos (skipWs x s) = CHR 0xC2)" by (simp add: at_def)
  with n(1-3) show ?thesis unfolding matchNot_def by metis
qed

lemma lift_level:
  assumes p: "parsed x (Suc l) s v t" and st: "stops l (ahead x t)" and h: "starts (Suc l) (ahead x s)" and l: "1 \<le> l" "l \<le> 7"
  shows "parsed x l s v t"
proof -
  obtain t2 where t2: "t2 = t \<or> t2 = skipWs x t" "cond.evals x (entry (Suc l)) s (v, t2)"
    using parsed_done [OF p] st by auto
  consider "l \<in> loop_levels" | "l = 3" | "l = 7" using l unfolding loop_levels_def by fastforce
  then show ?thesis
  proof cases
    case 1
    have "cond.evals x (entry l) s res" if "cond.evals x (loop l v) t res" for res
      using 1 by (intro cond.evals_step2 [OF t2(2) evals_after [OF t2(1) that]])
        (auto simp: loop_levels_def entry_def loop_def parseOr_def parseAnd_def parseCmp_def parseAdd_def parseMul_def)
    then show ?thesis using 1 by (auto simp: parsed_def loop_levels_def)
  next
    case 2
    have "cond.evals x C_Cmp s (v, skipWs x t)"
      using p loop_stop [of 4 x t v] st 2 by (simp add: parsed_def loop_levels_def entry_def)
    then have "cond.evals x C_Cmp (skipWs x s) (v, skipWs x t)" by (simp only: evals_skip)
    then have "cond.evals x C_Not s (v, skipWs x t)"
      by (rule cond.evals_step1) (use starts_matchNot [OF h] 2 in \<open>simp add: parseNot_def\<close>)
    then show ?thesis using 2 by (simp add: parsed_def)
  next
    case 3
    have "cond.evals x C_Primary s (v, t)" using p 3 by (simp add: parsed_def loop_levels_def entry_def)
    then have "cond.evals x C_Primary (skipWs x s) (v, t)" by (simp only: evals_skip)
    moreover have "\<not> at x (skipWs x s) CHR ''-''" using starts_at [OF h, of "CHR ''-''"] head_class_level(2) [of "Suc l" "CHR ''-''"] 3 by auto
    ultimately have "cond.evals x C_Unary s (v, t)" by (rule_tac cond.evals_step1) (simp_all add: parseUnary_def Let_def)
    then show ?thesis using 3 by (simp add: parsed_def loop_levels_def entry_def)
  qed
qed

lemma lower_level:
  assumes "parsed x m s v t" and "stops l (ahead x t)" and "starts m (ahead x s)" and "1 \<le> l" and "l \<le> m" and "m \<le> 8"
  shows "parsed x l s v t"
  using assms
proof (induction m)
  case (Suc m)
  show ?case
  proof (cases "l = Suc m")
    case False
    then have "stops m (ahead x t)" "starts m (ahead x s)"
      using Suc.prems stops_mono [OF Suc.prems(2), of m] starts_mono [OF Suc.prems(3), of m] by simp_all
    with Suc.prems False show ?thesis by (intro Suc.IH) (simp_all add: lift_level)
  qed (use Suc.prems in simp)
qed simp

section \<open>One operator\<close>

lemma wrap64_fits: "fits64 v \<Longrightarrow> wrap64 v = v"
  by (simp add: wrap64_def fits64_def sint_of_int)

lemma within64_Some: "within64 v = Some z \<longleftrightarrow> z = v \<and> fits64 v"
  by (auto simp: within64_def)

lemma loop_op:
  assumes a: "ahead x (skipWs x t) = op_text b @ u" and u: "\<And>r. u \<noteq> CHR ''='' # r"
    and e: "cond.evals x (entry (Suc (op_level b))) (adv (length (op_text b)) (skipWs x t)) (w, t2)"
    and z: "apply_op b v w = Some z" and k: "cond.evals x (loop (op_level b) z) t2 res"
  shows "cond.evals x (loop (op_level b) v) t res"
proof (rule cond.evals_step2 [OF e k])
  fix f :: prec
  assume f: "f (entry (Suc (op_level b))) (adv (length (op_text b)) (skipWs x t)) = Some (w, t2)" "f (loop (op_level b) z) t2 = Some res"
  have ne: "matchNot x (skipWs x t) = (True, adv 1 (skipWs x t)) \<and> skipWs x (adv 1 (skipWs x t)) = adv 1 (skipWs x t)" if "b = P_Ne"
    using a that by (auto simp: matchNot_def at_ahead ahead_adv is_ws_def intro!: skipWs_none [where c = "CHR ''=''"])
  have tail: "\<not> at x (adv 1 (skipWs x t)) CHR ''=''" if "b = P_Lt \<or> b = P_Gt"
    using a u that by (auto simp: at_ahead ahead_adv)
  show "cond_body x f (loop (op_level b) v) t = Some res"
    using a z f ne tail
    by (cases b) (auto simp: loop_def entry_def cond_defs Let_def at_ahead ahead_adv wrap64_fits within64_Some split: if_splits)
qed

lemma parsed_op:
  assumes l: "parsed x (op_level b) s v t" and a: "ahead x (skipWs x t) = op_text b @ u" and u: "\<And>r. u \<noteq> CHR ''='' # r"
    and r: "parsed x (Suc (op_level b)) (adv (length (op_text b)) (skipWs x t)) w t2" and st: "stops (op_level b) (ahead x t2)"
    and z: "apply_op b v w = Some z"
  shows "parsed x (op_level b) s z t2"
proof -
  have L: "op_level b \<in> loop_levels" "op_level b \<noteq> 3" by (cases b; simp add: loop_levels_def)+
  obtain t3 where t3: "t3 = t2 \<or> t3 = skipWs x t2"
    "cond.evals x (entry (Suc (op_level b))) (adv (length (op_text b)) (skipWs x t)) (w, t3)"
    using parsed_done [OF r] st by auto
  have "cond.evals x (entry (op_level b)) s res" if "cond.evals x (loop (op_level b) z) t2 res" for res
    using l L loop_op [OF a u t3(2) z evals_after [OF t3(1) that]] by (cases res) (simp add: parsed_def)
  then show ?thesis using L by (simp add: parsed_def)
qed

section \<open>Operands\<close>

lemma digits_value_of: "list_all c_isdigit ds \<Longrightarrow> fits64 (int (nat_of_dec ds)) \<Longrightarrow> digits_value ds = int (nat_of_dec ds)"
proof (induction ds rule: rev_induct)
  case (snoc d ds)
  have d: "int (ucode d) - 48 = int (digit_val d)" using snoc.prems(1) by (auto simp: digit_val_def char_class ucode_def)
  have "fits64 (int (nat_of_dec ds))" using snoc.prems(2) by (simp add: fits64_def)
  with snoc d have "digits_value (ds @ [d]) = wrap64 (int (nat_of_dec (ds @ [d])))" by (simp add: digits_value_def algebra_simps)
  then show ?case using snoc.prems(2) by (simp only: wrap64_fits)
qed (simp add: digits_value_def nat_of_dec_def)

lemma takeWhile_class: "list_all P u \<Longrightarrow> (case r of [] \<Rightarrow> True | c # _ \<Rightarrow> \<not> P c) \<Longrightarrow> takeWhile P (u @ r) = u"
  by (induction u) (auto split: list.splits)

lemma breaks_class: "breaks r \<Longrightarrow> (case r of [] \<Rightarrow> True | c # _ \<Rightarrow> \<not> isWordChar c)"
  "breaks r \<Longrightarrow> (case r of [] \<Rightarrow> True | c # _ \<Rightarrow> \<not> c_isdigit c)"
  by (auto simp: breaks_def isWordChar_def split: list.splits)

lemma class_codes: "c_isdigit c \<Longrightarrow> \<not> is_ws c \<and> c \<noteq> CHR ''(''" "name_start c \<Longrightarrow> \<not> is_ws c \<and> c \<noteq> CHR ''('' \<and> \<not> c_isdigit c"
  by (auto simp: name_start_def is_ws_def char_class ucode_def)

lemma number_operand:
  assumes sp: "list_all is_ws sp" and a: "ahead x s = sp @ dec_of_nat n @ r" and b: "breaks r" and n: "fits64 (int n)"
  shows "parsed x 8 s (int n) (adv (length (sp @ dec_of_nat n)) s)"
proof -
  obtain d ds where d: "dec_of_nat n = d # ds" by (cases "dec_of_nat n") auto
  have dg: "list_all c_isdigit (dec_of_nat n)" by (simp add: list_all_iff dec_of_nat_digits)
  then have dc: "c_isdigit d" using d by simp
  have sk: "skipWs x s = adv (length sp) s" using a d class_codes(1) [OF dc] by (intro skipWs_blanks [OF sp]) auto
  have ah: "ahead x (skipWs x s) = dec_of_nat n @ r" using a unfolding sk by (intro ahead_adv_app)
  have run: "run_of x (skipWs x s) c_isdigit = dec_of_nat n"
    unfolding run_of_ahead ah using dg breaks_class(2) [OF b] by (rule takeWhile_class)
  have "digits_value (dec_of_nat n) = int n" using digits_value_of [OF dg] n by simp
  then have "cond.evals x C_Primary s (int n, adv (length (sp @ dec_of_nat n)) s)"
    using ah d dc class_codes(1) [OF dc] run
    by (intro cond.evals_step0) (auto simp: parsePrimary_def Let_def at_ahead at_class_ahead sk)
  then show ?thesis by (simp add: parsed_def loop_levels_def entry_def)
qed

lemma name_operand:
  assumes sp: "list_all is_ws sp" and a: "ahead x s = sp @ y @ r" and b: "breaks r"
    and y: "y \<noteq> []" "name_start (hd y)" "list_all isWordChar y" "px_vars x (upper y) = Some v"
  shows "parsed x 8 s v (adv (length (sp @ y)) s)"
proof -
  obtain d ds where d: "y = d # ds" using y(1) by (cases y) auto
  have dc: "name_start d" using d y(2) by simp
  have sk: "skipWs x s = adv (length sp) s" using a d class_codes(2) [OF dc] by (intro skipWs_blanks [OF sp]) auto
  have ah: "ahead x (skipWs x s) = y @ r" using a unfolding sk by (intro ahead_adv_app)
  have run: "run_of x (skipWs x s) isWordChar = y"
    unfolding run_of_ahead ah using y(3) breaks_class(1) [OF b] by (rule takeWhile_class)
  have "cond.evals x C_Primary s (v, adv (length (sp @ y)) s)"
    using ah d dc class_codes(2) [OF dc] run y(4)
    by (intro cond.evals_step0) (auto simp: parsePrimary_def Let_def at_ahead at_class_ahead sk)
  then show ?thesis by (simp add: parsed_def loop_levels_def entry_def)
qed

lemma neg_operand:
  assumes sp: "list_all is_ws sp" and a: "ahead x s = sp @ CHR ''-'' # u"
    and p: "parsed x 7 (adv (Suc (length sp)) s) v t" and v: "fits64 (- v)"
  shows "parsed x 7 s (- v) t"
proof -
  have sk: "skipWs x s = adv (length sp) s" using a by (intro skipWs_blanks [OF sp]) (auto simp: is_ws_def)
  then have at: "at x (skipWs x s) CHR ''-''" using a by (simp add: at_ahead ahead_adv)
  have "cond.evals x C_Unary (adv 1 (skipWs x s)) (v, t)" using p sk by (simp add: parsed_def loop_levels_def entry_def)
  then have "cond.evals x C_Unary s (- v, t)"
    by (rule cond.evals_step1) (use at v in \<open>simp add: parseUnary_def wrap64_fits\<close>)
  then show ?thesis by (simp add: parsed_def loop_levels_def entry_def)
qed

lemma not_operand:
  assumes sp: "list_all is_ws sp" and a: "ahead x s = sp @ CHR ''^'' # u" and h: "starts 3 u"
    and p: "parsed x 3 (adv (Suc (length sp)) s) v t"
  shows "parsed x 3 s (of_bool_int (v = 0)) t"
proof -
  let ?u = "adv 1 (skipWs x s)"
  have sk: "skipWs x s = adv (length sp) s" using a by (intro skipWs_blanks [OF sp]) (auto simp: is_ws_def)
  then have "ahead x (skipWs x s) = CHR ''^'' # u" using a by (simp add: ahead_adv)
  then have m: "matchNot x (skipWs x s) = (True, ?u)" and ua: "ahead x ?u = u" by (simp_all add: matchNot_def at_ahead ahead_adv)
  have ne: "\<not> at x (skipWs x ?u) CHR ''=''" using starts_at [of 3 x ?u "CHR ''=''"] h head_class_codes ua by auto
  have "cond.evals x C_Not (skipWs x ?u) (v, skipWs x t)" using p sk by (simp add: parsed_def evals_skip)
  then have "cond.evals x C_Not s (of_bool_int (v = 0), skipWs x t)"
    by (rule cond.evals_step1) (use m ne in \<open>simp add: parseNot_def\<close>)
  then show ?thesis by (simp add: parsed_def)
qed

lemma paren_operand:
  assumes f: "list_all is_ws f" and sp: "list_all is_ws sp" and a: "ahead x s = f @ CHR ''('' # u" and d: "pc_depth s < kMaxDepth"
    and p: "parsed x 1 ((adv (Suc (length f)) s)\<lparr>pc_depth := Suc (pc_depth s)\<rparr>) v t"
    and t: "ahead x t = sp @ CHR '')'' # r" "pc_depth t = Suc (pc_depth s)"
  shows "parsed x 8 s v ((adv (Suc (length sp)) t)\<lparr>pc_depth := pc_depth s\<rparr>)"
proof -
  have sk: "skipWs x s = adv (length f) s" using a by (intro skipWs_blanks [OF f]) (auto simp: is_ws_def)
  then have at: "at x (skipWs x s) CHR ''(''" using a by (simp add: at_ahead ahead_adv)
  have st: "skipWs x t = adv (length sp) t" using t by (intro skipWs_blanks [OF sp]) (auto simp: is_ws_def)
  have "stops 0 (ahead x t)" using sp t by (simp add: stops_def list_all_iff is_ws_def op_class_def)
  from loop_stop [of 1 x t v] this p
  have "cond.evals x C_Or ((adv 1 (skipWs x s))\<lparr>pc_depth := Suc (pc_depth s)\<rparr>) (v, skipWs x t)"
    by (simp add: parsed_def loop_levels_def entry_def sk)
  then have "cond.evals x C_Primary s (v, (adv (Suc (length sp)) t)\<lparr>pc_depth := pc_depth s\<rparr>)"
  proof (rule cond.evals_step1)
    fix g :: prec
    assume g: "g C_Or ((adv 1 (skipWs x s))\<lparr>pc_depth := Suc (pc_depth s)\<rparr>) = Some (v, skipWs x t)"
    have c: "at x ((skipWs x t)\<lparr>pc_depth := n\<rparr>) CHR '')''" for n using t by (simp add: at_ahead st ahead_adv)
    show "cond_body x g C_Primary s = Some (v, (adv (Suc (length sp)) t)\<lparr>pc_depth := pc_depth s\<rparr>)"
      using g at d c t(2) by (simp add: parsePrimary_def Let_def) (simp add: st adv_def)
  qed
  then show ?thesis by (simp add: parsed_def loop_levels_def entry_def)
qed

section \<open>Printed expressions evaluate to their value\<close>

lemma starts_paren: "list_all is_ws sp \<Longrightarrow> starts 8 (sp @ CHR ''('' # u)"
  by (simp add: starts_def list_all_iff is_ws_def head_class_def)

lemma starts_token: "list_all is_ws sp \<Longrightarrow> \<not> is_ws c \<Longrightarrow> head_class l c \<Longrightarrow> starts l (sp @ c # u)"
  by (simp add: starts_def list_all_iff)

lemma op_level_range: "1 \<le> op_level b" "op_level b \<le> 6" "op_level b \<noteq> 3"
  by (cases b; simp)+

lemma raw_starts:
  assumes "list_all is_ws f"
  shows "value_of vars e = Some v \<Longrightarrow> starts (level_of e) (raw f sp e @ r)"
proof (induction e arbitrary: v r)
  case (P_Num n)
  obtain d ds where d: "dec_of_nat n = d # ds" by (cases "dec_of_nat n") auto
  then have "c_isdigit d" by (metis dec_of_nat_digits list.set_intros(1))
  then show ?case using d starts_token [OF assms, of d 8 "ds @ r"] class_codes(1) by (simp add: head_class_def)
next
  case (P_Var y)
  then obtain d ds where "y = d # ds" "name_start d" by (cases y) (auto split: if_splits)
  then show ?case using starts_token [OF assms, of d 8 "ds @ r"] class_codes(2) by (simp add: head_class_def)
next
  case (P_Bin b e1 e2)
  then obtain w where "value_of vars e1 = Some w" by (auto simp: bind_eq_Some_conv)
  from P_Bin.IH(1) [OF this] have "starts (level_of e1) (raw f sp e1 @ u)" for u .
  then have "starts (op_level b) (shown f sp (op_level b) e1 @ u)" for u
    using starts_mono [OF starts_paren [OF assms], of "op_level b"] starts_mono [of "level_of e1" "raw f sp e1 @ u" "op_level b"]
      op_level_range(2) [of b] by (simp add: shown.simps)
  then show ?case by simp
qed (use starts_token [OF assms] in \<open>simp_all add: head_class_def is_ws_def\<close>)

lemma shown_starts:
  assumes "list_all is_ws f" and "value_of vars e = Some v" and "l \<le> 8"
  shows "starts l (shown f sp l e @ r)"
proof (cases "level_of e < l")
  case True
  then show ?thesis using starts_mono [OF starts_paren [OF assms(1)] assms(3)] by (simp add: shown.simps)
next
  case False
  then show ?thesis using starts_mono [OF raw_starts [OF assms(1, 2)]] by (simp add: shown.simps)
qed

text \<open>From the unparenthesised text to the text at any level.\<close>

definition raw_parsed :: "cond_ctx \<Rightarrow> string \<Rightarrow> pexpr \<Rightarrow> int \<Rightarrow> bool" where
  "raw_parsed x sp e v \<longleftrightarrow> (\<forall>f s r. list_all is_ws f \<and> ahead x s = raw f sp e @ r \<and> stops (level_of e) r \<and> breaks r \<and> pc_depth s + nesting e \<le> Suc kMaxDepth \<longrightarrow>
     parsed x (level_of e) s v (adv (length (raw f sp e)) s))"

lemma level_range: "1 \<le> level_of e" "level_of e \<le> 8"
proof -
  have "1 \<le> level_of e \<and> level_of e \<le> 8"
  proof (cases e)
    case (P_Bin b l r)
    then show ?thesis using op_level_range(1, 2) [of b] by simp
  qed simp_all
  then show "1 \<le> level_of e" "level_of e \<le> 8" by simp_all
qed

lemma nesting_pos: "level_of e < 8 \<Longrightarrow> 0 < nesting e"
  by (cases e) simp_all

lemma blank_not_word: "is_ws c \<Longrightarrow> \<not> isWordChar c"
  by (auto simp: is_ws_def isWordChar_def char_class ucode_def)

lemma breaks_blanks: "list_all is_ws sp \<Longrightarrow> \<not> isWordChar c \<Longrightarrow> breaks (sp @ c # r)"
  using blank_not_word by (cases sp) (simp_all add: breaks_def)

lemma close_follows:
  assumes "list_all is_ws sp"
  shows "stops 0 (sp @ CHR '')'' # r) \<and> breaks (sp @ CHR '')'' # r)"
proof -
  have "dropWhile is_ws (sp @ CHR '')'' # r) = CHR '')'' # r" using assms by (simp add: list_all_iff is_ws_def)
  then have "stops 0 (sp @ CHR '')'' # r)" by (simp add: stops_def op_class_def)
  moreover have "\<not> isWordChar CHR '')''" by (simp add: isWordChar_def char_class ucode_def)
  ultimately show ?thesis using breaks_blanks [OF assms] by blast
qed

lemma shown_parsed:
  assumes f: "list_all is_ws f" and sp: "list_all is_ws sp" and e: "raw_parsed x sp e v" "value_of vars e = Some v"
    and a: "ahead x s = shown f sp l e @ r" and r: "stops l r" "breaks r" and l: "1 \<le> l" "l \<le> 8"
    and d: "pc_depth s + nesting e \<le> kMaxDepth"
  shows "parsed x l s v (adv (length (shown f sp l e)) s)"
proof (cases "level_of e < l")
  case False
  then have raw: "shown f sp l e = raw f sp e" by (simp add: shown.simps)
  have a2: "ahead x s = raw f sp e @ r" using a raw by simp
  have "stops (level_of e) r" using stops_mono [OF r(1)] False by simp
  then have "parsed x (level_of e) s v (adv (length (raw f sp e)) s)"
    using e(1) [unfolded raw_parsed_def, rule_format, of f s r] f a2 r d by simp
  moreover have "stops l (ahead x (adv (length (raw f sp e)) s))" unfolding ahead_adv_app [OF a2] by (rule r(1))
  moreover have "starts (level_of e) (ahead x s)" unfolding a2 by (rule raw_starts [OF f e(2)])
  ultimately have "parsed x l s v (adv (length (raw f sp e)) s)"
    using l False level_range(2) [of e] by (rule_tac lower_level [of x "level_of e"]) simp_all
  then show ?thesis by (simp add: raw)
next
  case True
  then have sh: "shown f sp l e = f @ ''('' @ raw sp sp e @ sp @ '')''" by (simp add: shown.simps)
  let ?s = "(adv (Suc (length f)) s)\<lparr>pc_depth := Suc (pc_depth s)\<rparr>"
  let ?t = "adv (length (raw sp sp e)) ?s"
  have in0: "ahead x ?s = raw sp sp e @ sp @ CHR '')'' # r" using a sh by (simp add: ahead_adv)
  have st0: "stops 0 (sp @ CHR '')'' # r)" "breaks (sp @ CHR '')'' # r)"
    using close_follows [OF sp] by blast+
  have "parsed x (level_of e) ?s v ?t"
    using e(1) [unfolded raw_parsed_def, rule_format, of sp ?s "sp @ CHR '')'' # r"] sp in0 st0
      stops_mono [OF st0(1), of "level_of e"] d by simp
  moreover have "stops 1 (ahead x ?t)" unfolding ahead_adv_app [OF in0] by (rule stops_mono [OF st0(1)]) simp
  moreover have "starts (level_of e) (ahead x ?s)" unfolding in0 by (rule raw_starts [OF sp e(2)])
  ultimately have "parsed x 1 ?s v ?t"
    using level_range [of e] by (rule_tac lower_level [of x "level_of e"]) simp_all
  moreover have "ahead x ?t = sp @ CHR '')'' # r" using in0 by (simp add: ahead_adv)
  moreover have "pc_depth s < kMaxDepth" using d nesting_pos [of e] True l by simp
  moreover have "ahead x s = f @ CHR ''('' # (raw sp sp e @ sp @ CHR '')'' # r)" using a sh by simp
  ultimately have "parsed x 8 s v ((adv (Suc (length sp)) ?t)\<lparr>pc_depth := pc_depth s\<rparr>)" by (rule_tac paren_operand [OF f sp]) simp_all
  moreover have "(adv (Suc (length sp)) ?t)\<lparr>pc_depth := pc_depth s\<rparr> = adv (length (shown f sp l e)) s" by (simp add: sh adv_def)
  ultimately have "parsed x 8 s v (adv (length (shown f sp l e)) s)" by simp
  moreover have "stops l (ahead x (adv (length (shown f sp l e)) s))" unfolding ahead_adv_app [OF a] by (rule r(1))
  moreover have "starts 8 (ahead x s)" unfolding a sh using starts_paren [OF f] by simp
  ultimately show ?thesis using l by (rule_tac lower_level [of x 8]) simp_all
qed

lemma op_text_shape: "\<exists>c cs. op_text b = c # cs \<and> op_class c = op_level b \<and> \<not> is_ws c \<and> \<not> isWordChar c"
  by (cases b) (simp_all add: op_class_def is_ws_def isWordChar_def char_class ucode_def)

lemma op_follows:
  assumes "list_all is_ws sp"
  shows "stops (op_level b) (sp @ op_text b @ u)" "breaks (sp @ op_text b @ u)" "dropWhile is_ws (sp @ op_text b @ u) = op_text b @ u"
proof -
  obtain c cs where c: "op_text b = c # cs" "op_class c = op_level b" "\<not> is_ws c" "\<not> isWordChar c" using op_text_shape by blast
  show "dropWhile is_ws (sp @ op_text b @ u) = op_text b @ u" using assms c by (simp add: list_all_iff)
  then show "stops (op_level b) (sp @ op_text b @ u)" using c by (simp add: stops_def)
  show "breaks (sp @ op_text b @ u)" using breaks_blanks [OF assms c(4)] c(1) by simp
qed

lemma shown_no_equals:
  assumes "list_all is_ws f" and "value_of vars e = Some v" and "l \<le> 8"
  shows "shown f sp l e @ r \<noteq> CHR ''='' # u"
proof
  assume "shown f sp l e @ r = CHR ''='' # u"
  then have "starts l (CHR ''='' # u)" using shown_starts [OF assms, of sp r] by simp
  then show False using head_class_codes [of l "CHR ''=''"] by (auto simp: starts_def is_ws_def)
qed

lemma binary_operand:
  assumes sp: "list_all is_ws sp" and f: "list_all is_ws f" and e1: "raw_parsed x sp e1 v1" "value_of vars e1 = Some v1"
    and e2: "raw_parsed x sp e2 v2" "value_of vars e2 = Some v2" and v: "apply_op b v1 v2 = Some v"
    and a: "ahead x s = raw f sp (P_Bin b e1 e2) @ r" and r: "stops (op_level b) r" "breaks r"
    and d: "pc_depth s + nesting (P_Bin b e1 e2) \<le> Suc kMaxDepth"
  shows "parsed x (op_level b) s v (adv (length (raw f sp (P_Bin b e1 e2))) s)"
proof -
  let ?L = "op_level b" and ?u = "shown sp sp (Suc (op_level b)) e2 @ r"
  let ?t = "adv (length (shown f sp ?L e1)) s"
  let ?s2 = "adv (length (op_text b)) (skipWs x ?t)"
  have a1: "ahead x s = shown f sp ?L e1 @ sp @ op_text b @ ?u" using a by simp
  then have t: "ahead x ?t = sp @ op_text b @ ?u" by (rule ahead_adv_app)
  have l: "parsed x ?L s v1 ?t"
    using shown_parsed [OF f sp e1 a1] op_follows [OF sp] op_level_range [of b] d by simp
  obtain c cs where c: "op_text b = c # cs" "\<not> is_ws c" using op_text_shape [of b] by blast
  have sk: "skipWs x ?t = adv (length sp) ?t" using t c by (intro skipWs_blanks [OF sp]) auto
  have a2: "ahead x (skipWs x ?t) = op_text b @ ?u" using t unfolding sk by (rule ahead_adv_app)
  have a3: "ahead x ?s2 = ?u" using a2 by (rule ahead_adv_app)
  have p2: "parsed x (Suc ?L) ?s2 v2 (adv (length (shown sp sp (Suc ?L) e2)) ?s2)"
    using shown_parsed [OF sp sp e2 a3] r stops_mono [OF r(1), of "Suc ?L"] op_level_range [of b] d sk by simp
  have st2: "stops ?L (ahead x (adv (length (shown sp sp (Suc ?L) e2)) ?s2))" unfolding ahead_adv_app [OF a3] by (rule r(1))
  have ne: "?u \<noteq> CHR ''='' # q" for q using op_level_range(2) [of b] by (intro shown_no_equals [OF sp e2(2)]) simp
  show ?thesis using parsed_op [OF l a2 ne p2 st2 v] unfolding sk by (simp add: add.assoc)
qed

lemma raw_of: "list_all is_ws sp \<Longrightarrow> value_of (px_vars x) e = Some v \<Longrightarrow> raw_parsed x sp e v"
proof (induction e arbitrary: v)
  case (P_Num n)
  then show ?case unfolding raw_parsed_def using number_operand [of _ x _ n] by (auto simp: within64_Some)
next
  case (P_Var y)
  then show ?case unfolding raw_parsed_def using name_operand [of _ x _ y _ v] by (auto split: if_splits)
next
  case (P_Neg a)
  then obtain w where w: "value_of (px_vars x) a = Some w" "v = - w" "fits64 (- w)" by (auto simp: bind_eq_Some_conv within64_Some)
  show ?case unfolding raw_parsed_def
  proof (intro allI impI; elim conjE)
    fix f s r
    assume f: "list_all is_ws f" and a: "ahead x s = raw f sp (P_Neg a) @ r" and r: "stops (level_of (P_Neg a)) r" "breaks r"
      and d: "pc_depth s + nesting (P_Neg a) \<le> Suc kMaxDepth"
    let ?s = "adv (Suc (length f)) s"
    have a1: "ahead x s = f @ CHR ''-'' # shown sp sp 7 a @ r" using a by simp
    then have a2: "ahead x ?s = shown sp sp 7 a @ r" by (simp add: ahead_adv)
    have "parsed x 7 ?s w (adv (length (shown sp sp 7 a)) ?s)"
      using shown_parsed [OF P_Neg.prems(1) P_Neg.prems(1) P_Neg.IH [OF P_Neg.prems(1) w(1)] w(1) a2] r d by simp
    from neg_operand [OF f a1 this w(3)] w(2)
    show "parsed x (level_of (P_Neg a)) s v (adv (length (raw f sp (P_Neg a))) s)" by simp
  qed
next
  case (P_Not a)
  then obtain w where w: "value_of (px_vars x) a = Some w" "v = of_bool_int (w = 0)" by (auto simp: bind_eq_Some_conv)
  show ?case unfolding raw_parsed_def
  proof (intro allI impI; elim conjE)
    fix f s r
    assume f: "list_all is_ws f" and a: "ahead x s = raw f sp (P_Not a) @ r" and r: "stops (level_of (P_Not a)) r" "breaks r"
      and d: "pc_depth s + nesting (P_Not a) \<le> Suc kMaxDepth"
    let ?s = "adv (Suc (length f)) s"
    have a1: "ahead x s = f @ CHR ''^'' # shown sp sp 3 a @ r" using a by simp
    then have a2: "ahead x ?s = shown sp sp 3 a @ r" by (simp add: ahead_adv)
    have "parsed x 3 ?s w (adv (length (shown sp sp 3 a)) ?s)"
      using shown_parsed [OF P_Not.prems(1) P_Not.prems(1) P_Not.IH [OF P_Not.prems(1) w(1)] w(1) a2] r d by simp
    from not_operand [OF f a1 shown_starts [OF P_Not.prems(1) w(1)] this] w(2)
    show "parsed x (level_of (P_Not a)) s v (adv (length (raw f sp (P_Not a))) s)" by simp
  qed
next
  case (P_Bin b e1 e2)
  then obtain v1 v2 where w: "value_of (px_vars x) e1 = Some v1" "value_of (px_vars x) e2 = Some v2" "apply_op b v1 v2 = Some v"
    by (auto simp: bind_eq_Some_conv)
  show ?case unfolding raw_parsed_def
    using binary_operand [OF P_Bin.prems(1) _ P_Bin.IH(1) [OF P_Bin.prems(1) w(1)] w(1) P_Bin.IH(2) [OF P_Bin.prems(1) w(2)] w(2, 3)]
    by simp
qed

lemma trim_id: "t \<noteq> [] \<Longrightarrow> \<not> is_ws (hd t) \<Longrightarrow> \<not> is_ws (last t) \<Longrightarrow> pp_trim t = t"
proof -
  assume t: "t \<noteq> []" "\<not> is_ws (hd t)" "\<not> is_ws (last t)"
  have "dropWhile is_ws t = t" using t by (cases t) simp_all
  moreover have "dropWhile is_ws (rev t) = rev t" using t by (cases "rev t") (simp_all add: last_rev)
  ultimately show ?thesis by (simp add: pp_trim_def)
qed

lemma word_not_blank: "isWordChar c \<Longrightarrow> \<not> is_ws c"
  using blank_not_word by blast

lemma raw_first: "value_of vars e = Some v \<Longrightarrow> \<exists>c cs. raw [] sp e = c # cs \<and> \<not> is_ws c"
proof (induction e arbitrary: v)
  case (P_Num n)
  obtain d ds where d: "dec_of_nat n = d # ds" by (cases "dec_of_nat n") auto
  then have "c_isdigit d" by (metis dec_of_nat_digits list.set_intros(1))
  then show ?case using d class_codes(1) by simp
next
  case (P_Var y)
  then show ?case using word_not_blank by (cases y) (auto split: if_splits)
next
  case (P_Bin b e1 e2)
  then obtain w where "value_of vars e1 = Some w" by (auto simp: bind_eq_Some_conv)
  from P_Bin.IH(1) [OF this] show ?case by (auto simp: shown.simps is_ws_def)
qed (auto simp: is_ws_def)

lemma raw_last: "value_of vars e = Some v \<Longrightarrow> raw f sp e \<noteq> [] \<and> \<not> is_ws (last (raw f sp e))"
proof (induction e arbitrary: v f)
  case (P_Num n)
  have "c_isdigit (last (dec_of_nat n))" by (meson dec_of_nat_digits dec_of_nat_nonempty last_in_set)
  then show ?case using class_codes(1) by simp
next
  case (P_Var y)
  then show ?case using word_not_blank by (auto simp: list_all_iff split: if_splits)
next
  case (P_Neg a)
  then obtain w where "value_of vars a = Some w" by (auto simp: bind_eq_Some_conv)
  from P_Neg.IH [OF this] show ?case by (auto simp: shown.simps is_ws_def)
next
  case (P_Not a)
  then obtain w where "value_of vars a = Some w" by (auto simp: bind_eq_Some_conv)
  from P_Not.IH [OF this] show ?case by (auto simp: shown.simps is_ws_def)
next
  case (P_Bin b e1 e2)
  then obtain w where "value_of vars e2 = Some w" by (auto simp: bind_eq_Some_conv)
  from P_Bin.IH(2) [OF this] show ?case by (auto simp: shown.simps is_ws_def)
qed

lemma trim_blanks:
  assumes "list_all is_ws a" and "list_all is_ws b" and "t \<noteq> []" and "\<not> is_ws (hd t)" and "\<not> is_ws (last t)"
  shows "pp_trim (a @ t @ b) = t"
proof -
  have "dropWhile is_ws (a @ t @ b) = t @ b" using assms by (cases t) (simp_all add: list_all_iff)
  moreover have "dropWhile is_ws (rev t) = rev t" using assms(3, 5) by (cases "rev t") auto
  moreover have "dropWhile is_ws (rev b @ rev t) = dropWhile is_ws (rev t)" using assms(2) by (intro dropWhile_append2) (simp add: list_all_iff)
  ultimately show ?thesis by (simp add: pp_trim_def)
qed

lemma evalCondExpr_total: "evalCondExpr vars t \<noteq> None"
proof -
  let ?x = "\<lparr>px_text = pp_trim t, px_vars = vars\<rparr>"
  obtain v s where "run_fuel (cond_body ?x) (cond_fuel (pp_trim t)) C_Or \<lparr>pc_pos = 0, pc_error = [], pc_depth = 0\<rparr> = Some (v, s)"
    using cond_total [of ?x "\<lparr>pc_pos = 0, pc_error = [], pc_depth = 0\<rparr>"] by auto
  then show ?thesis by (simp add: evalCondExpr_def)
qed

text \<open>C17: Every \<open>%IF\<close> and assignment expression gets the value its operators' precedence, left associativity and
  parentheses prescribe, whatever the blanks: the text of an expression tree evaluates to the tree's value,
  when nothing overflows 64 bits, no divisor is zero and no more than 128 levels are nested.\<close>
theorem expressions_evaluate_to_their_value:
  assumes "list_all is_ws lead" and "list_all is_ws sp" and "list_all is_ws tail"
    and "value_of vars e = Some v" and "nesting e \<le> 128"
  shows "evalCondExpr vars (lead @ raw [] sp e @ tail) = Some (Inr v)"
proof -
  let ?x = "\<lparr>px_text = raw [] sp e, px_vars = vars\<rparr>" and ?s = "\<lparr>pc_pos = 0, pc_error = [], pc_depth = 0\<rparr>"
  have trim: "pp_trim (lead @ raw [] sp e @ tail) = raw [] sp e"
    using assms(1, 3) raw_first [OF assms(4), of sp] raw_last [OF assms(4), of "[]" sp] by (intro trim_blanks) auto
  have "raw_parsed ?x sp e v" using raw_of [OF assms(2)] assms(4) by simp
  then have "parsed ?x 1 ?s v (adv (length (shown [] sp 1 e)) ?s)"
    using assms(2, 4, 5) level_range(1) [of e]
    by (intro shown_parsed [of "[]" sp ?x e v vars ?s 1 "[]"]) (simp_all add: ahead_def shown.simps stops_def breaks_def kMaxDepth_def)
  moreover have "shown [] sp 1 e = raw [] sp e" using level_range(1) [of e] by (simp add: shown.simps)
  ultimately have p: "parsed ?x 1 ?s v (adv (length (raw [] sp e)) ?s)" by simp
  let ?t = "adv (length (raw [] sp e)) ?s"
  have end_of: "ahead ?x ?t = []" by (simp add: ahead_def)
  then have "skipWs ?x ?t = ?t" by (simp add: skipWs_def run_of_ahead)
  moreover have "cond.evals ?x (loop 1 v) ?t (v, skipWs ?x ?t)" using end_of by (intro loop_stop) (simp_all add: loop_levels_def stops_def)
  ultimately have "cond.evals ?x C_Or ?s (v, ?t)" using p by (simp add: parsed_def loop_levels_def entry_def)
  then have "run_fuel (cond_body ?x) (cond_fuel (raw [] sp e)) C_Or ?s = Some (v, ?t)"
    using cond.evals_run [OF _ cond_total [of ?x]] by simp
  moreover have "atEnd ?x ?t" using \<open>skipWs ?x ?t = ?t\<close> by (simp add: atEnd_def)
  ultimately show ?thesis by (simp add: evalCondExpr_def trim)
qed

theorem expressions_evaluate_to_their_value_witness:
  "evalCondExpr [''N'' \<mapsto> 5] '' ( n + 1 ) * 2 - 3 - 4 > 4 & ^ n = 6'' = Some (Inr 1)"
proof -
  let ?e = "P_Bin P_And (P_Bin P_Gt (P_Bin P_Sub (P_Bin P_Sub (P_Bin P_Mul (P_Bin P_Add (P_Var ''n'') (P_Num 1)) (P_Num 2)) (P_Num 3)) (P_Num 4)) (P_Num 4))
     (P_Not (P_Bin P_Eq (P_Var ''n'') (P_Num 6)))"
  have t: "'' '' @ raw [] '' '' ?e @ [] = '' ( n + 1 ) * 2 - 3 - 4 > 4 & ^ n = 6''" by code_simp
  have "value_of [''N'' \<mapsto> 5] ?e = Some 1" by code_simp
  then have "evalCondExpr [''N'' \<mapsto> 5] ('' '' @ raw [] '' '' ?e @ []) = Some (Inr 1)"
    by (rule expressions_evaluate_to_their_value [rotated 3]) (simp_all add: is_ws_def)
  then show ?thesis unfolding t .
qed

end
