(* ===== verification/Preproc.thy ===== *)
theory Preproc
  imports PPExpr Diag
begin

text \<open>
  The preprocessor, \<^verbatim>\<open>src/preprocessor.h\<close> and \<^verbatim>\<open>src/preprocessor.cpp\<close>: \<open>%\<close>-directives are found in the source text, which is
  otherwise copied, and every line of the flattened output is attributed to a file and a line.
  The object's members and the output, line and column references it passes around are the record \<open>pps\<close>;
  a call that writes to an output of its own runs on a copy with these three replaced.  The file system
  is a parameter.  \<^verbatim>\<open>scan\<close>, \<^verbatim>\<open>processDirective\<close>, the \<^verbatim>\<open>%DO\<close> loop and \<^verbatim>\<open>expand\<close> call each other, and a \<^verbatim>\<open>%GOTO\<close>
  may loop for ever, so they are bodies tied together by \<open>run_fuel\<close>.  \<^verbatim>\<open>npos\<close> is \<^const>\<open>None\<close>.
\<close>

section \<open>State\<close>

record PPProc =
  pr_name :: string
  pr_params :: "string list"
  pr_returns :: string
  pr_body :: string

record fsys =
  fs_normalized :: "string \<Rightarrow> string"
  fs_exists :: "string \<Rightarrow> bool"
  fs_read :: "string \<Rightarrow> string option"
  fs_parent :: "string \<Rightarrow> string"
  fs_join :: "string \<Rightarrow> string \<Rightarrow> string"
  fs_no_extension :: "string \<Rightarrow> bool"

record pps =
  pp_active :: "string list"
  pp_includeDirs :: "string list"
  pp_included :: "string set"
  pp_vars :: "string \<rightharpoonup> int"
  pp_activeVars :: "string set"
  pp_replacements :: "string \<rightharpoonup> string"
  pp_replacing :: "string set"
  pp_labels :: "string \<rightharpoonup> nat"
  pp_gotoTarget :: nat
  pp_scanDepth :: nat
  pp_procTable :: "string \<rightharpoonup> PPProc"
  pp_procResult :: int
  pp_procReturning :: bool
  pp_lineMap :: "FileLoc list"
  pp_fileSrc :: "string \<rightharpoonup> string"
  pp_rootCanon :: string
  pp_stderr :: "string list"
  o_text :: string
  o_line :: int
  o_col :: int

definition kMaxScanDepth :: nat where
  "kMaxScanDepth = 256"

definition pp_error :: "string \<Rightarrow> int \<Rightarrow> int \<Rightarrow> string \<Rightarrow> pps \<Rightarrow> pps" where
  "pp_error input line col message s =
     s\<lparr>pp_stderr := pp_stderr s @
         [input @ (if line > 0 then '':'' @ to_string line @ '':'' @ to_string col else [])
          @ '': error: '' @ message @ ''  [C28-6571-3 Chapter 9]'' @ [NL]]\<rparr>"

definition unsupported :: "string \<Rightarrow> string \<Rightarrow> int \<Rightarrow> int \<Rightarrow> pps \<Rightarrow> bool \<times> pps" where
  "unsupported input name line col s = (False, pp_error input line col (''%'' @ name @ '' is not implemented'') s)"

section \<open>Text helpers\<close>

definition substr :: "string \<Rightarrow> nat \<Rightarrow> nat \<Rightarrow> string" where
  "substr s pos n = take n (drop pos s)"

text \<open>The position after the longest run of bytes of a class from \<open>i\<close> on, not past \<open>e\<close>.\<close>

definition skip_while :: "(char \<Rightarrow> bool) \<Rightarrow> string \<Rightarrow> nat \<Rightarrow> nat \<Rightarrow> nat" where
  "skip_while P s e i = i + length (takeWhile P (take (e - i) (drop i s)))"

definition char_at :: "string \<Rightarrow> nat \<Rightarrow> char \<Rightarrow> bool" where
  "char_at s i c \<longleftrightarrow> i < length s \<and> s ! i = c"

definition blank3 :: "char \<Rightarrow> bool" where
  "blank3 c \<longleftrightarrow> c = CHR '' '' \<or> c = CHR 0x09 \<or> c = CHR 0x0C"

text \<open>One byte of emitted text, or a preserved line end: the line map gets an entry per line end.\<close>

definition put_char :: "string \<Rightarrow> char \<Rightarrow> pps \<Rightarrow> pps" where
  "put_char path c s =
     (if c = NL then s\<lparr>pp_lineMap := pp_lineMap s @ [\<lparr>fl_path = path, fl_line = o_line s\<rparr>], o_line := o_line s + 1, o_col := 1\<rparr>
      else s\<lparr>o_col := o_col s + 1\<rparr>)"

definition pp_emit :: "string \<Rightarrow> string \<Rightarrow> pps \<Rightarrow> pps" where
  "pp_emit text1 path s = foldl (\<lambda>s c. put_char path c s) (s\<lparr>o_text := o_text s @ text1\<rparr>) text1"

definition keep_char :: "string \<Rightarrow> char \<Rightarrow> pps \<Rightarrow> pps" where
  "keep_char path c s = put_char path c (if c = NL then s\<lparr>o_text := o_text s @ [NL]\<rparr> else s)"

definition keep_newlines :: "string \<Rightarrow> string \<Rightarrow> nat \<Rightarrow> nat \<Rightarrow> pps \<Rightarrow> pps" where
  "keep_newlines path source i semPos s =
     foldl (\<lambda>s j. keep_char path (if j < length source then source ! j else NUL) s) s [i ..< Suc semPos]"

section \<open>Looking ahead in the source\<close>

fun fde :: "bool \<Rightarrow> nat \<Rightarrow> string \<Rightarrow> nat option" where
  "fde quoted i [] = None"
| "fde quoted i (c # cs) =
     (if c = QUOTE \<and> quoted \<and> cs \<noteq> [] \<and> hd cs = QUOTE then fde quoted (i + 2) (tl cs)
      else if c = QUOTE then fde (\<not> quoted) (i + 1) cs
      else if c = CHR '';'' \<and> \<not> quoted then Some i
      else fde quoted (i + 1) cs)"

definition findDirectiveEnd :: "string \<Rightarrow> nat \<Rightarrow> nat option" where
  "findDirectiveEnd source start = fde False start (drop start source)"

datatype lexmode = M_Text | M_String | M_Comment | M_Line

text \<open>How the strings and comments that hide directives are stepped over: the new mode and the next position.\<close>

definition hidden_step :: "string \<Rightarrow> nat \<Rightarrow> nat \<Rightarrow> lexmode \<Rightarrow> lexmode \<times> nat" where
  "hidden_step s e i m =
     (case m of
        M_Line \<Rightarrow> (if s ! i = NL then M_Text else M_Line, i + 1)
      | M_Comment \<Rightarrow> if s ! i = CHR ''*'' \<and> i + 1 < e \<and> s ! (i + 1) = CHR ''/'' then (M_Text, i + 2) else (M_Comment, i + 1)
      | M_String \<Rightarrow>
          if s ! i = QUOTE \<and> i + 1 < e \<and> s ! (i + 1) = QUOTE then (M_String, i + 2)
          else if s ! i = QUOTE then (M_Text, i + 1)
          else (M_String, i + 1)
      | M_Text \<Rightarrow> (M_Text, i + 1))"

definition not_nl :: "char \<Rightarrow> bool" where
  "not_nl c \<longleftrightarrow> c \<noteq> NL"

lemma fde_ge: "fde q i cs = Some j \<Longrightarrow> i \<le> j"
  by (induction q i cs rule: fde.induct) (auto split: if_splits)

lemma findDirectiveEnd_ge: "findDirectiveEnd s i = Some j \<Longrightarrow> i \<le> j"
  unfolding findDirectiveEnd_def by (rule fde_ge)

lemma skip_while_ge: "i \<le> skip_while P s e i"
  by (simp add: skip_while_def)

lemma hidden_step_gt: "hidden_step s e i m = (m2, j) \<Longrightarrow> i < j"
  by (auto simp: hidden_step_def split: lexmode.splits if_splits)

lemma line_comment_gt: "s ! i = CHR ''/'' \<Longrightarrow> i < length s \<Longrightarrow> i < e \<Longrightarrow> i < skip_while not_nl s e i"
  by (cases "e - i") (simp_all add: skip_while_def not_nl_def list_helpers)

text \<open>\<^verbatim>\<open>findMatchingEnd\<close>: the position of the \<open>%END\<close> that closes the group and of its semicolon, or the message.\<close>

function fme :: "string \<Rightarrow> nat \<Rightarrow> nat \<Rightarrow> lexmode \<Rightarrow> string + (nat \<times> nat)" where
  "fme source i depth m =
     (if \<not> i < length source then Inl ''unterminated %DO (C28-6571-3 Ch.9)''
      else if m \<noteq> M_Text then (let (m2, j) = hidden_step source (length source) i m in fme source j depth m2)
      else if source ! i = CHR ''/'' \<and> char_at source (i + 1) CHR ''*'' then fme source (i + 2) depth M_Comment
      else if source ! i = CHR ''/'' \<and> char_at source (i + 1) CHR ''/'' then fme source (skip_while not_nl source (length source) i) depth M_Text
      else if source ! i = QUOTE then fme source (i + 1) depth M_String
      else if source ! i = CHR ''%'' then
        let ws = skip_while blank3 source (length source) (i + 1);
            we = skip_while isWordChar source (length source) ws;
            name = upper (substr source ws (we - ws))
        in if name = ''DO'' then
             (case findDirectiveEnd source we of
                None \<Rightarrow> Inl ''unterminated %DO (C28-6571-3 Ch.9)''
              | Some semi \<Rightarrow> fme source (semi + 1) (depth + 1) M_Text)
           else if name = ''END'' then
             (if depth = 1 then
                (case findDirectiveEnd source we of
                   None \<Rightarrow> Inl ''unterminated %END (C28-6571-3 Ch.9)''
                 | Some endSemi \<Rightarrow> Inr (i, endSemi))
              else
                (case findDirectiveEnd source we of
                   None \<Rightarrow> Inl ''unterminated %END (C28-6571-3 Ch.9)''
                 | Some semi \<Rightarrow> fme source (semi + 1) (depth - 1) M_Text))
           else
             (case findDirectiveEnd source we of
                None \<Rightarrow> Inl ''unterminated preprocessor directive''
              | Some semi \<Rightarrow> fme source (semi + 1) depth M_Text)
      else fme source (i + 1) depth M_Text)"
  by pat_completeness auto

lemma directive_progress:
  "findDirectiveEnd s (skip_while isWordChar s e (skip_while blank3 s e2 (Suc i))) = Some semi \<Longrightarrow> i < semi"
  using findDirectiveEnd_ge [of s _ semi] skip_while_ge [of "skip_while blank3 s e2 (Suc i)" isWordChar s e]
    skip_while_ge [of "Suc i" blank3 s e2] by fastforce

termination fme
  by (relation "measure (\<lambda>(s, i, d, m). length s - i)")
    (auto dest: directive_progress intro!: diff_less_mono2 line_comment_gt dest!: hidden_step_gt [OF sym])

declare fme.simps [simp del]

definition findMatchingEnd :: "string \<Rightarrow> string \<Rightarrow> nat \<Rightarrow> pps \<Rightarrow> (nat \<times> nat) option \<times> pps" where
  "findMatchingEnd path source start s =
     (case fme source start 1 M_Text of
        Inl msg \<Rightarrow> (None, pp_error path (o_line s) (o_col s) msg s)
      | Inr p \<Rightarrow> (Some p, s))"

function labels_loop :: "string \<Rightarrow> nat \<Rightarrow> nat \<Rightarrow> lexmode \<Rightarrow> (string \<rightharpoonup> nat) \<Rightarrow> (string \<rightharpoonup> nat)" where
  "labels_loop source e i m labels =
     (if \<not> (i < e \<and> i < length source) then labels
      else if m \<noteq> M_Text then (let (m2, j) = hidden_step source e i m in labels_loop source e j m2 labels)
      else if source ! i = CHR ''/'' \<and> i + 1 < e \<and> source ! (i + 1) = CHR ''*'' then labels_loop source e (i + 2) M_Comment labels
      else if source ! i = CHR ''/'' \<and> i + 1 < e \<and> source ! (i + 1) = CHR ''/'' then labels_loop source e (skip_while not_nl source e i) M_Text labels
      else if source ! i = QUOTE then labels_loop source e (i + 1) M_String labels
      else if source ! i = CHR ''%'' then
        let ws = skip_while blank3 source e (i + 1);
            we = skip_while isWordChar source e ws;
            chk = skip_while blank3 source e we
        in if chk < e \<and> char_at source chk CHR '':'' then
             let target = skip_while is_ws source e (chk + 1)
             in labels_loop source e target M_Text (labels(upper (substr source ws (we - ws)) \<mapsto> target))
           else labels_loop source e (if we < e then we else e) M_Text labels
      else labels_loop source e (i + 1) M_Text labels)"
  by pat_completeness auto

lemma skip_chain: "i < skip_while P s e (skip_while Q s e (Suc i))"
  using skip_while_ge [of "skip_while Q s e (Suc i)" P s e] skip_while_ge [of "Suc i" Q s e] by linarith

lemma skip_chain4: "i < skip_while P1 s e (Suc (skip_while P2 s e (skip_while P3 s e (skip_while P4 s e (Suc i)))))"
  using skip_while_ge [of "Suc (skip_while P2 s e (skip_while P3 s e (skip_while P4 s e (Suc i))))" P1 s e]
    skip_while_ge [of "skip_while P3 s e (skip_while P4 s e (Suc i))" P2 s e] skip_chain [of i P3 s e P4] by linarith

termination labels_loop
  by (relation "measure (\<lambda>(s, e, i, m, l). e - i)")
    (auto intro!: diff_less_mono2 line_comment_gt skip_chain skip_chain4 dest!: hidden_step_gt [OF sym])

declare labels_loop.simps [simp del]

definition collectLabels :: "string \<Rightarrow> nat \<Rightarrow> nat \<Rightarrow> (string \<rightharpoonup> nat) \<Rightarrow> (string \<rightharpoonup> nat)" where
  "collectLabels source start e labels = labels_loop source e start M_Text labels"

text \<open>The end of the statement that is an arm of \<open>%IF\<close>: past its semicolon, or the end of the text.\<close>

function stmt_end :: "string \<Rightarrow> nat \<Rightarrow> lexmode \<Rightarrow> nat" where
  "stmt_end source i m =
     (if \<not> i < length source then i
      else if m \<noteq> M_Text then (let (m2, j) = hidden_step source (length source) i m in stmt_end source j m2)
      else if source ! i = CHR ''/'' \<and> char_at source (i + 1) CHR ''*'' then stmt_end source (i + 2) M_Comment
      else if source ! i = CHR ''/'' \<and> char_at source (i + 1) CHR ''/'' then stmt_end source (i + 2) M_Line
      else if source ! i = QUOTE then stmt_end source (i + 1) M_String
      else if source ! i = CHR '';'' then i + 1
      else stmt_end source (i + 1) M_Text)"
  by pat_completeness auto

termination stmt_end
  by (relation "measure (\<lambda>(s, i, m). length s - i)") (auto intro!: diff_less_mono2 dest!: hidden_step_gt [OF sym])

declare stmt_end.simps [simp del]

text \<open>The end of a parenthesised argument list, with the number of parentheses left open.\<close>

function arg_end :: "string \<Rightarrow> nat \<Rightarrow> nat \<Rightarrow> lexmode \<Rightarrow> nat \<times> nat" where
  "arg_end source i depth m =
     (if \<not> (i < length source \<and> 0 < depth) then (i, depth)
      else if m \<noteq> M_Text then (let (m2, j) = hidden_step source (length source) i m in arg_end source j depth m2)
      else if source ! i = CHR ''/'' \<and> char_at source (i + 1) CHR ''*'' then arg_end source (i + 2) depth M_Comment
      else if source ! i = CHR ''/'' \<and> char_at source (i + 1) CHR ''/'' then arg_end source (i + 2) depth M_Line
      else if source ! i = QUOTE then arg_end source (i + 1) depth M_String
      else if source ! i = CHR ''('' then arg_end source (i + 1) (depth + 1) M_Text
      else if source ! i = CHR '')'' then arg_end source (i + 1) (depth - 1) M_Text
      else arg_end source (i + 1) depth M_Text)"
  by pat_completeness auto

termination arg_end
  by (relation "measure (\<lambda>(s, i, d, m). length s - i)") (auto intro!: diff_less_mono2 dest!: hidden_step_gt [OF sym])

declare arg_end.simps [simp del]

text \<open>Inside the condition of \<open>%IF\<close>: the end of a comment, the closing quote, the parentheses of an invocation.\<close>

fun comment_close :: "nat \<Rightarrow> string \<Rightarrow> nat" where
  "comment_close i (c # d # cs) = (if c = CHR ''*'' \<and> d = CHR ''/'' then i else comment_close (i + 1) (d # cs))"
| "comment_close i cs = i"

fun quote_close :: "nat \<Rightarrow> string \<Rightarrow> nat" where
  "quote_close i [] = i"
| "quote_close i (c # cs) =
     (if c = QUOTE \<and> cs \<noteq> [] \<and> hd cs = QUOTE then quote_close (i + 2) (tl cs)
      else if c = QUOTE then i
      else quote_close (i + 1) cs)"

lemma comment_close_ge: "i \<le> comment_close i cs"
  by (induction i cs rule: comment_close.induct) auto

lemma quote_close_ge: "i \<le> quote_close i cs"
  by (induction i cs rule: quote_close.induct) auto

function paren_skip :: "string \<Rightarrow> nat \<Rightarrow> nat \<Rightarrow> nat" where
  "paren_skip source pe depth =
     (if \<not> (pe < length source \<and> 0 < depth) then pe
      else if source ! pe = QUOTE then
        (if char_at source (pe + 1) QUOTE then paren_skip source (pe + 2) depth
         else paren_skip source (quote_close (pe + 1) (drop (pe + 1) source)) depth)
      else if source ! pe = CHR ''('' then paren_skip source (pe + 1) (depth + 1)
      else if source ! pe = CHR '')'' then paren_skip source (pe + 1) (depth - 1)
      else paren_skip source (pe + 1) depth)"
  by pat_completeness auto

termination paren_skip
  by (relation "measure (\<lambda>(s, i, d). length s - i)")
    (auto intro!: diff_less_mono2 less_le_trans [OF _ quote_close_ge])

declare paren_skip.simps [simp del]

lemma paren_skip_ge: "i \<le> paren_skip s i d"
proof (induction s i d rule: paren_skip.induct)
  case (1 s i d)
  show ?case
    by (subst paren_skip.simps)
      (use 1 quote_close_ge [of "i + 1" "drop (i + 1) s"] in \<open>auto intro: order_trans [OF _ "1"(1)] le_trans [of _ "Suc i"] le_trans [of _ "i + 2"]\<close>)
qed

text \<open>The position of \<open>%THEN\<close>; every other end of the search is the same error.\<close>

function find_then :: "string \<Rightarrow> nat \<Rightarrow> nat option" where
  "find_then source i =
     (if \<not> i < length source then None
      else if source ! i = CHR ''/'' \<and> char_at source (i + 1) CHR ''*'' then
        find_then source (comment_close (i + 2) (drop (i + 2) source) + 2)
      else if source ! i = CHR ''/'' \<and> char_at source (i + 1) CHR ''/'' then
        find_then source (skip_while not_nl source (length source) i)
      else if source ! i = QUOTE then find_then source (quote_close (i + 1) (drop (i + 1) source) + 1)
      else if source ! i = CHR ''%'' then
        let ws = skip_while blank3 source (length source) (i + 1);
            we = skip_while isWordChar source (length source) ws;
            afterWs = skip_while blank3 source (length source) we
        in if upper (substr source ws (we - ws)) = ''THEN'' then Some i
           else if char_at source afterWs CHR ''('' then find_then source (paren_skip source (afterWs + 1) 1)
           else None
      else if source ! i = CHR '';'' then None
      else find_then source (i + 1))"
  by pat_completeness auto

lemma skip_chain_paren: "i < paren_skip s (Suc (skip_while P s e (skip_while Q s e (skip_while R s e (Suc i))))) d"
  using paren_skip_ge [of "Suc (skip_while P s e (skip_while Q s e (skip_while R s e (Suc i))))" s d]
    skip_while_ge [of "skip_while Q s e (skip_while R s e (Suc i))" P s e] skip_chain [of i Q s e R] by linarith

termination find_then
  by (relation "measure (\<lambda>(s, i). length s - i)")
    (auto intro!: diff_less_mono2 line_comment_gt skip_chain_paren less_SucI
      less_le_trans [OF _ comment_close_ge] less_le_trans [OF _ quote_close_ge])

declare find_then.simps [simp del]

section \<open>Splitting operands\<close>

fun split_on :: "char \<Rightarrow> string \<Rightarrow> string list" where
  "split_on d [] = [[]]"
| "split_on d (c # cs) =
     (if c = d then [] # split_on d cs
      else (case split_on d cs of w # ws \<Rightarrow> (c # w) # ws | [] \<Rightarrow> [[c]]))"

text \<open>The items \<^verbatim>\<open>std::getline(ss, item, ',')\<close> delivers: nothing after a final comma.\<close>

definition getline_items :: "string \<Rightarrow> string list" where
  "getline_items s = (let ws = split_on CHR '','' s in if last ws = [] then butlast ws else ws)"

text \<open>The first occurrence of a two-letter keyword as a whole word, and of a text from a position on.\<close>

definition find_word :: "string \<Rightarrow> string \<Rightarrow> nat option" where
  "find_word kw s =
     List.find (\<lambda>pos. take 2 (drop pos s) = kw \<and> (pos = 0 \<or> \<not> isWordChar (s ! (pos - 1))) \<and>
       (pos + 2 \<ge> length s \<or> \<not> isWordChar (s ! (pos + 2)))) [0 ..< Suc (length s) - 2]"

definition find_text :: "string \<Rightarrow> string \<Rightarrow> nat \<Rightarrow> nat option" where
  "find_text pat s pos = List.find (\<lambda>k. take (length pat) (drop k s) = pat) [pos ..< Suc (length s) - length pat]"

fun close_at :: "nat \<Rightarrow> nat \<Rightarrow> string \<Rightarrow> nat" where
  "close_at depth i [] = i"
| "close_at depth i (c # cs) =
     (let d = (if c = CHR ''('' then depth + 1 else if c = CHR '')'' then depth - 1 else depth)
      in if d = 0 then i else close_at d (i + 1) cs)"

text \<open>The arguments of an invocation, at the commas outside strings and parentheses.\<close>

fun split_args :: "int \<Rightarrow> bool \<Rightarrow> string \<Rightarrow> string \<Rightarrow> string list" where
  "split_args depth inStr acc [] = [acc]"
| "split_args depth inStr acc (c # cs) =
     (if inStr then
        (if c = QUOTE \<and> cs \<noteq> [] \<and> hd cs = QUOTE then split_args depth True (acc @ [c, hd cs]) (tl cs)
         else split_args depth (c \<noteq> QUOTE) (acc @ [c]) cs)
      else if c = QUOTE then split_args depth True (acc @ [c]) cs
      else if c = CHR ''('' then split_args (depth + 1) False (acc @ [c]) cs
      else if c = CHR '')'' then split_args (depth - 1) False (acc @ [c]) cs
      else if c = CHR '','' \<and> depth = 0 then acc # split_args depth False [] cs
      else split_args depth False (acc @ [c]) cs)"

text \<open>The items of \<open>%XINCLUDE\<close>, at the commas outside quotes and parentheses.\<close>

fun xinclude_items :: "bool \<Rightarrow> nat \<Rightarrow> string \<Rightarrow> string \<Rightarrow> string list" where
  "xinclude_items quoted depth acc [] = [acc]"
| "xinclude_items quoted depth acc (c # cs) =
     (if c = QUOTE then
        (if quoted \<and> cs \<noteq> [] \<and> hd cs = QUOTE then xinclude_items quoted depth (acc @ [QUOTE, QUOTE]) (tl cs)
         else xinclude_items (\<not> quoted) depth (acc @ [c]) cs)
      else if \<not> quoted \<and> c = CHR ''('' then xinclude_items quoted (depth + 1) (acc @ [c]) cs
      else if \<not> quoted \<and> c = CHR '')'' \<and> depth > 0 then xinclude_items quoted (depth - 1) (acc @ [c]) cs
      else if \<not> quoted \<and> c = CHR '','' \<and> depth = 0 then acc # xinclude_items quoted depth [] cs
      else xinclude_items quoted depth (acc @ [c]) cs)"

section \<open>Directives that do not scan\<close>

definition eval_at :: "string \<Rightarrow> string \<Rightarrow> int \<Rightarrow> int \<Rightarrow> pps \<Rightarrow> int option \<times> pps" where
  "eval_at t path line col s =
     (case evalCondExpr (pp_vars s) t of
        Some (Inr v) \<Rightarrow> (Some v, s)
      | Some (Inl msg) \<Rightarrow> (None, pp_error path line col msg s)
      | None \<Rightarrow> (None, s))"

text \<open>The VALUE clause of an item: the position of the keyword as a word.\<close>

definition find_value :: "string \<Rightarrow> nat option" where
  "find_value name =
     List.find (\<lambda>i. take 5 (drop i name) = ''VALUE'' \<and>
        (i = 0 \<or> name ! (i - 1) = CHR '' '' \<or> name ! (i - 1) = CHR 0x09) \<and>
        (i + 5 = length name \<or> name ! (i + 5) \<in> {CHR '' '', CHR 0x09, CHR ''(''}))
       [0 ..< Suc (length name) - 5]"

definition declare_value :: "string \<Rightarrow> int \<Rightarrow> int \<Rightarrow> string \<Rightarrow> nat \<Rightarrow> pps \<Rightarrow> (string \<times> int) option \<times> pps" where
  "declare_value input line col name valuePos s =
     (let beforeValue = pp_trim (take valuePos name);
          afterValue = pp_trim (drop (valuePos + 5) name)
      in if beforeValue = [] then (None, pp_error input line col ''expected a name before VALUE in %DECLARE'' s)
         else if afterValue \<noteq> [] \<and> hd afterValue = CHR ''('' then
           let endPos = close_at 0 0 afterValue in
           if endPos < length afterValue then
             (case eval_at (substr afterValue 1 (endPos - 1)) input line col s of
                (None, s1) \<Rightarrow> (None, s1)
              | (Some v, s1) \<Rightarrow> (Some (upper beforeValue, v), s1))
           else (None, pp_error input line col ''unterminated VALUE expression in %DECLARE'' s)
         else (None, pp_error input line col (''expected '' @ [QUOTE] @ ''('' @ [QUOTE] @ '' after VALUE in %DECLARE'') s))"

definition declare_item :: "string \<Rightarrow> int \<Rightarrow> int \<Rightarrow> string \<Rightarrow> pps \<Rightarrow> bool \<times> pps" where
  "declare_item input line col item s =
     (let name0 = upper (pp_trim item);
          parsed1 = (case find_value name0 of
                      None \<Rightarrow> (Some (name0, 0), s)
                    | Some valuePos \<Rightarrow> declare_value input line col name0 valuePos s)
      in case parsed1 of
           (None, s1) \<Rightarrow> (False, s1)
         | (Some (name, initValue), s1) \<Rightarrow>
             if name = [] then (False, pp_error input line col ''expected a name in %DECLARE'' s1)
             else if name = ''CHARACTER'' then (False, pp_error input line col ''CHARACTER preprocessor variables are not implemented'' s1)
             else if \<not> list_all isWordChar name then (False, pp_error input line col ''expected a name in %DECLARE'' s1)
             else (True, if pp_vars s1 name = None then s1\<lparr>pp_vars := (pp_vars s1)(name \<mapsto> initValue)\<rparr> else s1))"

fun do_items :: "(string \<Rightarrow> pps \<Rightarrow> bool \<times> pps) \<Rightarrow> string list \<Rightarrow> pps \<Rightarrow> bool \<times> pps" where
  "do_items f [] s = (True, s)"
| "do_items f (item # items) s = (case f item s of (False, s1) \<Rightarrow> (False, s1) | (True, s1) \<Rightarrow> do_items f items s1)"

definition handleDeclare :: "string \<Rightarrow> string \<Rightarrow> int \<Rightarrow> int \<Rightarrow> pps \<Rightarrow> bool \<times> pps" where
  "handleDeclare input operand line col s =
     (let items = getline_items operand in
      case do_items (declare_item input line col) items s of
        (False, s1) \<Rightarrow> (False, s1)
      | (True, s1) \<Rightarrow> if items = [] then (False, pp_error input line col ''expected a name in %DECLARE'' s1) else (True, s1))"

definition handleAssignment :: "string \<Rightarrow> string \<Rightarrow> string \<Rightarrow> int \<Rightarrow> int \<Rightarrow> pps \<Rightarrow> bool \<times> pps" where
  "handleAssignment input name operand line col s =
     (let rest = pp_trim operand in
      if rest = [] \<or> hd rest \<noteq> CHR ''='' then
        (False, pp_error input line col (''expected = after %'' @ name @ '' (only assignment is implemented)'') s)
      else if pp_vars s name = None then
        (False, pp_error input line col (''%'' @ name @ '' is not a declared preprocessor variable'') s)
      else (case eval_at (tl rest) input line col s of
              (None, s1) \<Rightarrow> (False, s1)
            | (Some v, s1) \<Rightarrow> (True, s1\<lparr>pp_vars := (pp_vars s1)(name \<mapsto> v)\<rparr>)))"

definition activate_item :: "string \<Rightarrow> string \<Rightarrow> int \<Rightarrow> int \<Rightarrow> string \<Rightarrow> pps \<Rightarrow> bool \<times> pps" where
  "activate_item input name line col item s =
     (let var = upper (pp_trim item) in
      if var = [] then (False, pp_error input line col (''expected a name in %'' @ name) s)
      else if pp_vars s var = None then
        (False, pp_error input line col (''%'' @ var @ '' is not a declared preprocessor variable'') s)
      else (True, s\<lparr>pp_activeVars := (if name = ''ACTIVATE'' then insert var (pp_activeVars s) else pp_activeVars s - {var})\<rparr>))"

definition handleActivation :: "string \<Rightarrow> string \<Rightarrow> string \<Rightarrow> int \<Rightarrow> int \<Rightarrow> pps \<Rightarrow> bool \<times> pps" where
  "handleActivation input name operand line col s =
     (let items = getline_items operand in
      case do_items (activate_item input name line col) items s of
        (False, s1) \<Rightarrow> (False, s1)
      | (True, s1) \<Rightarrow> if items = [] then (False, pp_error input line col (''expected a name in %'' @ name) s1) else (True, s1))"

definition substituteRef :: "string \<Rightarrow> string \<Rightarrow> int \<Rightarrow> int \<Rightarrow> pps \<Rightarrow> bool \<times> pps" where
  "substituteRef input name line col s =
     (case pp_vars s name of
        None \<Rightarrow> (False, pp_error input line col (''%'' @ name @ '' is not a declared preprocessor variable'') s)
      | Some v \<Rightarrow>
          if name \<notin> pp_activeVars s then
            (False, pp_error input line col (''%'' @ name @ '' is not an active preprocessor variable'') s)
          else (True, s\<lparr>o_text := o_text s @ to_string v\<rparr>))"

definition handleGoto :: "string \<Rightarrow> string \<Rightarrow> string \<Rightarrow> int \<Rightarrow> int \<Rightarrow> pps \<Rightarrow> bool \<times> pps" where
  "handleGoto path name operand line col s =
     (let label = upper (pp_trim operand) in
      if label = [] then (False, pp_error path line col (''%'' @ name @ '' requires a label name'') s)
      else (case pp_labels s label of
              None \<Rightarrow> (False, pp_error path line col (''undefined label in %'' @ name @ '': '' @ [QUOTE] @ pp_trim operand @ [QUOTE]) s)
            | Some target \<Rightarrow> (True, s\<lparr>pp_gotoTarget := target\<rparr>)))"

text \<open>The body of a double-quoted operand and what follows it; none when it is not closed.\<close>

fun dq_body :: "string \<Rightarrow> string \<Rightarrow> (string \<times> string) option" where
  "dq_body acc [] = None"
| "dq_body acc (c # cs) =
     (if c = CHR 0x22 then
        (if cs \<noteq> [] \<and> hd cs = CHR 0x22 then dq_body (acc @ [CHR 0x22]) (tl cs) else Some (acc, cs))
      else dq_body (acc @ [c]) cs)"

text \<open>The position of the replaced name, counted from the directive.\<close>

definition loc_after :: "string \<Rightarrow> int \<Rightarrow> int \<Rightarrow> int \<times> int" where
  "loc_after t line col = foldl (\<lambda>(l, k) c. if c = NL then (l + 1, 1) else (l, k + 1)) (line, col) t"

definition record_replacement :: "string \<Rightarrow> string \<Rightarrow> int \<times> int \<Rightarrow> string \<Rightarrow> pps \<Rightarrow> bool \<times> pps" where
  "record_replacement path name nl t s =
     (let err = (\<lambda>msg. (False, pp_error path (fst nl) (snd nl) msg s)) in
      if t = [] then err ''empty replacement text in %REPLACE (ADR-077)''
      else if hd t = CHR 0x22 then
        (case dq_body [] (tl t) of
           None \<Rightarrow> err ''unterminated double-quoted string''
         | Some (body, rest) \<Rightarrow>
             if dropWhile c_isspace rest \<noteq> [] then err ''a quoted %REPLACE operand must be the whole replacement text (ADR-082)''
             else if pp_trim body = [] then err ''empty replacement text in %REPLACE (ADR-077)''
             else (True, s\<lparr>pp_replacements := (pp_replacements s)(name \<mapsto> pp_trim body)\<rparr>))
      else if CHR 0x22 \<in> set t then err ''a quoted %REPLACE operand must be the whole replacement text (ADR-082)''
      else (True, s\<lparr>pp_replacements := (pp_replacements s)(name \<mapsto> t)\<rparr>))"

definition handleReplace :: "string \<Rightarrow> string \<Rightarrow> nat \<Rightarrow> nat \<Rightarrow> nat \<Rightarrow> int \<Rightarrow> int \<Rightarrow> pps \<Rightarrow> bool \<times> pps" where
  "handleReplace path source i wordEnd e directiveLine directiveCol s =
     (let nameStart = skip_while is_ws source e wordEnd in
      if \<not> (nameStart < e \<and> isWordStart (source ! nameStart)) then
        (False, pp_error path directiveLine directiveCol ''expected an identifier after %REPLACE (ADR-077)'' s)
      else
        let p1 = skip_while isWordChar source e nameStart;
            name = upper (substr source nameStart (p1 - nameStart));
            nl = loc_after (substr source i (nameStart - i)) directiveLine directiveCol;
            byStart = skip_while is_ws source e p1;
            p2 = skip_while isWordChar source e byStart
        in if upper (substr source byStart (p2 - byStart)) \<noteq> ''BY'' then
             (False, pp_error path (fst nl) (snd nl) ''expected BY after the %REPLACE identifier (ADR-077)'' s)
           else
             let p3 = skip_while is_ws source e p2;
                 t = rev (dropWhile c_isspace (rev (substr source p3 (e - p3))))
             in record_replacement path name nl t s)"

text \<open>A macro declaration: the parameter list and the RETURNS type.\<close>

definition macro_params :: "string \<Rightarrow> nat \<Rightarrow> string \<times> nat" where
  "macro_params up pos =
     (if char_at up pos CHR ''('' then
        let p2 = close_at 1 (pos + 1) (drop (pos + 1) up) in (substr up (pos + 1) (p2 - (pos + 1)), p2 + 1)
      else ([], pos))"

definition macro_returns :: "string \<Rightarrow> nat \<Rightarrow> string" where
  "macro_returns up pos =
     (case find_text ''RETURNS'' up pos of
        None \<Rightarrow> []
      | Some r \<Rightarrow> fst (macro_params up (skip_while is_ws up (length up) (r + 7))))"

definition handleDefinition :: "string \<Rightarrow> string \<Rightarrow> string \<Rightarrow> string \<Rightarrow> int \<Rightarrow> int \<Rightarrow> pps \<Rightarrow> bool \<times> pps" where
  "handleDefinition path labelName decl body directiveLine directiveCol s =
     (let up = upper (pp_trim decl);
          pos = skip_while is_ws up (length up) (skip_while isWordChar up (length up) 0);
          (paramsStr, pos2) = macro_params up pos;
          returnsStr = macro_returns up (skip_while is_ws up (length up) pos2);
          procName = upper labelName;
          params = filter (\<lambda>p. p \<noteq> []) (map (\<lambda>p. upper (pp_trim p)) (split_on CHR '','' (pp_trim paramsStr)));
          proc = \<lparr>pr_name = procName, pr_params = params, pr_returns = upper (pp_trim returnsStr), pr_body = body\<rparr>
      in if pp_vars s procName \<noteq> None then
           (False, pp_error path directiveLine directiveCol (''%'' @ procName @ '' conflicts with a preprocessor variable'') s)
         else (True, s\<lparr>pp_procTable := (pp_procTable s)(procName \<mapsto> proc)\<rparr>))"

section \<open>The scanner and the directives that scan\<close>

datatype pp_call =
    K_Scan string nat nat string bool
  | K_Loop string nat nat string bool nat lexmode
  | K_Directive string string nat bool
  | K_DoLoop string string nat nat bool string int int int
  | K_Expand string

datatype pp_res = R_Ok bool | R_At "nat option" nat

type_synonym pp_out = "(pp_res \<times> pps) option"
type_synonym pp_rec = "pp_call \<Rightarrow> pps \<Rightarrow> pp_out"

text \<open>A scan with an output of its own: the text it wrote, and the state with the caller's output put back.\<close>

definition scan_apart :: "pp_rec \<Rightarrow> string \<Rightarrow> string \<Rightarrow> int \<Rightarrow> int \<Rightarrow> pps \<Rightarrow> (bool \<times> string \<times> pps) option" where
  "scan_apart rec t path line col s = do {
     (r, s1) \<leftarrow> rec (K_Scan t 0 (length t) path True) (s\<lparr>o_text := [], o_line := line, o_col := col\<rparr>);
     Some (r = R_Ok True, o_text s1, s1\<lparr>o_text := o_text s, o_line := o_line s, o_col := o_col s\<rparr>) }"

definition pp_scan :: "pp_rec \<Rightarrow> string \<Rightarrow> nat \<Rightarrow> nat \<Rightarrow> string \<Rightarrow> bool \<Rightarrow> pps \<Rightarrow> pp_out" where
  "pp_scan rec source start e path active s =
     (if pp_scanDepth s + 1 > kMaxScanDepth then
        Some (R_Ok False, pp_error path (o_line s) (o_col s) ''preprocessor control-flow nesting is too deep (C28-6571-3 Ch.9)'' s)
      else do {
        (r, s1) \<leftarrow> rec (K_Loop source start e path active start M_Text) (s\<lparr>pp_scanDepth := pp_scanDepth s + 1\<rparr>);
        Some (r, s1\<lparr>pp_scanDepth := pp_scanDepth s1 - 1\<rparr>) })"

definition scan_word :: "pp_rec \<Rightarrow> string \<Rightarrow> nat \<Rightarrow> nat \<Rightarrow> string \<Rightarrow> bool \<Rightarrow> nat \<Rightarrow> pps \<Rightarrow> pp_out" where
  "scan_word rec source start e path active i s =
     (let j = skip_while isWordChar source e (i + 1);
          word = substr source i (j - i);
          key = upper word
      in case (if key \<in> pp_replacing s then None else pp_replacements s key) of
           Some t \<Rightarrow> do {
             (r, s1) \<leftarrow> rec (K_Scan t 0 (length t) path active) (s\<lparr>pp_replacing := insert key (pp_replacing s)\<rparr>);
             let s2 = s1\<lparr>pp_replacing := pp_replacing s1 - {key}\<rparr> in
             if r \<noteq> R_Ok True then Some (R_Ok False, s2)
             else rec (K_Loop source start e path active j M_Text) s2 }
         | None \<Rightarrow> rec (K_Loop source start e path active j M_Text) (pp_emit word path s))"

definition scan_directive :: "pp_rec \<Rightarrow> string \<Rightarrow> nat \<Rightarrow> nat \<Rightarrow> string \<Rightarrow> bool \<Rightarrow> nat \<Rightarrow> pps \<Rightarrow> pp_out" where
  "scan_directive rec source start e path active i s = do {
     (r, s1) \<leftarrow> rec (K_Directive path source i active) s;
     case r of
       R_At (Some nx) semPos \<Rightarrow>
         let s2 = keep_newlines path source i semPos s1 in
         if pp_procReturning s2 then Some (R_Ok True, s2)
         else if nx < start \<or> nx > e then Some (R_Ok True, s2)
         else rec (K_Loop source start e path active nx M_Text) s2
     | _ \<Rightarrow> Some (R_Ok False, s1) }"

definition scan_loop :: "pp_rec \<Rightarrow> string \<Rightarrow> nat \<Rightarrow> nat \<Rightarrow> string \<Rightarrow> bool \<Rightarrow> nat \<Rightarrow> lexmode \<Rightarrow> pps \<Rightarrow> pp_out" where
  "scan_loop rec source start e path active i m s =
     (if \<not> i < e then Some (R_Ok True, s) else
      let next_at = (\<lambda>j m s. rec (K_Loop source start e path active j m) s);
          c = source ! i;
          following = (\<lambda>d. i + 1 < e \<and> source ! (i + 1) = d)
      in
      if m = M_Line then next_at (i + 1) (if c = NL then M_Text else M_Line) (pp_emit [c] path s)
      else if m = M_Comment then
        (if c = CHR ''*'' \<and> following CHR ''/'' then next_at (i + 2) M_Text (pp_emit ''/'' path (pp_emit [c] path s))
         else next_at (i + 1) M_Comment (pp_emit [c] path s))
      else if m = M_String then
        (if c = QUOTE \<and> following QUOTE then next_at (i + 2) M_String (pp_emit [QUOTE] path (pp_emit [c] path s))
         else next_at (i + 1) (if c = QUOTE then M_Text else M_String) (pp_emit [c] path s))
      else if c = CHR ''/'' \<and> following CHR ''*'' then next_at (i + 2) M_Comment (pp_emit ''/*'' path s)
      else if c = CHR ''/'' \<and> following CHR ''/'' then next_at (i + 2) M_Line (pp_emit ''//'' path s)
      else if c = QUOTE then next_at (i + 1) M_String (pp_emit [c] path s)
      else if c = CHR ''%'' then scan_directive rec source start e path active i s
      else if isWordStart c then scan_word rec source start e path active i s
      else if c = CHR 0x22 then
        Some (R_Ok False, pp_error path (o_line s) (o_col s) ''double-quoted strings are only valid as a %REPLACE operand (ADR-082)'' s)
      else next_at (i + 1) M_Text (pp_emit [c] path s))"

text \<open>Results of a directive: failed, or gone on at a position.\<close>

definition failed :: "pps \<Rightarrow> pp_out" where
  "failed s = Some (R_At None 0, s)"

definition resume :: "nat \<Rightarrow> nat \<Rightarrow> pps \<Rightarrow> pp_out" where
  "resume nx semPos s = Some (R_At (Some nx) semPos, s)"

definition resume_if :: "nat \<Rightarrow> nat \<Rightarrow> bool \<times> pps \<Rightarrow> pp_out" where
  "resume_if nx semPos r = (case r of (ok, s) \<Rightarrow> if ok then resume nx semPos s else failed s)"

text \<open>One arm of \<open>%IF\<close>: a directive, or a statement emitted when it is taken.\<close>

definition run_arm :: "pp_rec \<Rightarrow> string \<Rightarrow> string \<Rightarrow> nat \<Rightarrow> bool \<Rightarrow> pps \<Rightarrow> (nat option \<times> pps) option" where
  "run_arm rec path source arm taken s =
     (if source ! arm = CHR ''%'' then do {
        (r, s1) \<leftarrow> rec (K_Directive path source arm taken) s;
        Some (case r of R_At nx semPos \<Rightarrow> nx | _ \<Rightarrow> None, s1) }
      else
        let stmtEnd = stmt_end source arm M_Text
        in Some (Some stmtEnd, if taken then pp_emit (substr source arm (stmtEnd - arm)) path s else s))"

definition else_arm :: "pp_rec \<Rightarrow> string \<Rightarrow> string \<Rightarrow> nat \<Rightarrow> bool \<Rightarrow> int \<Rightarrow> int \<Rightarrow> pps \<Rightarrow> (nat option \<times> pps) option" where
  "else_arm rec path source nx taken directiveLine directiveCol s =
     (let n = length source;
          e = skip_while is_ws source n nx;
          ws = skip_while blank3 source n (e + 1);
          we = skip_while isWordChar source n ws
      in if char_at source e CHR ''%'' \<and> upper (substr source ws (we - ws)) = ''ELSE'' then
           let arm2 = skip_while is_ws source n we in
           if arm2 \<ge> n then
             Some (None, pp_error path directiveLine directiveCol ''expected a directive or statement after %ELSE'' s)
           else run_arm rec path source arm2 taken s
         else Some (Some nx, s))"

definition if_condition :: "pp_rec \<Rightarrow> string \<Rightarrow> string \<Rightarrow> bool \<Rightarrow> pps \<Rightarrow> (int option \<times> pps) option" where
  "if_condition rec path rawExpr active s =
     (if \<not> active then Some (Some 0, s)
      else do {
        (ok, rescanned, s1) \<leftarrow> scan_apart rec rawExpr path (o_line s) (o_col s) s;
        Some (if ok then eval_at rescanned path (o_line s) (o_col s) s1 else (None, s1)) })"

definition processIf :: "pp_rec \<Rightarrow> string \<Rightarrow> string \<Rightarrow> nat \<Rightarrow> bool \<Rightarrow> pps \<Rightarrow> pp_out" where
  "processIf rec path source wordEnd active s =
     (let n = length source; directiveLine = o_line s; directiveCol = o_col s in
      case find_then source wordEnd of
        None \<Rightarrow> failed (pp_error path directiveLine directiveCol ''expected %THEN in %IF directive'' s)
      | Some thenAt \<Rightarrow> do {
          (c, s1) \<leftarrow> if_condition rec path (substr source wordEnd (thenAt - wordEnd)) active s;
          case c of
            None \<Rightarrow> failed s1
          | Some cond1 \<Rightarrow>
              let arm = skip_while is_ws source n (skip_while isWordChar source n (skip_while blank3 source n (thenAt + 1))) in
              if arm \<ge> n then
                failed (pp_error path directiveLine directiveCol ''expected a directive or statement after %THEN'' s1)
              else do {
                (r, s2) \<leftarrow> run_arm rec path source arm (active \<and> cond1 \<noteq> 0) s1;
                case r of
                  None \<Rightarrow> failed s2
                | Some nx \<Rightarrow> do {
                    (r2, s3) \<leftarrow> else_arm rec path source nx (active \<and> cond1 = 0) directiveLine directiveCol s2;
                    case r2 of None \<Rightarrow> failed s3 | Some nx2 \<Rightarrow> resume nx2 (arm - 1) s3 } } })"

text \<open>The iteration of \<open>%DO\<close>.\<close>

definition do_spec :: "string \<Rightarrow> string \<Rightarrow> int \<Rightarrow> int \<Rightarrow> pps \<Rightarrow> (string \<times> int \<times> int \<times> int) option \<times> pps" where
  "do_spec path trimmed line col s =
     (let up = upper trimmed;
          eq = length (takeWhile (\<lambda>c. c \<noteq> CHR ''='') up)
      in if eq = length up then
           (None, pp_error path line col (''expected '' @ [QUOTE] @ ''var=start TO end [BY step]'' @ [QUOTE] @ '' in %DO, or bare %DO with no iteration'') s)
         else
           let varName = upper (pp_trim (take eq up));
               rest = pp_trim (drop (eq + 1) up)
           in case find_word ''TO'' rest of
                None \<Rightarrow> (None, pp_error path line col ''expected TO in %DO iteration spec'' s)
              | Some toPos \<Rightarrow>
                  let startExpr = take toPos rest;
                      afterTo = pp_trim (drop (toPos + 2) rest);
                      (endExpr, stepExpr) =
                        (case find_word ''BY'' afterTo of
                           None \<Rightarrow> (afterTo, ''1'')
                         | Some byPos \<Rightarrow> (pp_trim (take byPos afterTo), pp_trim (drop (byPos + 2) afterTo)))
                  in (case eval_at startExpr path line col s of
                        (None, s1) \<Rightarrow> (None, s1)
                      | (Some e1, s1) \<Rightarrow>
                          (case eval_at endExpr path line col s1 of
                             (None, s2) \<Rightarrow> (None, s2)
                           | (Some e2, s2) \<Rightarrow>
                               (case eval_at stepExpr path line col s2 of
                                  (None, s3) \<Rightarrow> (None, s3)
                                | (Some e3, s3) \<Rightarrow>
                                    if e3 = 0 then (None, pp_error path line col ''BY step is zero in %DO loop'' s3)
                                    else (Some (varName, e1, e2, e3), s3)))))"

definition do_loop :: "pp_rec \<Rightarrow> string \<Rightarrow> string \<Rightarrow> nat \<Rightarrow> nat \<Rightarrow> bool \<Rightarrow> string \<Rightarrow> int \<Rightarrow> int \<Rightarrow> int \<Rightarrow> pps \<Rightarrow> pp_out" where
  "do_loop rec path source bodyStart endPos active varName iter e2 e3 s =
     (if \<not> (if e3 > 0 then iter \<le> e2 else iter \<ge> e2) then Some (R_Ok True, s)
      else do {
        (r, s1) \<leftarrow> rec (K_Scan source bodyStart endPos path active) (s\<lparr>pp_vars := (pp_vars s)(varName \<mapsto> iter), o_text := []\<rparr>);
        if r \<noteq> R_Ok True then Some (R_Ok False, s1\<lparr>o_text := o_text s, o_line := o_line s, o_col := o_col s\<rparr>)
        else
          let s2 = pp_emit (o_text s1) path (s1\<lparr>o_text := o_text s, o_line := o_line s, o_col := o_col s\<rparr>);
              s3 = s2\<lparr>o_line := o_line s1, o_col := o_col s1\<rparr>
          in rec (K_DoLoop path source bodyStart endPos active varName (wrap64 (iter + e3)) e2 e3) s3 })"

definition handleDo :: "pp_rec \<Rightarrow> string \<Rightarrow> string \<Rightarrow> nat \<Rightarrow> nat \<Rightarrow> nat \<Rightarrow> nat \<Rightarrow> bool \<Rightarrow> string \<Rightarrow> int \<Rightarrow> int \<Rightarrow> pps \<Rightarrow> pp_out" where
  "handleDo rec path source bodyStart endPos endSemi semPos active spec directiveLine directiveCol s =
     (let finish = (\<lambda>r s. if r = R_Ok True then resume (endSemi + 1) semPos s else failed s) in
      if pp_trim spec = [] then do {
        (r, s1) \<leftarrow> rec (K_Scan source bodyStart endPos path active) s;
        finish r s1 }
      else
        case do_spec path (pp_trim spec) directiveLine directiveCol s of
          (None, s1) \<Rightarrow> failed s1
        | (Some (varName, e1, e2, e3), s1) \<Rightarrow> do {
            (r, s2) \<leftarrow> rec (K_DoLoop path source bodyStart endPos active varName e1 e2 e3) s1;
            finish r s2 })"

text \<open>A macro invocation.\<close>

fun eval_args :: "string \<Rightarrow> int \<Rightarrow> int \<Rightarrow> string list \<Rightarrow> pps \<Rightarrow> int list option \<times> pps" where
  "eval_args path line col [] s = (Some [], s)"
| "eval_args path line col (a # as) s =
     (case eval_at a path line col s of
        (None, s1) \<Rightarrow> (None, s1)
      | (Some v, s1) \<Rightarrow> (case eval_args path line col as s1 of (r, s2) \<Rightarrow> (map_option (Cons v) r, s2)))"

definition bind_params :: "PPProc \<Rightarrow> int list \<Rightarrow> pps \<Rightarrow> pps" where
  "bind_params proc vals s =
     s\<lparr>pp_vars := foldl (\<lambda>m (p, v). m(p \<mapsto> v)) (pp_vars s) (zip (pr_params proc) vals),
       pp_activeVars := pp_activeVars s \<union> set (pr_params proc), pp_procReturning := False, pp_procResult := 0\<rparr>"

definition saved_vars :: "PPProc \<Rightarrow> pps \<Rightarrow> (string \<rightharpoonup> int)" where
  "saved_vars proc s =
     (\<lambda>p. if p \<in> set (pr_params proc) then Some (case pp_vars s p of Some v \<Rightarrow> v | None \<Rightarrow> 0) else None)"

definition restore_params :: "PPProc \<Rightarrow> pps \<Rightarrow> pps \<Rightarrow> pps" where
  "restore_params proc saved s = s\<lparr>pp_activeVars := set (pr_params proc), pp_vars := saved_vars proc saved\<rparr>"

definition handleInvocation :: "pp_rec \<Rightarrow> string \<Rightarrow> string \<Rightarrow> string \<Rightarrow> int \<Rightarrow> int \<Rightarrow> pps \<Rightarrow> (bool \<times> pps) option" where
  "handleInvocation rec path name args line col s =
     (let upperName = upper name in
      case pp_procTable s upperName of
        None \<Rightarrow> Some (False, pp_error path line col (''%'' @ upperName @ '' is not a defined preprocessor procedure'') s)
      | Some proc \<Rightarrow>
          let argList = (if pp_trim args = [] then [] else split_args 0 False [] args) in
          if length argList \<noteq> length (pr_params proc) then
            Some (False, pp_error path line col (''%'' @ upperName @ '' expects '' @ to_string (int (length (pr_params proc)))
              @ '' argument(s), got '' @ to_string (int (length argList))) s)
          else (case eval_args path line col argList s of
            (None, s1) \<Rightarrow> Some (False, s1)
          | (Some vals, s1) \<Rightarrow> do {
              (ok, bodyOutput, s2) \<leftarrow> scan_apart rec (pr_body proc) path line col (bind_params proc vals s1);
              let s3 = restore_params proc s1 s2 in
              if \<not> ok then Some (False, s3\<lparr>pp_procReturning := pp_procReturning s1, pp_procResult := pp_procResult s1\<rparr>)
              else if \<not> pp_procReturning s3 then
                Some (False, pp_error path line col (''%'' @ upperName @ '' did not return a value'')
                  (s3\<lparr>pp_procReturning := pp_procReturning s1, pp_procResult := pp_procResult s1\<rparr>))
              else do {
                let s4 = s3\<lparr>pp_procReturning := pp_procReturning s1\<rparr>;
                let v = to_string (pp_procResult s4);
                let emittedText = (if pr_returns proc = ''CHARACTER'' then [QUOTE] @ v @ [QUOTE] else v);
                (ok2, rescanned, s5) \<leftarrow> scan_apart rec emittedText path line col s4;
                Some (ok2, if ok2 then s5\<lparr>o_text := o_text s5 @ rescanned\<rparr> else s5) } }))"

definition return_operand :: "string \<Rightarrow> string" where
  "return_operand t =
     (let e = pp_trim t in
      if e \<noteq> [] \<and> hd e = CHR ''('' then
        let e2 = pp_trim (tl e) in if e2 \<noteq> [] \<and> last e2 = CHR '')'' then butlast e2 else e2
      else e)"

definition handleReturn :: "pp_rec \<Rightarrow> string \<Rightarrow> string \<Rightarrow> nat \<Rightarrow> nat \<Rightarrow> pps \<Rightarrow> pp_out" where
  "handleReturn rec path source wordEnd e s = do {
     (ok, rescanned, s1) \<leftarrow> scan_apart rec (return_operand (substr source wordEnd (e - wordEnd))) path (o_line s) (o_col s) s;
     if \<not> ok then failed s1
     else case eval_at rescanned path (o_line s) (o_col s) s1 of
       (None, s2) \<Rightarrow> failed s2
     | (Some v, s2) \<Rightarrow> resume (e + 1) e (s2\<lparr>pp_procResult := v, pp_procReturning := True\<rparr>) }"

text \<open>Including files.\<close>

definition with_inc :: "fsys \<Rightarrow> string \<Rightarrow> string" where
  "with_inc fs p = (if \<not> fs_exists fs p \<and> fs_no_extension fs p then p @ ''.inc'' else p)"

fun search_dirs :: "fsys \<Rightarrow> string \<Rightarrow> string list \<Rightarrow> string \<Rightarrow> string" where
  "search_dirs fs name [] include1 = include1"
| "search_dirs fs name (d # ds) include1 =
     (let cand = with_inc fs (fs_join fs d name) in if fs_exists fs cand then cand else search_dirs fs name ds include1)"

definition include_name :: "string \<Rightarrow> string" where
  "include_name rawName =
     (let n0 = pp_trim rawName;
          n1 = (if length n0 \<ge> 2 \<and> hd n0 = CHR ''('' \<and> last n0 = CHR '')'' then pp_trim (substr n0 1 (length n0 - 2)) else n0)
      in if length n1 \<ge> 2 \<and> hd n1 = QUOTE \<and> last n1 = QUOTE then substr n1 1 (length n1 - 2) else n1)"

definition bad_name_char :: "char \<Rightarrow> bool" where
  "bad_name_char c \<longleftrightarrow> c \<in> {CHR '' '', CHR 0x09, CHR 0x0D, CHR 0x0A, CHR '','', CHR ''('', CHR '')''}"

definition expandOneInclude :: "fsys \<Rightarrow> pp_rec \<Rightarrow> string \<Rightarrow> string \<Rightarrow> int \<Rightarrow> int \<Rightarrow> bool \<Rightarrow> pps \<Rightarrow> pp_out" where
  "expandOneInclude fs rec input rawName line col once s =
     (let name = include_name rawName in
      if name = [] \<or> list_ex bad_name_char name then
        Some (R_Ok False, pp_error input line col
          (if once then ''%XINCLUDE requires file or member names'' else ''%INCLUDE requires one file or member name'') s)
      else
        let inc0 = with_inc fs (fs_join fs (fs_parent fs input) name);
            inc = (if fs_exists fs inc0 then inc0 else search_dirs fs name (pp_includeDirs s) inc0)
        in if fs_exists fs inc then
             let canon = fs_normalized fs inc in
             if once \<and> (canon \<in> pp_included s \<or> canon \<in> set (pp_active s)) then Some (R_Ok True, s)
             else rec (K_Expand inc) (s\<lparr>pp_included := insert canon (pp_included s)\<rparr>)
           else rec (K_Expand inc) s)"

definition handleInclude :: "fsys \<Rightarrow> pp_rec \<Rightarrow> string \<Rightarrow> string \<Rightarrow> int \<Rightarrow> int \<Rightarrow> pps \<Rightarrow> pp_out" where
  "handleInclude fs rec input operand line col s =
     (let name = pp_trim operand in
      if name = [] then Some (R_Ok False, pp_error input line col ''%INCLUDE requires one file or member name'' s)
      else expandOneInclude fs rec input name line col False s)"

fun xinclude_loop :: "fsys \<Rightarrow> pp_rec \<Rightarrow> string \<Rightarrow> int \<Rightarrow> int \<Rightarrow> string list \<Rightarrow> pps \<Rightarrow> pp_out" where
  "xinclude_loop fs rec input line col [] s = Some (R_Ok True, s)"
| "xinclude_loop fs rec input line col (item # items) s = do {
     (r, s1) \<leftarrow> expandOneInclude fs rec input item line col True s;
     if r \<noteq> R_Ok True then Some (R_Ok False, s1) else xinclude_loop fs rec input line col items s1 }"

definition handleXInclude :: "fsys \<Rightarrow> pp_rec \<Rightarrow> string \<Rightarrow> string \<Rightarrow> int \<Rightarrow> int \<Rightarrow> pps \<Rightarrow> pp_out" where
  "handleXInclude fs rec input operand line col s =
     (let items = xinclude_items False 0 [] operand in
      if list_ex (\<lambda>item. pp_trim item = []) items then
        Some (R_Ok False, pp_error input line col ''%XINCLUDE requires file or member names'' s)
      else xinclude_loop fs rec input line col items s)"

definition pp_expand :: "fsys \<Rightarrow> pp_rec \<Rightarrow> string \<Rightarrow> pps \<Rightarrow> pp_out" where
  "pp_expand fs rec input s =
     (let path = fs_normalized fs input in
      if path \<in> set (pp_active s) then
        Some (R_Ok False, pp_error input 0 0 (''recursive %INCLUDE of '' @ [QUOTE] @ path @ [QUOTE]) s)
      else (case fs_read fs path of
        None \<Rightarrow> Some (R_Ok False, pp_error input 0 0 (''cannot open included source '' @ [QUOTE] @ path @ [QUOTE]) s)
      | Some source \<Rightarrow> do {
          let s1 = s\<lparr>pp_active := pp_active s @ [path], pp_fileSrc := (pp_fileSrc s)(path \<mapsto> source),
                     pp_labels := collectLabels source 0 (length source) Map.empty, pp_gotoTarget := 0, o_line := 1, o_col := 1\<rparr>;
          (r, s2) \<leftarrow> rec (K_Scan source 0 (length source) path True) s1;
          Some (r, s2\<lparr>pp_labels := pp_labels s, pp_active := butlast (pp_active s2), o_line := o_line s, o_col := o_col s\<rparr>) }))"

section \<open>One directive\<close>

text \<open>\<open>%name:\<close>, a label or the definition of a macro.\<close>

definition label_directive :: "string \<Rightarrow> string \<Rightarrow> string \<Rightarrow> nat \<Rightarrow> bool \<Rightarrow> pps \<Rightarrow> pp_out" where
  "label_directive path source name wordEnd active s =
     (let n = length source;
          target = skip_while is_ws source n (wordEnd + 1);
          we = skip_while isWordChar source n target;
          word = upper (substr source target (we - target))
      in if word = ''PROCEDURE'' \<or> word = ''PROC'' then
           (case findDirectiveEnd source we of
              None \<Rightarrow> failed (pp_error path (o_line s) (o_col s) ''unterminated preprocessor directive'' s)
            | Some procEnd \<Rightarrow>
                (case findMatchingEnd path source (procEnd + 1) s of
                   (None, s1) \<Rightarrow> failed s1
                 | (Some (matchingEnd, endSemi), s1) \<Rightarrow>
                     resume_if (endSemi + 1) endSemi
                       (if active
                        then handleDefinition path name (substr source target (procEnd - target))
                               (substr source (procEnd + 1) (matchingEnd - (procEnd + 1))) (o_line s) (o_col s) s1
                        else (True, s1))))
         else if char_at source target CHR ''%'' then resume target (target - 1) s
         else (case findDirectiveEnd source target of
                 Some semi \<Rightarrow> resume (semi + 1) (target - 1) s
               | None \<Rightarrow> resume target (target - 1) s))"

definition do_directive :: "pp_rec \<Rightarrow> string \<Rightarrow> string \<Rightarrow> nat \<Rightarrow> bool \<Rightarrow> pps \<Rightarrow> pp_out" where
  "do_directive rec path source wordEnd active s =
     (case findDirectiveEnd source wordEnd of
        None \<Rightarrow> failed (pp_error path (o_line s) (o_col s) ''unterminated %DO (C28-6571-3 Ch.9)'' s)
      | Some doEnd \<Rightarrow>
          (case findMatchingEnd path source (doEnd + 1) s of
             (None, s1) \<Rightarrow> failed s1
           | (Some (matchingEnd, endSemi), s1) \<Rightarrow>
               if active then
                 handleDo rec path source (doEnd + 1) matchingEnd endSemi doEnd active (substr source wordEnd (doEnd - wordEnd))
                   (o_line s) (o_col s) s1
               else resume (endSemi + 1) doEnd (keep_newlines path source matchingEnd endSemi s1)))"

definition goto_directive :: "string \<Rightarrow> string \<Rightarrow> string \<Rightarrow> nat \<Rightarrow> bool \<Rightarrow> pps \<Rightarrow> pp_out" where
  "goto_directive path source name wordEnd active s =
     (case findDirectiveEnd source wordEnd of
        None \<Rightarrow> failed (pp_error path (o_line s) (o_col s) ''unterminated %GOTO (C28-6571-3 Ch.9)'' s)
      | Some e \<Rightarrow>
          let trimmedOp = pp_trim (substr source wordEnd (e - wordEnd));
              label = (case (if name = ''GO'' then find_word ''TO'' (upper trimmedOp) else None) of
                         Some toPos \<Rightarrow> pp_trim (drop (toPos + 2) trimmedOp)
                       | None \<Rightarrow> trimmedOp)
          in if \<not> active then resume (e + 1) e s
             else (case handleGoto path name label (o_line s) (o_col s) s of
                     (ok, s1) \<Rightarrow> if ok then resume (pp_gotoTarget s1) e s1 else failed s1))"

definition invocation_directive :: "pp_rec \<Rightarrow> string \<Rightarrow> string \<Rightarrow> string \<Rightarrow> nat \<Rightarrow> nat \<Rightarrow> bool \<Rightarrow> pps \<Rightarrow> pp_out" where
  "invocation_directive rec path source name wordEnd rs active s =
     (let (argEnd, depth) = arg_end source (rs + 1) 1 M_Text in
      if depth \<noteq> 0 then failed (pp_error path (o_line s) (o_col s) (''unterminated argument list in %'' @ name) s)
      else
        let (nx, semPos) = (case findDirectiveEnd source argEnd of Some semi \<Rightarrow> (semi + 1, semi) | None \<Rightarrow> (argEnd, argEnd - 1)) in
        if \<not> active then resume nx semPos s
        else do {
          r \<leftarrow> handleInvocation rec path name (substr source (rs + 1) (argEnd - rs - 2)) (o_line s) (o_col s) s;
          resume_if nx semPos r })"

definition ok_to_resume :: "nat \<Rightarrow> pp_out \<Rightarrow> pp_out" where
  "ok_to_resume e out = do { (r, s) \<leftarrow> out; if r = R_Ok True then resume (e + 1) e s else failed s }"

definition standard_directive :: "fsys \<Rightarrow> pp_rec \<Rightarrow> string \<Rightarrow> string \<Rightarrow> nat \<Rightarrow> string \<Rightarrow> nat \<Rightarrow> bool \<Rightarrow> pps \<Rightarrow> pp_out" where
  "standard_directive fs rec path source i name wordEnd active s =
     (case findDirectiveEnd source wordEnd of
        None \<Rightarrow> failed (pp_error path (o_line s) (o_col s) ''unterminated preprocessor directive'' s)
      | Some e \<Rightarrow>
          let operand = substr source wordEnd (e - wordEnd); line = o_line s; col = o_col s in
          if name = ''INCLUDE'' then
            ok_to_resume e (if active then handleInclude fs rec path operand line col s else Some (R_Ok True, s))
          else if name = ''XINCLUDE'' then
            ok_to_resume e (if active then handleXInclude fs rec path operand line col s else Some (R_Ok True, s))
          else if name = ''DECLARE'' \<or> name = ''DCL'' then
            resume_if (e + 1) e (if active then handleDeclare path operand line col s else (True, s))
          else if name = ''ACTIVATE'' \<or> name = ''DEACTIVATE'' then
            resume_if (e + 1) e (if active then handleActivation path name operand line col s else (True, s))
          else if name = ''REPLACE'' then
            resume_if (e + 1) e (if active then handleReplace path source i wordEnd e line col s else (True, s))
          else
            let rs = skip_while blank3 source (length source) wordEnd in
            if char_at source rs CHR ''('' then failed s
            else if \<not> char_at source rs CHR ''='' then
              resume_if wordEnd e (if active then substituteRef path name line col s else (True, s))
            else resume_if (e + 1) e (if active then handleAssignment path name operand line col s else (True, s)))"

definition processDirective :: "fsys \<Rightarrow> pp_rec \<Rightarrow> string \<Rightarrow> string \<Rightarrow> nat \<Rightarrow> bool \<Rightarrow> pps \<Rightarrow> pp_out" where
  "processDirective fs rec path source i active s =
     (let n = length source;
          wordStart = skip_while blank3 source n (i + 1);
          wordEnd = skip_while isWordChar source n wordStart;
          name = upper (substr source wordStart (wordEnd - wordStart));
          rs = skip_while is_ws source n wordEnd
      in if wordEnd = wordStart then failed (pp_error path (o_line s) (o_col s) ''expected a preprocessor directive'' s)
         else if name = ''IF'' then processIf rec path source wordEnd active s
         else if name = ''THEN'' \<or> name = ''ELSE'' then
           failed (pp_error path (o_line s) (o_col s) (''%'' @ name @ '' without %IF'') s)
         else if char_at source wordEnd CHR '':'' then label_directive path source name wordEnd active s
         else if name = ''DO'' then do_directive rec path source wordEnd active s
         else if name = ''END'' then
           (case findDirectiveEnd source wordEnd of
              None \<Rightarrow> failed (pp_error path (o_line s) (o_col s) ''unterminated %END directive'' s)
            | Some e \<Rightarrow> resume (e + 1) e s)
         else if name = ''GO'' \<or> name = ''GOTO'' then goto_directive path source name wordEnd active s
         else if name = ''RETURN'' then
           (case findDirectiveEnd source wordEnd of
              None \<Rightarrow> failed (pp_error path (o_line s) (o_col s) ''unterminated %RETURN (C28-6571-3 Ch.9)'' s)
            | Some e \<Rightarrow> if active \<and> \<not> pp_procReturning s then handleReturn rec path source wordEnd e s else resume (e + 1) e s)
         else if name \<notin> {''INCLUDE'', ''XINCLUDE'', ''DECLARE'', ''DCL'', ''ACTIVATE'', ''DEACTIVATE'', ''REPLACE''}
                 \<and> char_at source rs CHR ''('' then
           invocation_directive rec path source name wordEnd rs active s
         else standard_directive fs rec path source i name wordEnd active s)"

fun pp_body :: "fsys \<Rightarrow> pp_rec \<Rightarrow> pp_call \<Rightarrow> pps \<Rightarrow> pp_out" where
  "pp_body fs rec (K_Scan source start e path active) s = pp_scan rec source start e path active s"
| "pp_body fs rec (K_Loop source start e path active i m) s = scan_loop rec source start e path active i m s"
| "pp_body fs rec (K_Directive path source i active) s = processDirective fs rec path source i active s"
| "pp_body fs rec (K_DoLoop path source bodyStart endPos active v iter e2 e3) s =
     do_loop rec path source bodyStart endPos active v iter e2 e3 s"
| "pp_body fs rec (K_Expand input) s = pp_expand fs rec input s"

definition run_reset :: "fsys \<Rightarrow> string \<Rightarrow> pps \<Rightarrow> pps" where
  "run_reset fs input s =
     s\<lparr>pp_active := [], pp_included := {}, pp_vars := Map.empty, pp_activeVars := {}, pp_replacements := Map.empty, pp_replacing := {},
       pp_labels := Map.empty, pp_gotoTarget := 0, pp_scanDepth := 0, o_text := [], pp_lineMap := [], pp_fileSrc := Map.empty,
       pp_rootCanon := fs_normalized fs input\<rparr>"

text \<open>\<^verbatim>\<open>Preprocessor::run\<close> within a bound on the depth of calls.\<close>

definition pp_run :: "fsys \<Rightarrow> nat \<Rightarrow> string \<Rightarrow> pps \<Rightarrow> pp_out" where
  "pp_run fs k input s = run_fuel (pp_body fs) k (K_Expand input) (run_reset fs input s)"

definition new_preprocessor :: pps where
  "new_preprocessor = \<lparr>pp_active = [], pp_includeDirs = [], pp_included = {}, pp_vars = Map.empty, pp_activeVars = {},
     pp_replacements = Map.empty, pp_replacing = {}, pp_labels = Map.empty, pp_gotoTarget = 0, pp_scanDepth = 0, pp_procTable = Map.empty,
     pp_procResult = 0, pp_procReturning = False, pp_lineMap = [], pp_fileSrc = Map.empty, pp_rootCanon = [], pp_stderr = [],
     o_text = [], o_line = 0, o_col = 0\<rparr>"

definition addIncludeDir :: "string \<Rightarrow> pps \<Rightarrow> pps" where
  "addIncludeDir dir s = s\<lparr>pp_includeDirs := pp_includeDirs s @ [dir]\<rparr>"

end
