(* ===== verification/PPProps.thy ===== *)
theory PPProps
  imports Preproc
begin

text \<open>
  Properties of the preprocessor: its result does not depend on the call bound, every failure is reported and
  leaves the nesting stacks as it found them, every line of the output has an entry in the line map,
  a directive in an arm that is not taken has no effect, and text without directives is copied.
\<close>

section \<open>More room gives the same result\<close>

definition ole :: "'a option \<Rightarrow> 'a option \<Rightarrow> bool" where
  "ole m n \<longleftrightarrow> (\<forall>r. m = Some r \<longrightarrow> n = Some r)"

named_theorems widens

lemma ole_refl [simp, intro]: "ole m m"
  by (simp add: ole_def)

lemma ole_bind: "ole m n \<Longrightarrow> (\<And>x. ole (f x) (g x)) \<Longrightarrow> ole (m \<bind> f) (n \<bind> g)"
  by (auto simp: ole_def bind_eq_Some_conv)

lemma ole_if: "ole m m2 \<Longrightarrow> ole n n2 \<Longrightarrow> ole (if b then m else n) (if b then m2 else n2)"
  by simp

lemma ole_prod: "(\<And>x y. ole (f x y) (g x y)) \<Longrightarrow> ole (case p of (x, y) \<Rightarrow> f x y) (case p of (x, y) \<Rightarrow> g x y)"
  by (cases p) simp

lemma ole_option: "ole m m2 \<Longrightarrow> (\<And>x. ole (f x) (g x)) \<Longrightarrow>
    ole (case p of None \<Rightarrow> m | Some x \<Rightarrow> f x) (case p of None \<Rightarrow> m2 | Some x \<Rightarrow> g x)"
  by (cases p) simp_all

lemma ole_res: "(\<And>b. ole (f1 b) (g1 b)) \<Longrightarrow> (\<And>x y. ole (f x y) (g x y)) \<Longrightarrow>
    ole (case p of R_Ok b \<Rightarrow> f1 b | R_At x y \<Rightarrow> f x y) (case p of R_Ok b \<Rightarrow> g1 b | R_At x y \<Rightarrow> g x y)"
  by (cases p) simp_all

lemma ole_agrees: "agrees f g \<Longrightarrow> ole (f c s) (g c s)"
  by (simp add: agrees_def ole_def)

lemmas ole_rules = ole_bind ole_if ole_prod ole_option ole_res ole_refl

lemma widen_scan_apart [widens]: "agrees f g \<Longrightarrow> ole (scan_apart f t path l c s) (scan_apart g t path l c s)"
  unfolding scan_apart_def by (intro ole_rules ole_agrees [of f g])

lemma widen_scan [widens]: "agrees f g \<Longrightarrow> ole (pp_scan f t a e path b s) (pp_scan g t a e path b s)"
  unfolding pp_scan_def by (intro ole_rules ole_agrees [of f g])

lemma widen_scan_word [widens]: "agrees f g \<Longrightarrow> ole (scan_word f t a e path b i s) (scan_word g t a e path b i s)"
  unfolding scan_word_def Let_def by (intro ole_rules ole_agrees [of f g])

lemma widen_scan_directive [widens]: "agrees f g \<Longrightarrow> ole (scan_directive f t a e path b i s) (scan_directive g t a e path b i s)"
  unfolding scan_directive_def Let_def by (intro ole_rules ole_agrees [of f g])

lemma widen_scan_loop [widens]: "agrees f g \<Longrightarrow> ole (scan_loop f t a e path b i m s) (scan_loop g t a e path b i m s)"
  unfolding scan_loop_def Let_def by (intro ole_rules ole_agrees [of f g] widens)

lemma widen_run_arm [widens]: "agrees f g \<Longrightarrow> ole (run_arm f path t a b s) (run_arm g path t a b s)"
  unfolding run_arm_def Let_def by (intro ole_rules ole_agrees [of f g])

lemma widen_else_arm [widens]: "agrees f g \<Longrightarrow> ole (else_arm f path t a b l c s) (else_arm g path t a b l c s)"
  unfolding else_arm_def Let_def by (intro ole_rules ole_agrees [of f g] widens)

lemma widen_if_condition [widens]: "agrees f g \<Longrightarrow> ole (if_condition f path t b s) (if_condition g path t b s)"
  unfolding if_condition_def Let_def by (intro ole_rules ole_agrees [of f g] widens)

lemma widen_processIf [widens]: "agrees f g \<Longrightarrow> ole (processIf f path t a b s) (processIf g path t a b s)"
  unfolding processIf_def Let_def by (intro ole_rules ole_agrees [of f g] widens)

lemma widen_do_loop [widens]: "agrees f g \<Longrightarrow> ole (do_loop f path t a e b v i e2 e3 s) (do_loop g path t a e b v i e2 e3 s)"
  unfolding do_loop_def Let_def by (intro ole_rules ole_agrees [of f g])

lemma widen_handleDo [widens]: "agrees f g \<Longrightarrow> ole (handleDo f path t a e es sp b spec l c s) (handleDo g path t a e es sp b spec l c s)"
  unfolding handleDo_def Let_def by (intro ole_rules ole_agrees [of f g])

lemma widen_handleInvocation [widens]: "agrees f g \<Longrightarrow> ole (handleInvocation f path n as l c s) (handleInvocation g path n as l c s)"
  unfolding handleInvocation_def Let_def by (intro ole_rules ole_agrees [of f g] widens)

lemma widen_handleReturn [widens]: "agrees f g \<Longrightarrow> ole (handleReturn f path t a e s) (handleReturn g path t a e s)"
  unfolding handleReturn_def Let_def by (intro ole_rules ole_agrees [of f g] widens)

lemma widen_include [widens]: "agrees f g \<Longrightarrow> ole (expandOneInclude fs f inp n l c once s) (expandOneInclude fs g inp n l c once s)"
  unfolding expandOneInclude_def Let_def by (intro ole_rules ole_agrees [of f g])

lemma widen_handleInclude [widens]: "agrees f g \<Longrightarrow> ole (handleInclude fs f inp n l c s) (handleInclude fs g inp n l c s)"
  unfolding handleInclude_def Let_def by (intro ole_rules ole_agrees [of f g] widens)

lemma widen_xinclude_loop [widens]: "agrees f g \<Longrightarrow> ole (xinclude_loop fs f inp l c items s) (xinclude_loop fs g inp l c items s)"
proof (induction items arbitrary: s)
  case (Cons i items)
  then show ?case unfolding xinclude_loop.simps by (intro ole_rules widens Cons.IH)
qed simp

lemma widen_handleXInclude [widens]: "agrees f g \<Longrightarrow> ole (handleXInclude fs f inp n l c s) (handleXInclude fs g inp n l c s)"
  unfolding handleXInclude_def Let_def by (intro ole_rules ole_agrees [of f g] widens)

lemma widen_expand [widens]: "agrees f g \<Longrightarrow> ole (pp_expand fs f inp s) (pp_expand fs g inp s)"
  unfolding pp_expand_def Let_def by (intro ole_rules ole_agrees [of f g])

lemma widen_do [widens]: "agrees f g \<Longrightarrow> ole (do_directive f path t w b s) (do_directive g path t w b s)"
  unfolding do_directive_def Let_def by (intro ole_rules widens)

lemma widen_invocation [widens]: "agrees f g \<Longrightarrow> ole (invocation_directive f path t n w r b s) (invocation_directive g path t n w r b s)"
  unfolding invocation_directive_def Let_def by (intro ole_rules widens)

lemma widen_resume: "ole m n \<Longrightarrow> ole (ok_to_resume e m) (ok_to_resume e n)"
  unfolding ok_to_resume_def by (intro ole_rules)

lemma widen_standard [widens]: "agrees f g \<Longrightarrow> ole (standard_directive fs f path t i n w b s) (standard_directive fs g path t i n w b s)"
  unfolding standard_directive_def Let_def by (intro ole_rules widen_resume widens)

lemma widen_directive [widens]: "agrees f g \<Longrightarrow> ole (processDirective fs f path t i b s) (processDirective fs g path t i b s)"
  unfolding processDirective_def Let_def by (intro ole_rules widens)

interpretation pp: fuelled "pp_body fs" for fs
proof
  fix f g :: pp_rec and c s r
  assume a: "agrees f g" and b: "pp_body fs f c s = Some r"
  have "ole (pp_body fs f c s) (pp_body fs g c s)" using a by (cases c) (simp_all add: widens)
  with b show "pp_body fs g c s = Some r" by (simp add: ole_def)
qed

section \<open>No failure is silent, no line is lost\<close>

definition line_ends :: "string \<Rightarrow> nat" where
  "line_ends t = count_list t NL"

definition frame :: "pps \<Rightarrow> pps \<Rightarrow> bool" where
  "frame s t \<longleftrightarrow> pp_active t = pp_active s \<and> pp_scanDepth t = pp_scanDepth s \<and> pp_replacing t = pp_replacing s \<and>
     pp_labels t = pp_labels s \<and> pp_includeDirs t = pp_includeDirs s"

definition mapped :: "pps \<Rightarrow> pps \<Rightarrow> bool" where
  "mapped s t \<longleftrightarrow> line_ends (o_text t) + length (pp_lineMap s) \<le> line_ends (o_text s) + length (pp_lineMap t) \<and>
     length (pp_lineMap s) \<le> length (pp_lineMap t)"

definition reports :: "nat \<Rightarrow> pps \<Rightarrow> pps \<Rightarrow> bool" where
  "reports n s t \<longleftrightarrow> length (pp_stderr s) + n \<le> length (pp_stderr t)"

text \<open>What every call does to the state: stacks balanced, no output line without an entry, at least \<open>n\<close> messages.\<close>

definition step :: "nat \<Rightarrow> pps \<Rightarrow> pps \<Rightarrow> bool" where
  "step n s t \<longleftrightarrow> frame s t \<and> mapped s t \<and> reports n s t"

lemmas step_defs = step_def frame_def mapped_def reports_def

lemma step_refl [simp, intro]: "step 0 s s"
  by (simp add: step_defs)

lemma step_trans: "step m s t \<Longrightarrow> step n t u \<Longrightarrow> step (m + n) s u"
  by (auto simp: step_defs)

lemma step_weaken: "step n s t \<Longrightarrow> m \<le> n \<Longrightarrow> step m s t"
  by (auto simp: step_defs)

lemma step_0: "step n s t \<Longrightarrow> step 0 s t"
  by (rule step_weaken) simp_all

lemma step_any: "step 0 s t \<Longrightarrow> step n t u \<Longrightarrow> step n s u" "step n s t \<Longrightarrow> step 0 t u \<Longrightarrow> step n s u"
  using step_trans [of 0 s t n u] step_trans [of n s t 0 u] by simp_all

lemma step_irrelevant [simp]:
  "step n s (t\<lparr>pp_vars := a\<rparr>) = step n s t" "step n (s\<lparr>pp_vars := a\<rparr>) t = step n s t"
  "step n s (t\<lparr>pp_activeVars := b\<rparr>) = step n s t" "step n (s\<lparr>pp_activeVars := b\<rparr>) t = step n s t"
  "step n s (t\<lparr>pp_replacements := c\<rparr>) = step n s t" "step n (s\<lparr>pp_replacements := c\<rparr>) t = step n s t"
  "step n s (t\<lparr>pp_procTable := d\<rparr>) = step n s t" "step n (s\<lparr>pp_procTable := d\<rparr>) t = step n s t"
  "step n s (t\<lparr>pp_procResult := i\<rparr>) = step n s t" "step n (s\<lparr>pp_procResult := i\<rparr>) t = step n s t"
  "step n s (t\<lparr>pp_procReturning := e\<rparr>) = step n s t" "step n (s\<lparr>pp_procReturning := e\<rparr>) t = step n s t"
  "step n s (t\<lparr>pp_included := f\<rparr>) = step n s t" "step n (s\<lparr>pp_included := f\<rparr>) t = step n s t"
  "step n s (t\<lparr>pp_gotoTarget := g\<rparr>) = step n s t" "step n (s\<lparr>pp_gotoTarget := g\<rparr>) t = step n s t"
  "step n s (t\<lparr>pp_fileSrc := h\<rparr>) = step n s t" "step n (s\<lparr>pp_fileSrc := h\<rparr>) t = step n s t"
  "step n s (t\<lparr>o_line := j\<rparr>) = step n s t" "step n (s\<lparr>o_line := j\<rparr>) t = step n s t"
  "step n s (t\<lparr>o_col := k\<rparr>) = step n s t" "step n (s\<lparr>o_col := k\<rparr>) t = step n s t"
  by (simp_all add: step_defs)

lemma step_error: "step 0 s t \<Longrightarrow> step 1 s (pp_error path l c msg t)" "step 0 s t \<Longrightarrow> step (Suc 0) s (pp_error path l c msg t)"
  "step 0 s t \<Longrightarrow> step 0 s (pp_error path l c msg t)"
  by (auto simp: step_defs pp_error_def)

lemma line_ends_simps [simp]: "line_ends [] = 0" "line_ends (c # t) = (if c = NL then Suc (line_ends t) else line_ends t)"
  "line_ends (t @ u) = line_ends t + line_ends u"
  by (simp_all add: line_ends_def)

lemma put_char_fields [simp]: "o_text (put_char path c s) = o_text s" "pp_stderr (put_char path c s) = pp_stderr s"
  "length (pp_lineMap (put_char path c s)) = length (pp_lineMap s) + line_ends [c]" "frame s (put_char path c s)"
  by (simp_all add: put_char_def frame_def)

lemma put_chars: "let t = foldl (\<lambda>s c. put_char path c s) s u in
    o_text t = o_text s \<and> pp_stderr t = pp_stderr s \<and> length (pp_lineMap t) = length (pp_lineMap s) + line_ends u \<and> frame s t"
proof (induction u arbitrary: s)
  case (Cons c u)
  from Cons [of "put_char path c s"] show ?case using put_char_fields(4) [of s path c] by (auto simp: Let_def frame_def)
qed (simp add: frame_def)

lemma step_emit: "step n s t \<Longrightarrow> step n s (pp_emit u path t)"
  using put_chars [of path "t\<lparr>o_text := o_text t @ u\<rparr>" u] by (auto simp: pp_emit_def step_defs Let_def)

lemma step_keep_char: "step n s t \<Longrightarrow> step n s (keep_char path c t)"
  using put_char_fields(4) [of "t\<lparr>o_text := o_text t @ [NL]\<rparr>" path c] put_char_fields(4) [of t path c]
  by (auto simp: keep_char_def step_defs)

lemma step_foldl: "step n s t \<Longrightarrow> (\<And>j u. step n s u \<Longrightarrow> step n s (f u j)) \<Longrightarrow> step n s (foldl f t js)"
  by (induction js arbitrary: t) simp_all

lemma step_keep: "step n s t \<Longrightarrow> step n s (keep_newlines path source i e t)"
  unfolding keep_newlines_def by (erule step_foldl) (rule step_keep_char)

subsection \<open>Calls that report what they do\<close>

definition reportsb :: "pps \<Rightarrow> bool \<times> pps \<Rightarrow> bool" where
  "reportsb s r \<longleftrightarrow> step (if fst r then 0 else 1) s (snd r)"

definition reportso :: "pps \<Rightarrow> 'a option \<times> pps \<Rightarrow> bool" where
  "reportso s r \<longleftrightarrow> step (if fst r = None then 1 else 0) s (snd r)"

lemma reportso_cases: "reportso s r \<Longrightarrow> (\<And>t. r = (None, t) \<Longrightarrow> step 1 s t \<Longrightarrow> P) \<Longrightarrow> (\<And>v t. r = (Some v, t) \<Longrightarrow> step 0 s t \<Longrightarrow> P) \<Longrightarrow> P"
  by (cases r; cases "fst r") (auto simp: reportso_def)

lemma eval_at_reports: "step 0 s t \<Longrightarrow> reportso s (eval_at e path l c t)"
  using evalCondExpr_total [of "pp_vars t" e]
  by (auto simp: eval_at_def reportso_def step_error split: option.split sum.split)

lemma eval_at_fields: "pp_vars (snd (eval_at e path l c t)) = pp_vars t"
  by (simp add: eval_at_def pp_error_def split: option.split sum.split)

lemma do_items_reports:
  "(\<And>i t. step 0 s t \<Longrightarrow> reportsb s (f i t)) \<Longrightarrow> step 0 s t \<Longrightarrow> reportsb s (do_items f items t)"
proof (induction items arbitrary: t)
  case (Cons i items)
  obtain b u where u: "f i t = (b, u)" by fastforce
  with Cons.prems(1) [OF Cons.prems(2), of i] have s: "step (if b then 0 else 1) s u" by (simp add: reportsb_def)
  show ?case
  proof (cases b)
    case True
    with s Cons.IH [OF Cons.prems(1), of u] u show ?thesis by simp
  qed (use s u in \<open>simp add: reportsb_def\<close>)
qed (simp add: reportsb_def)

lemma eval_at_step:
  "eval_at e path l c t = (None, u) \<Longrightarrow> step 0 s t \<Longrightarrow> step (Suc 0) s u"
  "eval_at e path l c t = (Some v, u) \<Longrightarrow> step 0 s t \<Longrightarrow> step 0 s u"
  using eval_at_reports [of s t e path l c] by (simp_all add: reportso_def)

lemma declare_value_reports: "step 0 s t \<Longrightarrow> reportso s (declare_value path l c n v t)"
  by (auto simp: declare_value_def Let_def reportso_def step_error dest: eval_at_step split: prod.split option.split)

lemma declare_item_reports: "step 0 s t \<Longrightarrow> reportsb s (declare_item path l c i t)"
proof -
  assume st: "step 0 s t"
  let ?p = "case find_value (upper (pp_trim i)) of None \<Rightarrow> (Some (upper (pp_trim i), 0), t)
      | Some v \<Rightarrow> declare_value path l c (upper (pp_trim i)) v t"
  have "reportso s ?p" using st declare_value_reports by (auto simp: reportso_def [of s "(Some x, t)" for x] split: option.split)
  then show "reportsb s (declare_item path l c i t)"
    by (rule reportso_cases) (auto simp: declare_item_def Let_def reportsb_def step_error)
qed

lemma handleDeclare_reports: "step 0 s t \<Longrightarrow> reportsb s (handleDeclare path op l c t)"
  using do_items_reports [of s "declare_item path l c" t "getline_items op"] declare_item_reports
  by (auto simp: handleDeclare_def Let_def reportsb_def step_error split: prod.split bool.split)

lemma handleAssignment_reports: "step 0 s t \<Longrightarrow> reportsb s (handleAssignment path n op l c t)"
proof -
  assume st: "step 0 s t"
  from eval_at_reports [OF st, of "tl (pp_trim op)" path l c] show ?thesis
    by (rule reportso_cases) (use st in \<open>auto simp: handleAssignment_def Let_def reportsb_def step_error\<close>)
qed

lemma handleActivation_reports: "step 0 s t \<Longrightarrow> reportsb s (handleActivation path n op l c t)"
proof -
  have "step 0 s t \<Longrightarrow> reportsb s (activate_item path n l c i t)" for i t
    by (auto simp: activate_item_def Let_def reportsb_def step_error)
  then show "step 0 s t \<Longrightarrow> reportsb s (handleActivation path n op l c t)"
    using do_items_reports [of s "activate_item path n l c" t "getline_items op"]
    by (auto simp: handleActivation_def Let_def reportsb_def step_error split: prod.split bool.split)
qed

lemma handleReplace_reports: "step 0 s t \<Longrightarrow> reportsb s (handleReplace path source i w e l c t)"
  by (auto simp: handleReplace_def record_replacement_def Let_def reportsb_def step_error split: option.split prod.split)

lemma handleDefinition_reports: "step 0 s t \<Longrightarrow> reportsb s (handleDefinition path n d b l c t)"
  by (auto simp: handleDefinition_def Let_def reportsb_def step_error split: prod.split)

lemma dec_of_nat_chars: "c \<in> set (dec_of_nat n) \<Longrightarrow> c \<in> set (map digit_char [0..<10])"
proof (induction n rule: dec_of_nat.induct)
  case (1 n)
  from "1.prems" show ?case by (subst (asm) dec_of_nat.simps) (use "1.IH" in \<open>auto split: if_splits\<close>)
qed

lemma to_string_one_line [simp]: "line_ends (to_string v) = 0"
proof -
  have "NL \<notin> set (map digit_char [0..<10])" by code_simp
  then have "NL \<notin> set (dec_of_nat n)" for n using dec_of_nat_chars by blast
  then show ?thesis by (simp add: line_ends_def to_string_def count_list_0_iff)
qed

lemma substituteRef_reports: "step 0 s t \<Longrightarrow> reportsb s (substituteRef path n l c t)"
  by (auto simp: substituteRef_def reportsb_def step_error split: option.split) (simp add: step_defs)

lemma handleGoto_reports: "step 0 s t \<Longrightarrow> reportsb s (handleGoto path n op l c t)"
  by (auto simp: handleGoto_def Let_def reportsb_def step_error split: option.split)

lemma findMatchingEnd_reports: "step 0 s t \<Longrightarrow> reportso s (findMatchingEnd path source i t)"
  by (auto simp: findMatchingEnd_def reportso_def step_error split: sum.split)

lemma eval_then_reports: "step 0 s t \<Longrightarrow> (\<And>v u. step 0 s u \<Longrightarrow> reportso s (f v u)) \<Longrightarrow>
    reportso s (case eval_at e path l c t of (None, u) \<Rightarrow> (None, u) | (Some v, u) \<Rightarrow> f v u)"
  by (rule reportso_cases [OF eval_at_reports, of s t e path l c]) (auto simp: reportso_def)

lemma reportso_error: "step 0 s t \<Longrightarrow> reportso s (None, pp_error path l c msg t)"
  by (simp add: reportso_def step_error)

lemma do_spec_reports: "step 0 s t \<Longrightarrow> reportso s (do_spec path spec l c t)"
  unfolding do_spec_def Let_def
  by (auto intro!: eval_then_reports reportso_error simp: reportso_def [of s "(Some x, u)" for x u] split: option.split)

lemma eval_args_reports: "step 0 s t \<Longrightarrow> reportso s (eval_args path l c as t)"
proof (induction as arbitrary: t)
  case (Cons a as)
  show ?case
  proof (rule reportso_cases [OF eval_at_reports [OF Cons.prems, of a path l c]])
    fix v u assume u: "eval_at a path l c t = (Some v, u)" and st: "step 0 s u"
    from Cons.IH [OF st] u show ?thesis by (auto simp: reportso_def split: prod.split)
  qed (simp add: reportso_def)
qed (simp add: reportso_def)

subsection \<open>Calls that may not return\<close>

text \<open>A condition on what a call gives, when it gives anything.\<close>

definition post :: "('a \<Rightarrow> bool) \<Rightarrow> 'a option \<Rightarrow> bool" where
  "post P m \<longleftrightarrow> (\<forall>r. m = Some r \<longrightarrow> P r)"

lemma post_simps [simp]: "post P (Some r) = P r" "post P None"
  by (simp_all add: post_def)

lemma post_bind: "post (\<lambda>x. post P (f x)) m \<Longrightarrow> post P (m \<bind> f)"
  by (auto simp: post_def bind_eq_Some_conv)

lemma post_if: "(b \<Longrightarrow> post P m) \<Longrightarrow> (\<not> b \<Longrightarrow> post P n) \<Longrightarrow> post P (if b then m else n)"
  by simp

lemma post_mono: "post P m \<Longrightarrow> (\<And>r. P r \<Longrightarrow> Q r) \<Longrightarrow> post Q m"
  by (auto simp: post_def)

definition flagged :: "pps \<Rightarrow> pp_res \<times> pps \<Rightarrow> bool" where
  "flagged s r = (\<exists>b. fst r = R_Ok b \<and> step (if b then 0 else 1) s (snd r))"

definition placed :: "pps \<Rightarrow> pp_res \<times> pps \<Rightarrow> bool" where
  "placed s r = (\<exists>nx p. fst r = R_At nx p \<and> step (if nx = None then 1 else 0) s (snd r))"

definition honest :: "pp_rec \<Rightarrow> bool" where
  "honest f = ((\<forall>path t i b s. post (placed s) (f (K_Directive path t i b) s)) \<and>
     (\<forall>c s. (\<nexists>path t i b. c = K_Directive path t i b) \<longrightarrow> post (flagged s) (f c s)))"

lemma honest_calls:
  assumes "honest f"
  shows "post (placed s) (f (K_Directive path t i b) s)" "post (flagged s) (f (K_Scan t i e path b) s)"
    "post (flagged s) (f (K_Loop t i e path b j m) s)" "post (flagged s) (f (K_DoLoop path t i e b v k e2 e3) s)"
    "post (flagged s) (f (K_Expand inp) s)"
  using assms by (auto simp: honest_def)

lemma failed_placed: "step (Suc 0) s t \<Longrightarrow> post (placed s) (failed t)"
  by (simp add: failed_def placed_def)

lemma resume_placed: "step 0 s t \<Longrightarrow> post (placed s) (resume i j t)"
  by (simp add: resume_def placed_def)

lemma resume_if_placed: "reportsb s r \<Longrightarrow> post (placed s) (resume_if i j r)"
  by (auto simp: resume_if_def reportsb_def failed_placed resume_placed split: prod.split)

text \<open>A call made from a state reached honestly.\<close>

lemma flagged_from: "step 0 s t \<Longrightarrow> flagged t r \<Longrightarrow> flagged s r"
  unfolding flagged_def by (elim exE conjE, intro exI conjI, assumption, erule (1) step_any(1))

lemma placed_from: "step 0 s t \<Longrightarrow> placed t r \<Longrightarrow> placed s r"
  unfolding placed_def by (elim exE conjE, intro exI conjI, assumption, erule (1) step_any(1))

lemma call_from:
  assumes "honest f" "step 0 s t"
  shows "post (placed s) (f (K_Directive path u i b) t)" "post (flagged s) (f (K_Scan u i e path b) t)"
    "post (flagged s) (f (K_Loop u i e path b j m) t)" "post (flagged s) (f (K_DoLoop path u i e b v k e2 e3) t)"
    "post (flagged s) (f (K_Expand inp) t)"
  using assms by (auto intro: post_mono [OF honest_calls(1)] placed_from post_mono [OF honest_calls(2)] flagged_from
    post_mono [OF honest_calls(3)] post_mono [OF honest_calls(4)] post_mono [OF honest_calls(5)])

lemma flagged_cases: "flagged s r \<Longrightarrow> (\<And>t. r = (R_Ok True, t) \<Longrightarrow> step 0 s t \<Longrightarrow> P) \<Longrightarrow> (\<And>t. r = (R_Ok False, t) \<Longrightarrow> step (Suc 0) s t \<Longrightarrow> P) \<Longrightarrow> P"
  by (cases r) (auto simp: flagged_def split: if_splits)

lemma placed_cases: "placed s r \<Longrightarrow> (\<And>t i j. r = (R_At (Some i) j, t) \<Longrightarrow> step 0 s t \<Longrightarrow> P) \<Longrightarrow> (\<And>t j. r = (R_At None j, t) \<Longrightarrow> step (Suc 0) s t \<Longrightarrow> P) \<Longrightarrow> P"
  by (cases r; cases "fst r") (auto simp: placed_def split: if_splits option.splits)

subsection \<open>Every call is honest\<close>

lemma step_apart:
  "step n (s\<lparr>o_text := []\<rparr>) u \<Longrightarrow> step n s (u\<lparr>o_text := o_text s\<rparr>)"
  "step n (s\<lparr>o_text := []\<rparr>) u \<Longrightarrow> step n s (u\<lparr>o_text := o_text s @ o_text u\<rparr>)"
  by (auto simp: step_defs)

lemma flag_bind: "post (flagged s) m \<Longrightarrow> (\<And>t. step 0 s t \<Longrightarrow> post P (g (R_Ok True, t))) \<Longrightarrow>
    (\<And>t. step (Suc 0) s t \<Longrightarrow> post P (g (R_Ok False, t))) \<Longrightarrow> post P (m \<bind> g)"
  by (rule post_bind, erule post_mono, erule flagged_cases) simp_all

lemma place_bind: "post (placed s) m \<Longrightarrow> (\<And>t i j. step 0 s t \<Longrightarrow> post P (g (R_At (Some i) j, t))) \<Longrightarrow>
    (\<And>t j. step (Suc 0) s t \<Longrightarrow> post P (g (R_At None j, t))) \<Longrightarrow> post P (m \<bind> g)"
  by (rule post_bind, erule post_mono, erule placed_cases) simp_all

lemma flagged_simps [simp]: "flagged s (R_Ok True, t) = step 0 s t" "flagged s (R_Ok False, t) = step (Suc 0) s t"
  by (auto simp: flagged_def)

lemma apart_bind:
  assumes f: "honest f" and s: "step 0 s t"
    and good: "\<And>u out. step 0 s u \<Longrightarrow> step 0 s (u\<lparr>o_text := o_text u @ out\<rparr>) \<Longrightarrow> post P (g (True, out, u))"
    and bad: "\<And>u out. step (Suc 0) s u \<Longrightarrow> post P (g (False, out, u))"
  shows "post P (scan_apart f x path l c t \<bind> g)"
  unfolding scan_apart_def
proof (rule post_bind, rule flag_bind [OF honest_calls(2) [OF f]])
  let ?out = "\<lambda>u. u\<lparr>o_text := o_text t, o_line := o_line t, o_col := o_col t\<rparr>"
  have at: "step n s (?out u) \<and> step n s ((?out u)\<lparr>o_text := o_text t @ o_text u\<rparr>)"
    if "step n (t\<lparr>o_text := [], o_line := l, o_col := c\<rparr>) u" for n u
    using that s by (auto simp: step_defs)
  show "post (\<lambda>x. post P (g x)) (case (R_Ok True, u) of (r, s1) \<Rightarrow> Some (r = R_Ok True, o_text s1, ?out s1))"
    if "step 0 (t\<lparr>o_text := [], o_line := l, o_col := c\<rparr>) u" for u using at [OF that] good by simp
  show "post (\<lambda>x. post P (g x)) (case (R_Ok False, u) of (r, s1) \<Rightarrow> Some (r = R_Ok True, o_text s1, ?out s1))"
    if "step (Suc 0) (t\<lparr>o_text := [], o_line := l, o_col := c\<rparr>) u" for u using at [OF that] bad by simp
qed

lemma scan_honest: assumes f: "honest f" shows "post (flagged s) (pp_scan f t a e path b s)"
  unfolding pp_scan_def
  by (auto intro!: flag_bind [OF honest_calls(3) [OF f]] step_error) (auto simp: step_defs)

lemma scan_word_honest: assumes f: "honest f" shows "post (flagged s) (scan_word f t a e path b i s)"
proof -
  have rep: "step n s (u\<lparr>pp_replacing := pp_replacing u - {key}\<rparr>)"
    if "step n (s\<lparr>pp_replacing := insert key (pp_replacing s)\<rparr>) u" "key \<notin> pp_replacing s" for n key u
    using that by (auto simp: step_defs)
  show ?thesis unfolding scan_word_def Let_def
    by (auto intro!: flag_bind [OF honest_calls(2) [OF f]] call_from [OF f] step_emit rep split: option.split if_splits)
qed

lemma scan_directive_honest: assumes f: "honest f" shows "post (flagged s) (scan_directive f t a e path b i s)"
  unfolding scan_directive_def Let_def
  by (auto intro!: place_bind [OF honest_calls(1) [OF f]] call_from [OF f] step_keep)

lemma scan_loop_honest: assumes f: "honest f" shows "post (flagged s) (scan_loop f t a e path b i m s)"
  unfolding scan_loop_def Let_def
  by (intro post_if) (auto intro!: call_from [OF f] step_emit scan_directive_honest [OF f] scan_word_honest [OF f] step_error)

lemma reportso_simps [simp]: "reportso s (None, t) = step (Suc 0) s t" "reportso s (Some v, t) = step 0 s t"
  by (simp_all add: reportso_def)

lemma reporto_bind: "post (reportso s) m \<Longrightarrow> (\<And>t v. step 0 s t \<Longrightarrow> post P (g (Some v, t))) \<Longrightarrow>
    (\<And>t. step (Suc 0) s t \<Longrightarrow> post P (g (None, t))) \<Longrightarrow> post P (m \<bind> g)"
  by (rule post_bind, erule post_mono, erule reportso_cases) simp_all

lemma reportso_case:
  "reportso s r \<Longrightarrow> (\<And>t. step (Suc 0) s t \<Longrightarrow> post Q (f t)) \<Longrightarrow> (\<And>v t. step 0 s t \<Longrightarrow> post Q (g v t)) \<Longrightarrow>
   post Q (case r of (None, t) \<Rightarrow> f t | (Some v, t) \<Rightarrow> g v t)"
  by (erule reportso_cases) simp_all

lemma run_arm_honest: assumes f: "honest f" and s: "step 0 s t" shows "post (reportso s) (run_arm f path u i b t)"
  unfolding run_arm_def Let_def
  by (auto intro!: place_bind [OF call_from(1) [OF f s]] step_emit s)

lemma else_arm_honest: assumes f: "honest f" and s: "step 0 s t" shows "post (reportso s) (else_arm f path u i b l c t)"
  unfolding else_arm_def Let_def
  by (auto intro!: run_arm_honest [OF f] step_error s)

lemma if_condition_honest: assumes f: "honest f" and s: "step 0 s t" shows "post (reportso s) (if_condition f path e b t)"
  unfolding if_condition_def
  by (auto intro!: apart_bind [OF f s] eval_at_reports s)

lemma processIf_honest: assumes f: "honest f" shows "post (placed s) (processIf f path t w b s)"
  unfolding processIf_def Let_def
  by (auto intro!: failed_placed resume_placed step_error reporto_bind [OF if_condition_honest [OF f]]
      reporto_bind [OF run_arm_honest [OF f]] reporto_bind [OF else_arm_honest [OF f]] split: option.split)

lemma do_loop_honest: assumes f: "honest f" shows "post (flagged s) (do_loop f path t a e b v i e2 e3 s)"
proof -
  have restored: "step n s (u\<lparr>o_text := o_text s, o_line := o_line s, o_col := o_col s\<rparr>)" "step n s (u\<lparr>o_text := o_text s\<rparr>)"
    if "step n (s\<lparr>pp_vars := vs, o_text := []\<rparr>) u" for n u vs
    using that by (auto simp: step_defs)
  show ?thesis unfolding do_loop_def Let_def
    by (auto intro!: flag_bind [OF honest_calls(2) [OF f]] call_from [OF f] step_emit restored)
qed

lemma handleDo_honest: assumes f: "honest f" and s: "step 0 s t" shows "post (placed s) (handleDo f path x a e es sp b spec l c t)"
  unfolding handleDo_def Let_def
  by (auto intro!: flag_bind [OF call_from(2) [OF f s]] flag_bind [OF call_from(4) [OF f]] failed_placed resume_placed
      reportso_case [OF do_spec_reports [OF s]])

lemma handleReturn_honest: assumes f: "honest f" shows "post (placed s) (handleReturn f path t w e s)"
  unfolding handleReturn_def
  by (auto intro!: apart_bind [OF f] reportso_case [OF eval_at_reports] failed_placed resume_placed)

lemma handleInvocation_honest: assumes f: "honest f" and s: "step 0 s t" shows "post (reportsb s) (handleInvocation f path n as l c t)"
  unfolding handleInvocation_def Let_def bind_params_def restore_params_def
  by (auto intro!: apart_bind [OF f, where s = s] reportso_case [OF eval_args_reports [OF s]] step_error
      simp: reportsb_def [of s "(x, u)" for x u] s split: option.split)

lemma expandOneInclude_honest: assumes f: "honest f" and s: "step 0 s t" shows "post (flagged s) (expandOneInclude fs f inp n l c once t)"
  unfolding expandOneInclude_def Let_def by (auto intro!: call_from [OF f] step_error simp: s)

lemma handleInclude_honest: assumes f: "honest f" and s: "step 0 s t" shows "post (flagged s) (handleInclude fs f inp op l c t)"
  unfolding handleInclude_def Let_def by (auto intro!: expandOneInclude_honest [OF f] step_error simp: s)

lemma xinclude_loop_honest: assumes f: "honest f" shows "step 0 s t \<Longrightarrow> post (flagged s) (xinclude_loop fs f inp l c items t)"
  by (induction items arbitrary: t) (auto intro!: flag_bind [OF expandOneInclude_honest [OF f]])

lemma handleXInclude_honest: assumes f: "honest f" and s: "step 0 s t" shows "post (flagged s) (handleXInclude fs f inp op l c t)"
  unfolding handleXInclude_def Let_def by (auto intro!: xinclude_loop_honest [OF f] step_error simp: s)

lemma expand_honest: assumes f: "honest f" shows "post (flagged s) (pp_expand fs f inp s)"
  unfolding pp_expand_def Let_def
  by (auto intro!: flag_bind [OF honest_calls(2) [OF f]] step_error split: option.split) (auto simp: step_defs)

lemma label_honest: "post (placed s) (label_directive path t n w b s)"
  unfolding label_directive_def Let_def
  by (auto intro!: failed_placed resume_placed resume_if_placed step_error reportso_case [OF findMatchingEnd_reports] handleDefinition_reports
      simp: reportsb_def [of s "(True, u)" for u] split: option.split)

lemma do_honest: assumes f: "honest f" shows "post (placed s) (do_directive f path t w b s)"
  unfolding do_directive_def Let_def
  by (auto intro!: failed_placed resume_placed step_error step_keep reportso_case [OF findMatchingEnd_reports] handleDo_honest [OF f]
      split: option.split)

lemma goto_honest: "post (placed s) (goto_directive path t n w b s)"
proof -
  have "post (placed s) (case handleGoto path n op l c s of (ok, u) \<Rightarrow> if ok then resume (pp_gotoTarget u) e u else failed u)" for op l c e
    using handleGoto_reports [OF step_refl, of s path n op l c]
    by (cases "handleGoto path n op l c s") (auto simp: reportsb_def intro!: failed_placed resume_placed)
  then show ?thesis unfolding goto_directive_def Let_def
    by (auto intro!: failed_placed resume_placed step_error split: option.split)
qed

lemma invocation_honest: assumes f: "honest f" shows "post (placed s) (invocation_directive f path t n w r b s)"
  unfolding invocation_directive_def Let_def
  by (auto intro!: failed_placed resume_placed step_error post_bind resume_if_placed post_mono [OF handleInvocation_honest [OF f step_refl]]
      split: option.split prod.split)

lemma ok_to_resume_honest: "post (flagged s) m \<Longrightarrow> post (placed s) (ok_to_resume e m)"
  unfolding ok_to_resume_def by (erule flag_bind) (auto intro!: failed_placed resume_placed)

text \<open>The failure without a message in \<^verbatim>\<open>processDirective\<close> is not reached: the parenthesis was seen before.\<close>

lemma char_at_skip: "char_at t (skip_while P t (length t) i) c \<longleftrightarrow> (\<exists>u. dropWhile P (drop i t) = c # u)"
proof -
  have "drop (skip_while P t (length t) i) t = dropWhile P (drop i t)"
    by (simp add: skip_while_def dropWhile_eq_drop add.commute)
  moreover have "char_at t j c \<longleftrightarrow> (\<exists>u. drop j t = c # u)" for j
    by (cases "j < length t") (simp_all add: char_at_def Cons_nth_drop_Suc [symmetric] conj_commute)
  ultimately show ?thesis by simp
qed

lemma paren_seen: "char_at t (skip_while blank3 t (length t) i) CHR ''('' \<Longrightarrow> char_at t (skip_while is_ws t (length t) i) CHR ''(''"
proof -
  have "dropWhile blank3 u = CHR ''('' # v \<Longrightarrow> dropWhile is_ws u = CHR ''('' # v" for u v
    by (induction u) (auto simp: blank3_def is_ws_def split: if_splits)
  then show "char_at t (skip_while blank3 t (length t) i) CHR ''('' \<Longrightarrow> ?thesis" by (auto simp: char_at_skip)
qed

lemma honest_if_active: "reportsb s r \<Longrightarrow> reportsb s (if b then r else (True, s))"
  by (cases b) (simp_all add: reportsb_def)

lemma flagged_if_active: "post (flagged s) m \<Longrightarrow> post (flagged s) (if b then m else Some (R_Ok True, s))"
  by simp

lemma standard_honest:
  assumes f: "honest f" and n: "name \<in> {''INCLUDE'', ''XINCLUDE'', ''DECLARE'', ''DCL'', ''ACTIVATE'', ''DEACTIVATE'', ''REPLACE''} \<or>
    \<not> char_at t (skip_while is_ws t (length t) w) CHR ''(''"
  shows "post (placed s) (standard_directive fs f path t i name w b s)"
proof (cases "findDirectiveEnd t w")
  case None
  then show ?thesis by (simp add: standard_directive_def failed_placed step_error)
next
  case (Some e)
  show ?thesis unfolding standard_directive_def Let_def Some option.case
    by (intro post_if ok_to_resume_honest resume_if_placed flagged_if_active honest_if_active handleInclude_honest [OF f step_refl]
        handleXInclude_honest [OF f step_refl] handleDeclare_reports handleActivation_reports handleReplace_reports
        handleAssignment_reports substituteRef_reports step_refl) (use n in \<open>auto dest: paren_seen\<close>)
qed

lemma processDirective_honest: assumes f: "honest f" shows "post (placed s) (processDirective fs f path t i b s)"
  unfolding processDirective_def Let_def
  by (auto intro!: failed_placed resume_placed step_error processIf_honest [OF f] label_honest do_honest [OF f] goto_honest
      handleReturn_honest [OF f] invocation_honest [OF f] standard_honest [OF f] split: option.split)

lemma body_honest: assumes f: "honest f" shows "honest (pp_body fs f)"
proof -
  have "post (flagged s) (pp_body fs f c s)" if "\<nexists>path t i b. c = K_Directive path t i b" for c s
    using that by (cases c) (auto intro: scan_honest [OF f] scan_loop_honest [OF f] do_loop_honest [OF f] expand_honest [OF f])
  then show ?thesis using processDirective_honest [OF f] by (simp add: honest_def)
qed

lemma run_honest: "honest (run_fuel (pp_body fs) k)"
proof (induction k)
  case 0
  show ?case by (simp add: honest_def)
next
  case (Suc k)
  from body_honest [OF Suc, of fs] show ?case by (simp add: honest_def)
qed

end
