(* ===== verification/PPText.thy ===== *)
theory PPText
  imports PPProps
begin

text \<open>
  What the preprocessor does to text: without directives it is copied, in an arm that is not taken nothing but
  line ends remains, a macro invocation replaces the table of variables, and an iterated \<open>%DO\<close> repeats its body.
\<close>

section \<open>A file system with one file\<close>

definition one_file :: "string \<Rightarrow> fsys" where
  "one_file src = \<lparr>fs_normalized = (\<lambda>p. p), fs_exists = (\<lambda>p. p = ''a''), fs_read = (\<lambda>p. if p = ''a'' then Some src else None),
     fs_parent = (\<lambda>p. []), fs_join = (\<lambda>d n. n), fs_no_extension = (\<lambda>p. False)\<rparr>"

section \<open>Every failure is reported\<close>

text \<open>C15: The preprocessor never rejects its input silently: a run that returns either succeeds or has written a message to the standard error stream.\<close>
theorem rejected_input_is_reported:
  "pp_run fs k input s = Some (r, t) \<Longrightarrow> r = R_Ok True \<or> (r = R_Ok False \<and> length (pp_stderr s) < length (pp_stderr t))"
  using honest_calls(5) [OF run_honest, of "run_reset fs input s" fs k input]
  by (auto simp: pp_run_def post_def run_reset_def reports_def step_def elim!: flagged_cases)

theorem rejected_input_is_reported_witness:
  "\<exists>r t. pp_run (one_file ''%x'') 9 ''a'' new_preprocessor = Some (r, t) \<and>
     (r = R_Ok True \<or> (r = R_Ok False \<and> length (pp_stderr new_preprocessor) < length (pp_stderr t)))"
proof -
  have "\<not> Option.is_none (pp_run (one_file ''%x'') 9 ''a'' new_preprocessor)" by code_simp
  then obtain r t where "pp_run (one_file ''%x'') 9 ''a'' new_preprocessor = Some (r, t)" by (auto simp: Option.is_none_def)
  with rejected_input_is_reported [OF this] show ?thesis by blast
qed

lemma run_mapped: "pp_run fs k input s = Some (r, t) \<Longrightarrow> line_ends (o_text t) \<le> length (pp_lineMap t)"
  using honest_calls(5) [OF run_honest, of "run_reset fs input s" fs k input]
  by (auto simp: pp_run_def post_def run_reset_def mapped_def step_def elim!: flagged_cases)

text \<open>Whatever a call does and however it ends, the nesting it entered is left again: the stack of open files, the scan depth, the names being
  replaced, the labels and the include directories are as before.\<close>
lemma nesting_is_balanced:
  "run_fuel (pp_body fs) k c s = Some (r, t) \<Longrightarrow> frame s t"
proof -
  assume r: "run_fuel (pp_body fs) k c s = Some (r, t)"
  show ?thesis
  proof (cases "\<exists>path x i b. c = K_Directive path x i b")
    case True
    with r run_honest [of fs k] show ?thesis by (auto simp: honest_def post_def step_def elim!: placed_cases dest!: spec)
  next
    case False
    with r run_honest [of fs k] have "flagged s (r, t)" by (simp add: honest_def post_def)
    then show ?thesis by (auto simp: step_def elim!: flagged_cases)
  qed
qed

section \<open>Text without directives is copied\<close>

text \<open>No directive, no stray double quote and no word of \<open>R\<close> is visible outside strings and comments.\<close>

function quiet :: "(string \<Rightarrow> bool) \<Rightarrow> lexmode \<Rightarrow> string \<Rightarrow> bool" where
  "quiet R m [] = True"
| "quiet R M_Line (c # cs) = quiet R (if c = NL then M_Text else M_Line) cs"
| "quiet R M_Comment (c # cs) = (if c = CHR ''*'' \<and> cs \<noteq> [] \<and> hd cs = CHR ''/'' then quiet R M_Text (tl cs) else quiet R M_Comment cs)"
| "quiet R M_String (c # cs) =
     (if c = QUOTE \<and> cs \<noteq> [] \<and> hd cs = QUOTE then quiet R M_String (tl cs) else quiet R (if c = QUOTE then M_Text else M_String) cs)"
| "quiet R M_Text (c # cs) =
     (if c = CHR ''/'' \<and> cs \<noteq> [] \<and> hd cs = CHR ''*'' then quiet R M_Comment (tl cs)
      else if c = CHR ''/'' \<and> cs \<noteq> [] \<and> hd cs = CHR ''/'' then quiet R M_Line (tl cs)
      else if c = QUOTE then quiet R M_String cs
      else if c = CHR ''%'' \<or> c = CHR 0x22 then False
      else if isWordStart c then \<not> R (upper (c # takeWhile isWordChar cs)) \<and> quiet R M_Text (dropWhile isWordChar cs)
      else quiet R M_Text cs)"
  by pat_completeness auto

termination quiet
  by (relation "measure (\<lambda>(R, m, cs). length cs)") (auto simp: less_Suc_eq_le length_dropWhile_le)

lemma put_char_text: "put_char path c (s\<lparr>o_text := x\<rparr>) = (put_char path c s)\<lparr>o_text := x\<rparr>"
  by (simp add: put_char_def)

lemma put_chars_text: "foldl (\<lambda>s c. put_char path c s) (s\<lparr>o_text := x\<rparr>) u = (foldl (\<lambda>s c. put_char path c s) s u)\<lparr>o_text := x\<rparr>"
  by (induction u arbitrary: s) (simp_all add: put_char_text)

lemma put_chars_kept: "o_text (foldl (\<lambda>s c. put_char path c s) s u) = o_text s"
  using put_chars [of path s u] by (simp add: Let_def)

lemma put_char_depth: "put_char path c (s\<lparr>pp_scanDepth := n\<rparr>) = (put_char path c s)\<lparr>pp_scanDepth := n\<rparr>"
  by (simp add: put_char_def)

lemma put_chars_depth: "foldl (\<lambda>s c. put_char path c s) (s\<lparr>pp_scanDepth := n\<rparr>) u = (foldl (\<lambda>s c. put_char path c s) s u)\<lparr>pp_scanDepth := n\<rparr>"
  by (induction u arbitrary: s) (simp_all add: put_char_depth)

lemma emit_depth: "pp_emit u path (s\<lparr>pp_scanDepth := n\<rparr>) = (pp_emit u path s)\<lparr>pp_scanDepth := n\<rparr>"
  by (simp add: pp_emit_def put_chars_text put_chars_depth)

lemma emit_frame: "frame s (pp_emit u path s)"
  using step_emit [OF step_refl] by (simp add: step_def)

lemma emit_append: "pp_emit v path (pp_emit u path s) = pp_emit (u @ v) path s"
  by (simp add: pp_emit_def put_chars_text put_chars_kept)

lemma emit_nil [simp]: "pp_emit [] path s = s"
  by (simp add: pp_emit_def)

definition live :: "pps \<Rightarrow> string \<Rightarrow> bool" where
  "live s key \<longleftrightarrow> key \<notin> pp_replacing s \<and> pp_replacements s key \<noteq> None"

lemma pp_emit_fields: "pp_replacing (pp_emit u path s) = pp_replacing s" "pp_replacements (pp_emit u path s) = pp_replacements s"
  "pp_vars (pp_emit u path s) = pp_vars s" "pp_activeVars (pp_emit u path s) = pp_activeVars s"
  "o_text (pp_emit u path s) = o_text s @ u" "pp_stderr (pp_emit u path s) = pp_stderr s"
  "pp_procTable (pp_emit u path s) = pp_procTable s" "pp_procReturning (pp_emit u path s) = pp_procReturning s"
proof -
  let ?keep = "\<lambda>t. (pp_replacing t, pp_replacements t, pp_vars t, pp_activeVars t, o_text t, pp_stderr t, pp_procTable t, pp_procReturning t)"
  have "?keep (foldl (\<lambda>s c. put_char path c s) s u) = ?keep s" for s
    by (induction u arbitrary: s) (simp_all add: put_char_def)
  from this [of "s\<lparr>o_text := o_text s @ u\<rparr>"] show
    "pp_replacing (pp_emit u path s) = pp_replacing s" "pp_replacements (pp_emit u path s) = pp_replacements s"
    "pp_vars (pp_emit u path s) = pp_vars s" "pp_activeVars (pp_emit u path s) = pp_activeVars s"
    "o_text (pp_emit u path s) = o_text s @ u" "pp_stderr (pp_emit u path s) = pp_stderr s"
    "pp_procTable (pp_emit u path s) = pp_procTable s" "pp_procReturning (pp_emit u path s) = pp_procReturning s"
    by (simp_all add: pp_emit_def)
qed

lemma emit_live [simp]: "live (pp_emit u path s) = live s"
  by (simp add: live_def pp_emit_fields fun_eq_iff)

lemma emit_lines: "pp_lineMap (pp_emit u path s) = pp_lineMap s @ map (\<lambda>n. \<lparr>fl_path = path, fl_line = o_line s + int n\<rparr>) [0..<line_ends u]
   \<and> o_line (pp_emit u path s) = o_line s + int (line_ends u)"
proof -
  have "let t = foldl (\<lambda>s c. put_char path c s) s u in
      pp_lineMap t = pp_lineMap s @ map (\<lambda>n. \<lparr>fl_path = path, fl_line = o_line s + int n\<rparr>) [0..<line_ends u] \<and> o_line t = o_line s + int (line_ends u)" for s
  proof (induction u arbitrary: s)
    case (Cons c u)
    from Cons [of "put_char path c s"] show ?case
      by (auto simp: Let_def put_char_def upt_conv_Cons [of 0] map_Suc_upt [symmetric] simp del: upt_Suc)
  qed simp
  from this [of "s\<lparr>o_text := o_text s @ u\<rparr>"] show ?thesis by (simp add: pp_emit_def Let_def)
qed

text \<open>What is left of the text being scanned.\<close>

definition rest_of :: "string \<Rightarrow> nat \<Rightarrow> nat \<Rightarrow> string" where
  "rest_of source e i = drop i (take e source)"

lemma rest_of_end: "\<not> i < e \<Longrightarrow> rest_of source e i = []"
  by (simp add: rest_of_def)

lemma rest_of_Cons: "i < e \<Longrightarrow> e \<le> length source \<Longrightarrow> rest_of source e i = source ! i # rest_of source e (Suc i)"
  using Cons_nth_drop_Suc [of i "take e source"] by (simp add: rest_of_def)

lemma rest_of_two: "Suc i < e \<Longrightarrow> e \<le> length source \<Longrightarrow> rest_of source e i = source ! i # source ! Suc i # rest_of source e (Suc (Suc i))"
  by (simp add: rest_of_Cons)

lemma rest_of_hd: "e \<le> length source \<Longrightarrow> rest_of source e (Suc i) \<noteq> [] \<and> hd (rest_of source e (Suc i)) = d \<longleftrightarrow> Suc i < e \<and> source ! Suc i = d"
  by (cases "Suc i < e") (simp_all add: rest_of_Cons rest_of_end)

lemma rest_of_skip: "skip_while P source e i = i + length (takeWhile P (rest_of source e i))"
  by (simp add: skip_while_def rest_of_def drop_take)

lemma rest_of_word: "e \<le> length source \<Longrightarrow> i < e \<Longrightarrow> j = skip_while P source e (Suc i) \<Longrightarrow>
    substr source i (j - i) = source ! i # takeWhile P (rest_of source e (Suc i)) \<and> rest_of source e j = dropWhile P (rest_of source e (Suc i))"
proof -
  assume e: "e \<le> length source" "i < e" and j: "j = skip_while P source e (Suc i)"
  let ?r = "rest_of source e (Suc i)"
  have n: "length (takeWhile P ?r) \<le> e - Suc i" using length_takeWhile_le [of P ?r] e by (simp add: rest_of_def)
  have "rest_of source e j = drop (length (takeWhile P ?r)) ?r" using j by (simp add: rest_of_skip) (simp add: rest_of_def add.commute)
  then have b: "rest_of source e j = dropWhile P ?r" by (simp add: dropWhile_eq_drop)
  have "substr source i (j - i) = take (Suc (length (takeWhile P ?r))) (drop i source)" using j by (simp add: rest_of_skip substr_def)
  also have "\<dots> = take (Suc (length (takeWhile P ?r))) (rest_of source e i)"
    using n e by (simp add: rest_of_def drop_take min_def)
  also have "\<dots> = source ! i # take (length (takeWhile P ?r)) ?r" using e by (simp add: rest_of_Cons)
  also have "take (length (takeWhile P ?r)) ?r = takeWhile P ?r" by (metis takeWhile_eq_take)
  finally show ?thesis using b by simp
qed

lemma loop_copies:
  assumes "e \<le> length source" and "quiet (live s) m (rest_of source e i)" and "length (rest_of source e i) < k"
  shows "run_fuel (pp_body fs) k (K_Loop source start e path active i m) s = Some (R_Ok True, pp_emit (rest_of source e i) path s)"
  using assms(2, 3)
proof (induction k arbitrary: s m i)
  case (Suc k)
  note e = assms(1)
  show ?case
  proof (cases "i < e")
    case False
    then show ?thesis by (simp add: scan_loop_def rest_of_end)
  next
    case True
    let ?r = "rest_of source e (Suc i)" and ?c = "source ! i"
    have IH: "run_fuel (pp_body fs) k (K_Loop source start e path active j m2) (pp_emit u path s) = Some (R_Ok True, pp_emit (rest_of source e i) path s)"
      if "quiet (live s) m2 (rest_of source e j)" "rest_of source e i = u @ rest_of source e j" "u \<noteq> []" for j m2 u
      using Suc.IH [of "pp_emit u path s" m2 j] that Suc.prems(2) by (cases u) (simp_all add: emit_append)
    have one: "run_fuel (pp_body fs) k (K_Loop source start e path active (Suc i) m2) (pp_emit [?c] path s) = Some (R_Ok True, pp_emit (rest_of source e i) path s)"
      if "quiet (live s) m2 ?r" for m2
      using that by (intro IH) (simp_all add: rest_of_Cons True e)
    have two: "run_fuel (pp_body fs) k (K_Loop source start e path active (Suc (Suc i)) m2) (pp_emit [?c, d] path s) = Some (R_Ok True, pp_emit (rest_of source e i) path s)"
      if "quiet (live s) m2 (tl ?r)" "Suc i < e" "source ! Suc i = d" for m2 d
      using that by (intro IH) (simp_all add: rest_of_Cons e)
    note q = Suc.prems(1) [unfolded rest_of_Cons [OF True e]]
    note h = rest_of_hd [OF e, of i]
    show ?thesis
    proof (cases m)
      case M_Line
      with q one True show ?thesis by (simp add: scan_loop_def)
    next
      case M_Comment
      with q one True h [of "CHR ''/''"] two [of M_Text "CHR ''/''"] show ?thesis by (auto simp: scan_loop_def emit_append split: if_splits)
    next
      case M_String
      with q one True h [of QUOTE] two [of M_String QUOTE] show ?thesis by (auto simp: scan_loop_def emit_append split: if_splits)
    next
      case M_Text
      have word: "scan_word (run_fuel (pp_body fs) k) source start e path active i s = Some (R_Ok True, pp_emit (rest_of source e i) path s)"
        if "\<not> live s (upper (?c # takeWhile isWordChar ?r))" "quiet (live s) M_Text (dropWhile isWordChar ?r)"
      proof -
        from rest_of_word [OF e True refl, of isWordChar] that IH [of M_Text "skip_while isWordChar source e (Suc i)" "?c # takeWhile isWordChar ?r"]
        show ?thesis by (auto simp: scan_word_def Let_def live_def rest_of_Cons [OF True e] split: option.split)
      qed
      with M_Text q one True h [of "CHR ''/''"] h [of "CHR ''*''"] two [of M_Comment "CHR ''*''"] two [of M_Line "CHR ''/''"] show ?thesis
        by (auto simp: scan_loop_def split: if_splits)
    qed
  qed
qed simp

lemma scan_part_copies:
  assumes "e \<le> length t" and "quiet (live s) M_Text (rest_of t e a)" and "length (rest_of t e a) + 1 < k" and "pp_scanDepth s < kMaxScanDepth"
  shows "run_fuel (pp_body fs) k (K_Scan t a e path active) s = Some (R_Ok True, pp_emit (rest_of t e a) path s)"
proof -
  from assms(3) obtain j where j: "k = Suc j" "length (rest_of t e a) < j" by (cases k) auto
  let ?s = "s\<lparr>pp_scanDepth := Suc (pp_scanDepth s)\<rparr>" and ?u = "rest_of t e a"
  have "(pp_emit ?u path ?s)\<lparr>pp_scanDepth := pp_scanDepth s\<rparr> = pp_emit ?u path s"
    using emit_frame [of s ?u path] by (simp add: emit_depth frame_def)
  moreover have "pp_scanDepth (pp_emit ?u path ?s) = Suc (pp_scanDepth s)" by (simp add: emit_depth)
  moreover have "live ?s = live s" by (simp add: live_def fun_eq_iff)
  ultimately show ?thesis using loop_copies [of e t ?s M_Text a j fs a path active] assms(1, 2, 4) j
    by (simp add: pp_scan_def kMaxScanDepth_def)
qed

lemma scan_copies:
  assumes "quiet (live s) M_Text t" and "length t + 1 < k" and "pp_scanDepth s < kMaxScanDepth"
  shows "run_fuel (pp_body fs) k (K_Scan t 0 (length t) path active) s = Some (R_Ok True, pp_emit t path s)"
  using scan_part_copies [of "length t" t s 0 k] assms by (simp add: rest_of_def)

text \<open>A source file without visible directives, stray double quotes or replaced names reaches the compiler unchanged: given room for
  its length, the run succeeds, reports nothing, the output is the file and line \<open>n\<close> of the output is attributed to line \<open>n\<close> of the file.\<close>
lemma plain_text_is_copied:
  assumes "fs_read fs (fs_normalized fs input) = Some src" and "quiet (\<lambda>_. False) M_Text src" and "length src + 3 \<le> k"
  shows "\<exists>t. pp_run fs k input s = Some (R_Ok True, t) \<and> o_text t = src \<and> pp_stderr t = pp_stderr s \<and>
    pp_lineMap t = map (\<lambda>n. \<lparr>fl_path = fs_normalized fs input, fl_line = int n\<rparr>) [1..<Suc (line_ends src)]"
proof -
  from assms(3) obtain j where j: "k = Suc j" "length src + 1 < j" by (cases k) auto
  let ?p = "fs_normalized fs input" and ?r = "run_reset fs input s"
  let ?s = "?r\<lparr>pp_active := pp_active ?r @ [?p], pp_fileSrc := (pp_fileSrc ?r)(?p \<mapsto> src),
    pp_labels := collectLabels src 0 (length src) Map.empty, pp_gotoTarget := 0, o_line := 1, o_col := 1\<rparr>"
  have "live ?s = (\<lambda>_. False)" by (simp add: live_def run_reset_def fun_eq_iff)
  then have "run_fuel (pp_body fs) j (K_Scan src 0 (length src) ?p True) ?s = Some (R_Ok True, pp_emit src ?p ?s)"
    using assms(2) j(2) by (intro scan_copies) (simp_all add: run_reset_def kMaxScanDepth_def)
  moreover have "?p \<notin> set (pp_active ?r)" by (simp add: run_reset_def)
  ultimately have "\<exists>l a i c. pp_run fs k input s = Some (R_Ok True, (pp_emit src ?p ?s)\<lparr>pp_labels := l, pp_active := a, o_line := i, o_col := c\<rparr>)"
    using j(1) assms(1) by (simp add: pp_run_def pp_expand_def Let_def) blast
  moreover have "pp_lineMap (pp_emit src ?p ?s) = map (\<lambda>n. \<lparr>fl_path = ?p, fl_line = int n\<rparr>) [1..<Suc (line_ends src)]"
    using emit_lines [of src ?p ?s] by (simp add: run_reset_def map_Suc_upt [symmetric] comp_def del: upt_Suc)
  moreover have "o_text (pp_emit src ?p ?s) = src \<and> pp_stderr (pp_emit src ?p ?s) = pp_stderr s" by (simp add: pp_emit_fields run_reset_def)
  ultimately show ?thesis by auto
qed
section \<open>Arms that are not taken\<close>
definition inert :: "pps \<Rightarrow> pps \<Rightarrow> bool" where
  "inert s t \<longleftrightarrow> pp_vars t = pp_vars s \<and> pp_activeVars t = pp_activeVars s \<and> pp_replacements t = pp_replacements s \<and>
     pp_procTable t = pp_procTable s \<and> pp_procResult t = pp_procResult s \<and> pp_procReturning t = pp_procReturning s \<and>
     pp_included t = pp_included s \<and> pp_gotoTarget t = pp_gotoTarget s \<and> pp_fileSrc t = pp_fileSrc s \<and>
     (\<exists>n. o_text t = o_text s @ replicate n NL)"

lemma inert_refl [simp]: "inert s s"
  by (auto simp: inert_def intro: exI [of _ 0])

lemma inert_trans: "inert s t \<Longrightarrow> inert t u \<Longrightarrow> inert s u"
  unfolding inert_def by (auto simp: replicate_add [symmetric])

lemma inert_error [simp]: "inert s (pp_error path l c msg t) = inert s t"
  by (simp add: inert_def pp_error_def)

lemma inert_keep_char: "inert s t \<Longrightarrow> inert s (keep_char path c t)"
  using replicate_append_same [of _ NL] by (auto simp: inert_def keep_char_def put_char_def simp flip: replicate_Suc)

lemma inert_keep: "inert s t \<Longrightarrow> inert s (keep_newlines path source i e t)"
proof -
  have "inert s t \<Longrightarrow> inert s (foldl (\<lambda>s j. keep_char path (h j) s) t js)" for h and js :: "nat list"
    by (induction js arbitrary: t) (simp_all add: inert_keep_char)
  then show "inert s t \<Longrightarrow> inert s (keep_newlines path source i e t)" unfolding keep_newlines_def .
qed

definition idle :: "pp_rec \<Rightarrow> bool" where
  "idle f \<longleftrightarrow> (\<forall>path t i s. post (\<lambda>r. inert s (snd r)) (f (K_Directive path t i False) s))"

lemma run_arm_idle: "idle f \<Longrightarrow> inert s t \<Longrightarrow> post (\<lambda>r. inert s (snd r)) (run_arm f path u i False t)"
  unfolding run_arm_def Let_def idle_def
  by (auto simp: post_def bind_eq_Some_conv split: prod.splits) (meson inert_trans snd_conv)+

lemma else_arm_idle: "idle f \<Longrightarrow> inert s t \<Longrightarrow> post (\<lambda>r. inert s (snd r)) (else_arm f path u i False l c t)"
  unfolding else_arm_def Let_def by (auto intro: run_arm_idle)

lemma idle_simps [simp]: "post P (failed s) = P (R_At None 0, s)" "post P (resume i j s) = P (R_At (Some i) j, s)"
  by (simp_all add: failed_def resume_def)

lemma processIf_idle: "idle f \<Longrightarrow> post (\<lambda>r. inert s (snd r)) (processIf f path t w False s)"
  unfolding processIf_def if_condition_def Let_def
  by (auto intro!: post_bind post_mono [OF run_arm_idle, of f s s] post_mono [OF else_arm_idle, of f s] split: option.split)

lemma findMatchingEnd_idle: "inert s (snd (findMatchingEnd path source i s))"
  by (simp add: findMatchingEnd_def split: sum.split)

lemma matching_idle: "(\<And>t. inert s t \<Longrightarrow> post P (g t)) \<Longrightarrow> (\<And>p q t. inert s t \<Longrightarrow> post P (h p q t)) \<Longrightarrow>
    post P (case findMatchingEnd path source i s of (None, t) \<Rightarrow> g t | (Some (p, q), t) \<Rightarrow> h p q t)"
  using findMatchingEnd_idle [of s path source i] by (auto split: prod.split option.split)

lemma invocation_idle: "post (\<lambda>r. inert s (snd r)) (invocation_directive f path t n w r2 False s)"
  unfolding invocation_directive_def Let_def by (auto split: prod.split option.split)

lemma processDirective_idle: "idle f \<Longrightarrow> post (\<lambda>r. inert s (snd r)) (processDirective fs f path t i False s)"
  unfolding processDirective_def label_directive_def do_directive_def goto_directive_def standard_directive_def Let_def
    resume_if_def ok_to_resume_def
  by (intro post_if) (auto intro!: processIf_idle matching_idle inert_keep invocation_idle split: option.split)

text \<open>C18: A directive in an arm that is not taken has no effect: whatever it is, no variable, activation, replacement, macro, jump target or
  included file changes, and the output only grows by line ends.\<close>
theorem untaken_directive_is_inert:
  "run_fuel (pp_body fs) k (K_Directive path source i False) s = Some (r, t) \<Longrightarrow> inert s t"
proof -
  have "idle (run_fuel (pp_body fs) k)" for k
  proof (induction k)
    case (Suc k)
    then show ?case using processDirective_idle by (simp add: idle_def)
  qed (simp add: idle_def)
  then show "run_fuel (pp_body fs) k (K_Directive path source i False) s = Some (r, t) \<Longrightarrow> inert s t"
    unfolding idle_def post_def by fastforce
qed

theorem untaken_directive_is_inert_witness:
  "\<exists>r t. run_fuel (pp_body (one_file [])) 3 (K_Directive ''a'' ''%DCL X;'' 0 False) new_preprocessor = Some (r, t) \<and> inert new_preprocessor t"
proof -
  have "\<not> Option.is_none (run_fuel (pp_body (one_file [])) 3 (K_Directive ''a'' ''%DCL X;'' 0 False) new_preprocessor)" by code_simp
  then obtain r t where "run_fuel (pp_body (one_file [])) 3 (K_Directive ''a'' ''%DCL X;'' 0 False) new_preprocessor = Some (r, t)"
    by (auto simp: Option.is_none_def)
  with untaken_directive_is_inert [OF this] show ?thesis by blast
qed

section \<open>Macro invocations\<close>

lemma quiet_plain: "list_all (\<lambda>c. c \<noteq> CHR ''/'' \<and> c \<noteq> QUOTE \<and> c \<noteq> CHR ''%'' \<and> c \<noteq> CHR 0x22 \<and> \<not> isWordStart c) u \<Longrightarrow> quiet R M_Text u"
  by (induction u) auto

definition number_char :: "char \<Rightarrow> bool" where
  "number_char c \<longleftrightarrow> c \<in> set (CHR ''-'' # map digit_char [0..<10])"

lemma number_chars: "list_all (\<lambda>c. c \<noteq> CHR ''/'' \<and> c \<noteq> QUOTE \<and> c \<noteq> CHR ''%'' \<and> c \<noteq> CHR 0x22 \<and> \<not> isWordStart c) (CHR ''-'' # map digit_char [0..<10])"
  by code_simp

lemma to_string_number: "c \<in> set (to_string v) \<Longrightarrow> number_char c"
  using dec_of_nat_chars [of c "nat v"] dec_of_nat_chars [of c "nat (- v)"] by (auto simp: to_string_def number_char_def split: if_splits)

lemma quiet_number: "quiet R M_Text (to_string v)"
  using to_string_number [of _ v] number_chars unfolding number_char_def list_all_iff by (intro quiet_plain) (unfold list_all_iff, blast)

lemma quiet_quoted: "QUOTE \<notin> set u \<Longrightarrow> quiet R M_String (u @ [QUOTE])"
  by (induction u) auto

lemma quiet_quoted_number: "quiet R M_Text ([QUOTE] @ to_string v @ [QUOTE])"
proof -
  have "QUOTE \<notin> set (to_string v)" using to_string_number [of QUOTE v] number_chars unfolding number_char_def list_all_iff by blast
  then show ?thesis using quiet_quoted by simp
qed

lemma eval_at_value: "eval_at e path l c s = (Some v, t) \<Longrightarrow> t = s"
  by (auto simp: eval_at_def split: option.splits sum.splits)

lemma eval_args_value: "eval_args path l c as s = (Some vs, t) \<Longrightarrow> t = s"
  by (induction as arbitrary: s vs) (auto split: prod.splits option.splits dest: eval_at_value)

lemma scan_room: "run_fuel (pp_body fs) k (K_Scan t a e path b) s = Some (R_Ok True, u) \<Longrightarrow> pp_scanDepth s < kMaxScanDepth"
  by (cases k) (auto simp: pp_scan_def split: if_splits)

text \<open>Scanning a quiet text apart, when it returns, returns the text and leaves the variables.\<close>

lemma apart_quiet:
  assumes "scan_apart (run_fuel (pp_body fs) k) t path l c s = Some (True, out, u)" and "quiet (live s) M_Text t"
  shows "out = t \<and> pp_vars u = pp_vars s \<and> pp_activeVars u = pp_activeVars s"
proof -
  let ?s = "s\<lparr>o_text := [], o_line := l, o_col := c\<rparr>" and ?c = "K_Scan t 0 (length t) path True"
  from assms(1) obtain v where v: "run_fuel (pp_body fs) k ?c ?s = Some (R_Ok True, v)" and
    u: "out = o_text v" "pp_vars u = pp_vars v" "pp_activeVars u = pp_activeVars v"
    by (auto simp: scan_apart_def bind_eq_Some_conv)
  have "live ?s = live s" by (simp add: live_def fun_eq_iff)
  then have "run_fuel (pp_body fs) (length t + 2) ?c ?s = Some (R_Ok True, pp_emit t path ?s)"
    using assms(2) scan_room [OF v] by (intro scan_copies) simp_all
  from pp.run_det [OF v this] u show ?thesis by (simp add: pp_emit_fields)
qed

definition only_params :: "PPProc \<Rightarrow> pps \<Rightarrow> bool \<times> pps \<Rightarrow> bool" where
  "only_params proc s r \<longleftrightarrow> (fst r \<longrightarrow> pp_vars (snd r) = saved_vars proc s \<and> pp_activeVars (snd r) = set (pr_params proc))"

lemma only_params_simps [simp]: "only_params proc s (False, t)"
  "only_params proc s (True, t) = (pp_vars t = saved_vars proc s \<and> pp_activeVars t = set (pr_params proc))"
  by (simp_all add: only_params_def)

lemma post_apart_quiet:
  assumes "quiet (live s) M_Text t" and "\<And>out u. pp_vars u = pp_vars s \<Longrightarrow> pp_activeVars u = pp_activeVars s \<Longrightarrow> post P (g (True, out, u))"
    and "\<And>out u. post P (g (False, out, u))"
  shows "post P (scan_apart (run_fuel (pp_body fs) k) t path l c s \<bind> g)"
proof (rule post_bind)
  show "post (\<lambda>x. post P (g x)) (scan_apart (run_fuel (pp_body fs) k) t path l c s)"
    using apart_quiet [OF _ assms(1)] assms(2, 3) unfolding post_def [of "\<lambda>x. post P (g x)"] by (metis (full_types) prod_cases3)
qed

lemma post_body: "(\<And>x. post P (g x)) \<Longrightarrow> post P (scan_apart f t path l c (bind_params proc vals s) \<bind> g)"
  by (rule post_bind) (simp add: post_def [of "\<lambda>x. post P (g x)"], simp add: post_def)

lemma post_rescan:
  "post (only_params proc s) (scan_apart (run_fuel (pp_body fs) k) (if q then [QUOTE] @ to_string v @ [QUOTE] else to_string v) path l c
     ((restore_params proc s s2)\<lparr>pp_procReturning := b\<rparr>) \<bind> (\<lambda>(ok, out, u). Some (ok, if ok then u\<lparr>o_text := o_text u @ out\<rparr> else u)))"
  by (rule post_apart_quiet) (use quiet_number quiet_quoted_number in \<open>auto simp: restore_params_def\<close>)

lemma post_args: "(\<And>t. post P (h t)) \<Longrightarrow> (\<And>vals. post P (g vals s)) \<Longrightarrow>
   post P (case eval_args path l c as s of (None, t) \<Rightarrow> h t | (Some vals, t) \<Rightarrow> g vals t)"
  by (auto dest: eval_args_value split: prod.split option.split)

lemma invocation_only_params:
  assumes "pp_procTable s (upper name) = Some proc"
  shows "post (only_params proc s) (handleInvocation (run_fuel (pp_body fs) k) path name args l c s)"
  unfolding handleInvocation_def Let_def assms option.case
  by (rule post_if, simp, rule post_args, simp) (auto intro!: post_body post_rescan [where q = True, simplified] post_rescan [where q = False, simplified])

text \<open>What a successful macro invocation leaves of the preprocessor variables: exactly the parameters of the macro, each with the value it had
  (zero when it had none), all active; every other variable and activation of the caller is gone.\<close>
lemma invocation_keeps_only_parameters:
  assumes "handleInvocation (run_fuel (pp_body fs) k) path name args l c s = Some (True, t)" and "pp_procTable s (upper name) = Some proc"
  shows "pp_vars t = saved_vars proc s \<and> pp_activeVars t = set (pr_params proc)"
  using invocation_only_params [OF assms(2), of fs k path args l c] assms(1) by (simp add: post_def only_params_def)

section \<open>The iterated group\<close>

lemma do_iteration:
  assumes "e \<le> length source" and "quiet (live s) M_Text (rest_of source e a)" and "pp_scanDepth s < kMaxScanDepth" and "i \<le> e2" and "fits64 (i + 1)"
  defines "u \<equiv> rest_of source e a"
  shows "\<exists>t. o_text t = o_text s @ u \<and> length (pp_lineMap t) = length (pp_lineMap s) + 2 * line_ends u \<and> live t = live s \<and>
    pp_scanDepth t = pp_scanDepth s \<and> (\<forall>r k. length u + 1 < k \<longrightarrow> run_fuel (pp_body fs) k (K_DoLoop path source a e b v (i + 1) e2 1) t = Some r \<longrightarrow>
      run_fuel (pp_body fs) (Suc k) (K_DoLoop path source a e b v i e2 1) s = Some r)"
proof -
  let ?s = "s\<lparr>pp_vars := (pp_vars s)(v \<mapsto> i), o_text := []\<rparr>"
  let ?s1 = "pp_emit u path ?s"
  let ?s2 = "pp_emit (o_text ?s1) path (?s1\<lparr>o_text := o_text s, o_line := o_line s, o_col := o_col s\<rparr>)"
  let ?t = "?s2\<lparr>o_line := o_line ?s1, o_col := o_col ?s1\<rparr>"
  have live: "live ?s = live s" by (simp add: live_def fun_eq_iff)
  have scan: "run_fuel (pp_body fs) k (K_Scan source a e path b) ?s = Some (R_Ok True, ?s1)" if "length u + 1 < k" for k
    unfolding u_def using assms(1, 2, 3) that live by (intro scan_part_copies) (simp_all add: u_def)
  have written: "o_text ?s1 = u" by (simp add: pp_emit_fields)
  have "length (pp_lineMap ?t) = length (pp_lineMap s) + 2 * line_ends u"
    using emit_lines [of u path ?s] emit_lines [of u path "?s1\<lparr>o_text := o_text s, o_line := o_line s, o_col := o_col s\<rparr>"] written by simp
  moreover have "live ?t = live s" by (simp add: live_def fun_eq_iff pp_emit_fields)
  moreover have "pp_scanDepth ?t = pp_scanDepth s"
    using emit_frame [of ?s u path] emit_frame [of "?s1\<lparr>o_text := o_text s, o_line := o_line s, o_col := o_col s\<rparr>" "o_text ?s1" path] by (simp add: frame_def)
  moreover have "run_fuel (pp_body fs) (Suc k) (K_DoLoop path source a e b v i e2 1) s = run_fuel (pp_body fs) k (K_DoLoop path source a e b v (i + 1) e2 1) ?t"
    if "length u + 1 < k" for k
    using scan [OF that] assms(4) wrap64_fits [OF assms(5)] by (simp add: do_loop_def Let_def)
  ultimately show ?thesis using written by (intro exI [of _ ?t]) (simp add: pp_emit_fields del: run_fuel.simps)
qed

text \<open>An iterated \<^verbatim>\<open>%DO\<close> whose body is plain text terminates and writes the body once per iteration, but records every line of it twice in the line map.\<close>
lemma iterated_group_repeats_body:
  assumes "e \<le> length source" and "quiet (live s) M_Text (rest_of source e a)" and "pp_scanDepth s < kMaxScanDepth"
    and "- (2 ^ 63) \<le> i" and "i + int n < 2 ^ 63"
  shows "\<exists>k t. run_fuel (pp_body fs) k (K_DoLoop path source a e b v i (i + int n - 1) 1) s = Some (R_Ok True, t) \<and>
    o_text t = o_text s @ concat (replicate n (rest_of source e a)) \<and>
    length (pp_lineMap t) = length (pp_lineMap s) + 2 * (n * line_ends (rest_of source e a))"
  using assms
proof (induction n arbitrary: s i)
  case 0
  then show ?case by (intro exI [of _ 1]) (simp add: do_loop_def)
next
  case (Suc n)
  let ?u = "rest_of source e a"
  from Suc.prems do_iteration [of e source s a i "i + int n" fs path b v] obtain t where
    t: "o_text t = o_text s @ ?u" "length (pp_lineMap t) = length (pp_lineMap s) + 2 * line_ends ?u" "live t = live s" "pp_scanDepth t = pp_scanDepth s"
    and st: "\<And>r k. length ?u + 1 < k \<Longrightarrow> run_fuel (pp_body fs) k (K_DoLoop path source a e b v (i + 1) (i + int n) 1) t = Some r \<Longrightarrow>
      run_fuel (pp_body fs) (Suc k) (K_DoLoop path source a e b v i (i + int n) 1) s = Some r"
    by (auto simp: fits64_def)
  from Suc.IH [of t "i + 1"] Suc.prems t obtain k t2 where
    k: "run_fuel (pp_body fs) k (K_DoLoop path source a e b v (i + 1) (i + int n) 1) t = Some (R_Ok True, t2)"
    and t2: "o_text t2 = o_text t @ concat (replicate n ?u)" "length (pp_lineMap t2) = length (pp_lineMap t) + 2 * (n * line_ends ?u)"
    by (auto simp: algebra_simps)
  from pp.run_mono [OF k, of "k + length ?u + 2"] st [of "k + length ?u + 2"] have
    "run_fuel (pp_body fs) (Suc (k + length ?u + 2)) (K_DoLoop path source a e b v i (i + int n) 1) s = Some (R_Ok True, t2)" by simp
  with t t2 show ?case by (intro exI [of _ "Suc (k + length ?u + 2)"]) (auto simp: algebra_simps)
qed

end
