(* ===== verification/RtCond.thy ===== *)
theory RtCond
  imports Prelude
begin

text \<open>
  The ON units of the runtime, \<^verbatim>\<open>src/runtime/rt_cond.c\<close>: the per-task stack of established units, grown and shrunk
  by \<^verbatim>\<open>realloc\<close>, searched from the top by condition key.  The state of \<^verbatim>\<open>pli_task_local\<close> the file uses is a record, the
  heap-allocated array a list of its capacity, whose entries past the depth are never read.  Whether a
  \<^verbatim>\<open>realloc\<close> succeeds is a parameter; an abort ends the program and is the value \<^const>\<open>Inl\<close>.
  The lemmas show that the array implements a list of units and that block activations are isolated.
\<close>

section \<open>State\<close>

type_synonym ptr = nat

record pli_on_frame =
  fr_key :: int
  fr_src :: int
  fr_id :: int
  fr_fn :: ptr
  fr_ctx :: ptr

record pli_task_local =
  on_stack :: "pli_on_frame list"
  on_sp :: nat
  on_cap :: nat
  oncode :: int
  on_source :: int
  finish_fn :: ptr

definition PLI_ON_INIT :: nat where
  "PLI_ON_INIT = 16"

definition RT_FINISH_KEY :: int where
  "RT_FINISH_KEY = - 6"

definition no_frame :: pli_on_frame where
  "no_frame = \<lparr>fr_key = 0, fr_src = 0, fr_id = 0, fr_fn = 0, fr_ctx = 0\<rparr>"

definition as_int :: "int \<Rightarrow> int" where
  "as_int v = sint (word_of_int v :: 32 word)"

text \<open>A capacity that leaves \<^verbatim>\<open>int\<close> turns into a request no \<^verbatim>\<open>realloc\<close> can meet.\<close>

text \<open>\<^verbatim>\<open>realloc\<close> of an array: the common prefix is kept.\<close>

definition resize :: "nat \<Rightarrow> 'a \<Rightarrow> 'a list \<Rightarrow> 'a list" where
  "resize n d xs = take n xs @ replicate (n - length xs) d"

section \<open>Operations\<close>

definition on_shrink :: "(nat \<Rightarrow> bool) \<Rightarrow> pli_task_local \<Rightarrow> pli_task_local" where
  "on_shrink avail st =
     (if on_cap st > PLI_ON_INIT \<and> on_sp st \<le> on_cap st div 4 then
        let cap = on_cap st div 2 in
        if avail cap then st\<lparr>on_stack := resize cap no_frame (on_stack st), on_cap := cap\<rparr> else st
      else st)"

definition rt_pli_on_push :: "(nat \<Rightarrow> bool) \<Rightarrow> int \<Rightarrow> int \<Rightarrow> ptr \<Rightarrow> ptr \<Rightarrow> pli_task_local \<Rightarrow> string + pli_task_local" where
  "rt_pli_on_push avail key ident fn ctx st =
     (let cap = (if on_cap st \<noteq> 0 then on_cap st * 2 else PLI_ON_INIT);
          push = (\<lambda>st. st\<lparr>on_stack := (on_stack st)[on_sp st := \<lparr>fr_key = key, fr_src = 0, fr_id = ident, fr_fn = fn, fr_ctx = ctx\<rparr>],
                          on_sp := on_sp st + 1\<rparr>)
      in if on_sp st = on_cap st then
           (if int cap < 2 ^ 31 \<and> avail cap then Inr (push (st\<lparr>on_stack := resize cap no_frame (on_stack st), on_cap := cap\<rparr>))
            else Inl (''ON stack out of memory for condition key '' @ to_string key))
         else Inr (push st))"

text \<open>The scans from the top: the index of the topmost entry for a key, not below \<open>base\<close>.\<close>

fun scan_down :: "int \<Rightarrow> pli_on_frame list \<Rightarrow> nat \<Rightarrow> nat \<Rightarrow> nat option" where
  "scan_down key stack base 0 = None"
| "scan_down key stack base (Suc i) =
     (if i < base then None else if fr_key (stack ! i) = key then Some i else scan_down key stack base i)"

definition rt_pli_on_top :: "int \<Rightarrow> pli_task_local \<Rightarrow> int" where
  "rt_pli_on_top key st = (case scan_down key (on_stack st) 0 (on_sp st) of Some i \<Rightarrow> fr_id (on_stack st ! i) | None \<Rightarrow> 0)"

definition rt_pli_on_top_fn :: "int \<Rightarrow> pli_task_local \<Rightarrow> ptr" where
  "rt_pli_on_top_fn key st = (case scan_down key (on_stack st) 0 (on_sp st) of Some i \<Rightarrow> fr_fn (on_stack st ! i) | None \<Rightarrow> 0)"

definition rt_pli_on_top_ctx :: "int \<Rightarrow> pli_task_local \<Rightarrow> ptr" where
  "rt_pli_on_top_ctx key st = (case scan_down key (on_stack st) 0 (on_sp st) of Some i \<Rightarrow> fr_ctx (on_stack st ! i) | None \<Rightarrow> 0)"

definition pli_on_top_pair :: "int \<Rightarrow> pli_task_local \<Rightarrow> int \<times> ptr" where
  "pli_on_top_pair key st =
     (case scan_down key (on_stack st) 0 (on_sp st) of Some i \<Rightarrow> (fr_id (on_stack st ! i), fr_ctx (on_stack st ! i)) | None \<Rightarrow> (0, 0))"

definition pli_on_top_fn_pair :: "int \<Rightarrow> pli_task_local \<Rightarrow> ptr \<times> ptr" where
  "pli_on_top_fn_pair key st =
     (case scan_down key (on_stack st) 0 (on_sp st) of Some i \<Rightarrow> (fr_fn (on_stack st ! i), fr_ctx (on_stack st ! i)) | None \<Rightarrow> (0, 0))"

text \<open>Closing the gap an entry leaves.\<close>

definition shift_down :: "nat \<Rightarrow> pli_task_local \<Rightarrow> pli_task_local" where
  "shift_down i st = st\<lparr>on_stack := foldl (\<lambda>xs j. xs[j := xs ! (j + 1)]) (on_stack st) [i ..< on_sp st - 1], on_sp := on_sp st - 1\<rparr>"

definition pli_on_establish :: "(nat \<Rightarrow> bool) \<Rightarrow> int \<Rightarrow> int \<Rightarrow> ptr \<Rightarrow> ptr \<Rightarrow> int \<Rightarrow> pli_task_local \<Rightarrow> string + pli_task_local" where
  "pli_on_establish avail key ident fn ctx base st =
     (let b = (if base < 0 then 0 else base)
      in rt_pli_on_push avail key ident fn ctx
           (case scan_down key (on_stack st) (nat (as_int b)) (on_sp st) of Some i \<Rightarrow> shift_down i st | None \<Rightarrow> st))"

definition pli_on_revert :: "(nat \<Rightarrow> bool) \<Rightarrow> int \<Rightarrow> int \<Rightarrow> pli_task_local \<Rightarrow> pli_task_local" where
  "pli_on_revert avail key base st =
     (if base < 0 \<or> base > int (on_sp st) then st
      else (case scan_down key (on_stack st) (nat (as_int base)) (on_sp st) of
              Some i \<Rightarrow> on_shrink avail (shift_down i st)
            | None \<Rightarrow> st))"

definition rt_pli_on_pop :: "(nat \<Rightarrow> bool) \<Rightarrow> int \<Rightarrow> pli_task_local \<Rightarrow> pli_task_local" where
  "rt_pli_on_pop avail key st =
     (case scan_down key (on_stack st) 0 (on_sp st) of Some i \<Rightarrow> on_shrink avail (shift_down i st) | None \<Rightarrow> st)"

definition pli_on_depth_error :: "pli_task_local \<Rightarrow> int" where
  "pli_on_depth_error st = int (on_sp st)"

definition pli_on_reset_error :: "(nat \<Rightarrow> bool) \<Rightarrow> int \<Rightarrow> pli_task_local \<Rightarrow> pli_task_local" where
  "pli_on_reset_error avail d st =
     (if 0 \<le> d \<and> d \<le> int (on_sp st) then on_shrink avail (st\<lparr>on_sp := nat (as_int d)\<rparr>) else st)"

definition pli_on_push_error :: "(nat \<Rightarrow> bool) \<Rightarrow> int \<Rightarrow> ptr \<Rightarrow> ptr \<Rightarrow> pli_task_local \<Rightarrow> string + pli_task_local" where
  "pli_on_push_error avail ident fn ctx st = rt_pli_on_push avail 0 ident fn ctx st"

definition pli_on_pop_error :: "(nat \<Rightarrow> bool) \<Rightarrow> pli_task_local \<Rightarrow> pli_task_local" where
  "pli_on_pop_error avail st = rt_pli_on_pop avail 0 st"

definition pli_on_top_error :: "pli_task_local \<Rightarrow> int" where
  "pli_on_top_error st = rt_pli_on_top 0 st"

text \<open>The units a new task inherits: all but those for FINISH.\<close>

definition pli_on_inherit :: "(nat \<Rightarrow> bool) \<Rightarrow> pli_task_local \<Rightarrow> pli_task_local \<Rightarrow> string + pli_task_local" where
  "pli_on_inherit avail src dst =
     (let kept = filter (\<lambda>f. fr_key f \<noteq> RT_FINISH_KEY) (take (on_sp src) (on_stack src));
          d = dst\<lparr>on_stack := [], on_sp := 0, on_cap := 0\<rparr>
      in if kept = [] then Inr d
         else if avail (length kept) then Inr (d\<lparr>on_stack := kept, on_sp := length kept, on_cap := length kept\<rparr>)
         else Inl ''ON stack out of memory for inheritance'')"

text \<open>FINISH: the handler to run and its context, when the procedure that returns is the one the task was created for.\<close>

definition pli_task_finish_target :: "ptr \<Rightarrow> pli_task_local \<Rightarrow> pli_task_local" where
  "pli_task_finish_target fn st = st\<lparr>finish_fn := fn\<rparr>"

definition pli_signal_finish :: "ptr \<Rightarrow> pli_task_local \<Rightarrow> (ptr \<times> ptr) option" where
  "pli_signal_finish fn st =
     (if fn = 0 \<or> finish_fn st \<noteq> fn then None
      else case pli_on_top_fn_pair RT_FINISH_KEY st of (h, ctx) \<Rightarrow> if h = 0 then None else Some (h, ctx))"

definition pli_set_oncode :: "int \<Rightarrow> pli_task_local \<Rightarrow> pli_task_local" where
  "pli_set_oncode c st = st\<lparr>oncode := c\<rparr>"

definition pli_onkey :: "pli_task_local \<Rightarrow> int" where
  "pli_onkey st = (if on_sp st > 0 then 1 else 0)"

definition pli_on_source :: "pli_task_local \<Rightarrow> int" where
  "pli_on_source st = (if on_sp st > 0 then as_int (fr_src (on_stack st ! (on_sp st - 1))) else on_source st)"

definition pli_set_on_source :: "int \<Rightarrow> pli_task_local \<Rightarrow> pli_task_local" where
  "pli_set_on_source key st =
     (if on_sp st > 0 then st\<lparr>on_stack := (on_stack st)[on_sp st - 1 := (on_stack st ! (on_sp st - 1))\<lparr>fr_src := key\<rparr>]\<rparr>
      else st\<lparr>on_source := key\<rparr>)"

section \<open>The stack of units\<close>

definition units :: "pli_task_local \<Rightarrow> pli_on_frame list" where
  "units st = take (on_sp st) (on_stack st)"

text \<open>The depth is an \<^verbatim>\<open>int\<close> and within the array.\<close>

definition on_ok :: "pli_task_local \<Rightarrow> bool" where
  "on_ok st \<longleftrightarrow> on_sp st \<le> on_cap st \<and> length (on_stack st) = on_cap st \<and> int (on_cap st) < 2 ^ 31"

fun remove_last :: "int \<Rightarrow> pli_on_frame list \<Rightarrow> pli_on_frame list" where
  "remove_last key [] = []"
| "remove_last key (f # fs) = (if fr_key f = key \<and> key \<notin> fr_key ` set fs then fs else f # remove_last key fs)"

definition top_unit :: "int \<Rightarrow> pli_on_frame list \<Rightarrow> pli_on_frame option" where
  "top_unit key fs = List.find (\<lambda>f. fr_key f = key) (rev fs)"

lemma resize_simps [simp]: "length (resize n d xs) = n" "n \<le> length xs \<Longrightarrow> resize n d xs = take n xs"
  "k \<le> n \<Longrightarrow> k \<le> length xs \<Longrightarrow> take k (resize n d xs) = take k xs"
  by (simp_all add: resize_def min_def)

lemma as_int_small: "0 \<le> v \<Longrightarrow> v < 2 ^ 31 \<Longrightarrow> as_int v = v"
  by (simp add: as_int_def sint_of_int)

lemma length_units: "on_ok st \<Longrightarrow> length (units st) = on_sp st"
  by (simp add: units_def on_ok_def)

lemma units_nth: "i < on_sp st \<Longrightarrow> units st ! i = on_stack st ! i"
  by (simp add: units_def)

lemma shrink_units: "on_ok st \<Longrightarrow> on_ok (on_shrink avail st) \<and> units (on_shrink avail st) = units st"
  by (auto simp: on_shrink_def on_ok_def units_def Let_def PLI_ON_INIT_def)

lemma push_units:
  assumes "on_ok st" and "rt_pli_on_push avail key ident fn ctx st = Inr t"
  shows "on_ok t \<and> units t = units st @ [\<lparr>fr_key = key, fr_src = 0, fr_id = ident, fr_fn = fn, fr_ctx = ctx\<rparr>]"
  using assms
  by (auto simp: rt_pli_on_push_def on_ok_def units_def Let_def PLI_ON_INIT_def take_Suc_conv_app_nth split: if_splits)

lemma scan_down_spec:
  "sp \<le> length xs \<Longrightarrow> (case scan_down key xs base sp of
     None \<Rightarrow> \<forall>j. base \<le> j \<and> j < sp \<longrightarrow> fr_key (xs ! j) \<noteq> key
   | Some i \<Rightarrow> base \<le> i \<and> i < sp \<and> fr_key (xs ! i) = key \<and> (\<forall>j. i < j \<and> j < sp \<longrightarrow> fr_key (xs ! j) \<noteq> key))"
  by (induction sp) (auto simp: less_Suc_eq split: option.splits)

lemma foldl_shift: "n < length xs \<Longrightarrow> length (foldl (\<lambda>xs j. xs[j := xs ! (j + 1)]) xs [i ..< n]) = length xs \<and>
   (\<forall>k < length xs. foldl (\<lambda>xs j. xs[j := xs ! (j + 1)]) xs [i ..< n] ! k = (if i \<le> k \<and> k < n then xs ! Suc k else xs ! k))"
  by (induction n) (auto simp: nth_list_update less_Suc_eq)

lemma shift_units: "on_ok st \<Longrightarrow> i < on_sp st \<Longrightarrow> on_ok (shift_down i st) \<and> units (shift_down i st) = take i (units st) @ drop (Suc i) (units st)"
proof -
  assume a: "on_ok st" "i < on_sp st"
  then have n: "on_sp st - 1 < length (on_stack st)" by (auto simp: on_ok_def)
  from foldl_shift [OF this, of i] a have ok: "on_ok (shift_down i st)" by (auto simp: shift_down_def on_ok_def)
  moreover have "units (shift_down i st) = take i (units st) @ drop (Suc i) (units st)"
  proof (rule nth_equalityI)
    show "length (units (shift_down i st)) = length (take i (units st) @ drop (Suc i) (units st))"
      using length_units [OF ok] length_units [OF a(1)] a(2) by (simp add: shift_down_def)
    fix k assume "k < length (units (shift_down i st))"
    then have k: "k < on_sp st - 1" using length_units [OF ok] by (simp add: shift_down_def)
    then show "units (shift_down i st) ! k = (take i (units st) @ drop (Suc i) (units st)) ! k"
      using foldl_shift [OF n, of i] n a(2) length_units [OF a(1)] by (auto simp: shift_down_def units_def nth_append)
  qed
  ultimately show ?thesis by blast
qed

lemma remove_last_at: "i < length fs \<Longrightarrow> fr_key (fs ! i) = key \<Longrightarrow> (\<forall>j. i < j \<and> j < length fs \<longrightarrow> fr_key (fs ! j) \<noteq> key) \<Longrightarrow>
   remove_last key fs = take i fs @ drop (Suc i) fs"
proof (induction fs arbitrary: i)
  case (Cons f fs)
  show ?case
  proof (cases i)
    case 0
    with Cons.prems have "key \<notin> fr_key ` set fs" by (auto simp: in_set_conv_nth) force
    with Cons.prems 0 show ?thesis by simp
  next
    case (Suc k)
    with Cons.prems have "key \<in> fr_key ` set fs" by auto
    moreover have "remove_last key fs = take k fs @ drop (Suc k) fs" using Cons.prems Suc by (intro Cons.IH) auto
    ultimately show ?thesis using Suc by simp
  qed
qed simp

lemma remove_last_absent: "key \<notin> fr_key ` set fs \<Longrightarrow> remove_last key fs = fs"
  by (induction fs) auto

text \<open>What the scan and the shift do together.\<close>

lemma scan_units:
  assumes "on_ok st" and "base \<le> on_sp st"
  shows "case scan_down key (on_stack st) base (on_sp st) of
      None \<Rightarrow> remove_last key (drop base (units st)) = drop base (units st) \<and> top_unit key (drop base (units st)) = None
    | Some i \<Rightarrow> base \<le> i \<and> i < on_sp st \<and> take i (units st) @ drop (Suc i) (units st) = take base (units st) @ remove_last key (drop base (units st)) \<and>
        top_unit key (drop base (units st)) = Some (on_stack st ! i)"
proof (cases "scan_down key (on_stack st) base (on_sp st)")
  case None
  with scan_down_spec [where sp = "on_sp st" and xs = "on_stack st" and key = key and base = base] assms have "\<forall>j. base \<le> j \<and> j < on_sp st \<longrightarrow> fr_key (units st ! j) \<noteq> key"
    by (simp add: on_ok_def units_nth)
  then have "key \<notin> fr_key ` set (drop base (units st))" 
    using length_units [OF assms(1)] by (auto simp: in_set_conv_nth) (metis le_add1 less_diff_conv add.commute)
  then show ?thesis using None by (auto simp: remove_last_absent top_unit_def find_None_iff)
next
  case (Some i)
  let ?d = "drop base (units st)"
  from Some scan_down_spec [where sp = "on_sp st" and xs = "on_stack st" and key = key and base = base] assms have i: "base \<le> i" "i < on_sp st" "fr_key (units st ! i) = key"
    "\<forall>j. i < j \<and> j < on_sp st \<longrightarrow> fr_key (units st ! j) \<noteq> key" by (simp_all add: on_ok_def units_nth)
  have n: "length ?d = on_sp st - base" using length_units [OF assms(1)] by simp
  have "remove_last key ?d = take (i - base) ?d @ drop (Suc (i - base)) ?d"
  proof (intro remove_last_at)
    show "\<forall>j. i - base < j \<and> j < length ?d \<longrightarrow> fr_key (?d ! j) \<noteq> key"
    proof (intro allI impI)
      fix j assume "i - base < j \<and> j < length ?d"
      then have "i < base + j \<and> base + j < on_sp st" using n i(1) by linarith
      with i(4) length_units [OF assms(1)] show "fr_key (?d ! j) \<noteq> key" by simp
    qed
  qed (use i n in auto)
  moreover have "take i (units st) = take base (units st) @ take (i - base) ?d" using i(1) by (simp flip: take_add)
  moreover have "top_unit key ?d = Some (units st ! i)"
  proof -
    have "top_unit key ?d \<noteq> None" using i n length_units [OF assms(1)] by (auto simp: top_unit_def find_None_iff in_set_conv_nth intro!: exI [of _ "i - base"])
    then obtain f where f: "top_unit key ?d = Some f" by blast
    then obtain k where k: "k < length ?d" "fr_key (rev ?d ! k) = key" "f = rev ?d ! k" "\<forall>j<k. fr_key (rev ?d ! j) \<noteq> key"
      by (auto simp: top_unit_def find_Some_iff)
    let ?j = "on_sp st - Suc k"
    have j: "rev ?d ! k = units st ! ?j" "?j < on_sp st" "base \<le> ?j" using k(1) n length_units [OF assms(1)] by (simp_all add: rev_nth) 
    have "?j = i"
    proof (rule ccontr)
      assume "?j \<noteq> i"
      with i(4) k(2) j have "?j < i" by (metis linorder_neqE_nat)
      then have "on_sp st - Suc i < k" using i(2) by linarith
      moreover have "rev ?d ! (on_sp st - Suc i) = units st ! i" using i n length_units [OF assms(1)] by (simp add: rev_nth)
      ultimately show False using k(4) i(3) by metis
    qed
    with f k(3) j(1) show ?thesis by simp
  qed
  ultimately show ?thesis using Some i by (simp add: units_nth)
qed

lemma establish_units:
  assumes "on_ok st" and "base \<le> on_sp st" and "pli_on_establish avail key ident fn ctx (int base) st = Inr t"
  shows "on_ok t \<and> units t = take base (units st) @ remove_last key (drop base (units st)) @ [\<lparr>fr_key = key, fr_src = 0, fr_id = ident, fr_fn = fn, fr_ctx = ctx\<rparr>]"
proof -
  have b: "nat (as_int (int base)) = base" using assms(1, 2) by (simp add: as_int_small on_ok_def)
  let ?r = "case scan_down key (on_stack st) base (on_sp st) of Some i \<Rightarrow> shift_down i st | None \<Rightarrow> st"
  have "on_ok ?r \<and> units ?r = take base (units st) @ remove_last key (drop base (units st))"
    using scan_units [OF assms(1, 2), of key] assms(1) shift_units [OF assms(1)] by (auto split: option.splits)
  moreover have "rt_pli_on_push avail key ident fn ctx ?r = Inr t" using assms(3) b by (simp add: pli_on_establish_def)
  ultimately show ?thesis using push_units by fastforce
qed

lemma revert_units:
  assumes "on_ok st" and "base \<le> on_sp st"
  shows "on_ok (pli_on_revert avail key (int base) st) \<and>
    units (pli_on_revert avail key (int base) st) = take base (units st) @ remove_last key (drop base (units st))"
proof -
  have b: "nat (as_int (int base)) = base" using assms by (simp add: as_int_small on_ok_def)
  show ?thesis using scan_units [OF assms, of key] assms shift_units [OF assms(1)] shrink_units b
    by (auto simp: pli_on_revert_def split: option.splits)
qed

lemma reset_units:
  assumes "on_ok st" and "d \<le> on_sp st"
  shows "on_ok (pli_on_reset_error avail (int d) st) \<and> units (pli_on_reset_error avail (int d) st) = take d (units st)"
proof -
  have "nat (as_int (int d)) = d" using assms by (simp add: as_int_small on_ok_def)
  moreover have "on_ok (st\<lparr>on_sp := d\<rparr>)" "units (st\<lparr>on_sp := d\<rparr>) = take d (units st)" using assms by (auto simp: on_ok_def units_def min_def)
  ultimately show ?thesis using shrink_units assms(2) by (simp add: pli_on_reset_error_def)
qed

section \<open>Block activations\<close>

text \<open>
  What compiled code does with the units: a block saves the depth at its entry, establishes and reverts units above
  it, runs inner blocks and resets the depth at its exit.
\<close>

datatype ('k, 'f) on_act = On 'f | Revert 'k | Block "('k, 'f) on_act list"

fun exec_act :: "(nat \<Rightarrow> 'f \<Rightarrow> 's \<Rightarrow> 's option) \<Rightarrow> (nat \<Rightarrow> 'k \<Rightarrow> 's \<Rightarrow> 's) \<Rightarrow> (nat \<Rightarrow> 's \<Rightarrow> 's) \<Rightarrow> ('s \<Rightarrow> nat) \<Rightarrow>
      nat \<Rightarrow> ('k, 'f) on_act \<Rightarrow> 's \<Rightarrow> 's option"
  and exec_acts :: "(nat \<Rightarrow> 'f \<Rightarrow> 's \<Rightarrow> 's option) \<Rightarrow> (nat \<Rightarrow> 'k \<Rightarrow> 's \<Rightarrow> 's) \<Rightarrow> (nat \<Rightarrow> 's \<Rightarrow> 's) \<Rightarrow> ('s \<Rightarrow> nat) \<Rightarrow>
      nat \<Rightarrow> ('k, 'f) on_act list \<Rightarrow> 's \<Rightarrow> 's option" where
  "exec_act est rvt rst depth b (On f) s = est b f s"
| "exec_act est rvt rst depth b (Revert k) s = Some (rvt b k s)"
| "exec_act est rvt rst depth b (Block acts) s = map_option (rst (depth s)) (exec_acts est rvt rst depth (depth s) acts s)"
| "exec_acts est rvt rst depth b [] s = Some s"
| "exec_acts est rvt rst depth b (a # acts) s =
     (case exec_act est rvt rst depth b a s of None \<Rightarrow> None | Some t \<Rightarrow> exec_acts est rvt rst depth b acts t)"

text \<open>The contract of a stack of units with scoped operations.\<close>

locale scoped_units =
  fixes stack_of :: "'s \<Rightarrow> 'f list" and key_of :: "'f \<Rightarrow> 'k" and valid :: "'s \<Rightarrow> bool" and depth :: "'s \<Rightarrow> nat"
    and establish :: "nat \<Rightarrow> 'f \<Rightarrow> 's \<Rightarrow> 's option" and revert :: "nat \<Rightarrow> 'k \<Rightarrow> 's \<Rightarrow> 's" and reset :: "nat \<Rightarrow> 's \<Rightarrow> 's"
    and less :: "'k \<Rightarrow> 'f list \<Rightarrow> 'f list"
  assumes depth_law: "valid s \<Longrightarrow> depth s = length (stack_of s)"
    and establish_law: "valid s \<Longrightarrow> b \<le> depth s \<Longrightarrow> establish b f s = Some t \<Longrightarrow>
      valid t \<and> stack_of t = take b (stack_of s) @ less (key_of f) (drop b (stack_of s)) @ [f]"
    and revert_law: "valid s \<Longrightarrow> b \<le> depth s \<Longrightarrow>
      valid (revert b k s) \<and> stack_of (revert b k s) = take b (stack_of s) @ less k (drop b (stack_of s))"
    and reset_law: "valid s \<Longrightarrow> b \<le> depth s \<Longrightarrow> valid (reset b s) \<and> stack_of (reset b s) = take b (stack_of s)"
    and less_law: "distinct (map key_of fs) \<Longrightarrow> distinct (map key_of (less k fs)) \<and> set (map key_of (less k fs)) = set (map key_of fs) - {k}"
begin

abbreviation exec :: "nat \<Rightarrow> ('k, 'f) on_act \<Rightarrow> 's \<Rightarrow> 's option" where
  "exec \<equiv> exec_act establish revert reset depth"

abbreviation execs :: "nat \<Rightarrow> ('k, 'f) on_act list \<Rightarrow> 's \<Rightarrow> 's option" where
  "execs \<equiv> exec_acts establish revert reset depth"

definition within :: "nat \<Rightarrow> 's \<Rightarrow> 's \<Rightarrow> bool" where
  "within b s t \<longleftrightarrow> valid t \<and> b \<le> depth t \<and> take b (stack_of t) = take b (stack_of s) \<and>
     (distinct (map key_of (drop b (stack_of s))) \<longrightarrow> distinct (map key_of (drop b (stack_of t))))"

lemma withinI: "valid s \<Longrightarrow> b \<le> depth s \<Longrightarrow> valid t \<and> stack_of t = take b (stack_of s) @ fs \<Longrightarrow>
    (distinct (map key_of (drop b (stack_of s))) \<Longrightarrow> distinct (map key_of fs)) \<Longrightarrow> within b s t"
  using depth_law [of s] depth_law [of t] by (simp add: within_def min_def)

lemma within_refl: "valid s \<Longrightarrow> b \<le> depth s \<Longrightarrow> within b s s"
  by (simp add: within_def)

lemma within_trans: "within b s t \<Longrightarrow> within b t u \<Longrightarrow> within b s u"
  by (auto simp: within_def)

lemma inner_restores: "valid s \<Longrightarrow> within (depth s) s u \<Longrightarrow> valid (reset (depth s) u) \<and> stack_of (reset (depth s) u) = stack_of s"
  using reset_law [of u "depth s"] depth_law [of s] by (simp add: within_def)

lemma execs_step:
  "(\<And>a b s t. a \<in> set acts \<Longrightarrow> valid s \<Longrightarrow> b \<le> depth s \<Longrightarrow> exec b a s = Some t \<Longrightarrow> within b s t) \<Longrightarrow>
   valid s \<Longrightarrow> b \<le> depth s \<Longrightarrow> execs b acts s = Some t \<Longrightarrow> within b s t"
proof (induction acts arbitrary: s)
  case (Cons a acts)
  from Cons.prems(4) obtain u where u: "exec b a s = Some u" "execs b acts u = Some t" by (auto split: option.splits)
  from Cons.prems(1) [of a s b u] Cons.prems(2, 3) u(1) have w: "within b s u" by simp
  with Cons.IH [of u] Cons.prems(1) u(2) have "within b u t" by (auto simp: within_def)
  with w show ?case by (rule within_trans)
qed (simp add: within_refl)

lemma exec_within: "valid s \<Longrightarrow> b \<le> depth s \<Longrightarrow> exec b a s = Some t \<Longrightarrow> within b s t"
proof (induction a arbitrary: b s t)
  case (On f)
  then have "valid t \<and> stack_of t = take b (stack_of s) @ less (key_of f) (drop b (stack_of s)) @ [f]" using establish_law [of s b f t] by simp
  with less_law [of "drop b (stack_of s)" "key_of f"] show ?case
    using On.prems by (intro withinI [where fs = "less (key_of f) (drop b (stack_of s)) @ [f]"]) simp_all
next
  case (Revert k)
  then have "valid t \<and> stack_of t = take b (stack_of s) @ less k (drop b (stack_of s))" using revert_law [of s b k] by simp
  with less_law [of "drop b (stack_of s)" k] show ?case
    using Revert.prems by (intro withinI [where fs = "less k (drop b (stack_of s))"]) simp_all
next
  case (Block acts)
  from Block.prems(3) obtain u where u: "execs (depth s) acts s = Some u" "t = reset (depth s) u" by auto
  have "within (depth s) s u" by (rule execs_step [OF Block.IH Block.prems(1) order_refl u(1)])
  with inner_restores [OF Block.prems(1)] u(2) depth_law [of t] depth_law [of s] Block.prems show ?case by (simp add: within_def)
qed

lemma execs_within: "valid s \<Longrightarrow> b \<le> depth s \<Longrightarrow> execs b acts s = Some t \<Longrightarrow> within b s t"
  by (rule execs_step) (auto intro: exec_within)

lemma block_restores: "valid s \<Longrightarrow> exec b (Block acts) s = Some t \<Longrightarrow> valid t \<and> stack_of t = stack_of s"
  using execs_within [of s "depth s" acts] inner_restores [of s] by auto

lemma one_unit_per_condition: "valid s \<Longrightarrow> execs (depth s) acts s = Some t \<Longrightarrow>
    take (depth s) (stack_of t) = stack_of s \<and> distinct (map key_of (drop (depth s) (stack_of t)))"
  using execs_within [of s "depth s" acts t] depth_law [of s] by (auto simp: within_def)

end

definition model_establish :: "(nat \<Rightarrow> bool) \<Rightarrow> nat \<Rightarrow> pli_on_frame \<Rightarrow> pli_task_local \<Rightarrow> pli_task_local option" where
  "model_establish avail b f st =
     (if fr_src f = 0 then
        (case pli_on_establish avail (fr_key f) (fr_id f) (fr_fn f) (fr_ctx f) (int b) st of Inr t \<Rightarrow> Some t | Inl _ \<Rightarrow> None)
      else None)"

lemma remove_last_keys: "distinct (map fr_key fs) \<Longrightarrow> distinct (map fr_key (remove_last k fs)) \<and> set (map fr_key (remove_last k fs)) = set (map fr_key fs) - {k}"
  by (induction fs) auto

interpretation on: scoped_units units fr_key on_ok on_sp "model_establish avail" "\<lambda>b k. pli_on_revert avail k (int b)"
    "\<lambda>b. pli_on_reset_error avail (int b)" remove_last for avail
proof
  fix s b f t
  assume "on_ok s" "b \<le> on_sp s" "model_establish avail b f s = Some t"
  then show "on_ok t \<and> units t = take b (units s) @ remove_last (fr_key f) (drop b (units s)) @ [f]"
    using establish_units [of s b avail "fr_key f" "fr_id f" "fr_fn f" "fr_ctx f" t]
    by (cases f) (auto simp: model_establish_def split: if_splits sum.splits)
qed (use revert_units reset_units length_units remove_last_keys in auto)

definition on_acts :: "(nat \<Rightarrow> bool) \<Rightarrow> nat \<Rightarrow> (int, pli_on_frame) on_act list \<Rightarrow> pli_task_local \<Rightarrow> pli_task_local option" where
  "on_acts avail = exec_acts (model_establish avail) (\<lambda>b k. pli_on_revert avail k (int b)) (\<lambda>b. pli_on_reset_error avail (int b)) on_sp"

text \<open>C38: Block activations are isolated: however a block establishes and reverts units and runs inner blocks, it never touches the units of the enclosing
  activations, it has at most one unit per condition, and resetting the depth at its exit leaves exactly the stack it found.\<close>
theorem block_activations_are_isolated:
  assumes "on_ok st" and "on_acts avail (on_sp st) acts st = Some t"
  shows "take (on_sp st) (units t) = units st \<and> distinct (map fr_key (drop (on_sp st) (units t))) \<and>
    on_ok (pli_on_reset_error avail (int (on_sp st)) t) \<and> units (pli_on_reset_error avail (int (on_sp st)) t) = units st"
  using on.one_unit_per_condition [OF assms(1) assms(2) [unfolded on_acts_def]]
    on.block_restores [OF assms(1), of avail 0 acts] assms(2) by (simp add: on_acts_def)

theorem block_activations_are_isolated_witness:
  "let st = \<lparr>on_stack = [], on_sp = 0, on_cap = 0, oncode = 0, on_source = 0, finish_fn = 0\<rparr>;
       f = \<lparr>fr_key = 3, fr_src = 0, fr_id = 1, fr_fn = 7, fr_ctx = 9\<rparr> in
   \<exists>t. on_acts (\<lambda>_. True) 0 [On f, Block [On f, On f, Revert 3], On f] st = Some t \<and> units (pli_on_reset_error (\<lambda>_. True) 0 t) = []"
proof -
  let ?st = "\<lparr>on_stack = [], on_sp = 0, on_cap = 0, oncode = 0, on_source = 0, finish_fn = 0\<rparr> :: pli_task_local"
  let ?f = "\<lparr>fr_key = 3, fr_src = 0, fr_id = 1, fr_fn = 7, fr_ctx = 9\<rparr>"
  have ok: "on_ok ?st" by code_simp
  have "\<not> Option.is_none (on_acts (\<lambda>_. True) 0 [On ?f, Block [On ?f, On ?f, Revert 3], On ?f] ?st)" by code_simp
  then obtain t where t: "on_acts (\<lambda>_. True) (on_sp ?st) [On ?f, Block [On ?f, On ?f, Revert 3], On ?f] ?st = Some t"
    by (auto simp: Option.is_none_def)
  from block_activations_are_isolated [OF ok t] t show ?thesis by (auto simp: Let_def units_def)
qed

section \<open>Dispatch\<close>

definition handler_of :: "pli_on_frame option \<Rightarrow> ptr \<times> ptr" where
  "handler_of u = (case u of None \<Rightarrow> (0, 0) | Some f \<Rightarrow> (fr_fn f, fr_ctx f))"

lemma top_pair_units: "on_ok st \<Longrightarrow> pli_on_top_fn_pair key st = handler_of (top_unit key (units st))"
  using scan_units [of st 0 key] by (auto simp: pli_on_top_fn_pair_def handler_of_def split: option.splits)

lemma top_unit_append: "top_unit key (xs @ ys) = (case top_unit key ys of None \<Rightarrow> top_unit key xs | Some f \<Rightarrow> Some f)"
proof -
  have "List.find P (us @ vs) = (case List.find P us of None \<Rightarrow> List.find P vs | Some f \<Rightarrow> Some f)" for P :: "pli_on_frame \<Rightarrow> bool" and us vs
    by (induction us) auto
  then show ?thesis by (simp add: top_unit_def split: option.split)
qed

lemma top_unit_single [simp]: "top_unit key [f] = (if fr_key f = key then Some f else None)" "top_unit key [] = None"
  by (simp_all add: top_unit_def)

lemma top_unit_remove: "key2 \<noteq> key \<Longrightarrow> top_unit key2 (remove_last key fs) = top_unit key2 fs"
proof (induction fs)
  case (Cons f fs)
  then show ?case using top_unit_append [of key2 "[f]" fs] top_unit_append [of key2 "[f]" "remove_last key fs"]
    by (auto split: option.split)
qed simp

lemma top_unit_one: "distinct (map fr_key fs) \<Longrightarrow> top_unit key (remove_last key fs) = None"
proof -
  assume "distinct (map fr_key fs)"
  then have "key \<notin> set (map fr_key (remove_last key fs))" using remove_last_keys by blast
  then show ?thesis by (auto simp: top_unit_def find_None_iff)
qed

text \<open>C39: Dispatch follows establishment: after an ON the handler found for its condition is the unit just established with its own context, the handlers of every
  other condition are as before, and after a REVERT in the same activation the handler is that of the enclosing activations.\<close>
theorem dispatch_finds_the_established_unit:
  assumes "on_ok st" and "base \<le> on_sp st" and "distinct (map fr_key (drop base (units st)))"
    and "pli_on_establish avail key ident fn ctx (int base) st = Inr t"
  shows "pli_on_top_fn_pair key t = (fn, ctx) \<and> (key2 \<noteq> key \<longrightarrow> pli_on_top_fn_pair key2 t = pli_on_top_fn_pair key2 st) \<and>
    pli_on_top_fn_pair key (pli_on_revert avail key (int base) t) = handler_of (top_unit key (take base (units st)))"
proof -
  let ?f = "\<lparr>fr_key = key, fr_src = 0, fr_id = ident, fr_fn = fn, fr_ctx = ctx\<rparr>"
  from establish_units [OF assms(1, 2, 4)] have t: "on_ok t" "units t = take base (units st) @ remove_last key (drop base (units st)) @ [?f]" by simp_all
  have b: "base \<le> on_sp t" using length_units [OF t(1)] length_units [OF assms(1)] assms(2) t(2) by simp
  have "pli_on_top_fn_pair key t = (fn, ctx)"
    using t by (simp add: top_pair_units top_unit_append handler_of_def)
  moreover have "pli_on_top_fn_pair key2 t = pli_on_top_fn_pair key2 st" if "key2 \<noteq> key"
  proof -
    have "top_unit key2 (units st) = top_unit key2 (take base (units st) @ drop base (units st))" by simp
    with that t assms(1) show ?thesis by (simp add: top_pair_units top_unit_append top_unit_remove del: append_take_drop_id)
  qed
  moreover have "distinct (map fr_key (drop base (units t)))"
    using assms(2, 3) t(2) remove_last_keys [OF assms(3), of key] length_units [OF assms(1)] by simp
  then have "pli_on_top_fn_pair key (pli_on_revert avail key (int base) t) = handler_of (top_unit key (take base (units st)))"
    using revert_units [OF t(1) b, of avail key] top_unit_one [of "drop base (units t)" key] assms(2) length_units [OF assms(1)] t(2)
    by (simp add: top_pair_units top_unit_append)
  ultimately show ?thesis by blast
qed

theorem dispatch_finds_the_established_unit_witness:
  "\<exists>t. pli_on_establish (\<lambda>_. True) 3 1 7 9 0 \<lparr>on_stack = [], on_sp = 0, on_cap = 0, oncode = 0, on_source = 0, finish_fn = 0\<rparr> = Inr t \<and>
     pli_on_top_fn_pair 3 t = (7, 9)"
proof -
  let ?st = "\<lparr>on_stack = [], on_sp = 0, on_cap = 0, oncode = 0, on_source = 0, finish_fn = 0\<rparr> :: pli_task_local"
  have ok: "on_ok ?st" "distinct (map fr_key (drop 0 (units ?st)))" by code_simp+
  have "case pli_on_establish (\<lambda>_. True) 3 1 7 9 0 ?st of Inr t \<Rightarrow> True | Inl _ \<Rightarrow> False" by code_simp
  then obtain t where t: "pli_on_establish (\<lambda>_. True) 3 1 7 9 (int 0) ?st = Inr t" by (auto split: sum.splits)
  from dispatch_finds_the_established_unit [OF ok(1) _ ok(2) t] t show ?thesis by auto
qed

text \<open>A new task inherits every unit but those for FINISH, in the same order.\<close>
lemma inherited_units: "pli_on_inherit avail src dst = Inr t \<Longrightarrow> length (units src) < 2 ^ 31 \<Longrightarrow>
   on_ok t \<and> units t = filter (\<lambda>f. fr_key f \<noteq> RT_FINISH_KEY) (units src) \<and> oncode t = oncode dst"
  using length_filter_le [of "\<lambda>f. fr_key f \<noteq> RT_FINISH_KEY" "units src"]
  by (auto simp: pli_on_inherit_def units_def on_ok_def Let_def split: if_splits)

lemma finish_never_inherited: "pli_on_inherit avail src dst = Inr t \<Longrightarrow> length (units src) < 2 ^ 31 \<Longrightarrow> pli_signal_finish fn t = None"
proof -
  assume "pli_on_inherit avail src dst = Inr t" "length (units src) < 2 ^ 31"
  from inherited_units [OF this] have "on_ok t" "top_unit RT_FINISH_KEY (units t) = None" by (auto simp: top_unit_def find_None_iff)
  then show ?thesis by (simp add: pli_signal_finish_def top_pair_units handler_of_def)
qed

end
