(* ===== verification/RtStorage.thy ===== *)
theory RtStorage
  imports RtCond
begin

text \<open>
  Storage of the runtime, \<^verbatim>\<open>src/runtime/rt_storage.c\<close>: the generation stacks of CONTROLLED variables and AREA
  regions.  The allocator of the platform is a parameter: it gets the addresses in use and gives an
  address or null; \<open>fresh_malloc\<close> is what the code relies on.  An exit of the program is \<^const>\<open>Inl\<close> of the message.
  The table of CONTROLLED variables is a list, a pointer into it an index, the parallel arrays of a variable
  lists of its capacity, a block of extents (null when there are none) a list.  The lemmas show that the table with its two caches implements a map from
  names to stacks, that no two generations share storage, and that a region accounts for its blocks exactly.
\<close>

section \<open>The platform\<close>

record plat =
  pl_malloc :: "ptr set \<Rightarrow> nat \<Rightarrow> ptr"
  pl_grow :: "nat \<Rightarrow> bool"

definition fresh_malloc :: "plat \<Rightarrow> bool" where
  "fresh_malloc pl \<longleftrightarrow> (\<forall>used n. pl_malloc pl used n = 0 \<or> pl_malloc pl used n \<notin> used)"

lemma freshD: "fresh_malloc pl \<Longrightarrow> pl_malloc pl used n \<noteq> 0 \<Longrightarrow> pl_malloc pl used n \<notin> used"
  unfolding fresh_malloc_def by metis

section \<open>CONTROLLED variables\<close>

record CtlVar =
  cv_key :: int
  cv_gens :: "ptr list"
  cv_lens :: "int list"
  cv_ranks :: "int list"
  cv_dimss :: "int list list"
  cv_depth :: nat
  cv_cap :: nat

record ctl_state =
  ct_vars :: "CtlVar list"
  ct_last :: "nat option"
  ct_cache_key :: int
  ct_cache_bytes :: ptr
  ct_cache_len :: int
  ct_heap :: "ptr set"

definition pli_alloc :: "plat \<Rightarrow> int \<Rightarrow> ctl_state \<Rightarrow> string + (ptr \<times> ctl_state)" where
  "pli_alloc pl n st =
     (let p = pl_malloc pl (ct_heap st) (nat (if n < 0 then 0 else n)) in
      if p = 0 then Inl ''ALLOCATION: out of memory'' else Inr (p, st\<lparr>ct_heap := insert p (ct_heap st)\<rparr>))"

definition pli_free :: "ptr \<Rightarrow> ctl_state \<Rightarrow> ctl_state" where
  "pli_free p st = st\<lparr>ct_heap := ct_heap st - {p}\<rparr>"

fun key_index :: "int \<Rightarrow> CtlVar list \<Rightarrow> nat option" where
  "key_index key [] = None"
| "key_index key (v # vs) = (if cv_key v = key then Some 0 else map_option Suc (key_index key vs))"

definition new_var :: "int \<Rightarrow> CtlVar" where
  "new_var key = \<lparr>cv_key = key, cv_gens = [], cv_lens = [], cv_ranks = [], cv_dimss = [], cv_depth = 0, cv_cap = 0\<rparr>"

definition sizeof_CtlVar :: nat where
  "sizeof_CtlVar = 56"

definition ctlFind :: "plat \<Rightarrow> int \<Rightarrow> bool \<Rightarrow> ctl_state \<Rightarrow> string + (nat option \<times> ctl_state)" where
  "ctlFind pl key create st =
     (let count = length (ct_vars st) in
      case (case ct_last st of Some i \<Rightarrow> if count > 0 \<and> cv_key (ct_vars st ! i) = key then Some i else None | None \<Rightarrow> None) of
        Some i \<Rightarrow> Inr (Some i, st)
      | None \<Rightarrow>
          (case key_index key (ct_vars st) of
             Some i \<Rightarrow> Inr (Some i, st\<lparr>ct_last := Some i\<rparr>)
           | None \<Rightarrow>
               if \<not> create then Inr (None, st)
               else if \<not> pl_grow pl ((count + 1) * sizeof_CtlVar) then Inl ''CONTROLLED table out of memory''
               else Inr (Some count, st\<lparr>ct_vars := ct_vars st @ [new_var key], ct_last := Some count\<rparr>)))"

definition upd_var :: "nat \<Rightarrow> (CtlVar \<Rightarrow> CtlVar) \<Rightarrow> ctl_state \<Rightarrow> ctl_state" where
  "upd_var i f st = st\<lparr>ct_vars := (ct_vars st)[i := f (ct_vars st ! i)]\<rparr>"

definition ctlGrow :: "plat \<Rightarrow> nat \<Rightarrow> ctl_state \<Rightarrow> string + ctl_state" where
  "ctlGrow pl i st =
     (let v = ct_vars st ! i; ncap = (if cv_cap v \<noteq> 0 then cv_cap v * 2 else 4) in
      if cv_depth v < cv_cap v then Inr st
      else if \<not> pl_grow pl (ncap * 8) then Inl ''CONTROLLED generation stack out of memory''
      else Inr (upd_var i (\<lambda>v. v\<lparr>cv_gens := resize ncap 0 (cv_gens v), cv_lens := resize ncap 0 (cv_lens v),
             cv_ranks := resize ncap 0 (cv_ranks v), cv_dimss := resize ncap [] (cv_dimss v), cv_cap := ncap\<rparr>) st))"

definition push_gen :: "ptr \<Rightarrow> int \<Rightarrow> int list \<Rightarrow> CtlVar \<Rightarrow> CtlVar" where
  "push_gen p n dims v =
     v\<lparr>cv_gens := (cv_gens v)[cv_depth v := p], cv_lens := (cv_lens v)[cv_depth v := n],
       cv_ranks := (cv_ranks v)[cv_depth v := int (length dims)], cv_dimss := (cv_dimss v)[cv_depth v := dims], cv_depth := cv_depth v + 1\<rparr>"

definition pli_ctl_alloc :: "plat \<Rightarrow> int \<Rightarrow> int \<Rightarrow> ctl_state \<Rightarrow> string + (ptr \<times> ctl_state)" where
  "pli_ctl_alloc pl key n st =
     (case ctlFind pl key True st of
        Inl e \<Rightarrow> Inl e
      | Inr (None, s1) \<Rightarrow> Inr (0, s1)
      | Inr (Some i, s1) \<Rightarrow>
          (case ctlGrow pl i s1 of
             Inl e \<Rightarrow> Inl e
           | Inr s2 \<Rightarrow>
               (case (if ct_cache_bytes s2 \<noteq> 0 \<and> ct_cache_key s2 = key \<and> ct_cache_len s2 = n
                      then Inr (ct_cache_bytes s2, s2\<lparr>ct_cache_bytes := 0\<rparr>) else pli_alloc pl n s2) of
                  Inl e \<Rightarrow> Inl e
                | Inr (p, s3) \<Rightarrow> Inr (p, upd_var i (push_gen p n []) s3))))"

definition pli_ctl_alloc_dims :: "plat \<Rightarrow> int \<Rightarrow> int \<Rightarrow> int \<Rightarrow> ctl_state \<Rightarrow> string + (ptr \<times> ctl_state)" where
  "pli_ctl_alloc_dims pl key n rank st =
     (case ctlFind pl key True st of
        Inl e \<Rightarrow> Inl e
      | Inr (None, s1) \<Rightarrow> Inr (0, s1)
      | Inr (Some i, s1) \<Rightarrow>
          let r = (if rank < 0 then 0 else rank) in
          (case ctlGrow pl i s1 of
             Inl e \<Rightarrow> Inl e
           | Inr s2 \<Rightarrow>
               (case pli_alloc pl n s2 of
                  Inl e \<Rightarrow> Inl e
                | Inr (p, s3) \<Rightarrow>
                    if r \<noteq> 0 \<and> \<not> pl_grow pl (nat r * 8) then Inl ''CONTROLLED generation stack out of memory''
                    else Inr (p, upd_var i (push_gen p n (replicate (nat r) 0)) s3))))"

text \<open>The variable with a generation, when there is one.\<close>

definition with_top :: "plat \<Rightarrow> int \<Rightarrow> (nat \<Rightarrow> CtlVar \<Rightarrow> ctl_state \<Rightarrow> string + ('a \<times> ctl_state)) \<Rightarrow> (ctl_state \<Rightarrow> string + ('a \<times> ctl_state)) \<Rightarrow>
    ctl_state \<Rightarrow> string + ('a \<times> ctl_state)" where
  "with_top pl key f g st =
     (case ctlFind pl key False st of
        Inl e \<Rightarrow> Inl e
      | Inr (None, s1) \<Rightarrow> g s1
      | Inr (Some i, s1) \<Rightarrow> if cv_depth (ct_vars s1 ! i) \<le> 0 then g s1 else f i (ct_vars s1 ! i) s1)"

definition set_extent :: "int \<Rightarrow> int \<Rightarrow> CtlVar \<Rightarrow> CtlVar" where
  "set_extent axis extent v =
     (let d = cv_depth v - 1;
          v1 = (if axis \<ge> cv_ranks v ! d then
                  v\<lparr>cv_dimss := (cv_dimss v)[d := resize (nat (axis + 1)) 0 (cv_dimss v ! d)], cv_ranks := (cv_ranks v)[d := axis + 1]\<rparr>
                else v)
      in v1\<lparr>cv_dimss := (cv_dimss v1)[d := (cv_dimss v1 ! d)[nat axis := extent]]\<rparr>)"

definition pli_ctl_set_dim :: "plat \<Rightarrow> int \<Rightarrow> int \<Rightarrow> int \<Rightarrow> ctl_state \<Rightarrow> string + (unit \<times> ctl_state)" where
  "pli_ctl_set_dim pl key axis extent st =
     with_top pl key
       (\<lambda>i v s. if axis < 0 then Inr ((), s)
                else if axis \<ge> cv_ranks v ! (cv_depth v - 1) \<and> \<not> pl_grow pl (nat (axis + 1) * 8)
                then Inl ''CONTROLLED generation stack out of memory''
                else Inr ((), upd_var i (set_extent axis extent) s))
       (\<lambda>s. Inr ((), s)) st"

definition pli_ctl_rank :: "plat \<Rightarrow> int \<Rightarrow> ctl_state \<Rightarrow> string + (int \<times> ctl_state)" where
  "pli_ctl_rank pl key st = with_top pl key (\<lambda>i v s. Inr (cv_ranks v ! (cv_depth v - 1), s)) (\<lambda>s. Inr (0, s)) st"

definition pli_ctl_extent :: "plat \<Rightarrow> int \<Rightarrow> int \<Rightarrow> ctl_state \<Rightarrow> string + (int \<times> ctl_state)" where
  "pli_ctl_extent pl key axis st =
     with_top pl key
       (\<lambda>i v s. Inr (if axis < 0 \<or> axis \<ge> cv_ranks v ! (cv_depth v - 1) then 0 else cv_dimss v ! (cv_depth v - 1) ! nat axis, s))
       (\<lambda>s. Inr (0, s)) st"

definition pli_ctl_depth :: "plat \<Rightarrow> int \<Rightarrow> ctl_state \<Rightarrow> string + (int \<times> ctl_state)" where
  "pli_ctl_depth pl key st =
     (case ctlFind pl key False st of
        Inl e \<Rightarrow> Inl e
      | Inr (None, s) \<Rightarrow> Inr (0, s)
      | Inr (Some i, s) \<Rightarrow> Inr (int (cv_depth (ct_vars s ! i)), s))"

definition pli_ctl_addr :: "plat \<Rightarrow> int \<Rightarrow> ctl_state \<Rightarrow> string + (ptr \<times> ctl_state)" where
  "pli_ctl_addr pl key st = with_top pl key (\<lambda>i v s. Inr (cv_gens v ! (cv_depth v - 1), s)) (\<lambda>s. Inr (0, s)) st"

definition pli_ctl_len :: "plat \<Rightarrow> int \<Rightarrow> ctl_state \<Rightarrow> string + (int \<times> ctl_state)" where
  "pli_ctl_len pl key st = with_top pl key (\<lambda>i v s. Inr (cv_lens v ! (cv_depth v - 1), s)) (\<lambda>s. Inr (0, s)) st"

text \<open>FREE: the popped buffer goes to the one-slot cache or back to the platform.\<close>

definition pop_gen :: "CtlVar \<Rightarrow> CtlVar" where
  "pop_gen v = v\<lparr>cv_depth := cv_depth v - 1, cv_dimss := (cv_dimss v)[cv_depth v - 1 := []], cv_gens := (cv_gens v)[cv_depth v - 1 := 0]\<rparr>"

definition retire :: "int \<Rightarrow> int \<Rightarrow> int \<Rightarrow> ptr \<Rightarrow> ctl_state \<Rightarrow> ctl_state" where
  "retire key rank n buf st =
     (if rank = 0 then
        (if ct_cache_bytes st \<noteq> 0 \<and> ct_cache_key st = key \<and> ct_cache_len st = n then pli_free buf st
         else (if ct_cache_bytes st \<noteq> 0 then pli_free (ct_cache_bytes st) st else st)\<lparr>ct_cache_key := key, ct_cache_bytes := buf, ct_cache_len := n\<rparr>)
      else pli_free buf st)"

definition pli_ctl_free_addr :: "plat \<Rightarrow> int \<Rightarrow> ctl_state \<Rightarrow> string + (ptr \<times> ctl_state)" where
  "pli_ctl_free_addr pl key st =
     with_top pl key
       (\<lambda>i v s. let d = cv_depth v - 1;
                    s2 = retire key (cv_ranks v ! d) (cv_lens v ! d) (cv_gens v ! d) (upd_var i pop_gen s)
                in Inr (if d > 0 then cv_gens (ct_vars s2 ! i) ! (d - 1) else 0, s2))
       (\<lambda>s. Inl ''FREE of empty CONTROLLED stack'') st"

definition pli_ctl_free :: "plat \<Rightarrow> int \<Rightarrow> ctl_state \<Rightarrow> string + (unit \<times> ctl_state)" where
  "pli_ctl_free pl key st = (case pli_ctl_free_addr pl key st of Inl e \<Rightarrow> Inl e | Inr (p, s) \<Rightarrow> Inr ((), s))"

definition pli_ctl_ensure :: "plat \<Rightarrow> int \<Rightarrow> int \<Rightarrow> ctl_state \<Rightarrow> string + (unit \<times> ctl_state)" where
  "pli_ctl_ensure pl key n st =
     with_top pl key (\<lambda>i v s. Inr ((), s)) (\<lambda>s. case pli_ctl_alloc pl key n s of Inl e \<Rightarrow> Inl e | Inr (p, s2) \<Rightarrow> Inr ((), s2)) st"

section \<open>Regions\<close>

text \<open>A live block: its address, the address of its payload being one header further, and its payload size.\<close>

record PliBlock =
  bk_addr :: ptr
  bk_size :: int

record PliArea =
  ar_size :: int
  ar_used :: int
  ar_blocks :: "PliBlock list"

definition sizeof_PliBlock :: int where
  "sizeof_PliBlock = 16"

definition pli_area_create :: "plat \<Rightarrow> int \<Rightarrow> string + PliArea" where
  "pli_area_create pl n =
     (if \<not> pl_grow pl 24 then Inl ''AREA: out of memory'' else Inr \<lparr>ar_size = (if n > 0 then n else 0), ar_used = 0, ar_blocks = []\<rparr>)"

definition pli_area_lazy :: "plat \<Rightarrow> PliArea option \<Rightarrow> int \<Rightarrow> string + PliArea" where
  "pli_area_lazy pl slot n = (case slot of None \<Rightarrow> pli_area_create pl n | Some a \<Rightarrow> Inr a)"

definition pli_area_destroy :: "PliArea option \<Rightarrow> ptr set \<Rightarrow> ptr set" where
  "pli_area_destroy a used = (case a of None \<Rightarrow> used | Some a \<Rightarrow> used - set (map bk_addr (ar_blocks a)))"

text \<open>The outcome of a region operation that raises AREA: without a handler the program ends, with one the operation has no effect.\<close>

datatype 'a area_res = Area_Done 'a | Area_Raised string | Area_Exit string

definition rt_area_raise :: "pli_task_local \<Rightarrow> string \<Rightarrow> 'a area_res" where
  "rt_area_raise st msg = (case pli_on_top_fn_pair (- 7) st of (h, ctx) \<Rightarrow> if h = 0 then Area_Exit msg else Area_Raised msg)"

definition pli_area_alloc :: "plat \<Rightarrow> pli_task_local \<Rightarrow> PliArea option \<Rightarrow> int \<Rightarrow> ptr set \<Rightarrow> (ptr \<times> PliArea \<times> ptr set) area_res" where
  "pli_area_alloc pl st ap n used =
     (case ap of
        None \<Rightarrow> rt_area_raise st ''AREA: allocation from a null area''
      | Some a \<Rightarrow>
          let need = (if n < 0 then 0 else n) in
          if need > ar_size a - ar_used a - sizeof_PliBlock then rt_area_raise st ''AREA: area overflow''
          else
            let b = pl_malloc pl used (nat (need + sizeof_PliBlock)) in
            if b = 0 then Area_Exit ''AREA: out of memory''
            else Area_Done (b + nat sizeof_PliBlock,
                   a\<lparr>ar_blocks := \<lparr>bk_addr = b, bk_size = need\<rparr> # ar_blocks a, ar_used := ar_used a + (need + sizeof_PliBlock)\<rparr>, insert b used))"

text \<open>The block of a payload address.\<close>

definition block_at :: "ptr \<Rightarrow> int" where
  "block_at p = int p - sizeof_PliBlock"

definition pli_area_offset :: "pli_task_local \<Rightarrow> PliArea option \<Rightarrow> ptr \<Rightarrow> ptr area_res" where
  "pli_area_offset st ap p =
     (if p = 0 then Area_Done 0
      else case ap of
        None \<Rightarrow> rt_area_raise st ''AREA: OFFSET of a pointer with a null area''
      | Some a \<Rightarrow>
          if list_ex (\<lambda>b. int (bk_addr b) = block_at p) (ar_blocks a) then Area_Done p
          else rt_area_raise st ''AREA: OFFSET of a pointer not allocated in this area'')"

text \<open>Unlinking the block from the list of live ones.\<close>

fun unlink :: "int \<Rightarrow> PliBlock list \<Rightarrow> (PliBlock \<times> PliBlock list) option" where
  "unlink p [] = None"
| "unlink p (b # bs) = (if int (bk_addr b) = p then Some (b, bs) else map_option (\<lambda>(c, cs). (c, b # cs)) (unlink p bs))"

definition pli_area_free :: "pli_task_local \<Rightarrow> PliArea option \<Rightarrow> ptr \<Rightarrow> ptr set \<Rightarrow> (PliArea option \<times> ptr set) area_res" where
  "pli_area_free st ap p used =
     (if p = 0 then Area_Done (ap, used)
      else case ap of
        None \<Rightarrow> rt_area_raise st ''AREA: FREE through a null area''
      | Some a \<Rightarrow>
          (case unlink (block_at p) (ar_blocks a) of
             None \<Rightarrow> rt_area_raise st ''AREA: FREE of a pointer not allocated in this area''
           | Some (b, bs) \<Rightarrow>
               Area_Done (Some (a\<lparr>ar_blocks := bs, ar_used := ar_used a - (bk_size b + sizeof_PliBlock)\<rparr>), used - {bk_addr b})))"

section \<open>The table implements stacks\<close>

definition var_ok :: "CtlVar \<Rightarrow> bool" where
  "var_ok v \<longleftrightarrow> cv_depth v \<le> cv_cap v \<and> length (cv_gens v) = cv_cap v \<and> length (cv_lens v) = cv_cap v \<and>
     length (cv_ranks v) = cv_cap v \<and> length (cv_dimss v) = cv_cap v \<and>
     (\<forall>k < cv_depth v. cv_ranks v ! k = int (length (cv_dimss v ! k)))"

definition slots :: "ctl_state \<Rightarrow> (nat \<times> nat) set" where
  "slots st = {(i, k). i < length (ct_vars st) \<and> k < cv_depth (ct_vars st ! i)}"

definition addr :: "ctl_state \<Rightarrow> nat \<times> nat \<Rightarrow> ptr" where
  "addr st ik = cv_gens (ct_vars st ! fst ik) ! snd ik"

text \<open>The bookkeeping is consistent, and every generation and the cached buffer have storage of their own.\<close>

definition table_ok :: "ctl_state \<Rightarrow> bool" where
  "table_ok st \<longleftrightarrow> distinct (map cv_key (ct_vars st)) \<and> list_all var_ok (ct_vars st) \<and>
     (\<forall>i. ct_last st = Some i \<longrightarrow> i < length (ct_vars st))"

definition owned :: "ctl_state \<Rightarrow> bool" where
  "owned st \<longleftrightarrow> inj_on (addr st) (slots st) \<and> addr st ` slots st \<subseteq> ct_heap st \<and> 0 \<notin> ct_heap st \<and>
     (ct_cache_bytes st \<noteq> 0 \<longrightarrow> ct_cache_bytes st \<in> ct_heap st - addr st ` slots st)"

definition ctl_ok :: "ctl_state \<Rightarrow> bool" where
  "ctl_ok st \<longleftrightarrow> table_ok st \<and> owned st"

definition var_stack :: "CtlVar \<Rightarrow> (int \<times> int list) list" where
  "var_stack v = rev (map (\<lambda>k. (cv_lens v ! k, cv_dimss v ! k)) [0 ..< cv_depth v])"

definition gens_of :: "ctl_state \<Rightarrow> int \<Rightarrow> (int \<times> int list) list" where
  "gens_of st key = (case key_index key (ct_vars st) of None \<Rightarrow> [] | Some i \<Rightarrow> var_stack (ct_vars st ! i))"

lemma key_index_Some: "key_index key vs = Some i \<Longrightarrow> i < length vs \<and> cv_key (vs ! i) = key"
  by (induction vs arbitrary: i) (auto split: if_splits)

lemma key_index_nth: "distinct (map cv_key vs) \<Longrightarrow> i < length vs \<Longrightarrow> key_index (cv_key (vs ! i)) vs = Some i"
  by (induction vs arbitrary: i) (auto simp: nth_Cons split: nat.split)

lemma key_index_None: "key_index key vs = None \<longleftrightarrow> key \<notin> cv_key ` set vs"
  by (induction vs) auto

lemma key_index_append: "key_index key (vs @ [v]) = (case key_index key vs of Some i \<Rightarrow> Some i | None \<Rightarrow> if cv_key v = key then Some (length vs) else None)"
  by (induction vs) (auto split: option.split)

lemma key_index_map: "map cv_key us = map cv_key vs \<Longrightarrow> key_index key us = key_index key vs"
proof (induction us arbitrary: vs)
  case (Cons u us)
  then show ?case by (cases vs) auto
qed simp

lemma upd_vars: "i < length (ct_vars st) \<Longrightarrow> j < length (ct_vars st) \<Longrightarrow> ct_vars (upd_var i f st) ! j = (if j = i then f (ct_vars st ! i) else ct_vars st ! j)"
  by (simp add: upd_var_def)

lemma upd_simps [simp]: "length (ct_vars (upd_var i f st)) = length (ct_vars st)" "ct_last (upd_var i f st) = ct_last st"
  "ct_heap (upd_var i f st) = ct_heap st" "ct_cache_bytes (upd_var i f st) = ct_cache_bytes st"
  "ct_cache_key (upd_var i f st) = ct_cache_key st" "ct_cache_len (upd_var i f st) = ct_cache_len st"
  by (simp_all add: upd_var_def)

lemma upd_keys: "i < length (ct_vars st) \<Longrightarrow> cv_key (f (ct_vars st ! i)) = cv_key (ct_vars st ! i) \<Longrightarrow> map cv_key (ct_vars (upd_var i f st)) = map cv_key (ct_vars st)"
  by (rule nth_equalityI) (auto simp: upd_vars)

lemma upd_table:
  assumes "table_ok st" and "i < length (ct_vars st)" and "cv_key (f (ct_vars st ! i)) = cv_key (ct_vars st ! i)" and "var_ok (f (ct_vars st ! i))"
  shows "table_ok (upd_var i f st)"
    and "gens_of (upd_var i f st) = (gens_of st)(cv_key (ct_vars st ! i) := var_stack (f (ct_vars st ! i)))"
proof -
  note keys = upd_keys [of i st f, OF assms(2, 3)]
  from assms keys show "table_ok (upd_var i f st)" by (auto simp: table_ok_def list_all_length upd_vars)
  have ki: "key_index (cv_key (ct_vars st ! i)) (ct_vars st) = Some i" using assms(1, 2) by (intro key_index_nth) (simp_all add: table_ok_def)
  show "gens_of (upd_var i f st) = (gens_of st)(cv_key (ct_vars st ! i) := var_stack (f (ct_vars st ! i)))"
  proof
    fix key
    show "gens_of (upd_var i f st) key = ((gens_of st)(cv_key (ct_vars st ! i) := var_stack (f (ct_vars st ! i)))) key"
    proof (cases "key_index key (ct_vars st)")
      case None
      with ki have "key \<noteq> cv_key (ct_vars st ! i)" by force
      with None show ?thesis by (simp add: gens_of_def key_index_map [OF keys])
    next
      case (Some j)
      have j: "j < length (ct_vars st)" "cv_key (ct_vars st ! j) = key" using key_index_Some [OF Some] by blast+
      have "j = i \<longleftrightarrow> key = cv_key (ct_vars st ! i)" using j(2) ki Some by (metis option.inject)
      with j(1) Some assms(2) show ?thesis by (simp add: gens_of_def key_index_map [OF keys] upd_vars)
    qed
  qed
qed

lemma view_cong: "ct_vars t = ct_vars st \<Longrightarrow> addr t = addr st \<and> slots t = slots st \<and> gens_of t = gens_of st"
  by (auto simp: addr_def slots_def gens_of_def fun_eq_iff split: option.split)

lemma ctl_ok_last: "ctl_ok st \<Longrightarrow> i < length (ct_vars st) \<Longrightarrow> ctl_ok (st\<lparr>ct_last := Some i\<rparr>)"
  using view_cong [of "st\<lparr>ct_last := Some i\<rparr>" st] by (simp add: ctl_ok_def table_ok_def owned_def)

lemma gens_of_last [simp]: "gens_of (st\<lparr>ct_last := l\<rparr>) = gens_of st"
  using view_cong [of "st\<lparr>ct_last := l\<rparr>" st] by simp

lemma new_var_ok: "ctl_ok st \<Longrightarrow> key_index key (ct_vars st) = None \<Longrightarrow>
   ctl_ok (st\<lparr>ct_vars := ct_vars st @ [new_var key], ct_last := Some (length (ct_vars st))\<rparr>)"
proof -
  assume ok: "ctl_ok st" and k: "key_index key (ct_vars st) = None"
  let ?t = "st\<lparr>ct_vars := ct_vars st @ [new_var key], ct_last := Some (length (ct_vars st))\<rparr>"
  have "slots ?t = slots st" by (auto simp: slots_def nth_append new_var_def split: if_splits)
  moreover have "addr ?t x = addr st x" if "x \<in> slots st" for x using that by (auto simp: slots_def addr_def nth_append)
  ultimately have "owned ?t" using ok by (auto simp: ctl_ok_def owned_def inj_on_def)
  moreover have "table_ok ?t" using ok k by (auto simp: ctl_ok_def table_ok_def key_index_None new_var_def var_ok_def list_all_iff)
  ultimately show ?thesis by (simp add: ctl_ok_def)
qed

lemma find_spec:
  assumes "ctl_ok st" and "ctlFind pl key create st = Inr (r, t)"
  shows "ctl_ok t \<and> gens_of t = gens_of st \<and> r = key_index key (ct_vars t) \<and> (create \<longrightarrow> r \<noteq> None) \<and>
    ct_heap t = ct_heap st \<and> ct_cache_bytes t = ct_cache_bytes st"
proof (cases "\<exists>i. ct_last st = Some i \<and> length (ct_vars st) > 0 \<and> cv_key (ct_vars st ! i) = key")
  case True
  then obtain i where i: "ct_last st = Some i" "cv_key (ct_vars st ! i) = key" "length (ct_vars st) > 0" by blast
  with assms(1) have "i < length (ct_vars st)" "distinct (map cv_key (ct_vars st))" by (auto simp: ctl_ok_def table_ok_def)
  with key_index_nth [of "ct_vars st" i] i have k: "key_index key (ct_vars st) = Some i" by simp
  from i assms(2) have "r = Some i" "t = st" by (auto simp: ctlFind_def Let_def)
  with k assms(1) show ?thesis by simp
next
  case False
  have s: "(case ct_last st of Some i \<Rightarrow> if 0 < length (ct_vars st) \<and> cv_key (ct_vars st ! i) = key then Some i else None | None \<Rightarrow> None) = None"
    using False by (auto split: option.split)
  show ?thesis
  proof (cases "key_index key (ct_vars st)")
    case None
    have "gens_of (st\<lparr>ct_vars := ct_vars st @ [new_var key], ct_last := Some (length (ct_vars st))\<rparr>) = gens_of st"
      using key_index_Some [of _ "ct_vars st"] by (auto simp: gens_of_def fun_eq_iff key_index_append nth_append var_stack_def new_var_def split: option.split)
    with None s assms new_var_ok [OF assms(1) None] show ?thesis
      by (auto simp: ctlFind_def Let_def key_index_append new_var_def split: if_splits)
  next
    case (Some i)
    then have "ctlFind pl key create st = Inr (Some i, st\<lparr>ct_last := Some i\<rparr>)" using s by (simp add: ctlFind_def Let_def)
    with assms(2) have "(r, t) = (Some i, st\<lparr>ct_last := Some i\<rparr>)" by (metis sum.inject(2))
    then have r: "r = Some i" and t: "t = st\<lparr>ct_last := Some i\<rparr>" by blast+
    show ?thesis unfolding r t using Some ctl_ok_last [OF assms(1), of i] key_index_Some [OF Some] by simp
  qed
qed

section \<open>Growing, pushing and popping\<close>

lemma found:
  assumes "ctl_ok st" and "key_index key (ct_vars st) = Some i"
  shows "i < length (ct_vars st)" "cv_key (ct_vars st ! i) = key" "var_ok (ct_vars st ! i)" "gens_of st key = var_stack (ct_vars st ! i)"
proof -
  show i: "i < length (ct_vars st)" and "cv_key (ct_vars st ! i) = key" using key_index_Some [OF assms(2)] by blast+
  from i assms(1) show "var_ok (ct_vars st ! i)" by (simp add: ctl_ok_def table_ok_def list_all_length)
  show "gens_of st key = var_stack (ct_vars st ! i)" using assms(2) by (simp add: gens_of_def)
qed

lemma var_stack_cong: "cv_depth v = cv_depth w \<Longrightarrow> (\<And>k. k < cv_depth w \<Longrightarrow> cv_lens v ! k = cv_lens w ! k \<and> cv_dimss v ! k = cv_dimss w ! k) \<Longrightarrow>
   var_stack v = var_stack w"
  by (simp add: var_stack_def)

lemma resize_nth: "k < length xs \<Longrightarrow> length xs \<le> n \<Longrightarrow> resize n d xs ! k = xs ! k"
  by (simp add: resize_def nth_append)

text \<open>Storage is kept apart when one variable gets new arrays with the same live part.\<close>

lemma owned_upd:
  assumes "owned st" and "i < length (ct_vars st)" and "slots t = slots st" and "\<And>x. x \<in> slots st \<Longrightarrow> addr t x = addr st x"
    and "ct_heap t = ct_heap st" and "ct_cache_bytes t = ct_cache_bytes st"
  shows "owned t"
proof -
  have "addr t ` slots st = addr st ` slots st" using assms(4) by (rule image_cong [OF refl])
  moreover have "inj_on (addr t) (slots st) = inj_on (addr st) (slots st)" using assms(4) by (rule inj_on_cong)
  ultimately show ?thesis using assms(1, 3, 5, 6) by (simp add: owned_def)
qed

lemma grow_spec:
  assumes "ctl_ok st" and "key_index key (ct_vars st) = Some i" and "ctlGrow pl i st = Inr t"
  shows "ctl_ok t \<and> gens_of t = gens_of st \<and> key_index key (ct_vars t) = Some i \<and> cv_depth (ct_vars t ! i) < cv_cap (ct_vars t ! i) \<and>
    ct_heap t = ct_heap st \<and> ct_cache_bytes t = ct_cache_bytes st"
proof (cases "cv_depth (ct_vars st ! i) < cv_cap (ct_vars st ! i)")
  case True
  with assms show ?thesis by (simp add: ctlGrow_def)
next
  case False
  note i = found [OF assms(1, 2)]
  let ?v = "ct_vars st ! i"
  let ?n = "if cv_cap ?v \<noteq> 0 then cv_cap ?v * 2 else 4"
  define f where "f = (\<lambda>v :: CtlVar. v\<lparr>cv_gens := resize ?n 0 (cv_gens v), cv_lens := resize ?n 0 (cv_lens v),
             cv_ranks := resize ?n 0 (cv_ranks v), cv_dimss := resize ?n [] (cv_dimss v), cv_cap := ?n\<rparr>)"
  from False assms(3) have t: "t = upd_var i f st" by (auto simp: ctlGrow_def Let_def f_def split: if_splits)
  have v: "var_ok (f ?v)" "var_stack (f ?v) = var_stack ?v" using i(3) by (auto simp: f_def var_ok_def resize_nth intro!: var_stack_cong)
  have fs: "cv_key (f ?v) = cv_key ?v" "cv_depth (f ?v) = cv_depth ?v" "cv_depth ?v < cv_cap (f ?v)" "\<And>k. k < cv_depth ?v \<Longrightarrow> cv_gens (f ?v) ! k = cv_gens ?v ! k"
    using i(3) False by (auto simp: f_def var_ok_def resize_nth)
  have "table_ok st" using assms(1) by (simp add: ctl_ok_def)
  note u = upd_table [of st i f, OF this i(1) fs(1) v(1)]
  have "gens_of t = gens_of st" using u(2) v(2) i(2, 4) t by (simp add: fun_eq_iff)
  moreover have "owned t" unfolding t
  proof (rule owned_upd [of st i])
    show "addr (upd_var i f st) x = addr st x" if "x \<in> slots st" for x
      using that i(1) fs by (auto simp: addr_def slots_def upd_vars)
  qed (use assms(1) i(1) fs in \<open>auto simp: ctl_ok_def slots_def upd_vars split: if_splits\<close>)
  moreover have "key_index key (ct_vars t) = Some i" using key_index_map [OF upd_keys [of i st f, OF i(1) fs(1)]] assms(2) t by simp
  moreover have "cv_depth (ct_vars t ! i) < cv_cap (ct_vars t ! i)" using t i(1) fs by (simp add: upd_vars)
  ultimately show ?thesis using u(1) t by (simp add: ctl_ok_def)
qed

lemma push_spec:
  assumes "ctl_ok st" and "key_index key (ct_vars st) = Some i" and "cv_depth (ct_vars st ! i) < cv_cap (ct_vars st ! i)"
    and "p \<in> ct_heap st" and "p \<notin> addr st ` slots st" and "p \<noteq> ct_cache_bytes st"
  shows "ctl_ok (upd_var i (push_gen p n dims) st) \<and> gens_of (upd_var i (push_gen p n dims) st) = (gens_of st)(key := (n, dims) # gens_of st key)"
proof -
  note i = found [OF assms(1, 2)]
  let ?v = "ct_vars st ! i" and ?t = "upd_var i (push_gen p n dims) st"
  have v: "var_ok (push_gen p n dims ?v)" using i(3) assms(3) by (auto simp: var_ok_def push_gen_def nth_list_update less_Suc_eq)
  have s: "var_stack (push_gen p n dims ?v) = (n, dims) # var_stack ?v"
    using i(3) assms(3) by (auto simp: var_stack_def push_gen_def var_ok_def)
  have key: "cv_key (push_gen p n dims ?v) = cv_key ?v" by (simp add: push_gen_def)
  have "table_ok st" using assms(1) by (simp add: ctl_ok_def)
  note u = upd_table [of st i "push_gen p n dims", OF this i(1) key v]
  have slots: "slots ?t = insert (i, cv_depth ?v) (slots st)"
    using i(1) by (auto simp: slots_def upd_vars push_gen_def less_Suc_eq split: if_splits)
  have new: "addr ?t (i, cv_depth ?v) = p" using i(1, 3) assms(3) by (simp add: addr_def upd_vars push_gen_def var_ok_def)
  have old: "addr ?t x = addr st x" if "x \<in> slots st" for x using that i(1, 3) by (auto simp: addr_def slots_def upd_vars push_gen_def)
  have img: "addr ?t ` slots st = addr st ` slots st" using old by (rule image_cong [OF refl])
  have "inj_on (addr ?t) (slots st)" using assms(1) inj_on_cong [of "slots st" "addr ?t" "addr st"] old by (simp add: ctl_ok_def owned_def)
  then have "inj_on (addr ?t) (slots ?t)" using assms(5) new img unfolding slots by (simp add: inj_on_insert image_iff) blast
  moreover have "addr ?t ` slots ?t = insert p (addr st ` slots st)" unfolding slots using new img by simp
  ultimately have "owned ?t" using assms(1, 4, 6) by (auto simp: ctl_ok_def owned_def)
  with u s i(2, 4) show ?thesis by (simp add: ctl_ok_def)
qed

lemma pop_spec:
  assumes "ctl_ok st" and "key_index key (ct_vars st) = Some i" and "0 < cv_depth (ct_vars st ! i)"
  defines "p \<equiv> cv_gens (ct_vars st ! i) ! (cv_depth (ct_vars st ! i) - 1)"
  shows "ctl_ok (upd_var i pop_gen st) \<and> gens_of (upd_var i pop_gen st) = (gens_of st)(key := tl (gens_of st key)) \<and>
    p \<in> ct_heap st \<and> p \<noteq> ct_cache_bytes st \<and> p \<notin> addr (upd_var i pop_gen st) ` slots (upd_var i pop_gen st)"
proof -
  note i = found [OF assms(1, 2)]
  let ?v = "ct_vars st ! i" and ?t = "upd_var i pop_gen st"
  have v: "var_ok (pop_gen ?v)" using i(3) by (auto simp: var_ok_def pop_gen_def nth_list_update)
  have s: "var_stack (pop_gen ?v) = tl (var_stack ?v)"
    using assms(3) by (cases "cv_depth ?v") (auto simp: var_stack_def pop_gen_def)
  have key: "cv_key (pop_gen ?v) = cv_key ?v" by (simp add: pop_gen_def)
  have "table_ok st" using assms(1) by (simp add: ctl_ok_def)
  note u = upd_table [of st i pop_gen, OF this i(1) key v]
  let ?top = "(i, cv_depth ?v - 1)"
  have slots: "slots ?t = slots st - {?top}" and top: "?top \<in> slots st"
    using i(1) assms(3) by (auto simp: slots_def upd_vars pop_gen_def split: if_splits)
  have old: "addr ?t x = addr st x" if "x \<in> slots ?t" for x
    using that i(1) unfolding slots by (auto simp: addr_def slots_def upd_vars pop_gen_def split: if_splits) (metis nth_list_update_neq)
  have img: "addr ?t ` slots ?t = addr st ` (slots st - {?top})" using old unfolding slots by (rule image_cong [OF refl])
  have own: "inj_on (addr st) (slots st)" "addr st ` slots st \<subseteq> ct_heap st" "0 \<notin> ct_heap st"
    "ct_cache_bytes st \<noteq> 0 \<longrightarrow> ct_cache_bytes st \<in> ct_heap st - addr st ` slots st" using assms(1) by (auto simp: ctl_ok_def owned_def)
  have p: "p = addr st ?top" by (simp add: p_def addr_def)
  have "inj_on (addr ?t) (slots ?t)" using own(1) inj_on_cong [of "slots ?t" "addr ?t" "addr st"] old slots by (simp add: inj_on_diff)
  then have "owned ?t" using own img by (auto simp: owned_def)
  moreover have "p \<notin> addr st ` (slots st - {?top})" unfolding p using own(1) top by (auto dest: inj_onD)
  moreover have "p \<in> ct_heap st" unfolding p using own(2) top by blast
  moreover have "p \<noteq> ct_cache_bytes st" unfolding p using own top by (metis Diff_iff image_eqI subsetD)
  ultimately show ?thesis using u s i(2, 4) img by (simp add: ctl_ok_def)
qed

lemma retire_spec:
  assumes "ctl_ok st" and "buf \<in> ct_heap st" and "buf \<noteq> ct_cache_bytes st" and "buf \<notin> addr st ` slots st"
  shows "ctl_ok (retire key rank n buf st) \<and> gens_of (retire key rank n buf st) = gens_of st"
proof -
  have vars: "ct_vars (retire key rank n buf st) = ct_vars st" by (simp add: retire_def pli_free_def)
  have "table_ok (retire key rank n buf st)" using assms(1) by (simp add: ctl_ok_def table_ok_def retire_def pli_free_def)
  moreover have "owned (retire key rank n buf st)"
    using assms view_cong [OF vars] unfolding owned_def ctl_ok_def by (auto simp: retire_def pli_free_def subset_iff image_iff)
  ultimately show ?thesis using view_cong [OF vars] by (simp add: ctl_ok_def)
qed

section \<open>Refinement\<close>

datatype ctl_op = C_Alloc int int | C_AllocDims int int int | C_SetDim int int int | C_Free int | C_Ensure int int

definition state_of :: "string + ('a \<times> ctl_state) \<Rightarrow> string + ctl_state" where
  "state_of r = map_sum id snd r"

fun ctl_step :: "plat \<Rightarrow> ctl_op \<Rightarrow> ctl_state \<Rightarrow> string + ctl_state" where
  "ctl_step pl (C_Alloc key n) st = state_of (pli_ctl_alloc pl key n st)"
| "ctl_step pl (C_AllocDims key n rank) st = state_of (pli_ctl_alloc_dims pl key n rank st)"
| "ctl_step pl (C_SetDim key axis extent) st = state_of (pli_ctl_set_dim pl key axis extent st)"
| "ctl_step pl (C_Free key) st = state_of (pli_ctl_free pl key st)"
| "ctl_step pl (C_Ensure key n) st = state_of (pli_ctl_ensure pl key n st)"

text \<open>The language: each name has a stack of generations, each with its size and extents.\<close>

type_synonym generations = "int \<Rightarrow> (int \<times> int list) list"

definition set_axis :: "nat \<Rightarrow> int \<Rightarrow> int list \<Rightarrow> int list" where
  "set_axis a e ds = (if a < length ds then ds else ds @ replicate (a + 1 - length ds) 0)[a := e]"

fun gen_step :: "ctl_op \<Rightarrow> generations \<Rightarrow> generations option" where
  "gen_step (C_Alloc key n) m = Some (m(key := (n, []) # m key))"
| "gen_step (C_AllocDims key n rank) m = Some (m(key := (n, replicate (nat rank) 0) # m key))"
| "gen_step (C_SetDim key axis extent) m =
     (case m key of [] \<Rightarrow> Some m | (n, ds) # gs \<Rightarrow> Some (if axis < 0 then m else m(key := (n, set_axis (nat axis) extent ds) # gs)))"
| "gen_step (C_Free key) m = (case m key of [] \<Rightarrow> None | g # gs \<Rightarrow> Some (m(key := gs)))"
| "gen_step (C_Ensure key n) m = Some (if m key = [] then m(key := [(n, [])]) else m)"

lemma heap_grown: "ctl_ok st \<Longrightarrow> p \<noteq> 0 \<Longrightarrow> ctl_ok (st\<lparr>ct_heap := insert p (ct_heap st)\<rparr>)"
  using view_cong [of "st\<lparr>ct_heap := insert p (ct_heap st)\<rparr>" st] by (auto simp: ctl_ok_def table_ok_def owned_def)

lemma cache_taken: "ctl_ok st \<Longrightarrow> ctl_ok (st\<lparr>ct_cache_bytes := 0\<rparr>)"
  using view_cong [of "st\<lparr>ct_cache_bytes := 0\<rparr>" st] by (auto simp: ctl_ok_def table_ok_def owned_def)

text \<open>A buffer for a new generation: fresh, or the cached one, in either case nobody's.\<close>

definition buffer_for :: "ctl_state \<Rightarrow> ptr \<Rightarrow> ctl_state \<Rightarrow> bool" where
  "buffer_for st p t \<longleftrightarrow> ctl_ok t \<and> ct_vars t = ct_vars st \<and> p \<in> ct_heap t \<and> p \<notin> addr t ` slots t \<and> p \<noteq> ct_cache_bytes t"

lemma alloc_buffer: "fresh_malloc pl \<Longrightarrow> ctl_ok st \<Longrightarrow> pli_alloc pl n st = Inr (p, t) \<Longrightarrow> buffer_for st p t"
proof -
  assume f: "fresh_malloc pl" and ok: "ctl_ok st" and a: "pli_alloc pl n st = Inr (p, t)"
  from a f have p: "p \<noteq> 0" "p \<notin> ct_heap st" "t = st\<lparr>ct_heap := insert p (ct_heap st)\<rparr>"
    by (auto simp: pli_alloc_def Let_def freshD split: if_splits)
  from ok p(1, 2) have "p \<notin> addr st ` slots st \<and> p \<noteq> ct_cache_bytes st" by (auto simp: ctl_ok_def owned_def)
  with heap_grown [OF ok p(1)] p view_cong [of t st] show ?thesis by (simp add: buffer_for_def)
qed

lemma cache_buffer: "ctl_ok st \<Longrightarrow> ct_cache_bytes st \<noteq> 0 \<Longrightarrow> buffer_for st (ct_cache_bytes st) (st\<lparr>ct_cache_bytes := 0\<rparr>)"
  using cache_taken [of st] view_cong [of "st\<lparr>ct_cache_bytes := 0\<rparr>" st] by (auto simp: buffer_for_def ctl_ok_def owned_def)

lemma push_buffer:
  assumes "buffer_for st p t" and "key_index key (ct_vars st) = Some i" and "cv_depth (ct_vars st ! i) < cv_cap (ct_vars st ! i)"
  shows "ctl_ok (upd_var i (push_gen p n dims) t) \<and> gens_of (upd_var i (push_gen p n dims) t) = (gens_of st)(key := (n, dims) # gens_of st key)"
  using push_spec [of t key i p n dims] assms view_cong [of t st] by (auto simp: buffer_for_def)

lemma ctl_alloc_spec:
  assumes "fresh_malloc pl" and "ctl_ok st" and "pli_ctl_alloc pl key n st = Inr (p, t)"
  shows "ctl_ok t \<and> gens_of t = (gens_of st)(key := (n, []) # gens_of st key)"
proof -
  from assms(3) obtain r s1 where f: "ctlFind pl key True st = Inr (r, s1)" by (auto simp: pli_ctl_alloc_def split: sum.splits)
  note s1 = find_spec [OF assms(2) f]
  then obtain i where i: "r = Some i" "key_index key (ct_vars s1) = Some i" by auto
  from assms(3) f i(1) obtain s2 where g: "ctlGrow pl i s1 = Inr s2" by (auto simp: pli_ctl_alloc_def split: sum.splits)
  from grow_spec [OF _ i(2) g] s1 have s2: "ctl_ok s2" "gens_of s2 = gens_of st" "key_index key (ct_vars s2) = Some i"
    "cv_depth (ct_vars s2 ! i) < cv_cap (ct_vars s2 ! i)" by auto
  from assms(3) f i(1) g obtain s3 where b: "(if ct_cache_bytes s2 \<noteq> 0 \<and> ct_cache_key s2 = key \<and> ct_cache_len s2 = n
      then Inr (ct_cache_bytes s2, s2\<lparr>ct_cache_bytes := 0\<rparr>) else pli_alloc pl n s2) = Inr (p, s3)" and t: "t = upd_var i (push_gen p n []) s3"
    by (auto simp: pli_ctl_alloc_def split: sum.splits)
  have "buffer_for s2 p s3" using b cache_buffer [OF s2(1)] alloc_buffer [OF assms(1) s2(1)] by (auto split: if_splits)
  from push_buffer [OF this s2(3, 4)] s2(2) t show ?thesis by simp
qed

lemma ctl_alloc_dims_spec:
  assumes "fresh_malloc pl" and "ctl_ok st" and "pli_ctl_alloc_dims pl key n rank st = Inr (p, t)"
  shows "ctl_ok t \<and> gens_of t = (gens_of st)(key := (n, replicate (nat rank) 0) # gens_of st key)"
proof -
  from assms(3) obtain r s1 where f: "ctlFind pl key True st = Inr (r, s1)" by (auto simp: pli_ctl_alloc_dims_def split: sum.splits)
  note s1 = find_spec [OF assms(2) f]
  then obtain i where i: "r = Some i" "key_index key (ct_vars s1) = Some i" by auto
  from assms(3) f i(1) obtain s2 where g: "ctlGrow pl i s1 = Inr s2" by (auto simp: pli_ctl_alloc_dims_def Let_def split: sum.splits)
  from grow_spec [OF _ i(2) g] s1 have s2: "ctl_ok s2" "gens_of s2 = gens_of st" "key_index key (ct_vars s2) = Some i"
    "cv_depth (ct_vars s2 ! i) < cv_cap (ct_vars s2 ! i)" by auto
  have r: "nat (if rank < 0 then 0 else rank) = nat rank" by simp
  from assms(3) f i(1) g obtain s3 where b: "pli_alloc pl n s2 = Inr (p, s3)" and t: "t = upd_var i (push_gen p n (replicate (nat rank) 0)) s3"
    by (auto simp: pli_ctl_alloc_dims_def Let_def r split: sum.splits if_splits)
  from push_buffer [OF alloc_buffer [OF assms(1) s2(1) b] s2(3, 4)] s2(2) t show ?thesis by simp
qed

lemma with_top_cases:
  assumes "ctl_ok st" and "with_top pl key f g st = Inr r"
  obtains s where "ctl_ok s" "gens_of s = gens_of st" "gens_of st key = []" "g s = Inr r"
  | s i where "ctl_ok s" "gens_of s = gens_of st" "key_index key (ct_vars s) = Some i" "0 < cv_depth (ct_vars s ! i)" "f i (ct_vars s ! i) s = Inr r"
proof -
  from assms(2) obtain x s where fnd: "ctlFind pl key False st = Inr (x, s)" by (auto simp: with_top_def split: sum.splits)
  from find_spec [OF assms(1) fnd] have s: "ctl_ok s" "gens_of s = gens_of st" "x = key_index key (ct_vars s)" by auto
  show thesis
  proof (cases x)
    case None
    have "gens_of s key = []" using s(3) None by (simp add: gens_of_def)
    with None s fnd assms(2) that(1) [of s] show ?thesis by (simp add: with_top_def)
  next
    case (Some i)
    from Some s(3) have "gens_of s key = var_stack (ct_vars s ! i)" by (simp add: gens_of_def)
    with Some s fnd assms(2) that(1) [of s] that(2) [of s i] show ?thesis by (auto simp: with_top_def var_stack_def split: if_splits)
  qed
qed

lemma var_stack_top: "0 < cv_depth v \<Longrightarrow> var_stack v = (cv_lens v ! (cv_depth v - 1), cv_dimss v ! (cv_depth v - 1)) # tl (var_stack v)"
  by (cases "cv_depth v") (simp_all add: var_stack_def)

lemma set_extent_stack:
  assumes "var_ok v" and "0 < cv_depth v" and "0 \<le> axis"
  shows "var_ok (set_extent axis extent v)"
    and "var_stack (set_extent axis extent v) =
      (cv_lens v ! (cv_depth v - 1), set_axis (nat axis) extent (cv_dimss v ! (cv_depth v - 1))) # tl (var_stack v)"
proof -
  let ?d = "cv_depth v - 1"
  let ?w = "set_extent axis extent v"
  have d: "?d < cv_depth v" "?d < length (cv_dimss v)" "?d < length (cv_ranks v)" "cv_ranks v ! ?d = int (length (cv_dimss v ! ?d))"
    using assms by (auto simp: var_ok_def)
  have grown: "resize (nat (axis + 1)) 0 ds = ds @ replicate (nat axis + 1 - length ds) 0" if "axis \<ge> int (length ds)" for ds :: "int list"
    using that by (simp add: resize_def nat_add_distrib assms(3))
  have dims: "cv_dimss ?w = (cv_dimss v)[?d := set_axis (nat axis) extent (cv_dimss v ! ?d)]"
    using d assms(3) grown by (auto simp: set_extent_def Let_def set_axis_def)
  have ranks: "cv_ranks ?w = (cv_ranks v)[?d := int (length (set_axis (nat axis) extent (cv_dimss v ! ?d)))]"
    using d assms(3) list_update_id [of "cv_ranks v" ?d] by (auto simp: set_extent_def Let_def set_axis_def nat_less_iff algebra_simps split: if_splits)
  have rest: "cv_depth ?w = cv_depth v" "cv_lens ?w = cv_lens v" "cv_gens ?w = cv_gens v" "cv_cap ?w = cv_cap v"
    by (simp_all add: set_extent_def Let_def)
  show "var_ok ?w" using assms(1) rest ranks dims d by (auto simp: var_ok_def nth_list_update)
  show "var_stack ?w = (cv_lens v ! ?d, set_axis (nat axis) extent (cv_dimss v ! ?d)) # tl (var_stack v)"
    using assms(2) d rest dims by (cases "cv_depth v") (auto simp: var_stack_def)
qed

lemma set_dim_spec:
  assumes "ctl_ok st" and "key_index key (ct_vars st) = Some i" and "0 < cv_depth (ct_vars st ! i)" and "0 \<le> axis"
  shows "ctl_ok (upd_var i (set_extent axis extent) st) \<and> gens_of (upd_var i (set_extent axis extent) st) =
    (gens_of st)(key := (fst (hd (gens_of st key)), set_axis (nat axis) extent (snd (hd (gens_of st key)))) # tl (gens_of st key))"
proof -
  note i = found [OF assms(1, 2)]
  let ?v = "ct_vars st ! i" and ?f = "set_extent axis extent"
  note v = set_extent_stack [OF i(3) assms(3, 4), of extent]
  have fs: "cv_key (?f ?v) = cv_key ?v" "cv_depth (?f ?v) = cv_depth ?v" "cv_gens (?f ?v) = cv_gens ?v" by (simp_all add: set_extent_def Let_def)
  have "table_ok st" using assms(1) by (simp add: ctl_ok_def)
  note u = upd_table [of st i ?f, OF this i(1) fs(1) v(1)]
  have "owned (upd_var i ?f st)"
    by (rule owned_upd [of st i]) (use assms(1) i(1) fs in \<open>auto simp: ctl_ok_def slots_def addr_def upd_vars split: if_splits\<close>)
  moreover have "hd (gens_of st key) = (cv_lens ?v ! (cv_depth ?v - 1), cv_dimss ?v ! (cv_depth ?v - 1))"
    using i(4) var_stack_top [OF assms(3)] by (metis list.sel(1))
  ultimately show ?thesis using u v(2) i(2, 4) by (simp add: ctl_ok_def)
qed

lemma free_spec:
  assumes "ctl_ok st" and "pli_ctl_free_addr pl key st = Inr (p, t)"
  shows "ctl_ok t \<and> gens_of st key \<noteq> [] \<and> gens_of t = (gens_of st)(key := tl (gens_of st key))"
  using assms(2) unfolding pli_ctl_free_addr_def
proof (rule with_top_cases [OF assms(1)], goal_cases)
  case (2 s i)
  note pop = pop_spec [OF 2(1, 3, 4)]
  let ?v = "ct_vars s ! i"
  let ?d = "cv_depth ?v - 1"
  let ?s2 = "retire key (cv_ranks ?v ! ?d) (cv_lens ?v ! ?d) (cv_gens ?v ! ?d) (upd_var i pop_gen s)"
  have "ctl_ok ?s2 \<and> gens_of ?s2 = gens_of (upd_var i pop_gen s)" using pop by (intro retire_spec) auto
  moreover have "gens_of st key \<noteq> []" using found(4) [OF 2(1, 3)] var_stack_top [OF 2(4)] 2(2) by auto
  moreover have "t = ?s2" using 2(5) by (simp add: Let_def)
  ultimately show ?case using pop 2(2) by simp
qed auto

text \<open>Free of an empty stack ends the program with the message the language asks for.\<close>

lemma free_empty: "ctl_ok st \<Longrightarrow> gens_of st key = [] \<Longrightarrow> \<exists>e. pli_ctl_free_addr pl key st = Inl e"
  using free_spec [of st pl key] by (cases "pli_ctl_free_addr pl key st") auto

lemma step_refines:
  assumes "fresh_malloc pl" and "ctl_ok st" and "ctl_step pl op st = Inr t"
  shows "ctl_ok t \<and> gen_step op (gens_of st) = Some (gens_of t)"
proof (cases op)
  case (C_Alloc key n)
  with assms ctl_alloc_spec show ?thesis by (fastforce simp: state_of_def map_sum_def split: sum.splits)
next
  case (C_AllocDims key n rank)
  with assms ctl_alloc_dims_spec show ?thesis by (fastforce simp: state_of_def map_sum_def split: sum.splits)
next
  case (C_Free key)
  with assms(3) obtain p where "pli_ctl_free_addr pl key st = Inr (p, t)" by (auto simp: state_of_def pli_ctl_free_def map_sum_def split: sum.splits)
  with free_spec [OF assms(2)] C_Free show ?thesis by (cases "gens_of st key") auto
next
  case (C_SetDim key axis extent)
  with assms(3) have w: "pli_ctl_set_dim pl key axis extent st = Inr ((), t)" by (auto simp: state_of_def map_sum_def split: sum.splits)
  from w [unfolded pli_ctl_set_dim_def] show ?thesis
  proof (rule with_top_cases [OF assms(2)], goal_cases)
    case (1 s)
    with C_SetDim show ?case by simp
  next
    case (2 s i)
    have ne: "gens_of st key = (cv_lens (ct_vars s ! i) ! (cv_depth (ct_vars s ! i) - 1), cv_dimss (ct_vars s ! i) ! (cv_depth (ct_vars s ! i) - 1)) # tl (gens_of st key)"
      using found(4) [OF 2(1, 3)] var_stack_top [OF 2(4)] 2(2) by metis
    show ?case
    proof (cases "axis < 0")
      case True
      with 2 C_SetDim ne show ?thesis by (simp split: list.split)
    next
      case False
      with 2(5) have "t = upd_var i (set_extent axis extent) s" by (auto split: if_splits)
      with set_dim_spec [OF 2(1, 3, 4), of axis extent] False 2(2) C_SetDim ne show ?thesis by (auto split: list.split)
    qed
  qed
next
  case (C_Ensure key n)
  with assms(3) have w: "pli_ctl_ensure pl key n st = Inr ((), t)" by (auto simp: state_of_def map_sum_def split: sum.splits)
  from w [unfolded pli_ctl_ensure_def] show ?thesis
  proof (rule with_top_cases [OF assms(2)], goal_cases)
    case (1 s)
    then obtain p where "pli_ctl_alloc pl key n s = Inr (p, t)" by (auto split: sum.splits)
    from ctl_alloc_spec [OF assms(1) 1(1) this] 1 C_Ensure show ?case by (simp add: fun_eq_iff)
  next
    case (2 s i)
    have "gens_of st key \<noteq> []" using found(4) [OF 2(1, 3)] var_stack_top [OF 2(4)] 2(2) by auto
    with 2 C_Ensure show ?case by simp
  qed
qed

subsection \<open>Runs\<close>

fun ctl_run :: "plat \<Rightarrow> ctl_op list \<Rightarrow> ctl_state \<Rightarrow> string + ctl_state" where
  "ctl_run pl [] st = Inr st"
| "ctl_run pl (op # ops) st = (case ctl_step pl op st of Inl e \<Rightarrow> Inl e | Inr t \<Rightarrow> ctl_run pl ops t)"

fun gen_run :: "ctl_op list \<Rightarrow> generations \<Rightarrow> generations option" where
  "gen_run [] m = Some m"
| "gen_run (op # ops) m = (case gen_step op m of None \<Rightarrow> None | Some m2 \<Rightarrow> gen_run ops m2)"

definition ctl_init :: ctl_state where
  "ctl_init = \<lparr>ct_vars = [], ct_last = None, ct_cache_key = 0, ct_cache_bytes = 0, ct_cache_len = 0, ct_heap = {}\<rparr>"

lemma run_refines: "fresh_malloc pl \<Longrightarrow> ctl_ok st \<Longrightarrow> ctl_run pl ops st = Inr t \<Longrightarrow> ctl_ok t \<and> gen_run ops (gens_of st) = Some (gens_of t)"
proof (induction ops arbitrary: st)
  case (Cons op ops)
  from Cons.prems(3) obtain u where u: "ctl_step pl op st = Inr u" "ctl_run pl ops u = Inr t" by (auto split: sum.splits)
  from step_refines [OF Cons.prems(1, 2) u(1)] Cons.IH [OF Cons.prems(1) _ u(2)] show ?case by auto
qed simp

lemma init_ok: "ctl_ok ctl_init" "gens_of ctl_init = (\<lambda>_. [])"
  by (simp_all add: ctl_ok_def table_ok_def owned_def ctl_init_def slots_def gens_of_def fun_eq_iff)

text \<open>Reading the latest generation never fails.\<close>

lemma with_top_reads:
  assumes "ctl_ok st"
  obtains s where "with_top pl key f g st = g s" "gens_of st key = []"
  | s i v gs where "with_top pl key f g st = f i v s" "0 < cv_depth v" "var_ok v"
      "gens_of st key = (cv_lens v ! (cv_depth v - 1), cv_dimss v ! (cv_depth v - 1)) # gs"
proof -
  obtain r s where fnd: "ctlFind pl key False st = Inr (r, s)"
    by (cases "ctlFind pl key False st") (auto simp: ctlFind_def Let_def split: option.splits)
  from find_spec [OF assms fnd] have s: "ctl_ok s" "gens_of s = gens_of st" "r = key_index key (ct_vars s)" by auto
  show thesis
  proof (cases r)
    case None
    have "gens_of s key = []" using s(3) None by (simp add: gens_of_def)
    with None s fnd that(1) [of s] show ?thesis by (simp add: with_top_def)
  next
    case (Some i)
    from Some s(3) found [OF s(1), of key i] have v: "gens_of s key = var_stack (ct_vars s ! i)" "var_ok (ct_vars s ! i)" by auto
    show ?thesis
    proof (cases "cv_depth (ct_vars s ! i)")
      case 0
      with v s(2) Some fnd that(1) [of s] show ?thesis by (simp add: with_top_def var_stack_def)
    next
      case (Suc k)
      with v s(2) var_stack_top [of "ct_vars s ! i"] Some fnd that(2) [of i "ct_vars s ! i" s] show ?thesis by (simp add: with_top_def)
    qed
  qed
qed

definition value_of :: "string + ('a \<times> ctl_state) \<Rightarrow> 'a option" where
  "value_of r = (case r of Inl _ \<Rightarrow> None | Inr (v, _) \<Rightarrow> Some v)"

lemma reads_spec:
  assumes "ctl_ok st"
  shows "value_of (pli_ctl_len pl key st) = Some (case gens_of st key of [] \<Rightarrow> 0 | (n, ds) # _ \<Rightarrow> n)"
    and "value_of (pli_ctl_rank pl key st) = Some (case gens_of st key of [] \<Rightarrow> 0 | (n, ds) # _ \<Rightarrow> int (length ds))"
    and "value_of (pli_ctl_extent pl key axis st) =
      Some (case gens_of st key of [] \<Rightarrow> 0 | (n, ds) # _ \<Rightarrow> if 0 \<le> axis \<and> nat axis < length ds then ds ! nat axis else 0)"
proof -
  show "value_of (pli_ctl_len pl key st) = Some (case gens_of st key of [] \<Rightarrow> 0 | (n, ds) # _ \<Rightarrow> n)"
    unfolding pli_ctl_len_def
    by (rule with_top_reads [OF assms, of pl key "\<lambda>i v s. Inr (cv_lens v ! (cv_depth v - 1), s)" "\<lambda>s. Inr (0, s)"])
      (auto simp: value_of_def split: list.split)
  show "value_of (pli_ctl_rank pl key st) = Some (case gens_of st key of [] \<Rightarrow> 0 | (n, ds) # _ \<Rightarrow> int (length ds))"
    unfolding pli_ctl_rank_def
    by (rule with_top_reads [OF assms, of pl key "\<lambda>i v s. Inr (cv_ranks v ! (cv_depth v - 1), s)" "\<lambda>s. Inr (0, s)"])
      (auto simp: value_of_def var_ok_def split: list.split)
  show "value_of (pli_ctl_extent pl key axis st) =
      Some (case gens_of st key of [] \<Rightarrow> 0 | (n, ds) # _ \<Rightarrow> if 0 \<le> axis \<and> nat axis < length ds then ds ! nat axis else 0)"
    unfolding pli_ctl_extent_def
    by (rule with_top_reads [OF assms, of pl key
        "\<lambda>i v s. Inr (if axis < 0 \<or> axis \<ge> cv_ranks v ! (cv_depth v - 1) then 0 else cv_dimss v ! (cv_depth v - 1) ! nat axis, s)" "\<lambda>s. Inr (0, s)"])
      (auto simp: value_of_def var_ok_def split: list.split)
qed

text \<open>A platform with three blocks.\<close>

definition counting_plat :: plat where
  "counting_plat = \<lparr>pl_malloc = (\<lambda>used n. if 1 \<notin> used then 1 else if 2 \<notin> used then 2 else if 3 \<notin> used then 3 else 0), pl_grow = (\<lambda>_. True)\<rparr>"

text \<open>C33: The CONTROLLED table implements the language's generation stacks: after any sequence of allocations, extent settings and frees that does not end the
  program, what the reads answer for every name is what the stacks of the language hold; in particular a FREE the language does not
  allow ends the program.\<close>
theorem controlled_storage_refines_stacks:
  assumes "fresh_malloc pl" and "ctl_run pl ops ctl_init = Inr t"
  shows "\<exists>m. gen_run ops (\<lambda>_. []) = Some m \<and>
    value_of (pli_ctl_len pl key t) = Some (case m key of [] \<Rightarrow> 0 | (n, ds) # _ \<Rightarrow> n) \<and>
    value_of (pli_ctl_rank pl key t) = Some (case m key of [] \<Rightarrow> 0 | (n, ds) # _ \<Rightarrow> int (length ds)) \<and>
    value_of (pli_ctl_extent pl key axis t) =
      Some (case m key of [] \<Rightarrow> 0 | (n, ds) # _ \<Rightarrow> if 0 \<le> axis \<and> nat axis < length ds then ds ! nat axis else 0)"
  using run_refines [OF assms(1) init_ok(1) assms(2)] reads_spec [of t pl key] init_ok(2) by auto

lemma counting_fresh: "fresh_malloc counting_plat"
  by (simp add: fresh_malloc_def counting_plat_def)

theorem controlled_storage_refines_stacks_witness:
  "\<exists>t. ctl_run counting_plat [C_Alloc 5 10, C_AllocDims 6 8 2, C_SetDim 6 1 4, C_Alloc 5 20, C_Free 5, C_Alloc 5 20] ctl_init = Inr t \<and>
     value_of (pli_ctl_len counting_plat 5 t) = Some 20 \<and> value_of (pli_ctl_extent counting_plat 6 1 t) = Some 4"
proof -
  let ?ops = "[C_Alloc 5 10, C_AllocDims 6 8 2, C_SetDim 6 1 4, C_Alloc 5 20, C_Free 5, C_Alloc 5 20]"
  have "case ctl_run counting_plat ?ops ctl_init of Inr t \<Rightarrow> True | Inl _ \<Rightarrow> False" by code_simp
  then obtain t where t: "ctl_run counting_plat ?ops ctl_init = Inr t" by (auto split: sum.splits)
  from controlled_storage_refines_stacks [OF counting_fresh t, of 5 0] controlled_storage_refines_stacks [OF counting_fresh t, of 6 1]
  show ?thesis using t by (auto simp: set_axis_def numeral_2_eq_2)
qed

text \<open>No two live generations share storage: after any run the addresses of all generations of all names are different and allocated, and the buffer
  kept for reuse belongs to none of them.\<close>
lemma generations_are_disjoint:
  assumes "fresh_malloc pl" and "ctl_run pl ops ctl_init = Inr t"
  shows "inj_on (addr t) (slots t) \<and> addr t ` slots t \<subseteq> ct_heap t \<and> (ct_cache_bytes t \<noteq> 0 \<longrightarrow> ct_cache_bytes t \<notin> addr t ` slots t)"
  using run_refines [OF assms(1) init_ok(1) assms(2)] by (simp add: ctl_ok_def owned_def)

section \<open>Regions account for their blocks\<close>

definition area_ok :: "PliArea \<Rightarrow> ptr set \<Rightarrow> bool" where
  "area_ok a used \<longleftrightarrow> ar_used a = (\<Sum>b\<leftarrow>ar_blocks a. bk_size b + sizeof_PliBlock) \<and> ar_used a \<le> ar_size a \<and>
     list_all (\<lambda>b. 0 \<le> bk_size b) (ar_blocks a) \<and> distinct (map bk_addr (ar_blocks a)) \<and> bk_addr ` set (ar_blocks a) \<subseteq> used \<and> 0 \<notin> used"

lemma unlink_None: "unlink p bs = None \<longleftrightarrow> p \<notin> (\<lambda>b. int (bk_addr b)) ` set bs"
  by (induction bs) auto

lemma unlink_Some: "unlink p bs = Some (b, cs) \<Longrightarrow> \<exists>us vs. bs = us @ b # vs \<and> cs = us @ vs \<and> int (bk_addr b) = p"
proof (induction bs arbitrary: cs)
  case (Cons c bs)
  show ?case
  proof (cases "int (bk_addr c) = p")
    case True
    with Cons.prems show ?thesis by (intro exI [of _ "[]"] exI [of _ bs]) auto
  next
    case False
    with Cons.prems obtain ds where "unlink p bs = Some (b, ds)" "cs = c # ds" by auto
    with Cons.IH [of ds] show ?thesis by (metis append_Cons)
  qed
qed simp

lemma area_alloc_spec:
  assumes "fresh_malloc pl" and "area_ok a used" and "pli_area_alloc pl st (Some a) n used = Area_Done (p, a2, used2)"
  shows "area_ok a2 used2 \<and> p = bk_addr (hd (ar_blocks a2)) + 16 \<and> bk_addr (hd (ar_blocks a2)) \<notin> used \<and> tl (ar_blocks a2) = ar_blocks a \<and>
    used2 = insert (bk_addr (hd (ar_blocks a2))) used \<and> a = a2\<lparr>ar_blocks := ar_blocks a, ar_used := ar_used a2 - (bk_size (hd (ar_blocks a2)) + 16)\<rparr> \<and> ar_blocks a2 \<noteq> []"
proof -
  let ?need = "if n < 0 then 0 else n"
  let ?b = "pl_malloc pl used (nat (?need + 16))"
  from assms(3) have s: "?need \<le> ar_size a - ar_used a - 16" "?b \<noteq> 0" "p = ?b + 16" "used2 = insert ?b used"
    "a2 = a\<lparr>ar_blocks := \<lparr>bk_addr = ?b, bk_size = ?need\<rparr> # ar_blocks a, ar_used := ar_used a + (?need + 16)\<rparr>"
    by (auto simp: pli_area_alloc_def rt_area_raise_def Let_def sizeof_PliBlock_def split: if_splits prod.splits)
  with assms(1) have "?b \<notin> used" by (intro freshD)
  with s assms(2) show ?thesis by (auto simp: area_ok_def sizeof_PliBlock_def)
qed

lemma area_free_spec:
  assumes "area_ok a used" and "pli_area_free st (Some a) p used = Area_Done (Some a2, used2)"
  shows "area_ok a2 used2"
proof (cases "p = 0")
  case False
  with assms(2) obtain b where u: "unlink (block_at p) (ar_blocks a) = Some (b, ar_blocks a2)"
    and a2: "a2 = a\<lparr>ar_blocks := ar_blocks a2, ar_used := ar_used a - (bk_size b + 16)\<rparr>" "used2 = used - {bk_addr b}"
    by (auto simp: pli_area_free_def rt_area_raise_def sizeof_PliBlock_def split: option.splits prod.splits if_splits)
  from unlink_Some [OF u] obtain us vs where bs: "ar_blocks a = us @ b # vs" "ar_blocks a2 = us @ vs" by blast
  have "ar_used a2 = ar_used a - (bk_size b + 16)" "ar_size a2 = ar_size a" by (subst a2(1), simp)+
  with assms(1) bs a2(2) show ?thesis by (auto simp: area_ok_def sizeof_PliBlock_def subset_iff image_iff)
qed (use assms in \<open>simp add: pli_area_free_def\<close>)

datatype area_op = A_Alloc int | A_Free ptr

text \<open>A program's use of a region: an operation that raises AREA with a handler has no effect, without one the program ends.\<close>

fun area_step :: "plat \<Rightarrow> pli_task_local \<Rightarrow> area_op \<Rightarrow> PliArea \<times> ptr set \<Rightarrow> (PliArea \<times> ptr set) option" where
  "area_step pl st (A_Alloc n) (a, used) =
     (case pli_area_alloc pl st (Some a) n used of Area_Done (p, a2, used2) \<Rightarrow> Some (a2, used2) | Area_Raised _ \<Rightarrow> Some (a, used) | Area_Exit _ \<Rightarrow> None)"
| "area_step pl st (A_Free p) (a, used) =
     (case pli_area_free st (Some a) p used of Area_Done (r, used2) \<Rightarrow> map_option (\<lambda>a2. (a2, used2)) r | Area_Raised _ \<Rightarrow> Some (a, used) | Area_Exit _ \<Rightarrow> None)"

fun area_run :: "plat \<Rightarrow> pli_task_local \<Rightarrow> area_op list \<Rightarrow> PliArea \<times> ptr set \<Rightarrow> (PliArea \<times> ptr set) option" where
  "area_run pl st [] s = Some s"
| "area_run pl st (op # ops) s = (case area_step pl st op s of None \<Rightarrow> None | Some s2 \<Rightarrow> area_run pl st ops s2)"

lemma area_step_ok: "fresh_malloc pl \<Longrightarrow> area_ok a used \<Longrightarrow> area_step pl st op (a, used) = Some (a2, used2) \<Longrightarrow> area_ok a2 used2 \<and> ar_size a2 = ar_size a"
proof (cases op)
  case (A_Alloc n)
  assume f: "fresh_malloc pl" and ok: "area_ok a used" and s: "area_step pl st op (a, used) = Some (a2, used2)"
  with A_Alloc consider p where "pli_area_alloc pl st (Some a) n used = Area_Done (p, a2, used2)" | "a2 = a" "used2 = used"
    by (auto split: area_res.splits)
  then show ?thesis
  proof cases
    case 1
    with area_alloc_spec [OF f ok 1] show ?thesis by (metis PliArea.select_convs(1) PliArea.surjective PliArea.update_convs(2, 3))
  qed (use ok in simp)
next
  case (A_Free p)
  assume ok: "area_ok a used" and s: "area_step pl st op (a, used) = Some (a2, used2)"
  with A_Free consider "pli_area_free st (Some a) p used = Area_Done (Some a2, used2)" | "a2 = a" "used2 = used"
    by (auto split: area_res.splits)
  then show ?thesis
  proof cases
    case 1
    moreover from 1 have "ar_size a2 = ar_size a"
      by (auto simp: pli_area_free_def rt_area_raise_def split: if_splits option.splits prod.splits)
    ultimately show ?thesis using area_free_spec [OF ok] by blast
  qed (use ok in simp)
qed

text \<open>C34: A region accounts for its blocks exactly: from its creation through any sequence of allocations and frees, refused ones included, the bytes it counts as
  used are the payloads and headers of its live blocks, never more than its size, and its blocks have different, allocated addresses.\<close>
theorem area_accounts_exactly:
  assumes "fresh_malloc pl" and "pli_area_create pl n = Inr a0" and "area_run pl st ops (a0, {}) = Some (a, used)"
  shows "ar_used a = (\<Sum>b\<leftarrow>ar_blocks a. bk_size b + sizeof_PliBlock) \<and> ar_used a \<le> max n 0 \<and>
    distinct (map bk_addr (ar_blocks a)) \<and> bk_addr ` set (ar_blocks a) \<subseteq> used"
proof -
  have run: "area_ok b u \<Longrightarrow> area_run pl st ops (b, u) = Some (a, used) \<Longrightarrow> area_ok a used \<and> ar_size a = ar_size b" for b u
  proof (induction ops arbitrary: b u)
    case (Cons op ops)
    from Cons.prems(2) obtain b2 u2 where s: "area_step pl st op (b, u) = Some (b2, u2)" "area_run pl st ops (b2, u2) = Some (a, used)"
      by (auto split: option.splits)
    from area_step_ok [OF assms(1) Cons.prems(1) s(1)] Cons.IH [OF _ s(2)] show ?case by simp
  qed simp
  from assms(2) have "area_ok a0 {}" "ar_size a0 = max n 0" by (auto simp: pli_area_create_def area_ok_def max_def split: if_splits)
  with run [OF _ assms(3)] show ?thesis by (simp add: area_ok_def)
qed

definition no_units :: pli_task_local where
  "no_units = \<lparr>on_stack = [], on_sp = 0, on_cap = 0, oncode = 0, on_source = 0, finish_fn = 0\<rparr>"

theorem area_accounts_exactly_witness:
  "\<exists>a0 a used. pli_area_create counting_plat 100 = Inr a0 \<and> area_run counting_plat no_units [A_Alloc 10, A_Alloc 20, A_Free 17] (a0, {}) = Some (a, used) \<and>
     ar_used a \<le> 100 \<and> distinct (map bk_addr (ar_blocks a))"
proof -
  let ?a0 = "\<lparr>ar_size = 100, ar_used = 0, ar_blocks = []\<rparr>"
  have c: "pli_area_create counting_plat 100 = Inr ?a0" by (simp add: pli_area_create_def counting_plat_def)
  have "\<not> Option.is_none (area_run counting_plat no_units [A_Alloc 10, A_Alloc 20, A_Free 17] (?a0, {}))" by code_simp
  then obtain a used where r: "area_run counting_plat no_units [A_Alloc 10, A_Alloc 20, A_Free 17] (?a0, {}) = Some (a, used)" by (auto simp: Option.is_none_def)
  from area_accounts_exactly [OF counting_fresh c r] c r show ?thesis by auto
qed

text \<open>C35: FREE gives back exactly what ALLOCATE took, and nothing else: an allocation only succeeds when payload and header fit, and freeing the address it returned
  restores the region and the platform's storage; a pointer the region does not own is refused.\<close>
theorem area_free_undoes_alloc:
  assumes "fresh_malloc pl" and "area_ok a used"
  shows "(pli_area_alloc pl st (Some a) n used = Area_Done (p, a2, used2) \<longrightarrow>
      max n 0 + sizeof_PliBlock \<le> ar_size a - ar_used a \<and> pli_area_free st (Some a2) p used2 = Area_Done (Some a, used)) \<and>
    (q \<noteq> 0 \<and> block_at q \<notin> (\<lambda>b. int (bk_addr b)) ` set (ar_blocks a) \<longrightarrow> (\<nexists>r. pli_area_free st (Some a) q used = Area_Done r))"
proof (intro conjI impI)
  assume d: "pli_area_alloc pl st (Some a) n used = Area_Done (p, a2, used2)"
  then show "max n 0 + sizeof_PliBlock \<le> ar_size a - ar_used a"
    by (auto simp: pli_area_alloc_def rt_area_raise_def Let_def max_def split: if_splits prod.splits)
  note s = area_alloc_spec [OF assms d]
  obtain b bs where bs: "ar_blocks a2 = b # bs" using s by (cases "ar_blocks a2") auto
  with s have "p = bk_addr b + 16" "bs = ar_blocks a" "used2 = insert (bk_addr b) used" "bk_addr b \<notin> used"
    "a = a2\<lparr>ar_blocks := ar_blocks a, ar_used := ar_used a2 - (bk_size b + 16)\<rparr>" by simp_all
  with bs show "pli_area_free st (Some a2) p used2 = Area_Done (Some a, used)"
    by (simp add: pli_area_free_def block_at_def sizeof_PliBlock_def)
next
  assume "q \<noteq> 0 \<and> block_at q \<notin> (\<lambda>b. int (bk_addr b)) ` set (ar_blocks a)"
  then show "\<nexists>r. pli_area_free st (Some a) q used = Area_Done r"
    using unlink_None [of "block_at q" "ar_blocks a"] by (auto simp: pli_area_free_def rt_area_raise_def split: prod.splits if_splits)
qed

theorem area_free_undoes_alloc_witness:
  "let a = \<lparr>ar_size = 100, ar_used = 0, ar_blocks = []\<rparr> in
   \<exists>p a2 used2. pli_area_alloc counting_plat no_units (Some a) 10 {} = Area_Done (p, a2, used2) \<and> pli_area_free no_units (Some a2) p used2 = Area_Done (Some a, {})"
proof -
  let ?a = "\<lparr>ar_size = 100, ar_used = 0, ar_blocks = []\<rparr> :: PliArea"
  have ok: "area_ok ?a {}" by (simp add: area_ok_def)
  have "case pli_area_alloc counting_plat no_units (Some ?a) 10 {} of Area_Done r \<Rightarrow> True | _ \<Rightarrow> False" by code_simp
  then obtain p a2 used2 where d: "pli_area_alloc counting_plat no_units (Some ?a) 10 {} = Area_Done (p, a2, used2)" by (auto split: area_res.splits)
  from area_free_undoes_alloc [OF counting_fresh ok, of no_units 10 p a2 used2 0] d show ?thesis by (auto simp: Let_def)
qed

end
