(* ===== verification/RtString.thy ===== *)
theory RtString
  imports Folds RtCond
begin

text \<open>
  The string routines of the runtime (\<open>src/runtime/rt_string.c\<close>) and the byte primitives they use
  (\<open>src/runtime/pli_rt_state.h\<close>).  Memory is a function from addresses to bytes and every loop of the C text is a
  recursion that stores one byte per round, so that overlapping operands behave as they do in the program.
  A \<open>long long\<close> length is an integer; the conversions to \<open>size_t\<close> are made where the length
  is known not to be negative, and reduce modulo \<open>2 ^ 64\<close> where the C text does not test it.

  The first half has the definitions, the second half shows for each routine which text it leaves in its field:
  a function of the operands as they were before the call.
\<close>

type_synonym mem = "int \<Rightarrow> char"

definition blank :: char where
  "blank = CHR '' ''"

definition size_t :: "int \<Rightarrow> nat" where
  "size_t n = nat (n mod 2 ^ 64)"

section \<open>Byte primitives\<close>

fun copy_up :: "int \<Rightarrow> int \<Rightarrow> nat \<Rightarrow> mem \<Rightarrow> mem" where
  "copy_up a b 0 m = m"
| "copy_up a b (Suc n) m = copy_up (a + 1) (b + 1) n (m(a := m b))"

fun copy_down :: "int \<Rightarrow> int \<Rightarrow> nat \<Rightarrow> mem \<Rightarrow> mem" where
  "copy_down e b 0 m = m"
| "copy_down e b (Suc n) m = copy_down (e - 1) (b - 1) n (m(e - 1 := m (b - 1)))"

definition pli_memcpy :: "int \<Rightarrow> int \<Rightarrow> nat \<Rightarrow> mem \<Rightarrow> mem" where
  "pli_memcpy d s n m = copy_up d s n m"

definition pli_memmove :: "int \<Rightarrow> int \<Rightarrow> nat \<Rightarrow> mem \<Rightarrow> mem" where
  "pli_memmove d s n m =
     (if d = s then m else if d < s then copy_up d s n m else copy_down (d + int n) (s + int n) n m)"

fun pli_memset :: "int \<Rightarrow> char \<Rightarrow> nat \<Rightarrow> mem \<Rightarrow> mem" where
  "pli_memset a ch 0 m = m"
| "pli_memset a ch (Suc n) m = pli_memset (a + 1) ch n (m(a := ch))"

fun pli_memcmp :: "mem \<Rightarrow> int \<Rightarrow> int \<Rightarrow> nat \<Rightarrow> int" where
  "pli_memcmp m x y 0 = 0"
| "pli_memcmp m x y (Suc n) =
     (if m x \<noteq> m y then (if ucode (m x) < ucode (m y) then - 1 else 1) else pli_memcmp m (x + 1) (y + 1) n)"

fun pli_memchr :: "mem \<Rightarrow> int \<Rightarrow> char \<Rightarrow> nat \<Rightarrow> int option" where
  "pli_memchr m a ch 0 = None"
| "pli_memchr m a ch (Suc n) = (if m a = ch then Some a else pli_memchr m (a + 1) ch n)"

text \<open>The loops over a terminated string; \<open>n\<close> bounds the distance to its terminator.\<close>

fun pli_strlen :: "nat \<Rightarrow> mem \<Rightarrow> int \<Rightarrow> nat option" where
  "pli_strlen 0 m s = None"
| "pli_strlen (Suc n) m s = (if m s = NUL then Some 0 else map_option Suc (pli_strlen n m (s + 1)))"

fun pli_strncmp :: "mem \<Rightarrow> int \<Rightarrow> int \<Rightarrow> nat \<Rightarrow> int" where
  "pli_strncmp m a b 0 = 0"
| "pli_strncmp m a b (Suc n) =
     (if m a \<noteq> NUL \<and> m a = m b then pli_strncmp m (a + 1) (b + 1) n else int (ucode (m a)) - int (ucode (m b)))"

fun pli_strchr :: "nat \<Rightarrow> mem \<Rightarrow> int \<Rightarrow> char \<Rightarrow> int option" where
  "pli_strchr 0 m s ch = None"
| "pli_strchr (Suc n) m s ch =
     (if m s \<noteq> NUL \<and> m s \<noteq> ch then pli_strchr n m (s + 1) ch else if m s = ch then Some s else None)"

section \<open>Assignment, concatenation and substrings\<close>

definition pli_assign_char :: "int \<Rightarrow> int \<Rightarrow> int \<Rightarrow> int \<Rightarrow> mem \<Rightarrow> mem" where
  "pli_assign_char dst dstlen src srclen m =
     (let dstlen = (if dstlen < 0 then 0 else dstlen);
          srclen = (if srclen < 0 then 0 else srclen);
          n = (if srclen < dstlen then srclen else dstlen);
          m = (if n > 0 then pli_memmove dst src (size_t n) m else m)
      in if dstlen > n then pli_memset (dst + n) blank (size_t (dstlen - n)) m else m)"

definition pli_assign_varying :: "int \<Rightarrow> int \<Rightarrow> int \<Rightarrow> int \<Rightarrow> mem \<Rightarrow> int \<times> mem" where
  "pli_assign_varying dstdata cap src srclen m =
     (let cap = (if cap < 0 then 0 else cap);
          srclen = (if srclen < 0 then 0 else srclen);
          n = (if srclen < cap then srclen else cap);
          m = (if n > 0 then pli_memmove dstdata src (size_t n) m else m);
          m = (if cap > n then pli_memset (dstdata + n) blank (size_t (cap - n)) m else m)
      in (n, m))"

definition pli_concat :: "int \<Rightarrow> int \<Rightarrow> int \<Rightarrow> int \<Rightarrow> int \<Rightarrow> mem \<Rightarrow> mem" where
  "pli_concat dst a alen b blen m =
     (let alen = (if alen < 0 then 0 else alen);
          blen = (if blen < 0 then 0 else blen);
          m = (if alen > 0 then pli_memmove dst a (size_t alen) m else m)
      in if blen > 0 then pli_memmove (dst + alen) b (size_t blen) m else m)"

fun isochar_loop :: "int \<Rightarrow> int \<Rightarrow> nat \<Rightarrow> int \<Rightarrow> mem \<Rightarrow> mem" where
  "isochar_loop dst lo 0 i m = m"
| "isochar_loop dst lo (Suc k) i m = isochar_loop dst lo k (i + 1) (m(dst + i := char_of (nat ((lo + i) mod 256))))"

definition pli_isochar :: "int \<Rightarrow> int \<Rightarrow> int \<Rightarrow> int \<Rightarrow> mem \<Rightarrow> mem" where
  "pli_isochar dst dstlen lo hi m =
     (let n = (if lo \<le> hi then hi - lo + 1 else 0);
          n = (if n > dstlen then dstlen else n);
          m = isochar_loop dst lo (nat n) 0 m
      in if dstlen > n then pli_memset (dst + n) blank (size_t (dstlen - n)) m else m)"


text \<open>\<open>pli_signal_error\<close> ends the program: an error is the message it prints.\<close>

definition pli_substr_assign :: "int \<Rightarrow> int \<Rightarrow> int \<Rightarrow> int \<Rightarrow> int \<Rightarrow> int \<Rightarrow> mem \<Rightarrow> string + mem" where
  "pli_substr_assign dst dstcap start len src srclen m =
     (if start < 1 then Inr m
      else if dstcap \<le> 0 \<or> dstcap > 100 * 1024 * 1024 then Inl ''substr_assign: corrupt dstcap''
      else if size_t (dst + dstcap) < size_t dst then Inl ''substr_assign: wraparound in dstcap''
      else
        (let space = dstcap - (start - 1) in
         if space \<le> 0 then Inr m
         else
           (let n = (if len > space then space else len);
                take = (if srclen < n then srclen else n);
                m = (if take > 0 then pli_memmove (dst + (start - 1)) src (size_t take) m else m)
            in Inr (if n > take then pli_memset (dst + (start - 1) + take) blank (size_t (n - take)) m else m))))"

text \<open>The live length of a VARYING string is the \<open>int\<close> at \<open>lenptr\<close>: an argument and a result here.\<close>

definition pli_substr_assign_varying ::
    "int \<Rightarrow> int \<Rightarrow> int \<Rightarrow> int \<Rightarrow> int \<Rightarrow> int \<Rightarrow> int \<Rightarrow> mem \<Rightarrow> string + int \<times> mem" where
  "pli_substr_assign_varying dst dstcap live start len src srclen m =
     (case pli_substr_assign dst dstcap start len src srclen m of
        Inl e \<Rightarrow> Inl e
      | Inr m \<Rightarrow>
          if start < 1 then Inr (live, m)
          else
            (let old = (if live < 0 then 0 else live);
                 old = (if old > dstcap then dstcap else old);
                 space = dstcap - (start - 1)
             in if space \<le> 0 then Inr (live, m)
                else
                  (let n = (if len > space then space else len);
                       m = (if start - 1 > old then pli_memset (dst + old) blank (size_t (start - 1 - old)) m else m);
                       e = start - 1 + n
                   in Inr (if e > old then e else live, m))))"

section \<open>Built-in functions that fill a field\<close>

text \<open>The common tail \<open>while (out < dstcap) dst[out++] = ' '\<close>.\<close>

function fill_loop :: "int \<Rightarrow> int \<Rightarrow> int \<Rightarrow> mem \<Rightarrow> mem" where
  "fill_loop dst dstcap out m = (if out < dstcap then fill_loop dst dstcap (out + 1) (m(dst + out := blank)) else m)"
  by pat_completeness auto
termination by (relation "measure (\<lambda>(_, c, i, _). nat (c - i))") auto
declare fill_loop.simps [simp del]

function repeat_inner :: "int \<Rightarrow> int \<Rightarrow> int \<Rightarrow> int \<Rightarrow> int \<Rightarrow> int \<Rightarrow> mem \<Rightarrow> int \<times> mem" where
  "repeat_inner dst dstcap src srclen i out m =
     (if i < srclen \<and> out < dstcap then repeat_inner dst dstcap src srclen (i + 1) (out + 1) (m(dst + out := m (src + i)))
      else (out, m))"
  by pat_completeness auto
termination by (relation "measure (\<lambda>(_, _, _, n, i, _). nat (n - i))") auto
declare repeat_inner.simps [simp del]

fun repeat_outer :: "nat \<Rightarrow> int \<Rightarrow> int \<Rightarrow> int \<Rightarrow> int \<Rightarrow> int \<Rightarrow> mem \<Rightarrow> int \<times> mem" where
  "repeat_outer 0 dst dstcap src srclen out m = (out, m)"
| "repeat_outer (Suc k) dst dstcap src srclen out m =
     (case repeat_inner dst dstcap src srclen 0 out m of (out, m) \<Rightarrow> repeat_outer k dst dstcap src srclen out m)"

definition pli_repeat :: "int \<Rightarrow> int \<Rightarrow> int \<Rightarrow> int \<Rightarrow> int \<Rightarrow> mem \<Rightarrow> mem" where
  "pli_repeat dst dstcap src srclen n m =
     (case repeat_outer (nat n) dst dstcap src srclen 0 m of (out, m) \<Rightarrow> fill_loop dst dstcap out m)"

text \<open>The scan \<open>while (k < inlen && c != in[k]) ++k\<close>, shared by TRANSLATE and VERIFY.\<close>

function scan_set :: "mem \<Rightarrow> char \<Rightarrow> int \<Rightarrow> int \<Rightarrow> int \<Rightarrow> int" where
  "scan_set m c t tlen j = (if j < tlen \<and> c \<noteq> m (t + j) then scan_set m c t tlen (j + 1) else j)"
  by pat_completeness auto
termination by (relation "measure (\<lambda>(_, _, _, n, j). nat (n - j))") auto
declare scan_set.simps [simp del]

definition translate_char :: "mem \<Rightarrow> int \<Rightarrow> int \<Rightarrow> int \<Rightarrow> int \<Rightarrow> char \<Rightarrow> char" where
  "translate_char m out outlen inp inlen c =
     (let k = scan_set m c inp inlen 0 in
      if k < inlen then (if k < outlen then m (out + k) else blank) else c)"

fun translate_rounds :: "nat \<Rightarrow> int \<Rightarrow> int \<Rightarrow> int \<Rightarrow> int \<Rightarrow> int \<Rightarrow> int \<Rightarrow> int \<Rightarrow> mem \<Rightarrow> mem" where
  "translate_rounds 0 dst s out outlen inp inlen i m = m"
| "translate_rounds (Suc k) dst s out outlen inp inlen i m =
     translate_rounds k dst s out outlen inp inlen (i + 1) (m(dst + i := translate_char m out outlen inp inlen (m (s + i))))"

definition pli_translate :: "int \<Rightarrow> int \<Rightarrow> int \<Rightarrow> int \<Rightarrow> int \<Rightarrow> int \<Rightarrow> int \<Rightarrow> int \<Rightarrow> mem \<Rightarrow> mem" where
  "pli_translate dst dstcap s slen out outlen inp inlen m =
     (let n = (if slen < dstcap then slen else dstcap);
          m = translate_rounds (nat n) dst s out outlen inp inlen 0 m
      in if dstcap > n then pli_memset (dst + n) blank (size_t (dstcap - n)) m else m)"

text \<open>TRIM: the pad set is a null pointer or an address with a length.\<close>

definition trimmed :: "mem \<Rightarrow> (int \<times> int) option \<Rightarrow> char \<Rightarrow> bool" where
  "trimmed m pad c = (case pad of None \<Rightarrow> c = blank | Some (p, padlen) \<Rightarrow> pli_memchr m p c (size_t padlen) \<noteq> None)"






definition lower_char :: "char \<Rightarrow> char" where
  "lower_char c = (if in_range c (CHR ''A'') (CHR ''Z'') then char_of (ucode c - ucode (CHR ''A'') + ucode (CHR ''a'')) else c)"

function map_loop :: "(char \<Rightarrow> char) \<Rightarrow> int \<Rightarrow> int \<Rightarrow> int \<Rightarrow> int \<Rightarrow> int \<Rightarrow> mem \<Rightarrow> int \<times> mem" where
  "map_loop f dst dstcap s slen i m =
     (if i < slen \<and> i < dstcap then map_loop f dst dstcap s slen (i + 1) (m(dst + i := f (m (s + i)))) else (i, m))"
  by pat_completeness auto
termination by (relation "measure (\<lambda>(_, _, _, _, n, i, _). nat (n - i))") auto
declare map_loop.simps [simp del]


definition pli_lowercase :: "int \<Rightarrow> int \<Rightarrow> int \<Rightarrow> int \<Rightarrow> mem \<Rightarrow> mem" where
  "pli_lowercase dst dstcap s slen m = (case map_loop lower_char dst dstcap s slen 0 m of (i, m) \<Rightarrow> fill_loop dst dstcap i m)"

definition pli_high :: "int \<Rightarrow> int \<Rightarrow> mem \<Rightarrow> mem" where
  "pli_high dst n m = pli_memset dst (CHR 0xFF) (size_t n) m"

definition pli_low :: "int \<Rightarrow> int \<Rightarrow> mem \<Rightarrow> mem" where
  "pli_low dst n m = pli_memset dst NUL (size_t n) m"


definition pli_collate :: "int \<Rightarrow> int \<Rightarrow> int \<Rightarrow> mem \<Rightarrow> mem" where
  "pli_collate dst dstcap n m =
     (let m = (if dstcap > 0 then m(dst := char_of (nat (n mod 256))) else m) in fill_loop dst dstcap 1 m)"



section \<open>Built-in functions that read\<close>

function verify_loop :: "mem \<Rightarrow> int \<Rightarrow> int \<Rightarrow> int \<Rightarrow> int \<Rightarrow> int \<Rightarrow> int" where
  "verify_loop m s slen t tlen i =
     (if i < slen then (if scan_set m (m (s + i)) t tlen 0 = tlen then i + 1 else verify_loop m s slen t tlen (i + 1)) else 0)"
  by pat_completeness auto
termination by (relation "measure (\<lambda>(_, _, n, _, _, i). nat (n - i))") auto
declare verify_loop.simps [simp del]

definition pli_verify :: "mem \<Rightarrow> int \<Rightarrow> int \<Rightarrow> int \<Rightarrow> int \<Rightarrow> int" where
  "pli_verify m s slen t tlen = verify_loop m s slen t tlen 0"

definition pli_verify_from :: "mem \<Rightarrow> int \<Rightarrow> int \<Rightarrow> int \<Rightarrow> int \<Rightarrow> int \<Rightarrow> int" where
  "pli_verify_from m s slen t tlen start = verify_loop m s slen t tlen ((if start < 1 then 1 else start) - 1)"

text \<open>The inner loop of SEARCH, \<open>for (j = 0; j < tlen; ++j) if (s[i] == t[j]) return i + 1\<close>, as its test.\<close>

function occurs_in :: "mem \<Rightarrow> char \<Rightarrow> int \<Rightarrow> int \<Rightarrow> int \<Rightarrow> bool" where
  "occurs_in m c t tlen j = (if j < tlen then (if c = m (t + j) then True else occurs_in m c t tlen (j + 1)) else False)"
  by pat_completeness auto
termination by (relation "measure (\<lambda>(_, _, _, n, j). nat (n - j))") auto
declare occurs_in.simps [simp del]

function search_loop :: "mem \<Rightarrow> int \<Rightarrow> int \<Rightarrow> int \<Rightarrow> int \<Rightarrow> int \<Rightarrow> int" where
  "search_loop m s slen t tlen i =
     (if i < slen then (if occurs_in m (m (s + i)) t tlen 0 then i + 1 else search_loop m s slen t tlen (i + 1)) else 0)"
  by pat_completeness auto
termination by (relation "measure (\<lambda>(_, _, n, _, _, i). nat (n - i))") auto
declare search_loop.simps [simp del]

definition pli_search :: "mem \<Rightarrow> int \<Rightarrow> int \<Rightarrow> int \<Rightarrow> int \<Rightarrow> int \<Rightarrow> int" where
  "pli_search m s slen t tlen start = search_loop m s slen t tlen ((if start < 1 then 1 else start) - 1)"

function tally_loop :: "mem \<Rightarrow> int \<Rightarrow> int \<Rightarrow> int \<Rightarrow> int \<Rightarrow> int \<Rightarrow> int \<Rightarrow> int" where
  "tally_loop m x xlen y ylen i n =
     (if 0 < ylen \<and> i + ylen \<le> xlen then
        (if pli_memcmp m (x + i) y (size_t ylen) = 0 then tally_loop m x xlen y ylen (i + ylen) (n + 1)
         else tally_loop m x xlen y ylen (i + 1) n)
      else n)"
  by pat_completeness auto
termination by (relation "measure (\<lambda>(_, _, n, _, _, i, _). nat (n - i))") auto
declare tally_loop.simps [simp del]

text \<open>The guard \<open>0 < ylen\<close> of the loop is the early return of the routine.\<close>

definition pli_tally :: "mem \<Rightarrow> int \<Rightarrow> int \<Rightarrow> int \<Rightarrow> int \<Rightarrow> int" where
  "pli_tally m x xlen y ylen = (if ylen \<le> 0 \<or> xlen < ylen then 0 else tally_loop m x xlen y ylen 0 0)"

function cmp_loop :: "mem \<Rightarrow> int \<Rightarrow> int \<Rightarrow> int \<Rightarrow> int \<Rightarrow> int \<Rightarrow> int \<Rightarrow> int" where
  "cmp_loop m a alen b blen n i =
     (if i < n then
        (let ca = ucode (if i < alen then m (a + i) else blank);
             cb = ucode (if i < blen then m (b + i) else blank)
         in if ca \<noteq> cb then (if ca < cb then - 1 else 1) else cmp_loop m a alen b blen n (i + 1))
      else 0)"
  by pat_completeness auto
termination by (relation "measure (\<lambda>(_, _, _, _, _, n, i). nat (n - i))") auto
declare cmp_loop.simps [simp del]

definition pli_cmp_char :: "mem \<Rightarrow> int \<Rightarrow> int \<Rightarrow> int \<Rightarrow> int \<Rightarrow> int" where
  "pli_cmp_char m a alen b blen = cmp_loop m a alen b blen (if alen > blen then alen else blen) 0"

function match_loop :: "mem \<Rightarrow> int \<Rightarrow> int \<Rightarrow> int \<Rightarrow> int \<Rightarrow> int" where
  "match_loop m a b blen j = (if j < blen \<and> m (a + j) = m (b + j) then match_loop m a b blen (j + 1) else j)"
  by pat_completeness auto
termination by (relation "measure (\<lambda>(_, _, _, n, j). nat (n - j))") auto
declare match_loop.simps [simp del]

function index_loop :: "mem \<Rightarrow> int \<Rightarrow> int \<Rightarrow> int \<Rightarrow> int \<Rightarrow> int \<Rightarrow> int" where
  "index_loop m a alen b blen i =
     (if i + blen \<le> alen then (if match_loop m (a + i) b blen 0 = blen then i + 1 else index_loop m a alen b blen (i + 1)) else 0)"
  by pat_completeness auto
termination by (relation "measure (\<lambda>(_, _, n, _, k, i). nat (n + 1 - (i + k)))") auto
declare index_loop.simps [simp del]

definition pli_index :: "mem \<Rightarrow> int \<Rightarrow> int \<Rightarrow> int \<Rightarrow> int \<Rightarrow> int" where
  "pli_index m a alen b blen = (if blen \<le> 0 then 1 else if blen > alen then 0 else index_loop m a alen b blen 0)"

definition pli_rank :: "mem \<Rightarrow> int \<Rightarrow> int \<Rightarrow> int" where
  "pli_rank m s slen = (if slen > 0 then int (ucode (m s)) else 0)"

section \<open>Regions of memory\<close>

definition region :: "mem \<Rightarrow> int \<Rightarrow> int \<Rightarrow> string" where
  "region m a n = map (\<lambda>i. m (a + int i)) [0 ..< nat n]"

definition put :: "mem \<Rightarrow> int \<Rightarrow> string \<Rightarrow> mem" where
  "put m a s = (\<lambda>x. if a \<le> x \<and> x < a + int (length s) then s ! nat (x - a) else m x)"

lemma length_region [simp]: "length (region m a n) = nat n"
  by (simp add: region_def)

lemma nth_region [simp]: "i < nat n \<Longrightarrow> region m a n ! i = m (a + int i)"
  by (simp add: region_def)

lemma region_empty [simp]: "n \<le> 0 \<Longrightarrow> region m a n = []"
  by (simp add: region_def)

lemma region_Suc: "0 < n \<Longrightarrow> region m a n = m a # region m (a + 1) (n - 1)"
proof -
  assume "0 < n"
  then have "nat n = Suc (nat (n - 1))" by simp
  moreover have "[0 ..< Suc k] = 0 # map Suc [0 ..< k]" for k by (metis upt_conv_Cons map_Suc_upt zero_less_Suc)
  ultimately show ?thesis by (simp add: region_def o_def algebra_simps del: upt_Suc)
qed

lemma put_Nil [simp]: "put m a [] = m"
  by (auto simp: put_def fun_eq_iff)

lemma put_app: "put m a (s @ t) = put (put m a s) (a + int (length s)) t"
  by (rule ext) (auto simp: put_def nth_append nat_diff_distrib' intro!: arg_cong [where f = "nth t"])

lemma put_Cons: "put m a (c # s) = put (m(a := c)) (a + 1) s"
  using put_app [of m a "[c]" s] by (simp add: put_def fun_eq_iff fun_upd_def)

lemma region_put [simp]: "region (put m a s) a (int (length s)) = s"
  by (rule nth_equalityI) (auto simp: put_def)

lemma put_outside: "x < a \<or> a + int (length s) \<le> x \<Longrightarrow> put m a s x = m x"
  by (auto simp: put_def)

text \<open>Two fields without a common byte.\<close>

definition apart :: "int \<Rightarrow> int \<Rightarrow> int \<Rightarrow> int \<Rightarrow> bool" where
  "apart a n b k \<longleftrightarrow> n \<le> 0 \<or> k \<le> 0 \<or> a + n \<le> b \<or> b + k \<le> a"

lemma region_put_apart: "apart a (int (length s)) b k \<Longrightarrow> region (put m a s) b k = region m b k"
  by (rule nth_equalityI) (auto simp: put_def apart_def)

lemma size_t_nonneg [simp]: "0 \<le> n \<Longrightarrow> n < 2 ^ 63 \<Longrightarrow> size_t n = nat n"
  by (simp add: size_t_def)

lemma memset_is_put: "pli_memset a ch n m = put m a (replicate n ch)"
  by (induction n arbitrary: a m) (simp_all add: put_Cons)

lemma fill_is_put: "fill_loop dst dstcap out m = put m (dst + out) (replicate (nat (dstcap - out)) blank)"
proof (induction dst dstcap out m rule: fill_loop.induct)
  case (1 dst dstcap out m)
  show ?case
  proof (cases "out < dstcap")
    case True
    then have "nat (dstcap - out) = Suc (nat (dstcap - (out + 1)))" by simp
    with True 1 show ?thesis by (subst fill_loop.simps) (simp add: put_Cons algebra_simps fun_upd_def)
  qed (subst fill_loop.simps, simp)
qed

text \<open>A copy upwards reads bytes not yet written when the destination is below the source, a copy downwards when it
  is above: \<open>pli_memmove\<close> always stores what the source held.\<close>

lemma copy_up_is_put: "d \<le> s \<or> s + int n \<le> d \<Longrightarrow> copy_up d s n m = put m d (region m s (int n))"
proof (induction n arbitrary: d s m)
  case (Suc n)
  have "region (m(d := m s)) (s + 1) (int n) = region m (s + 1) (int n)"
    using Suc.prems by (intro nth_equalityI) auto
  moreover have "d + 1 \<le> s + 1 \<or> s + 1 + int n \<le> d + 1" using Suc.prems by auto
  ultimately show ?case using Suc.IH [of "d + 1" "s + 1" "m(d := m s)"] by (simp add: region_Suc put_Cons fun_upd_def)
qed simp

lemma region_snoc: "0 \<le> n \<Longrightarrow> region m a (n + 1) = region m a n @ [m (a + n)]"
  by (simp add: region_def nat_add_distrib)

lemma copy_down_is_put: "s \<le> d \<Longrightarrow> copy_down (d + int n) (s + int n) n m = put m d (region m s (int n))"
proof (induction n arbitrary: m)
  case (Suc n)
  let ?m = "m(d + int n := m (s + int n))"
  have "region ?m s (int n) = region m s (int n)" using Suc.prems by (intro nth_equalityI) auto
  moreover have "put ?m d xs = (put m d xs)(d + int n := m (s + int n))" if "length xs = n" for xs
    using that by (auto simp: put_def fun_eq_iff)
  moreover have "put m d (xs @ [c]) = (put m d xs)(d + int n := c)" if "length xs = n" for xs c
    using that by (simp add: put_app put_Cons)
  ultimately show ?case using Suc region_snoc [of "int n" m s] by (simp add: algebra_simps)
qed simp

lemma memmove_is_put: "pli_memmove d s n m = put m d (region m s (int n))"
proof -
  have "put m s (region m s (int n)) = m" by (auto simp: put_def fun_eq_iff)
  then show ?thesis by (auto simp: pli_memmove_def copy_up_is_put copy_down_is_put)
qed

lemmas mem_puts = memset_is_put fill_is_put memmove_is_put

section \<open>What each routine stores\<close>

text \<open>A text in a field of \<open>n\<close> characters: cut on the right, or extended with blanks.\<close>

definition pad :: "int \<Rightarrow> string \<Rightarrow> string" where
  "pad n s = take (nat n) s @ replicate (nat n - length s) blank"

lemma length_pad [simp]: "length (pad n s) = nat n"
  by (simp add: pad_def)

lemma pad_nonpos [simp]: "n \<le> 0 \<Longrightarrow> pad n s = []"
  by (simp add: pad_def)

lemma pad_pad: "k \<le> n \<Longrightarrow> pad k (pad n s) = pad k s"
  by (auto simp: pad_def min_def take_replicate nat_le_eq_zle not_le)

lemma take_region: "take (nat k) (region m a n) = region m a (min k n)"
  by (rule nth_equalityI) auto

lemma drop_region: "0 \<le> k \<Longrightarrow> drop (nat k) (region m a n) = region m (a + k) (n - k)"
  by (rule nth_equalityI) (auto simp: nat_diff_distrib' add.assoc)

lemma text_then_fill:
  assumes "n = min (int (length s)) d"
  shows "put (put m dst (take (nat n) s)) (dst + n) (replicate (nat (d - n)) blank) = put m dst (pad d s)"
proof (cases "0 \<le> d")
  case True
  then have "pad d s = take (nat n) s @ replicate (nat (d - n)) blank" and "int (length (take (nat n) s)) = n"
    using assms by (auto simp: pad_def min_def)
  then show ?thesis by (simp add: put_app)
qed (use assms in \<open>simp add: min_def\<close>)

lemma put_then_fill:
  assumes "0 \<le> k" and "n = min k d"
  shows "put (put m dst (region m2 a n)) (dst + n) (replicate (nat (d - n)) blank) = put m dst (pad d (region m2 a k))"
  using text_then_fill [of n "region m2 a k" d m dst] assms by (simp add: take_region)

text \<open>Field and text: the form in which every routine below is described.\<close>

locale field_routine =
  fixes run :: "'a \<Rightarrow> int \<Rightarrow> int \<Rightarrow> mem \<Rightarrow> mem" and ready :: "'a \<Rightarrow> int \<Rightarrow> int \<Rightarrow> mem \<Rightarrow> bool"
    and text_of :: "'a \<Rightarrow> mem \<Rightarrow> string"
  assumes run_put: "ready x dst cap m \<Longrightarrow> run x dst cap m = put m dst (pad cap (text_of x m))"
begin

lemma field: "ready x dst cap m \<Longrightarrow> region (run x dst cap m) dst cap = pad cap (text_of x m)"
  using region_put [of m dst "pad cap (text_of x m)"] by (cases "0 \<le> cap") (simp_all add: run_put)

lemma frame: "ready x dst cap m \<Longrightarrow> a < dst \<or> dst + max 0 cap \<le> a \<Longrightarrow> run x dst cap m a = m a"
  by (auto simp: run_put max_def split: if_splits intro!: put_outside)

lemma others: "ready x dst cap m \<Longrightarrow> apart dst cap a n \<Longrightarrow> region (run x dst cap m) a n = region m a n"
  by (cases "0 \<le> cap") (simp_all add: run_put region_put_apart apart_def)

lemma meets: "ready x dst cap m \<Longrightarrow> region (run x dst cap m) dst cap = pad cap (text_of x m) \<and>
    (\<forall>a. a < dst \<or> dst + max 0 cap \<le> a \<longrightarrow> run x dst cap m a = m a)"
  by (simp add: field frame)

end

lemma if_min: "(if a < b then a else b) = min a b" "(if b < a then b else a) = min a (b :: int)"
  by auto

lemma if_clamp: "(if n < 0 then 0 else n) = max 0 (n :: int)"
  by auto

text \<open>Copy and fill with lengths below the limits of \<open>long long\<close>.\<close>

lemma move_if: "n < 2 ^ 63 \<Longrightarrow> (if 0 < n then pli_memmove a b (size_t n) m else m) = put m a (region m b n)"
  by (simp add: memmove_is_put)

lemma set_if: "d - n < 2 ^ 63 \<Longrightarrow> (if n < d then pli_memset a blank (size_t (d - n)) m else m) = put m a (replicate (nat (d - n)) blank)"
  by (simp add: memset_is_put)

lemma move_fill:
  assumes "0 \<le> k" and "n = min k d" and "d < 2 ^ 63" and "k < 2 ^ 63"
    and "m2 = (if 0 < n then pli_memmove dst src (size_t n) m else m)"
  shows "(if n < d then pli_memset (dst + n) blank (size_t (d - n)) m2 else m2) = put m dst (pad d (region m src k))"
proof -
  have "m2 = put m dst (region m src n)" using assms by (subst move_if [symmetric]) simp_all
  moreover have "d - n < 2 ^ 63" using assms by auto
  ultimately show ?thesis using put_then_fill [OF assms(1, 2)] by (simp add: set_if)
qed

lemma region_max: "region m a (max 0 n) = region m a n" "pad (max 0 n) s = pad n s"
  by (auto simp: max_def)

lemma assign_char_put:
  assumes "dstlen < 2 ^ 63" and "srclen < 2 ^ 63"
  shows "pli_assign_char dst dstlen src srclen m = put m dst (pad dstlen (region m src srclen))"
proof -
  have "pli_assign_char dst dstlen src srclen m = put m dst (pad (max 0 dstlen) (region m src (max 0 srclen)))"
    unfolding pli_assign_char_def Let_def if_clamp if_min by (rule move_fill) (use assms in auto)
  then show ?thesis by (simp add: region_max)
qed

lemma assign_varying_put:
  assumes "cap < 2 ^ 63" and "srclen < 2 ^ 63"
  shows "pli_assign_varying dst cap src srclen m = (max 0 (min srclen cap), put m dst (pad cap (region m src srclen)))"
proof -
  have "snd (pli_assign_varying dst cap src srclen m) = pli_assign_char dst cap src srclen m"
    "fst (pli_assign_varying dst cap src srclen m) = max 0 (min srclen cap)"
    by (simp_all add: pli_assign_varying_def pli_assign_char_def Let_def)
  then show ?thesis using assign_char_put [OF assms] by (cases "pli_assign_varying dst cap src srclen m") simp
qed

lemma concat_put:
  assumes "alen < 2 ^ 63" and "blen < 2 ^ 63" and "apart dst alen b blen"
  shows "pli_concat dst a alen b blen m = put m dst (region m a alen @ region m b blen)"
proof -
  have "pli_concat dst a alen b blen m =
      put (put m dst (region m a (max 0 alen))) (dst + max 0 alen) (region (put m dst (region m a (max 0 alen))) b (max 0 blen))"
    unfolding pli_concat_def Let_def if_clamp using assms by (simp add: move_if)
  moreover have "region (put m dst (region m a alen)) b blen = region m b blen"
    by (rule region_put_apart) (use assms(3) in \<open>auto simp: apart_def\<close>)
  ultimately show ?thesis by (simp add: region_max put_app max_def)
qed


lemma substr_assign_put:
  assumes "1 \<le> start" and "0 < dstcap" and "dstcap \<le> 100 * 1024 * 1024" and "0 \<le> dst" and "dst + dstcap < 2 ^ 64"
    and "0 \<le> srclen" and "srclen < 2 ^ 63" and "len < 2 ^ 63"
  shows "pli_substr_assign dst dstcap start len src srclen m =
    Inr (put m (dst + (start - 1)) (pad (min len (dstcap - (start - 1))) (region m src srclen)))"
proof (cases "dstcap - (start - 1) \<le> 0")
  case False
  have "size_t (dst + dstcap) = nat (dst + dstcap)" "size_t dst = nat dst" using assms by (simp_all add: size_t_def)
  then have g: "\<not> size_t (dst + dstcap) < size_t dst" using assms by simp
  have m: "(if n < d then pli_memset (a + n) blank (size_t (d - n)) m2 else m2) = put m a (pad d (region m src srclen))"
    if "d = min len (dstcap - (start - 1))" "n = min srclen d" "m2 = (if 0 < n then pli_memmove a src (size_t n) m else m)" for d n a m2
    by (rule move_fill) (use that assms in auto)
  have guards: "\<not> start < 1" "\<not> (dstcap \<le> 0 \<or> dstcap > 100 * 1024 * 1024)" using assms by simp_all
  show ?thesis unfolding pli_substr_assign_def Let_def if_min
    by (simp only: False g guards if_False min.commute [of "dstcap - (start - 1)" len] m [OF refl refl refl])
next
  case True
  have "size_t (dst + dstcap) = nat (dst + dstcap)" "size_t dst = nat dst" using assms by (simp_all add: size_t_def)
  with True assms show ?thesis by (simp add: pli_substr_assign_def Let_def min_def)
qed

subsection \<open>Loops that store one byte per round\<close>

lemma region_upd: "x < a \<or> a + n \<le> x \<Longrightarrow> region (m(x := c)) a n = region m a n"
  by (rule nth_equalityI) auto

lemma map_loop_put:
  assumes "dst \<le> s \<or> s + slen \<le> dst + i"
  shows "map_loop f dst dstcap s slen i m =
    (max i (min slen dstcap), put m (dst + i) (map f (region m (s + i) (min slen dstcap - i))))"
  using assms
proof (induction f dst dstcap s slen i m rule: map_loop.induct)
  case (1 f dst dstcap s slen i m)
  show ?case
  proof (cases "i < slen \<and> i < dstcap")
    case True
    let ?m = "m(dst + i := f (m (s + i)))"
    have "region ?m (s + (i + 1)) (min slen dstcap - (i + 1)) = region m (s + (i + 1)) (min slen dstcap - (i + 1))"
      by (rule region_upd) (use 1(2) True in \<open>auto simp: min_def\<close>)
    moreover have "region m (s + i) (min slen dstcap - i) = m (s + i) # region m (s + (i + 1)) (min slen dstcap - (i + 1))"
      using True region_Suc [of "min slen dstcap - i" m "s + i"] by (simp add: algebra_simps)
    ultimately show ?thesis using True 1 by (subst map_loop.simps) (auto simp: put_Cons add.assoc simp del: fun_upd_apply)
  qed (subst map_loop.simps, auto)
qed


lemma region_step: "i < n \<Longrightarrow> region m (s + i) (n - i) = m (s + i) # region m (s + (i + 1)) (n - (i + 1))"
  using region_Suc [of "n - i" m "s + i"] by (simp add: algebra_simps)

text \<open>The scan of a set, as membership and as the reference scan of TRANSLATE.\<close>

lemma scan_set_spec:
  "(scan_set m c t tlen j < tlen \<longleftrightarrow> c \<in> set (region m (t + j) (tlen - j))) \<and> (j \<le> tlen \<longrightarrow> scan_set m c t tlen j \<le> tlen)"
proof (induction m c t tlen j rule: scan_set.induct)
  case (1 m c t tlen j)
  show ?case
  proof (cases "j < tlen")
    case True
    with 1 show ?thesis by (subst (1 2) scan_set.simps) (auto simp: region_step)
  qed (subst (1 2) scan_set.simps, auto)
qed

lemma scan_set_iff: "0 \<le> tlen \<Longrightarrow> scan_set m c t tlen 0 = tlen \<longleftrightarrow> c \<notin> set (region m t tlen)"
  using scan_set_spec [of m c t tlen 0] by auto

lemma scan_set_translate:
  "0 \<le> j \<Longrightarrow> translate_scan os (region m (t + j) (tlen - j)) (nat j) c =
     (if scan_set m c t tlen j < tlen then (if nat (scan_set m c t tlen j) < length os then os ! nat (scan_set m c t tlen j) else blank) else c)"
proof (induction m c t tlen j rule: scan_set.induct)
  case (1 m c t tlen j)
  show ?case
  proof (cases "j < tlen")
    case True
    have s: "nat (j + 1) = Suc (nat j)" using 1(2) by simp
    have "scan_set m c t tlen j = (if c \<noteq> m (t + j) then scan_set m c t tlen (j + 1) else j)"
      using True by (subst scan_set.simps) simp
    with 1 True s show ?thesis by (auto simp: region_step blank_def)
  next
    case False
    then show ?thesis by (simp add: scan_set.simps [of m c t tlen j])
  qed
qed

lemma scan_set_nonneg: "0 \<le> j \<Longrightarrow> 0 \<le> scan_set m c t tlen j"
  by (induction m c t tlen j rule: scan_set.induct) (subst scan_set.simps, simp)

lemma translate_char_scan: "translate_char m out outlen inp inlen c = translate_scan (region m out outlen) (region m inp inlen) 0 c"
  using scan_set_translate [of 0 "region m out outlen" m inp inlen c] scan_set_nonneg [of 0 m c inp inlen]
  by (auto simp: translate_char_def Let_def)

lemma translate_rounds_put:
  assumes "dst \<le> s \<or> s + i + int k \<le> dst + i" and "apart (dst + i) (int k) out outlen" and "apart (dst + i) (int k) inp inlen"
  shows "translate_rounds k dst s out outlen inp inlen i m =
    put m (dst + i) (map (translate_scan (region m out outlen) (region m inp inlen) 0) (region m (s + i) (int k)))"
  using assms
proof (induction k arbitrary: i m)
  case (Suc k)
  define c where "c = translate_scan (region m out outlen) (region m inp inlen) 0 (m (s + i))"
  let ?m = "m(dst + i := c)"
  have k: "region ?m out outlen = region m out outlen" "region ?m inp inlen = region m inp inlen"
    "region ?m (s + (i + 1)) (int k) = region m (s + (i + 1)) (int k)"
    using Suc.prems by (auto simp: apart_def intro!: region_upd)
  have "translate_rounds k dst s out outlen inp inlen (i + 1) ?m =
      put ?m (dst + (i + 1)) (map (translate_scan (region ?m out outlen) (region ?m inp inlen) 0) (region ?m (s + (i + 1)) (int k)))"
    by (rule Suc.IH) (use Suc.prems in \<open>auto simp: apart_def\<close>)
  then show ?case by (simp add: k region_Suc put_Cons translate_char_scan add.assoc c_def [symmetric] del: fun_upd_apply)
qed simp

lemma translate_put:
  assumes "dstcap < 2 ^ 63" and "0 \<le> slen" and "dst \<le> s \<or> s + slen \<le> dst"
    and "apart dst dstcap out outlen" and "apart dst dstcap inp inlen"
  shows "pli_translate dst dstcap s slen out outlen inp inlen m =
    put m dst (pad dstcap (map (translate_scan (region m out outlen) (region m inp inlen) 0) (region m s slen)))"
proof -
  let ?f = "translate_scan (region m out outlen) (region m inp inlen) 0" and ?n = "min slen dstcap"
  have "translate_rounds (nat ?n) dst s out outlen inp inlen 0 m = put m dst (take (nat ?n) (map ?f (region m s slen)))"
    using translate_rounds_put [of dst s 0 "nat ?n" out outlen inp inlen m] assms by (auto simp: apart_def take_map take_region region_max min_def)
  moreover have "dstcap - ?n < 2 ^ 63" using assms by (auto simp: min_def)
  ultimately show ?thesis
    using assms text_then_fill [of ?n "map ?f (region m s slen)" dstcap m dst]
    unfolding pli_translate_def Let_def if_min by (simp add: set_if)
qed

lemma case_put:
  assumes "dst \<le> s \<or> s + slen \<le> dst" and "0 \<le> slen"
  shows "(case map_loop f dst dstcap s slen 0 m of (i, m) \<Rightarrow> fill_loop dst dstcap i m) = put m dst (pad dstcap (map f (region m s slen)))"
proof -
  have "0 \<le> dstcap \<Longrightarrow> max 0 (min slen dstcap) = min slen dstcap" using assms by auto
  then show ?thesis
    using text_then_fill [of "min slen dstcap" "map f (region m s slen)" dstcap m dst] assms map_loop_put [of dst s slen 0 f dstcap m]
    by (cases "0 \<le> dstcap") (auto simp: fill_is_put take_map take_region min_def)
qed



lemma isochar_loop_put: "isochar_loop dst lo k i m = put m (dst + i) (map (\<lambda>j. char_of (nat ((lo + i + int j) mod 256))) [0 ..< k])"
proof (induction k arbitrary: i m)
  case (Suc k)
  have "[0 ..< Suc k] = 0 # map Suc [0 ..< k]" by (metis upt_conv_Cons map_Suc_upt zero_less_Suc)
  with Suc show ?case by (simp add: put_Cons add.assoc o_def del: upt_Suc fun_upd_apply)
qed simp

lemma isochar_put:
  assumes "dstlen < 2 ^ 63"
  shows "pli_isochar dst dstlen lo hi m =
    put m dst (pad dstlen (map (\<lambda>c. char_of (nat (c mod 256))) [lo .. hi]))"
proof -
  define k where "k = max 0 (hi - lo + 1)"
  define n where "n = min k dstlen"
  let ?cs = "map (\<lambda>c. char_of (nat (c mod 256)) :: char) [lo .. hi]"
  have l: "int (length ?cs) = k" by (simp add: k_def)
  have k: "(if lo \<le> hi then hi - lo + 1 else 0) = k" "(if k > dstlen then dstlen else k) = n" by (auto simp: k_def n_def)
  have "map (\<lambda>j. char_of (nat ((lo + int j) mod 256))) [0 ..< nat n] = take (nat n) ?cs"
    by (rule nth_equalityI) (auto simp: n_def k_def nth_upto)
  then have c: "isochar_loop dst lo (nat n) 0 m = put m dst (take (nat n) ?cs)" by (simp add: isochar_loop_put)
  have b: "dstlen - n < 2 ^ 63" using assms by (auto simp: n_def k_def min_def)
  have "n = min (int (length ?cs)) dstlen" by (simp only: l n_def)
  from text_then_fill [OF this] show ?thesis unfolding pli_isochar_def Let_def k by (simp only: c set_if [OF b])
qed

lemma collate_put: "pli_collate dst dstcap n m = put m dst (pad dstcap [char_of (nat (n mod 256))])"
proof (cases "0 < dstcap")
  case True
  then have "pad dstcap [char_of (nat (n mod 256))] = [char_of (nat (n mod 256))] @ replicate (nat (dstcap - 1)) blank"
    by (simp add: pad_def nat_diff_distrib')
  with True show ?thesis by (simp add: pli_collate_def fill_is_put put_Cons)
qed (simp add: pli_collate_def fill_is_put)

lemma repeat_inner_put:
  assumes "apart dst dstcap src srclen" and "0 \<le> i" and "i \<le> srclen" and "0 \<le> out"
  shows "repeat_inner dst dstcap src srclen i out m =
    (out + int (nat (min (srclen - i) (dstcap - out))), put m (dst + out) (region m (src + i) (min (srclen - i) (dstcap - out))))"
  using assms
proof (induction dst dstcap src srclen i out m rule: repeat_inner.induct)
  case (1 dst dstcap src srclen i out m)
  show ?case
  proof (cases "i < srclen \<and> out < dstcap")
    case True
    let ?m = "m(dst + out := m (src + i))" and ?n = "min (srclen - i) (dstcap - out)"
    have n: "min (srclen - (i + 1)) (dstcap - (out + 1)) = ?n - 1" "0 < ?n" using True by auto
    have "region ?m (src + (i + 1)) (?n - 1) = region m (src + (i + 1)) (?n - 1)"
      by (rule region_upd) (use 1(2-) True in \<open>auto simp: apart_def min_def\<close>)
    moreover have "region m (src + i) ?n = m (src + i) # region m (src + (i + 1)) (?n - 1)"
      using n(2) region_Suc [of ?n m "src + i"] by (simp add: add.assoc)
    moreover have "out + 1 + int (nat (?n - 1)) = out + int (nat ?n)" using n(2) by simp
    ultimately show ?thesis using True 1 by (subst repeat_inner.simps) (auto simp: put_Cons add.assoc n(1) simp del: fun_upd_apply)
  qed (subst repeat_inner.simps, auto)
qed

text \<open>The text of REPEAT, as much of it as the rounds of the outer loop have room for.\<close>

lemma repeat_outer_put:
  assumes "apart dst dstcap src srclen" and "0 \<le> srclen" and "0 \<le> out" and "out \<le> dstcap"
  shows "\<exists>t. t = take (nat (dstcap - out)) (concat (replicate k (region m src srclen))) \<and>
    repeat_outer k dst dstcap src srclen out m = (out + int (length t), put m (dst + out) t)"
  using assms
proof (induction k arbitrary: out m)
  case (Suc k)
  let ?n = "min srclen (dstcap - out)" and ?s = "region m src srclen"
  let ?m = "put m (dst + out) (region m src ?n)"
  have s: "region ?m src srclen = ?s" by (rule region_put_apart) (use Suc.prems in \<open>auto simp: apart_def\<close>)
  have n: "0 \<le> ?n" "out + int (nat ?n) = out + ?n" using Suc.prems by auto
  have t: "take (nat (dstcap - out)) (concat (replicate (Suc k) ?s)) =
      region m src ?n @ take (nat (dstcap - (out + ?n))) (concat (replicate k ?s))"
  proof -
    have "take (nat (dstcap - out)) ?s = region m src ?n" by (simp add: take_region min.commute)
    moreover have "nat (dstcap - out) - nat srclen = nat (dstcap - (out + ?n))" using Suc.prems by (auto simp: min_def)
    ultimately show ?thesis by simp
  qed
  from Suc.IH [of "out + ?n" ?m] Suc.prems n s
  have "repeat_outer k dst dstcap src srclen (out + ?n) ?m =
      (out + ?n + int (length (take (nat (dstcap - (out + ?n))) (concat (replicate k ?s)))),
       put ?m (dst + (out + ?n)) (take (nat (dstcap - (out + ?n))) (concat (replicate k ?s))))" by simp
  with repeat_inner_put [of dst dstcap src srclen 0 out m] Suc.prems n t show ?case
    by (simp add: put_app add.assoc)
qed simp

lemma repeat_put:
  assumes "apart dst dstcap src srclen" and "0 \<le> srclen" and "0 \<le> dstcap"
  shows "pli_repeat dst dstcap src srclen n m = put m dst (pad dstcap (concat (replicate (nat n) (region m src srclen))))"
proof -
  let ?t = "concat (replicate (nat n) (region m src srclen))"
  define k where "k = min (int (length ?t)) dstcap"
  have "nat dstcap = nat k \<or> length ?t = nat k" "take (nat dstcap) ?t = take (nat k) ?t" "int (length (take (nat dstcap) ?t)) = k"
    using assms(3) by (auto simp: k_def min_def)
  with repeat_outer_put [OF assms(1, 2) _ assms(3), of "nat n" m] text_then_fill [OF k_def, of m dst]
  show ?thesis by (simp add: pli_repeat_def fill_is_put del: length_take)
qed

section \<open>TRIM and CENTER\<close>






lemma memchr_mem: "pli_memchr m a c n \<noteq> None \<longleftrightarrow> c \<in> set (region m a (int n))"
  by (induction n arbitrary: a) (auto simp: region_Suc)

lemma trimmed_None [simp]: "trimmed m None = (\<lambda>c. c = blank)"
  by (simp add: trimmed_def fun_eq_iff)

lemma trimmed_set: "0 \<le> n \<Longrightarrow> n < 2 ^ 63 \<Longrightarrow> trimmed m (Some (p, n)) c \<longleftrightarrow> c \<in> set (region m p n)"
  using memchr_mem [of m p c "nat n"] by (simp add: trimmed_def)


section \<open>The field contract\<close>

text \<open>Every routine that fills a field meets the contract; the operands are its arguments besides the field, and the readiness conditions say
  which overlaps of operands and field the loops allow.\<close>

definition behind :: "int \<Rightarrow> int \<Rightarrow> int \<Rightarrow> bool" where
  "behind dst s slen \<longleftrightarrow> 0 \<le> slen \<and> (dst \<le> s \<or> s + slen \<le> dst)"

interpretation assigned: field_routine "\<lambda>(src, n) dst cap. pli_assign_char dst cap src n" "\<lambda>(src, n) dst cap m. cap < 2 ^ 63 \<and> n < 2 ^ 63"
    "\<lambda>(src, n) m. region m src n"
  by unfold_locales (auto simp: assign_char_put)

interpretation translated: field_routine "\<lambda>(s, n, out, k, inp, l) dst cap. pli_translate dst cap s n out k inp l"
    "\<lambda>(s, n, out, k, inp, l) dst cap m. cap < 2 ^ 63 \<and> behind dst s n \<and> apart dst cap out k \<and> apart dst cap inp l"
    "\<lambda>(s, n, out, k, inp, l) m. map (translate_scan (region m out k) (region m inp l) 0) (region m s n)"
  by unfold_locales (auto simp: translate_put behind_def)


interpretation lowered: field_routine "\<lambda>(s, n) dst cap. pli_lowercase dst cap s n" "\<lambda>(s, n) dst cap m. behind dst s n"
    "\<lambda>(s, n) m. map lower_char (region m s n)"
  by unfold_locales (auto simp: pli_lowercase_def case_put behind_def)



interpretation repeated: field_routine "\<lambda>(s, n, k) dst cap. pli_repeat dst cap s n k"
    "\<lambda>(s, n, k) dst cap m. 0 \<le> cap \<and> 0 \<le> n \<and> apart dst cap s n" "\<lambda>(s, n, k) m. concat (replicate (nat k) (region m s n))"
  by unfold_locales (auto simp: repeat_put)

interpretation collated: field_routine "\<lambda>n dst cap. pli_collate dst cap n" "\<lambda>n dst cap m. True" "\<lambda>n m. [char_of (nat (n mod 256))]"
  by unfold_locales (simp add: collate_put)

interpretation isochars: field_routine "\<lambda>(lo, hi) dst cap. pli_isochar dst cap lo hi" "\<lambda>(lo, hi) dst cap m. cap < 2 ^ 63"
    "\<lambda>(lo, hi) m. map (\<lambda>c. char_of (nat (c mod 256))) [lo .. hi]"
  by unfold_locales (auto simp: isochar_put)




text \<open>A memory with a text at an address, for concrete runs.\<close>

definition text_at :: "int \<Rightarrow> string \<Rightarrow> mem" where
  "text_at a s = (\<lambda>x. if a \<le> x \<and> x < a + int (length s) then s ! nat (x - a) else NUL)"



section \<open>What the reading routines answer\<close>

fun first_pos :: "('a \<Rightarrow> bool) \<Rightarrow> 'a list \<Rightarrow> int \<Rightarrow> int" where
  "first_pos P [] k = 0"
| "first_pos P (c # cs) k = (if P c then k else first_pos P cs (k + 1))"

text \<open>The position, counted from \<open>k\<close>, of the first element that satisfies \<open>P\<close>.\<close>

lemma first_pos_spec:
  assumes "0 < k"
  shows "(first_pos P cs k = 0 \<longleftrightarrow> (\<forall>c\<in>set cs. \<not> P c)) \<and>
    (first_pos P cs k \<noteq> 0 \<longrightarrow> k \<le> first_pos P cs k \<and> first_pos P cs k - k < int (length cs) \<and> P (cs ! nat (first_pos P cs k - k)) \<and>
      (\<forall>j < nat (first_pos P cs k - k). \<not> P (cs ! j)))"
  using assms
proof (induction cs arbitrary: k)
  case (Cons c cs)
  show ?case
  proof (cases "P c \<or> first_pos P cs (k + 1) = 0")
    case False
    define r where "r = first_pos P cs (k + 1)"
    from False Cons.IH [of "k + 1"] Cons.prems have r: "r \<noteq> 0" "k + 1 \<le> r" "r - (k + 1) < int (length cs)" "P (cs ! nat (r - (k + 1)))"
      "\<forall>j < nat (r - (k + 1)). \<not> P (cs ! j)" "\<exists>c\<in>set cs. P c" by (auto simp: r_def)
    have "nat (r - k) = Suc (nat (r - (k + 1)))" using r by simp
    with r False show ?thesis by (auto simp: r_def [symmetric] nth_Cons' less_Suc_eq_0_disj)
  qed (use Cons in auto)
qed simp

lemma verify_loop_pos:
  "0 \<le> tlen \<Longrightarrow> verify_loop m s slen t tlen i = first_pos (\<lambda>c. c \<notin> set (region m t tlen)) (region m (s + i) (slen - i)) (i + 1)"
proof (induction m s slen t tlen i rule: verify_loop.induct)
  case (1 m s slen t tlen i)
  then show ?case by (subst verify_loop.simps) (simp add: scan_set_iff region_step)
qed

lemma occurs_in_iff: "occurs_in m c t tlen j \<longleftrightarrow> c \<in> set (region m (t + j) (tlen - j))"
proof (induction m c t tlen j rule: occurs_in.induct)
  case (1 m c t tlen j)
  then show ?case by (subst occurs_in.simps) (simp add: region_step)
qed

lemma search_loop_pos:
  "search_loop m s slen t tlen i = first_pos (\<lambda>c. c \<in> set (region m t tlen)) (region m (s + i) (slen - i)) (i + 1)"
proof (induction m s slen t tlen i rule: search_loop.induct)
  case (1 m s slen t tlen i)
  then show ?case by (subst search_loop.simps) (simp add: occurs_in_iff region_step)
qed

lemma match_loop_spec:
  "j \<le> blen \<Longrightarrow> match_loop m a b blen j \<le> blen \<and> (match_loop m a b blen j = blen \<longleftrightarrow> region m (a + j) (blen - j) = region m (b + j) (blen - j))"
proof (induction m a b blen j rule: match_loop.induct)
  case (1 m a b blen j)
  then show ?case by (subst (1 2) match_loop.simps) (cases "j < blen"; auto simp: region_step)
qed

lemma index_loop_pos:
  assumes "0 < blen" and "i + blen \<le> alen + 1" and "0 \<le> i"
  shows "index_loop m a alen b blen i =
    first_pos (\<lambda>k. region m (a + k) blen = region m b blen) [i .. alen - blen] (i + 1)"
  using assms
proof (induction m a alen b blen i rule: index_loop.induct)
  case (1 m a alen b blen i)
  show ?case
  proof (cases "i + blen \<le> alen")
    case True
    then have "[i .. alen - blen] = i # [i + 1 .. alen - blen]" by (subst upto.simps) simp
    moreover have "match_loop m (a + i) b blen 0 = blen \<longleftrightarrow> region m (a + i) blen = region m b blen"
      using match_loop_spec [of 0 blen m "a + i" b] 1(2) by simp
    ultimately show ?thesis using True 1 by (subst index_loop.simps) simp
  qed (subst index_loop.simps, simp)
qed

lemma memcmp_eq: "pli_memcmp m x y n = 0 \<longleftrightarrow> region m x (int n) = region m y (int n)"
  by (induction n arbitrary: x y) (auto simp: region_Suc)

text \<open>Occurrences of \<open>y\<close> counted from the left, none overlapping the one before.\<close>

function occurrences :: "string \<Rightarrow> string \<Rightarrow> nat" where
  "occurrences y x =
     (if y = [] \<or> length x < length y then 0
      else if take (length y) x = y then Suc (occurrences y (drop (length y) x)) else occurrences y (tl x))"
  by pat_completeness auto
termination by (relation "measure (\<lambda>(y, x). length x)") (auto simp: not_less neq_Nil_conv)
declare occurrences.simps [simp del]

lemma tally_loop_spec:
  assumes "0 < ylen" and "ylen < 2 ^ 63"
  shows "tally_loop m x xlen y ylen i n = n + int (occurrences (region m y ylen) (region m (x + i) (xlen - i)))"
  using assms
proof (induction m x xlen y ylen i n rule: tally_loop.induct)
  case (1 m x xlen y ylen i n)
  let ?y = "region m y ylen" and ?x = "region m (x + i) (xlen - i)"
  have y: "?y \<noteq> []" "length ?y = nat ylen" using 1(3) by (auto simp: region_Suc)
  show ?case
  proof (cases "i + ylen \<le> xlen")
    case True
    have t: "take (length ?y) ?x = region m (x + i) ylen" using True 1(3) by (simp add: take_region min_def)
    have d: "drop (length ?y) ?x = region m (x + (i + ylen)) (xlen - (i + ylen))"
      using drop_region [of ylen m "x + i" "xlen - i"] 1(3) by (simp add: algebra_simps)
    have tl: "tl ?x = region m (x + (i + 1)) (xlen - (i + 1))" using True 1(3) by (simp add: region_step)
    have "occurrences ?y ?x = (if region m (x + i) ylen = ?y then Suc (occurrences ?y (region m (x + (i + ylen)) (xlen - (i + ylen))))
        else occurrences ?y (region m (x + (i + 1)) (xlen - (i + 1))))"
      using True y by (subst occurrences.simps) (simp add: t [unfolded y(2)] d [unfolded y(2)] tl not_less nat_le_eq_zle)
    moreover have "pli_memcmp m (x + i) y (size_t ylen) = 0 \<longleftrightarrow> region m (x + i) ylen = ?y"
      using memcmp_eq [of m "x + i" y "nat ylen"] 1(3, 4) by simp
    ultimately show ?thesis using True 1 by (subst tally_loop.simps) simp
  next
    case False
    then have "occurrences ?y ?x = 0" using y 1(3) by (subst occurrences.simps) (simp add: nat_less_iff)
    then show ?thesis using False by (subst tally_loop.simps) simp
  qed
qed

text \<open>The searching built-ins answer the first position of what they look for, counted from one, and zero exactly when it does not occur at or after the
  start: SEARCH a character of the set, VERIFY one outside it, INDEX the whole text; TALLY counts the occurrences that do not overlap.\<close>
lemma searches_find_the_first:
  assumes "0 \<le> n" and "0 \<le> k" and "k < 2 ^ 63" and "1 \<le> start"
  shows "pli_search m s n t k start = first_pos (\<lambda>c. c \<in> set (region m t k)) (drop (nat (start - 1)) (region m s n)) start \<and>
    pli_verify_from m s n t k start = first_pos (\<lambda>c. c \<notin> set (region m t k)) (drop (nat (start - 1)) (region m s n)) start \<and>
    pli_verify m s n t k = pli_verify_from m s n t k 1 \<and>
    (0 < k \<longrightarrow> pli_index m s n t k = first_pos (\<lambda>i. region m (s + i) k = region m t k) [0 .. n - k] 1) \<and>
    pli_tally m s n t k = int (occurrences (region m t k) (region m s n))"
proof -
  have d: "drop (nat (start - 1)) (region m s n) = region m (s + (start - 1)) (n - (start - 1))"
    using drop_region [of "start - 1" m s n] assms(4) by simp
  have "pli_tally m s n t k = int (occurrences (region m t k) (region m s n))"
  proof (cases "k \<le> 0 \<or> n < k")
    case True
    then show ?thesis using assms by (subst occurrences.simps) (auto simp: pli_tally_def)
  next
    case False
    then show ?thesis using tally_loop_spec [of k m s n t 0 0] assms by (simp add: pli_tally_def)
  qed
  moreover have "0 < k \<Longrightarrow> pli_index m s n t k = first_pos (\<lambda>i. region m (s + i) k = region m t k) [0 .. n - k] 1"
    using index_loop_pos [of k 0 n m s t] by (simp add: pli_index_def)
  ultimately show ?thesis using assms search_loop_pos [of m s n t k "start - 1"] verify_loop_pos [of k m s n t "start - 1"]
    by (simp add: pli_search_def pli_verify_from_def pli_verify_def d)
qed

section \<open>Comparison\<close>

text \<open>Comparison byte by byte of texts of equal length.\<close>

fun lexcmp :: "string \<Rightarrow> string \<Rightarrow> int" where
  "lexcmp (a # as) (b # bs) = (if a \<noteq> b then (if ucode a < ucode b then - 1 else 1) else lexcmp as bs)"
| "lexcmp _ _ = 0"

lemma lexcmp_range: "lexcmp s t \<in> {- 1, 0, 1}"
  by (induction s t rule: lexcmp.induct) auto

lemma lexcmp_eq: "length s = length t \<Longrightarrow> lexcmp s t = 0 \<longleftrightarrow> s = t"
  by (induction s t rule: lexcmp.induct) auto

lemma lexcmp_swap: "lexcmp t s = - lexcmp s t"
proof (induction s t rule: lexcmp.induct)
  case (1 a as b bs)
  then show ?case using ucode_inject [of a b] by (auto simp del: ucode_inject)
qed auto

lemma lexcmp_trans: "length s = length t \<Longrightarrow> length t = length u \<Longrightarrow> lexcmp s t \<le> 0 \<Longrightarrow> lexcmp t u \<le> 0 \<Longrightarrow> lexcmp s u \<le> 0"
proof (induction s t arbitrary: u rule: lexcmp.induct)
  case (1 a as b bs)
  then obtain c cs where u: "u = c # cs" by (cases u) auto
  with 1 show ?case using ucode_inject [of a b] ucode_inject [of b c] ucode_inject [of a c]
    by (auto simp: not_less simp del: ucode_inject split: if_splits)
qed simp_all

lemma lexcmp_append: "length s = length t \<Longrightarrow> lexcmp (s @ u) (t @ u) = lexcmp s t"
proof (induction s t rule: list_induct2)
  case Nil
  then show ?case using lexcmp_eq [of u u] by simp
qed simp

text \<open>The byte a comparison reads at a position: blanks follow the end of a text.\<close>

definition byte_or_blank :: "mem \<Rightarrow> int \<Rightarrow> int \<Rightarrow> int \<Rightarrow> char" where
  "byte_or_blank m a n i = (if i < n then m (a + i) else blank)"

lemma cmp_loop_lex:
  "cmp_loop m a alen b blen n i = lexcmp (map (byte_or_blank m a alen) [i .. n - 1]) (map (byte_or_blank m b blen) [i .. n - 1])"
proof (induction m a alen b blen n i rule: cmp_loop.induct)
  case (1 m a alen b blen n i)
  show ?case
  proof (cases "i < n")
    case True
    then have "[i .. n - 1] = i # [i + 1 .. n - 1]" by (subst upto.simps) simp
    with 1 True show ?thesis by (subst cmp_loop.simps) (simp add: Let_def flip: byte_or_blank_def)
  qed (subst cmp_loop.simps, simp)
qed

lemma bytes_pad: "0 \<le> n \<Longrightarrow> k \<le> n \<Longrightarrow> map (byte_or_blank m a k) [0 .. n - 1] = pad n (region m a k)"
  by (rule nth_equalityI) (auto simp: byte_or_blank_def pad_def nth_append min_def nth_upto)

lemma cmp_char_lex:
  assumes "0 \<le> alen" and "0 \<le> blen"
  shows "pli_cmp_char m a alen b blen = lexcmp (pad (max alen blen) (region m a alen)) (pad (max alen blen) (region m b blen))"
proof -
  have "(if alen > blen then alen else blen) = max alen blen" by auto
  then show ?thesis using assms bytes_pad [of "max alen blen" alen m a] bytes_pad [of "max alen blen" blen m b]
    by (simp add: pli_cmp_char_def cmp_loop_lex)
qed

text \<open>Any field long enough for both operands gives the same answer.\<close>

lemma lexcmp_pad:
  assumes "int (length s) \<le> n" and "int (length t) \<le> n" and "n \<le> k"
  shows "lexcmp (pad k s) (pad k t) = lexcmp (pad n s) (pad n t)"
proof -
  have "pad k u = pad n u @ replicate (nat (k - n)) blank" if "int (length u) \<le> n" for u
    using that assms(3) by (simp add: pad_def replicate_add [symmetric] nat_diff_distrib')
  with assms show ?thesis by (simp add: lexcmp_append)
qed

lemma cmp_char_wide:
  assumes "0 \<le> alen" and "0 \<le> blen" and "alen \<le> n" and "blen \<le> n"
  shows "pli_cmp_char m a alen b blen = lexcmp (pad n (region m a alen)) (pad n (region m b blen))"
  using lexcmp_pad [of "region m a alen" "max alen blen" "region m b blen" n] assms by (simp add: cmp_char_lex)

text \<open>Character comparison is a total order on texts up to trailing blanks, although it extends its two operands only to the longer of them: it answers minus one,
  zero or one, zero exactly when the blank-extended texts are equal, changes sign when the operands are exchanged, and is transitive across operands
  of different lengths; a text compares equal to what assigning it to a longer field leaves there.\<close>
lemma comparison_is_a_total_order:
  assumes "0 \<le> alen" and "0 \<le> blen" and "0 \<le> clen"
  shows "pli_cmp_char m a alen b blen \<in> {- 1, 0, 1} \<and>
    (pli_cmp_char m a alen b blen = 0 \<longleftrightarrow> pad (max alen blen) (region m a alen) = pad (max alen blen) (region m b blen)) \<and>
    pli_cmp_char m b blen a alen = - pli_cmp_char m a alen b blen \<and>
    (pli_cmp_char m a alen b blen \<le> 0 \<and> pli_cmp_char m b blen c clen \<le> 0 \<longrightarrow> pli_cmp_char m a alen c clen \<le> 0) \<and>
    (alen \<le> cap \<and> cap < 2 ^ 63 \<and> apart dst cap a alen \<longrightarrow>
      pli_cmp_char (pli_assign_char dst cap a alen m) dst cap a alen = 0)"
proof -
  let ?n = "max alen (max blen clen)"
  have wide: "pli_cmp_char m a alen b blen = lexcmp (pad ?n (region m a alen)) (pad ?n (region m b blen))"
    "pli_cmp_char m b blen c clen = lexcmp (pad ?n (region m b blen)) (pad ?n (region m c clen))"
    "pli_cmp_char m a alen c clen = lexcmp (pad ?n (region m a alen)) (pad ?n (region m c clen))"
    using assms by (auto intro!: cmp_char_wide)
  have "pli_cmp_char (pli_assign_char dst cap a alen m) dst cap a alen = 0" if "alen \<le> cap" "cap < 2 ^ 63" "apart dst cap a alen"
  proof -
    let ?m = "pli_assign_char dst cap a alen m"
    have "region ?m dst cap = pad cap (region m a alen)" "region ?m a alen = region m a alen"
      using that assigned.field [where x = "(a, alen)" and dst = dst and cap = cap and m = m]
        assigned.others [where x = "(a, alen)" and dst = dst and cap = cap and m = m and a = a and n = alen] by auto
    then show ?thesis using that assms cmp_char_wide [of cap alen cap ?m dst a] lexcmp_eq by (simp add: pad_pad)
  qed
  moreover have "pli_cmp_char m a alen c clen \<le> 0" if "pli_cmp_char m a alen b blen \<le> 0" "pli_cmp_char m b blen c clen \<le> 0"
    using that lexcmp_trans [of "pad ?n (region m a alen)" "pad ?n (region m b blen)" "pad ?n (region m c clen)"] by (simp add: wide)
  moreover have "pli_cmp_char m b blen a alen = - pli_cmp_char m a alen b blen"
    using assms by (simp only: cmp_char_lex max.commute [of blen alen]) (rule lexcmp_swap)
  moreover have "pli_cmp_char m a alen b blen = 0 \<longleftrightarrow> pad (max alen blen) (region m a alen) = pad (max alen blen) (region m b blen)"
    using assms by (simp add: cmp_char_lex lexcmp_eq)
  moreover have "pli_cmp_char m a alen b blen \<in> {- 1, 0, 1}" using lexcmp_range by (simp only: wide)
  ultimately show ?thesis by blast
qed

section \<open>The compiler's tables and the runtime's loops\<close>

text \<open>C37: What the compiler inlines for constant operands is what the runtime computes: indexing the compiled TRANSLATE table gives the field
  \<open>pli_translate\<close> fills, the compiled membership table gives the answers of \<open>pli_search\<close> and \<open>pli_verify\<close>, and a folded
  REPEAT is what \<open>pli_repeat\<close> stores.\<close>
theorem compiled_tables_agree_with_the_runtime:
  assumes "0 \<le> cap" and "cap < 2 ^ 63" and "0 \<le> n" and "0 \<le> k" and "0 \<le> l"
  shows "(behind dst s n \<and> apart dst cap out k \<and> apart dst cap inp l \<longrightarrow>
      region (pli_translate dst cap s n out k inp l m) dst cap =
        pad cap (map (\<lambda>c. translateTableBytes (region m out k) (region m inp l) ! ucode c) (region m s n))) \<and>
    pli_search m s n inp l 1 = first_pos (\<lambda>c. searchTableBytes (region m inp l) ! ucode c \<noteq> NUL) (region m s n) 1 \<and>
    pli_verify m s n inp l = first_pos (\<lambda>c. searchTableBytes (region m inp l) ! ucode c = NUL) (region m s n) 1 \<and>
    (apart dst cap s n \<and> foldRepeatText (region m s n) reps \<noteq> [] \<longrightarrow>
      region (pli_repeat dst cap s n reps m) dst cap = pad cap (foldRepeatText (region m s n) reps))"
proof -
  have "searchTableBytes (region m inp l) ! ucode c = NUL \<longleftrightarrow> c \<notin> set (region m inp l)" for c
    using search_table_is_membership [of "region m inp l" c] by blast
  moreover have "translateTableBytes (region m out k) (region m inp l) ! ucode c = translate_scan (region m out k) (region m inp l) 0 c" for c
    using translate_table_is_scan [of "region m out k" "region m inp l" c] by blast
  ultimately show ?thesis
    using assms translated.field [where x = "(s, n, out, k, inp, l)" and dst = dst and cap = cap and m = m]
      repeated.field [where x = "(s, n, reps)" and dst = dst and cap = cap and m = m]
      search_loop_pos [of m s n inp l 0] verify_loop_pos [of l m s n inp 0]
    by (auto simp: pli_search_def pli_verify_def repeat_text_is_the_repetition split: if_splits)
qed

theorem compiled_tables_agree_with_the_runtime_witness:
  "region (pli_translate 200 6 100 5 103 1 104 1 (text_at 100 ''abcxb'')) 200 6 =
     pad 6 (map (\<lambda>c. translateTableBytes ''x'' ''b'' ! ucode c) ''abcxb'')"
proof -
  let ?m = "text_at 100 ''abcxb''"
  have "region ?m 100 5 = ''abcxb''" "region ?m 103 1 = ''x''" "region ?m 104 1 = ''b''" by code_simp+
  then show ?thesis using compiled_tables_agree_with_the_runtime [of 6 5 1 1 200 100 103 104 ?m 0]
    by (simp add: behind_def apart_def)
qed

text \<open>SUBSTR as a target on a VARYING string: the live length grows to the end of the overlay, the gap before it is blank and every byte outside
  the gap and the overlay keeps its value.\<close>
lemma substr_assign_varying_spec:
  assumes "1 \<le> start" and "start \<le> cap" and "cap \<le> 100 * 1024 * 1024" and "0 \<le> dst" and "dst + cap < 2 ^ 64"
    and "0 \<le> n" and "n < 2 ^ 63" and "0 \<le> len" and "len < 2 ^ 63" and "0 \<le> live" and "live \<le> cap"
  defines "k \<equiv> min len (cap - (start - 1))"
  shows "\<exists>m2. pli_substr_assign_varying dst cap live start len src n m = Inr (max live (start - 1 + k), m2) \<and>
    region m2 (dst + (start - 1)) k = pad k (region m src n) \<and>
    region m2 (dst + live) (start - 1 - live) = replicate (nat (start - 1 - live)) blank \<and>
    region m2 dst (min live (start - 1)) = region m dst (min live (start - 1))"
proof -
  let ?m = "put m (dst + (start - 1)) (pad k (region m src n))"
  let ?g = "replicate (nat (start - 1 - live)) blank"
  have a: "pli_substr_assign dst cap start len src n m = Inr ?m"
    using substr_assign_put [of start cap dst n len src m] assms by simp
  have k: "(if len > cap - (start - 1) then cap - (start - 1) else len) = k" "0 \<le> k" "start - 1 + k \<le> cap" using assms by (auto simp: k_def)
  have e: "(if start - 1 + k > live then start - 1 + k else live) = max live (start - 1 + k)" by auto
  have "pli_substr_assign_varying dst cap live start len src n m = Inr (max live (start - 1 + k), put ?m (dst + live) ?g)"
    using a k(1) e assms(1-3, 10, 11) by (simp add: pli_substr_assign_varying_def Let_def memset_is_put)
  moreover have "region (put ?m (dst + live) ?g) (dst + (start - 1)) k = region ?m (dst + (start - 1)) k"
    by (rule region_put_apart) (auto simp: apart_def)
  moreover have "region ?m (dst + (start - 1)) k = pad k (region m src n)"
    using region_put [of m "dst + (start - 1)" "pad k (region m src n)"] k(2) by simp
  moreover have "region (put ?m (dst + live) ?g) (dst + live) (start - 1 - live) = ?g"
    using region_put [of ?m "dst + live" ?g] by (cases "live \<le> start - 1") auto
  moreover have "region (put ?m (dst + live) ?g) dst (min live (start - 1)) = region m dst (min live (start - 1))"
    using assms(1, 10) by (subst region_put_apart, auto simp: apart_def) (subst region_put_apart, auto simp: apart_def)
  ultimately show ?thesis by auto
qed

end
