(* ===== verification/AstStmt.thy ===== *)
theory AstStmt
  imports Hir Diag
begin

text \<open>
  \<^verbatim>\<open>src/ast.h\<close>: the statement node of the syntax tree and the procedures and program around it.  As for
  expressions, the scalar members are a record and the owned sub-statements are arguments of the datatype; a null
  pointer is \<^const>\<open>None\<close>, and lists of owned statements may hold nulls.  Of the members, those that name
  expressions, symbols or sub-statements are here; the flags and texts that only code generation reads are left out.
\<close>

section \<open>Parts of a statement\<close>

datatype InitItemKind = II_Value | II_Iter | II_Repeat | II_Group

datatype InitItem =
  InitItem (ii_kind: InitItemKind) (ii_value: "Expr option") (ii_factor: int) (ii_items: "InitItem list")

datatype FormatKind =
  FK_A | FK_B | FK_C | FK_F | FK_E | FK_X | FK_Skip | FK_Page | FK_Line | FK_Column | FK_Remote | FK_P | FK_Repeat

datatype FormatItem =
  FormatItem (fi_kind: FormatKind) (fi_w: "Expr option") (fi_d: "Expr option") (fi_s: "Expr option")
    (fi_remote: string) (fi_pic: string) (fi_subs: "FormatItem list") (fi_count: "Expr option") (fi_items: "FormatItem list")

record DeclItem =
  dc_name :: string
  dc_ty :: PType
  dc_loc :: SourceLoc
  dc_level :: int
  dc_dynBounds :: "Expr option list"
  dc_dynLbBounds :: "Expr option list"
  dc_init :: "Expr option"
  dc_slenExpr :: "Expr option"
  dc_valueInit :: "Expr option"
  dc_initCall :: "Expr option"
  dc_initItems :: "InitItem list"
  dc_sym :: "nat option"

record AllocBound =
  ab_lb :: "Expr option"
  ab_ub :: "Expr option"
  ab_star :: bool

section \<open>Statements\<close>

datatype StmtKind =
  ST_Null | ST_Declare | ST_Assign | ST_If | ST_Group | ST_Begin | ST_DoWhile | ST_DoIter | ST_Put | ST_Get
| ST_CallS | ST_Return | ST_Stop | ST_Goto | ST_Entry | ST_Allocate | ST_Free | ST_Open | ST_Close | ST_Leave
| ST_Iterate | ST_On | ST_Revert | ST_Signal | ST_Display | ST_Read | ST_Write | ST_Rewrite | ST_Delete
| ST_Wait | ST_Delay | ST_Format | ST_DefineAlias | ST_DefineConstant

record stmt_attrs =
  t_kind :: StmtKind
  t_loc :: SourceLoc
  t_labels :: "string list"
  t_decls :: "DeclItem list"
  t_target :: "Expr option"
  t_value :: "Expr option"
  t_cond :: "Expr option"
  t_from :: "Expr option"
  t_to :: "Expr option"
  t_by :: "Expr option"
  t_until :: bool
  t_forever :: bool
  t_extraTargets :: "Expr list"
  t_name :: string
  t_sym :: "nat option"
  t_skipCount :: "Expr option"
  t_items :: "Expr list"
  t_formats :: "FormatItem list"
  t_stringTarget :: "Expr option"
  t_args :: "Expr list"
  t_gotoTarget :: "Expr option"
  t_taskRef :: "Expr option"
  t_eventRef :: "Expr option"
  t_priorityExpr :: "Expr option"
  t_waitEvents :: "Expr list"
  t_waitCount :: "Expr option"
  t_oncodeExpr :: "Expr option"
  t_allocBase :: "Expr option list"
  t_allocSet :: "Expr option list"
  t_allocBounds :: "AllocBound list list"
  t_allocCharLen :: "Expr option list"
  t_allocArea :: "Expr option list"
  t_freeBase :: "Expr option list"
  t_freeArea :: "Expr option list"
  t_condName :: string
  t_fileIdent :: string
  t_fileSym :: "nat option"
  t_byName :: bool

datatype Stmt =
  Stmt (sta: stmt_attrs) (st_thenS: "Stmt option") (st_elseS: "Stmt option") (st_body: "Stmt option list") (st_unit: "Stmt option")

definition default_stmt :: stmt_attrs where
  "default_stmt = \<lparr>t_kind = ST_Null, t_loc = \<lparr>loc_line = 0, loc_col = 0\<rparr>, t_labels = [], t_decls = [], t_target = None,
     t_value = None, t_cond = None, t_from = None, t_to = None, t_by = None, t_until = False, t_forever = False,
     t_extraTargets = [], t_name = [], t_sym = None, t_skipCount = None, t_items = [], t_formats = [],
     t_stringTarget = None, t_args = [], t_gotoTarget = None, t_taskRef = None, t_eventRef = None,
     t_priorityExpr = None, t_waitEvents = [], t_waitCount = None, t_oncodeExpr = None, t_allocBase = [],
     t_allocSet = [], t_allocBounds = [], t_allocCharLen = [], t_allocArea = [], t_freeBase = [], t_freeArea = [],
     t_condName = [], t_fileIdent = [], t_fileSym = None, t_byName = False\<rparr>"

abbreviation stkind :: "Stmt \<Rightarrow> StmtKind" where "stkind s \<equiv> t_kind (sta s)"

section \<open>Procedures and programs\<close>

text \<open>A \<^verbatim>\<open>Proc*\<close> is the position of the procedure in \<^verbatim>\<open>Program::procs\<close>.\<close>

record Proc =
  pr_name :: string
  pr_loc :: SourceLoc
  pr_isMain :: bool
  pr_isExternal :: bool
  pr_isRecursive :: bool
  pr_isFunction :: bool
  pr_retTy :: PType
  pr_params :: "string list"
  pr_isPackage :: bool
  pr_exports :: "string list"
  pr_entryNames :: "string list"
  pr_body :: "Stmt option list"
  pr_parent :: "nat option"
  pr_paramSyms :: "nat list"
  pr_localSyms :: "nat list"
  pr_directUses :: "nat list"
  pr_env :: "nat list"
  pr_irName :: string

definition default_proc :: Proc where
  "default_proc = \<lparr>pr_name = [], pr_loc = \<lparr>loc_line = 0, loc_col = 0\<rparr>, pr_isMain = False, pr_isExternal = False,
     pr_isRecursive = False, pr_isFunction = False, pr_retTy = voidTy, pr_params = [], pr_isPackage = False,
     pr_exports = [], pr_entryNames = [], pr_body = [], pr_parent = None, pr_paramSyms = [], pr_localSyms = [],
     pr_directUses = [], pr_env = [], pr_irName = []\<rparr>"

text \<open>Induction over lists of owned statements, nulls included.\<close>

lemma stmt_list_induct [case_names Nil null cons]:
  assumes "P []" and "\<And>ss. P ss \<Longrightarrow> P (None # ss)"
    and "\<And>x th el bd un ss. P [th] \<Longrightarrow> P [el] \<Longrightarrow> P bd \<Longrightarrow> P [un] \<Longrightarrow> P ss \<Longrightarrow> P (Some (Stmt x th el bd un) # ss)"
  shows "P ss"
proof -
  have one: "P ss \<Longrightarrow> P (Some s # ss)" for s ss
  proof (induction s arbitrary: ss)
    case (Stmt x th el bd un)
    have "P [so]" if "so = th \<or> so = el \<or> so = un" for so
      using that Stmt.IH(1, 2, 4) assms(1, 2) by (cases so) auto
    moreover have "P bs" if "set bs \<subseteq> set bd" for bs
      using that
    proof (induction bs)
      case (Cons b bs)
      then show ?case using Stmt.IH(3) [of b] assms(2) by (cases b) auto
    qed (rule assms(1))
    ultimately show ?case using Stmt.prems by (intro assms(3)) auto
  qed
  show ?thesis
  proof (induction ss)
    case (Cons s ss)
    then show ?case using one assms(2) by (cases s) auto
  qed (rule assms(1))
qed

end
