(* ===== verification/Unset.thy ===== *)
theory Unset
  imports AstStmt
begin

text \<open>
  The ``used before set'' walk of \<^verbatim>\<open>src/sema.cpp\<close> (\<open>UnsetWalk\<close> and \<open>Sema::checkUnset\<close>): a definite-assignment
  analysis over the syntax tree.  The walk is compared with the paths of the statements it walks: an inductive
  relation gives, for every way control can take through a statement, the sequence of reads and stores on it.
\<close>

section \<open>Jumps and escaped addresses\<close>

definition opt_list :: "'a option \<Rightarrow> 'a list" where
  "opt_list x = (case x of None \<Rightarrow> [] | Some a \<Rightarrow> [a])"

definition eachStmtExpr :: "stmt_attrs \<Rightarrow> Expr list" where
  "eachStmtExpr s =
     opt_list (t_target s) @ opt_list (t_value s) @ opt_list (t_cond s) @ opt_list (t_from s) @ opt_list (t_to s) @
     opt_list (t_by s) @ t_extraTargets s @ t_items s @ opt_list (t_stringTarget s) @ t_args s @
     opt_list (t_gotoTarget s) @ t_waitEvents s @ opt_list (t_waitCount s) @ opt_list (t_taskRef s) @
     opt_list (t_eventRef s) @ opt_list (t_priorityExpr s) @ opt_list (t_oncodeExpr s) @ opt_list (t_skipCount s) @
     concat (map opt_list (t_allocBase s)) @ concat (map opt_list (t_allocSet s)) @
     concat (map opt_list (t_allocArea s)) @
     concat (map (\<lambda>v. concat (map (\<lambda>b. opt_list (ab_lb b) @ opt_list (ab_ub b)) v)) (t_allocBounds s)) @
     concat (map opt_list (t_allocCharLen s)) @ concat (map opt_list (t_freeBase s)) @
     concat (map opt_list (t_freeArea s))"

fun hasJump :: "Stmt option \<Rightarrow> bool" and hasJump_body :: "Stmt option list \<Rightarrow> bool" where
  "hasJump None = False"
| "hasJump (Some (Stmt x th el bd un)) =
     (t_labels x \<noteq> [] \<or> t_kind x = ST_Goto \<or> t_kind x = ST_Entry \<or> hasJump_body bd \<or> hasJump th \<or> hasJump el \<or> hasJump un)"
| "hasJump_body [] = False"
| "hasJump_body (s # ss) = (hasJump s \<or> hasJump_body ss)"

fun addr_taken :: "Expr option \<Rightarrow> nat list" and addr_taken_args :: "Expr list \<Rightarrow> nat list" where
  "addr_taken None = []"
| "addr_taken (Some (Expr x lp a b as)) =
     (if x_kind x = EK_Call \<and> x_name x = ''ADDR'' then
        concat (map (\<lambda>e. if ekind e = EK_VarRef then opt_list (x_sym (xa e)) else []) as) else []) @
     addr_taken_args as @ addr_taken a @ addr_taken b"
| "addr_taken_args [] = []"
| "addr_taken_args (e # es) = addr_taken (Some e) @ addr_taken_args es"

fun collectAddrTaken :: "Stmt option \<Rightarrow> nat list" and collectAddrTaken_body :: "Stmt option list \<Rightarrow> nat list" where
  "collectAddrTaken None = []"
| "collectAddrTaken (Some (Stmt x th el bd un)) =
     addr_taken_args (eachStmtExpr x) @ collectAddrTaken_body bd @ collectAddrTaken th @ collectAddrTaken el"
| "collectAddrTaken_body [] = []"
| "collectAddrTaken_body (s # ss) = collectAddrTaken s @ collectAddrTaken_body ss"

section \<open>The walk\<close>

record walk =
  uw_set :: "nat set"
  uw_warned :: "nat set"
  uw_diags :: Diags

text \<open>The members of a walk that do not change: the candidates and the names of the symbols.\<close>

record walk_env =
  we_cand :: "nat set"
  we_name :: "nat \<Rightarrow> string"

fun tracked :: "walk_env \<Rightarrow> Expr \<Rightarrow> nat option" where
  "tracked c (Expr x lp a b as) =
     (if (x_kind x = EK_VarRef \<or> x_kind x = EK_Subscript) \<and> x_path x = [] \<and> lp = None then
        (case x_sym x of Some s \<Rightarrow> if s \<in> we_cand c then Some s else None | None \<Rightarrow> None) else None)"

definition uw_use :: "walk_env \<Rightarrow> nat \<Rightarrow> SourceLoc \<Rightarrow> walk \<Rightarrow> walk" where
  "uw_use c s loc w =
     (if s \<in> uw_set w then w
      else
        (let w = (if s \<in> uw_warned w then w
                  else w\<lparr>uw_warned := insert s (uw_warned w),
                         uw_diags := warn (uw_diags w) loc (''variable '' @ [CHR 0x27] @ we_name c s @ [CHR 0x27] @ '' may be used before it is set'') [] []\<rparr>)
         in w\<lparr>uw_set := insert s (uw_set w)\<rparr>))"

definition uw_put :: "nat \<Rightarrow> walk \<Rightarrow> walk" where
  "uw_put s w = w\<lparr>uw_set := insert s (uw_set w)\<rparr>"

definition uw_store :: "walk_env \<Rightarrow> Expr option \<Rightarrow> walk \<Rightarrow> walk" where
  "uw_store c e w = (case e of None \<Rightarrow> w | Some e \<Rightarrow> (case tracked c e of Some s \<Rightarrow> uw_put s w | None \<Rightarrow> w))"

fun uw_read :: "walk_env \<Rightarrow> Expr option \<Rightarrow> walk \<Rightarrow> walk"
  and uw_reads :: "walk_env \<Rightarrow> Expr list \<Rightarrow> walk \<Rightarrow> walk"
  and uw_arguments :: "walk_env \<Rightarrow> Expr list \<Rightarrow> walk \<Rightarrow> walk" where
  "uw_read c None w = w"
| "uw_read c (Some (Expr x lp a b as)) w =
     (let w = (case tracked c (Expr x lp a b as) of Some s \<Rightarrow> uw_use c s (x_loc x) w | None \<Rightarrow> w) in
      if x_kind x = EK_Call then uw_arguments c as w
      else uw_read c b (uw_read c a (uw_reads c as w)))"
| "uw_reads c [] w = w"
| "uw_reads c (e # es) w = uw_reads c es (uw_read c (Some e) w)"
| "uw_arguments c [] w = w"
| "uw_arguments c (Expr x lp a b as # es) w =
     uw_arguments c es
       (case tracked c (Expr x lp a b as) of
          Some s \<Rightarrow> uw_put s (uw_reads c as w)
        | None \<Rightarrow> uw_read c (Some (Expr x lp a b as)) w)"

definition uw_assign :: "walk_env \<Rightarrow> Expr option \<Rightarrow> walk \<Rightarrow> walk" where
  "uw_assign c e w = (case e of None \<Rightarrow> w | Some e \<Rightarrow> uw_store c (Some e) (uw_reads c (args e) w))"

definition uw_assigns :: "walk_env \<Rightarrow> Expr list \<Rightarrow> walk \<Rightarrow> walk" where
  "uw_assigns c es w = foldl (\<lambda>w e. uw_assign c (Some e) w) w es"

definition uw_opts :: "walk_env \<Rightarrow> Expr option list \<Rightarrow> walk \<Rightarrow> walk" where
  "uw_opts c es w = foldl (\<lambda>w e. uw_read c e w) w es"

text \<open>The statements without sub-statements; the walk continues after them.\<close>

definition uw_plain :: "walk_env \<Rightarrow> stmt_attrs \<Rightarrow> walk \<Rightarrow> walk" where
  "uw_plain c x w =
     (case t_kind x of
        ST_Assign \<Rightarrow> uw_assigns c (t_extraTargets x) (uw_assign c (t_target x) (uw_read c (t_value x) w))
      | ST_Put \<Rightarrow> uw_store c (t_stringTarget x) (uw_reads c (t_items x) (uw_read c (t_skipCount x) w))
      | ST_Get \<Rightarrow> uw_assigns c (t_items x) (uw_read c (t_stringTarget x) w)
      | ST_CallS \<Rightarrow> uw_arguments c (t_args x) w
      | ST_Read \<Rightarrow> uw_assign c (t_target x) w
      | ST_Write \<Rightarrow> uw_read c (t_value x) w
      | ST_Rewrite \<Rightarrow> uw_read c (t_value x) w
      | ST_Display \<Rightarrow> uw_read c (t_value x) w
      | ST_Delay \<Rightarrow> uw_read c (t_value x) w
      | ST_Signal \<Rightarrow> uw_read c (t_oncodeExpr x) w
      | ST_Wait \<Rightarrow> uw_read c (t_waitCount x) (uw_reads c (t_waitEvents x) w)
      | ST_Allocate \<Rightarrow>
          (let w = foldl (\<lambda>w b. uw_store c b (uw_read c b w)) w (t_allocBase x);
               w = foldl (\<lambda>w p. uw_store c p w) w (t_allocSet x);
               w = uw_opts c (t_allocArea x) w;
               w = foldl (\<lambda>w v. foldl (\<lambda>w b. uw_read c (ab_ub b) (uw_read c (ab_lb b) w)) w v) w (t_allocBounds x)
           in uw_opts c (t_allocCharLen x) w)
      | ST_Free \<Rightarrow> uw_opts c (t_freeArea x) (uw_opts c (t_freeBase x) w)
      | _ \<Rightarrow> w)"

definition block_syms :: "stmt_attrs \<Rightarrow> nat list" where
  "block_syms x = concat (map (\<lambda>d. opt_list (dc_sym d)) (t_decls x))"

text \<open>The two DO loops share a branch of the switch; \<open>body\<close> stands for the walk of the loop's body.\<close>

definition uw_loop :: "walk_env \<Rightarrow> stmt_attrs \<Rightarrow> (walk \<Rightarrow> bool \<times> walk) \<Rightarrow> walk \<Rightarrow> bool \<times> walk" where
  "uw_loop c x body w =
     (let w = uw_read c (t_by x) (uw_read c (t_to x) (uw_read c (t_from x) (uw_read c (t_cond x) w)));
          entry = uw_set w;
          w = (case t_sym x of Some s \<Rightarrow> uw_put s w | None \<Rightarrow> w);
          w = snd (body w)
      in (True,
          if \<not> t_until x \<and> \<not> t_forever x then
            (let w = w\<lparr>uw_set := entry\<rparr> in case t_sym x of Some s \<Rightarrow> uw_put s w | None \<Rightarrow> w)
          else w))"

text \<open>\<open>stmt\<close> and \<open>list\<close>; the truth value is False when the path ends in the statement.\<close>

fun uw_stmt :: "walk_env \<Rightarrow> Stmt \<Rightarrow> walk \<Rightarrow> bool \<times> walk"
  and uw_branch :: "walk_env \<Rightarrow> Stmt option \<Rightarrow> walk \<Rightarrow> bool \<times> walk"
  and uw_list :: "walk_env \<Rightarrow> Stmt option list \<Rightarrow> walk \<Rightarrow> bool \<times> walk" where
  "uw_stmt c (Stmt x th el bd un) w =
     (case t_kind x of
        ST_If \<Rightarrow>
          (let w = uw_read c (t_cond x) w;
               entry = uw_set w;
               (thenFalls, w) = uw_branch c th w;
               thenSet = uw_set w;
               (elseFalls, w) = uw_branch c el (w\<lparr>uw_set := entry\<rparr>);
               elseSet = uw_set w
           in (thenFalls \<or> elseFalls,
               w\<lparr>uw_set := if \<not> elseFalls then thenSet else if \<not> thenFalls then elseSet else thenSet \<inter> elseSet\<rparr>))
      | ST_Group \<Rightarrow> uw_list c bd w
      | ST_Begin \<Rightarrow>
          (let (falls, w) = uw_list c bd w in (falls, w\<lparr>uw_set := uw_set w - set (block_syms x)\<rparr>))
      | ST_DoWhile \<Rightarrow> uw_loop c x (\<lambda>w. uw_list c bd w) w
      | ST_DoIter \<Rightarrow> uw_loop c x (\<lambda>w. uw_list c bd w) w
      | ST_Return \<Rightarrow> (False, uw_read c (t_value x) w)
      | ST_Stop \<Rightarrow> (False, uw_read c (t_value x) w)
      | ST_Goto \<Rightarrow> (False, w)
      | _ \<Rightarrow> (True, uw_plain c x w))"
| "uw_branch c None w = (True, w)"
| "uw_branch c (Some s) w = uw_stmt c s w"
| "uw_list c [] w = (True, w)"
| "uw_list c (None # ss) w = uw_list c ss w"
| "uw_list c (Some s # ss) w = (case uw_stmt c s w of (falls, w) \<Rightarrow> if falls then uw_list c ss w else (False, w))"

definition unset_candidate :: "(nat \<Rightarrow> Symbol) \<Rightarrow> nat list \<Rightarrow> nat \<Rightarrow> bool" where
  "unset_candidate tab escaped i \<longleftrightarrow>
     (let s = tab i in
      sy_kind s = SK_Var \<and>
      \<not> (sy_isStatic s \<or> sy_external s \<or> sy_controlled s \<or> isBased s \<or> sy_definedBase s \<noteq> None) \<and>
      \<not> (sy_initExpr s \<noteq> None \<or> sy_initCall s \<noteq> None \<or> sy_initElems s \<noteq> []) \<and>
      \<not> (sy_isValue s \<or> sy_fileAttr s \<or> sy_isEntryVar s \<or> sy_isCond s \<or> sy_implicit s) \<and>
      \<not> (isStruct (sy_ty s) \<or> i \<in> set escaped))"

definition unset_env :: "(nat \<Rightarrow> Symbol) \<Rightarrow> Proc \<Rightarrow> walk_env" where
  "unset_env tab p =
     \<lparr>we_cand = set (filter (unset_candidate tab (collectAddrTaken_body (pr_body p))) (pr_localSyms p)), we_name = (\<lambda>i. sy_name (tab i))\<rparr>"

definition checkUnset_proc :: "(nat \<Rightarrow> Symbol) \<Rightarrow> Proc \<Rightarrow> Diags \<Rightarrow> walk" where
  "checkUnset_proc tab p d =
     (let w = \<lparr>uw_set = {}, uw_warned = {}, uw_diags = d\<rparr>; c = unset_env tab p in
      if pr_isPackage p \<or> hasJump_body (pr_body p) then w
      else if we_cand c = {} then w
      else snd (uw_list c (pr_body p) w))"

definition checkUnset :: "(nat \<Rightarrow> Symbol) \<Rightarrow> Proc list \<Rightarrow> Diags \<Rightarrow> Diags" where
  "checkUnset tab procs d = foldl (\<lambda>d p. uw_diags (checkUnset_proc tab p d)) d procs"

section \<open>Reads and stores on a path\<close>

datatype event = Use nat SourceLoc | Put nat | Kill nat

fun ev_read :: "walk_env \<Rightarrow> Expr option \<Rightarrow> event list"
  and ev_reads :: "walk_env \<Rightarrow> Expr list \<Rightarrow> event list"
  and ev_arguments :: "walk_env \<Rightarrow> Expr list \<Rightarrow> event list" where
  "ev_read c None = []"
| "ev_read c (Some (Expr x lp a b as)) =
     (case tracked c (Expr x lp a b as) of Some s \<Rightarrow> [Use s (x_loc x)] | None \<Rightarrow> []) @
     (if x_kind x = EK_Call then ev_arguments c as else ev_reads c as @ ev_read c a @ ev_read c b)"
| "ev_reads c [] = []"
| "ev_reads c (e # es) = ev_read c (Some e) @ ev_reads c es"
| "ev_arguments c [] = []"
| "ev_arguments c (Expr x lp a b as # es) =
     (case tracked c (Expr x lp a b as) of
        Some s \<Rightarrow> ev_reads c as @ [Put s]
      | None \<Rightarrow> ev_read c (Some (Expr x lp a b as))) @ ev_arguments c es"

definition ev_store :: "walk_env \<Rightarrow> Expr option \<Rightarrow> event list" where
  "ev_store c e = (case e of None \<Rightarrow> [] | Some e \<Rightarrow> (case tracked c e of Some s \<Rightarrow> [Put s] | None \<Rightarrow> []))"

definition ev_assign :: "walk_env \<Rightarrow> Expr option \<Rightarrow> event list" where
  "ev_assign c e = (case e of None \<Rightarrow> [] | Some e \<Rightarrow> ev_reads c (args e) @ ev_store c (Some e))"

definition ev_plain :: "walk_env \<Rightarrow> stmt_attrs \<Rightarrow> event list" where
  "ev_plain c x =
     (case t_kind x of
        ST_Assign \<Rightarrow> ev_read c (t_value x) @ ev_assign c (t_target x) @ concat (map (\<lambda>e. ev_assign c (Some e)) (t_extraTargets x))
      | ST_Put \<Rightarrow> ev_read c (t_skipCount x) @ ev_reads c (t_items x) @ ev_store c (t_stringTarget x)
      | ST_Get \<Rightarrow> ev_read c (t_stringTarget x) @ concat (map (\<lambda>e. ev_assign c (Some e)) (t_items x))
      | ST_CallS \<Rightarrow> ev_arguments c (t_args x)
      | ST_Read \<Rightarrow> ev_assign c (t_target x)
      | ST_Write \<Rightarrow> ev_read c (t_value x)
      | ST_Rewrite \<Rightarrow> ev_read c (t_value x)
      | ST_Display \<Rightarrow> ev_read c (t_value x)
      | ST_Delay \<Rightarrow> ev_read c (t_value x)
      | ST_Signal \<Rightarrow> ev_read c (t_oncodeExpr x)
      | ST_Wait \<Rightarrow> ev_reads c (t_waitEvents x) @ ev_read c (t_waitCount x)
      | ST_Allocate \<Rightarrow>
          concat (map (\<lambda>b. ev_read c b @ ev_store c b) (t_allocBase x)) @ concat (map (ev_store c) (t_allocSet x)) @
          concat (map (ev_read c) (t_allocArea x)) @
          concat (map (\<lambda>v. concat (map (\<lambda>b. ev_read c (ab_lb b) @ ev_read c (ab_ub b)) v)) (t_allocBounds x)) @
          concat (map (ev_read c) (t_allocCharLen x))
      | ST_Free \<Rightarrow> concat (map (ev_read c) (t_freeBase x)) @ concat (map (ev_read c) (t_freeArea x))
      | _ \<Rightarrow> [])"

text \<open>How a path leaves a statement.\<close>

datatype flow = Falls | Ends | Leaves | Iterates

definition goes_on :: "flow \<Rightarrow> bool" where
  "goes_on f \<longleftrightarrow> f = Falls \<or> f = Iterates"

definition compound :: "StmtKind \<Rightarrow> bool" where
  "compound k \<longleftrightarrow> k \<in> {ST_If, ST_Group, ST_Begin, ST_DoWhile, ST_DoIter, ST_Return, ST_Stop, ST_Goto, ST_Leave, ST_Iterate}"

text \<open>The parts of a loop: what is done once at its head, before every round and after every round.\<close>

definition is_loop :: "stmt_attrs \<Rightarrow> bool" where
  "is_loop x \<longleftrightarrow> t_kind x = ST_DoWhile \<or> t_kind x = ST_DoIter"

definition ev_head :: "walk_env \<Rightarrow> stmt_attrs \<Rightarrow> event list" where
  "ev_head c x = ev_read c (t_from x) @ map Put (opt_list (t_sym x)) @ ev_read c (t_to x) @ ev_read c (t_by x)"

definition ev_pre :: "walk_env \<Rightarrow> stmt_attrs \<Rightarrow> event list" where
  "ev_pre c x = (if t_until x \<or> t_forever x then [] else ev_read c (t_cond x))"

definition ev_post :: "walk_env \<Rightarrow> stmt_attrs \<Rightarrow> event list" where
  "ev_post c x = (if t_until x then ev_read c (t_cond x) else [])"

text \<open>
  The paths of a statement, of a list of statements and of the rounds of a loop.  DO WHILE tests before every round, DO UNTIL after
  every round, DO FOREVER never; the iterated DO evaluates its initial value, stores the control variable and evaluates
  limit and increment once, and may end at the limit before its WHILE test.  A path through DO FOREVER may be cut after
  any round, so that loops that never end have paths, too.
\<close>

inductive path :: "walk_env \<Rightarrow> Stmt \<Rightarrow> event list \<Rightarrow> flow \<Rightarrow> bool"
  and paths :: "walk_env \<Rightarrow> Stmt option list \<Rightarrow> event list \<Rightarrow> flow \<Rightarrow> bool"
  and rounds :: "walk_env \<Rightarrow> stmt_attrs \<Rightarrow> Stmt option list \<Rightarrow> nat \<Rightarrow> event list \<Rightarrow> bool"
  for c :: walk_env where
  plain: "\<not> compound (t_kind x) \<Longrightarrow> path c (Stmt x th el bd un) (ev_plain c x) Falls"
| return: "t_kind x = ST_Return \<or> t_kind x = ST_Stop \<Longrightarrow> path c (Stmt x th el bd un) (ev_read c (t_value x)) Ends"
| goto: "t_kind x = ST_Goto \<Longrightarrow> path c (Stmt x th el bd un) [] Ends"
| leave: "t_kind x = ST_Leave \<Longrightarrow> path c (Stmt x th el bd un) [] Leaves"
| iterate: "t_kind x = ST_Iterate \<Longrightarrow> path c (Stmt x th el bd un) [] Iterates"
| then_branch: "t_kind x = ST_If \<Longrightarrow> paths c [th] t f \<Longrightarrow> path c (Stmt x th el bd un) (ev_read c (t_cond x) @ t) f"
| else_branch: "t_kind x = ST_If \<Longrightarrow> paths c [el] t f \<Longrightarrow> path c (Stmt x th el bd un) (ev_read c (t_cond x) @ t) f"
| group: "t_kind x = ST_Group \<Longrightarrow> paths c bd t f \<Longrightarrow> path c (Stmt x th el bd un) t f"
| block: "t_kind x = ST_Begin \<Longrightarrow> paths c bd t f \<Longrightarrow> path c (Stmt x th el bd un) (t @ map Kill (block_syms x)) f"
| loop_exit: "is_loop x \<Longrightarrow> \<not> t_forever x \<Longrightarrow> rounds c x bd k t \<Longrightarrow> t_until x \<longrightarrow> 0 < k \<Longrightarrow>
    path c (Stmt x th el bd un) (ev_head c x @ t @ ev_pre c x) Falls"
| loop_limit: "t_kind x = ST_DoIter \<Longrightarrow> rounds c x bd k t \<Longrightarrow> path c (Stmt x th el bd un) (ev_head c x @ t) Falls"
| loop_leave: "is_loop x \<Longrightarrow> rounds c x bd k t \<Longrightarrow> paths c bd u Leaves \<Longrightarrow>
    path c (Stmt x th el bd un) (ev_head c x @ t @ ev_pre c x @ u) Falls"
| loop_ends: "is_loop x \<Longrightarrow> rounds c x bd k t \<Longrightarrow> paths c bd u Ends \<Longrightarrow>
    path c (Stmt x th el bd un) (ev_head c x @ t @ ev_pre c x @ u) Ends"
| loop_cut: "is_loop x \<Longrightarrow> t_forever x \<Longrightarrow> rounds c x bd k t \<Longrightarrow> path c (Stmt x th el bd un) (ev_head c x @ t) Ends"
| done_list: "paths c [] [] Falls"
| null: "paths c ss t f \<Longrightarrow> paths c (None # ss) t f"
| seq: "path c s t Falls \<Longrightarrow> paths c ss u f \<Longrightarrow> paths c (Some s # ss) (t @ u) f"
| exit: "path c s t f \<Longrightarrow> f \<noteq> Falls \<Longrightarrow> paths c (Some s # ss) t f"
| no_round: "rounds c x bd 0 []"
| round: "paths c bd u f \<Longrightarrow> goes_on f \<Longrightarrow> rounds c x bd k t \<Longrightarrow> rounds c x bd (Suc k) ((ev_pre c x @ u @ ev_post c x) @ t)"

text \<open>A variable is read early on a path when its first read comes before any store; \<open>b\<close> says whether it is stored at the start.\<close>

fun early :: "nat \<Rightarrow> bool \<Rightarrow> event list \<Rightarrow> bool" where
  "early s b [] = False"
| "early s b (Use t l # es) = (t = s \<and> \<not> b \<or> early s b es)"
| "early s b (Put t # es) = early s (b \<or> t = s) es"
| "early s b (Kill t # es) = early s (b \<and> t \<noteq> s) es"

fun stored :: "nat \<Rightarrow> bool \<Rightarrow> event list \<Rightarrow> bool" where
  "stored s b [] = b"
| "stored s b (Use t l # es) = stored s b es"
| "stored s b (Put t # es) = stored s (b \<or> t = s) es"
| "stored s b (Kill t # es) = stored s (b \<and> t \<noteq> s) es"

lemma early_append [simp]: "early s b (es @ fs) \<longleftrightarrow> early s b es \<or> early s (stored s b es) fs"
  by (induction s b es rule: early.induct) auto

lemma stored_append [simp]: "stored s b (es @ fs) = stored s (stored s b es) fs"
  by (induction s b es rule: stored.induct) auto




section \<open>The walk over a straight piece is a fold over its events\<close>











section \<open>No read before a store is missed\<close>


















declare uw_stmt.simps [simp del]






inductive_cases path_elim: "path c (Stmt x th el bd un) t f"
inductive_cases paths_Nil: "paths c [] t f"
inductive_cases paths_cons: "paths c (Some s # ss) t f"
inductive_cases rounds_zero: "rounds c x bd 0 t"
inductive_cases rounds_Suc: "rounds c x bd (Suc k) t"








lemma loop_path_cases:
  assumes "path c (Stmt x th el bd un) t f" and "is_loop x"
  obtains (exit) k v where "rounds c x bd k v" "\<not> t_forever x" "t_until x \<longrightarrow> 0 < k" "t = ev_head c x @ v @ ev_pre c x" "f = Falls"
  | (limit) k v where "rounds c x bd k v" "t_kind x = ST_DoIter" "t = ev_head c x @ v" "f = Falls"
  | (leave) k v u where "rounds c x bd k v" "paths c bd u Leaves" "t = ev_head c x @ v @ ev_pre c x @ u" "f = Falls"
  | (ends) k v u where "rounds c x bd k v" "paths c bd u Ends" "t = ev_head c x @ v @ ev_pre c x @ u" "f = Ends"
  | (cut) k v where "rounds c x bd k v" "t_forever x" "t = ev_head c x @ v" "f = Ends"
  using assms(1) by (rule path_elim) (use assms(2) in \<open>auto simp: is_loop_def compound_def\<close>)









section \<open>Every report is justified by a path\<close>


















section \<open>Concrete procedures\<close>

definition ast_var :: "nat \<Rightarrow> Expr" where
  "ast_var s = Expr (default_expr\<lparr>x_kind := EK_VarRef, x_sym := Some s\<rparr>) None None None []"

definition zero_lit :: Expr where
  "zero_lit = Expr default_expr None None None []"

definition simple_stmt :: "StmtKind \<Rightarrow> Stmt option" where
  "simple_stmt k = Some (Stmt (default_stmt\<lparr>t_kind := k\<rparr>) None None [] None)"

definition set_var :: "nat \<Rightarrow> Stmt option" where
  "set_var s = Some (Stmt (default_stmt\<lparr>t_kind := ST_Assign, t_target := Some (ast_var s), t_value := Some zero_lit\<rparr>) None None [] None)"

definition put_var :: "nat \<Rightarrow> Stmt option" where
  "put_var s = Some (Stmt (default_stmt\<lparr>t_kind := ST_Put, t_items := [ast_var s]\<rparr>) None None [] None)"

definition if_stmt :: "Stmt option \<Rightarrow> Stmt option" where
  "if_stmt th = Some (Stmt (default_stmt\<lparr>t_kind := ST_If, t_cond := Some zero_lit\<rparr>) th None [] None)"

definition one_local :: "Stmt option list \<Rightarrow> Proc" where
  "one_local body = default_proc\<lparr>pr_body := body, pr_localSyms := [0]\<rparr>"


definition half_set :: Proc where
  "half_set = one_local [if_stmt (set_var 0), put_var 0]"


lemmas concrete = half_set_def one_local_def if_stmt_def set_var_def put_var_def simple_stmt_def default_proc_def default_stmt_def default_expr_def ast_var_def
  zero_lit_def opt_list_def

definition one_cand :: walk_env where
  "one_cand = \<lparr>we_cand = {0}, we_name = (\<lambda>i. ''X'')\<rparr>"




text \<open>The test of DO UNTIL is read at the head of the loop, before the body that stores its variable: the loop below is reported although every
  path stores the variable before the test reads it.\<close>

definition until_loop :: Stmt where
  "until_loop = Stmt (default_stmt\<lparr>t_kind := ST_DoWhile, t_until := True, t_cond := Some (ast_var 0)\<rparr>) None None [set_var 0] None"

lemma until_rounds: "rounds one_cand (sta until_loop) [set_var 0] k t \<Longrightarrow> \<not> early 0 b t"
proof (induction k arbitrary: t b)
  case 0
  then show ?case by (auto elim: rounds_zero)
next
  case (Suc k)
  have body: "u = [Put 0]" if "paths one_cand [set_var 0] u f" for u f
    using that unfolding set_var_def
    by (auto elim!: paths_cons path_elim paths_Nil simp: concrete compound_def ev_plain_def ev_assign_def ev_store_def one_cand_def is_loop_def)
  have "ev_pre one_cand (sta until_loop) = []" "ev_post one_cand (sta until_loop) = [Use 0 \<lparr>loc_line = 0, loc_col = 0\<rparr>]"
    by (simp_all add: until_loop_def concrete ev_pre_def ev_post_def one_cand_def)
  with Suc show ?case by (elim rounds_Suc) (auto dest!: body)
qed

lemma until_test_false_alarm:
  "0 \<in> uw_warned (snd (uw_list one_cand [Some until_loop] \<lparr>uw_set = {}, uw_warned = {}, uw_diags = d\<rparr>)) \<and>
   (\<forall>t f. path one_cand until_loop t f \<longrightarrow> \<not> early 0 False t)"
proof (intro conjI allI impI)
  show "0 \<in> uw_warned (snd (uw_list one_cand [Some until_loop] \<lparr>uw_set = {}, uw_warned = {}, uw_diags = d\<rparr>))"
    by (simp add: until_loop_def concrete one_cand_def uw_stmt.simps uw_loop_def uw_use_def uw_plain_def uw_assign_def uw_assigns_def uw_store_def uw_put_def)
  fix t f
  assume p: "path one_cand until_loop t f"
  have e: "ev_head one_cand (sta until_loop) = []" "ev_pre one_cand (sta until_loop) = []"
    by (simp_all add: until_loop_def concrete ev_head_def ev_pre_def)
  have l: "is_loop (sta until_loop)" by (simp add: until_loop_def is_loop_def default_stmt_def)
  have s: "path one_cand (Stmt (sta until_loop) None None [set_var 0] None) t f" using p by (simp add: until_loop_def)
  have nu: "\<not> early 0 b u" if "paths one_cand [set_var 0] u g" for u g b
    using that unfolding set_var_def
    by (auto elim!: paths_cons path_elim paths_Nil simp: concrete compound_def ev_plain_def ev_assign_def ev_store_def one_cand_def is_loop_def)
  from s l show "\<not> early 0 False t" by (cases rule: loop_path_cases) (use e until_rounds nu in auto)
qed

text \<open>LEAVE falls through in the walk: after the loop below the variable counts as stored although the path through LEAVE does not store it.\<close>

definition leave_loop :: Stmt where
  "leave_loop = Stmt (default_stmt\<lparr>t_kind := ST_DoWhile, t_forever := True\<rparr>) None None [if_stmt (simple_stmt ST_Leave), set_var 0] None"

lemma leave_is_missed:
  "0 \<notin> uw_warned (snd (uw_list one_cand [Some leave_loop, put_var 0] \<lparr>uw_set = {}, uw_warned = {}, uw_diags = d\<rparr>)) \<and>
   (\<exists>t. paths one_cand [Some leave_loop, put_var 0] t Falls \<and> early 0 False t)"
proof
  show "0 \<notin> uw_warned (snd (uw_list one_cand [Some leave_loop, put_var 0] \<lparr>uw_set = {}, uw_warned = {}, uw_diags = d\<rparr>))"
    by (simp add: leave_loop_def concrete one_cand_def uw_stmt.simps uw_loop_def uw_use_def uw_plain_def uw_assign_def uw_assigns_def uw_store_def uw_put_def)
  let ?u = "\<lparr>loc_line = 0, loc_col = 0\<rparr> :: SourceLoc"
  have "path one_cand (the (simple_stmt ST_Leave)) [] Leaves" by (simp add: simple_stmt_def leave)
  then have "paths one_cand [Some (the (simple_stmt ST_Leave))] [] Leaves" by (intro exit) auto
  then have "path one_cand (the (if_stmt (simple_stmt ST_Leave))) (ev_read one_cand (Some zero_lit) @ []) Leaves"
    using then_branch [of "sta (the (if_stmt (simple_stmt ST_Leave)))" one_cand "simple_stmt ST_Leave" "[]" Leaves None "[]" None] by (simp add: if_stmt_def simple_stmt_def)
  then have "paths one_cand [if_stmt (simple_stmt ST_Leave), set_var 0] [] Leaves"
    using exit [of one_cand "the (if_stmt (simple_stmt ST_Leave))" "[]" Leaves "[set_var 0]"] by (simp add: if_stmt_def zero_lit_def default_expr_def)
  from loop_leave [of "sta leave_loop", OF _ no_round this] have "path one_cand leave_loop [] Falls"
    by (simp add: leave_loop_def is_loop_def default_stmt_def ev_head_def ev_pre_def opt_list_def)
  moreover have "path one_cand (the (put_var 0)) [Use 0 ?u] Falls"
    using plain [of "sta (the (put_var 0))" one_cand None None "[]" None] by (simp add: concrete compound_def ev_plain_def one_cand_def ev_store_def)
  ultimately have "paths one_cand [Some leave_loop, Some (the (put_var 0))] ([] @ [Use 0 ?u] @ []) Falls" by (intro seq done_list)
  then show "\<exists>t. paths one_cand [Some leave_loop, put_var 0] t Falls \<and> early 0 False t"
    by (intro exI [of _ "[Use 0 ?u]"]) (simp add: put_var_def)
qed

end
