(* ===== verification/SemaTypes.thy ===== *)
theory SemaTypes
  imports Constfold AstStmt
begin

text \<open>
  The typing rules of semantic analysis, \<^verbatim>\<open>src/sema.cpp\<close>: the result types of the arithmetic operators, the typing
  of literals, prefix and infix expressions (\<open>typeExpr\<close>), conversion checks (\<open>checkAssignable\<close>, BY NAME), the
  subscript and member checks, the sizes used by DEFINED overlays and INITIAL lists.  The checks that report go
  through the diagnostic sink of theory \<open>Diag\<close>.  The lemmas compare the checker with declarative typing
  rules and show that the result types hold the exact values.
\<close>

section \<open>Overlay sizes\<close>

definition definedScalarBytes :: "PType \<Rightarrow> int" where
  "definedScalarBytes t =
     (if isArray t \<or> isStruct t \<or> ty_varying (attrs t) \<or> ty_starLen (attrs t) then - 1
      else case kind_of t of
        TK_FixedBin \<Rightarrow> c_div (intBits t) 8
      | TK_FixedDec \<Rightarrow> c_div (intBits t) 8
      | TK_Float \<Rightarrow> 8
      | TK_Complex \<Rightarrow> 16
      | TK_Char \<Rightarrow> len_of t
      | TK_Bit \<Rightarrow> c_div (len_of t + 7) 8
      | TK_Task \<Rightarrow> 4
      | TK_Event \<Rightarrow> 4
      | _ \<Rightarrow> - 1)"

text \<open>The loop over the axes that the character and the element count share: \<^const>\<open>None\<close> is the early return.\<close>

fun extents_loop :: "Dim list \<Rightarrow> int \<Rightarrow> int option" where
  "extents_loop [] n = Some n"
| "extents_loop (d # ds) n =
     (if dim_dyn d \<or> dim_lbDyn d \<or> dim_adj d \<or> dim_ub d < dim_lb d then None
      else extents_loop ds (n * (dim_ub d - dim_lb d + 1)))"

definition definedCharUnits :: "PType \<Rightarrow> int" where
  "definedCharUnits t =
     (if \<not> isChar t \<or> ty_varying (attrs t) \<or> ty_starLen (attrs t) then - 1
      else case extents_loop (ty_dims (attrs t)) 1 of None \<Rightarrow> - 1 | Some n \<Rightarrow> n * len_of t)"

definition fixedElemCount :: "PType \<Rightarrow> int" where
  "fixedElemCount t = (case extents_loop (ty_dims (attrs t)) 1 of None \<Rightarrow> - 1 | Some n \<Rightarrow> n)"

definition hasRuntimeExtent :: "PType \<Rightarrow> bool" where
  "hasRuntimeExtent t \<longleftrightarrow> list_ex (\<lambda>d. dim_dyn d \<or> dim_lbDyn d \<or> dim_adj d) (ty_dims (attrs t))"

definition definedPosFits :: "Diags \<Rightarrow> SourceLoc \<Rightarrow> int \<Rightarrow> int \<Rightarrow> int \<Rightarrow> string \<Rightarrow> bool \<times> Diags" where
  "definedPosFits d l pos itemUnits baseUnits what =
     (if pos < 1 then (False, error d l ''POSITION must be 1 or greater'' ''(24)'' [])
      else if pos - 1 + itemUnits > baseUnits then
        (False, error d l (''the DEFINED item does not fit into its '' @ what @ '' at POSITION('' @ to_string pos @ '')'')
                  ''(24)'' [])
      else (True, d))"

section \<open>Result types of the arithmetic operators\<close>

definition arithResultType :: "PType \<Rightarrow> PType \<Rightarrow> PType" where
  "arithResultType a b =
     (if kind_of a = TK_Float \<or> kind_of b = TK_Float then
        flt (max (if kind_of a = TK_Float then prec_of a else 6) (if kind_of b = TK_Float then prec_of b else 6))
      else
        let bits = max (intBits a) (intBits b);
            p = (if bits = 64 then 63 else 31);
            dec = (kind_of a = TK_FixedDec \<and> kind_of b = TK_FixedDec);
            t = (if dec then fixedDec p (max (scale_of a) (scale_of b)) else fixedBin p (max (scale_of a) (scale_of b)))
        in if dec then Type ((attrs t)\<lparr>ty_wideDec := ty_wideDec (attrs a) \<or> ty_wideDec (attrs b)\<rparr>) (members t) else t)"

definition mulResultType :: "PType \<Rightarrow> PType \<Rightarrow> PType" where
  "mulResultType a b =
     (if kind_of a = TK_Float \<or> kind_of b = TK_Float then arithResultType a b
      else if (kind_of a = TK_FixedBin \<and> kind_of b = TK_FixedDec \<and> scale_of a > 0) \<or>
              (kind_of a = TK_FixedDec \<and> kind_of b = TK_FixedBin \<and> scale_of b > 0)
      then flt (max 6 (max (prec_of a) (prec_of b)))
      else
        let t0 = arithResultType a b;
            t1 = (if kind_of t0 \<noteq> TK_FixedDec \<and>
                     ((kind_of a = TK_FixedBin \<and> kind_of b = TK_FixedDec \<and> scale_of b > 0) \<or>
                      (kind_of a = TK_FixedDec \<and> kind_of b = TK_FixedBin \<and> scale_of a > 0))
                  then Type ((attrs t0)\<lparr>ty_k := TK_FixedDec\<rparr>) (members t0) else t0);
            t2 = (if kind_of t1 = TK_FixedDec then
                    let p = (if kind_of a = TK_FixedDec \<and> kind_of b = TK_FixedDec then min (prec_of a + prec_of b) 31
                             else prec_of t1)
                    in Type ((attrs t1)\<lparr>ty_prec := p,
                              ty_wideDec := ty_wideDec (attrs a) \<or> ty_wideDec (attrs b) \<or> p > 18\<rparr>) (members t1)
                  else t1)
        in Type ((attrs t2)\<lparr>ty_scale := scale_of a + scale_of b\<rparr>) (members t2))"

definition divResultType :: "PType \<Rightarrow> PType \<Rightarrow> PType" where
  "divResultType a b =
     (let bothDec = (kind_of a = TK_FixedDec \<and> kind_of b = TK_FixedDec);
          maxP = (if bothDec then 31 else 63);
          mixed = (\<not> bothDec \<and> kind_of a \<noteq> kind_of b);
          p1 = (if mixed \<and> kind_of a = TK_FixedDec then decToBinDigits (prec_of a) else prec_of a);
          q1 = (if mixed \<and> kind_of a = TK_FixedDec then min 62 (decToBinScale (scale_of a)) else scale_of a);
          q2 = (if mixed \<and> kind_of b = TK_FixedDec then min 62 (decToBinScale (scale_of b)) else scale_of b);
          q = maxP - p1 + q1 - q2
      in if bothDec then fixedDec 31 (max q 0) else fixedBin 63 (max q 0))"

text \<open>The subscripts are walked together with the axes; the result is the reduced type and the number of \<open>*\<close>
  axes, \<^const>\<open>None\<close> when there is none.\<close>

fun star_axes :: "Expr list \<Rightarrow> Dim list \<Rightarrow> Dim list" where
  "star_axes (a # as) (d # ds) = (if ekind a = EK_Star then d # star_axes as ds else star_axes as ds)"
| "star_axes _ _ = []"

definition crossSectionType :: "Expr \<Rightarrow> PType \<Rightarrow> (PType \<times> int) option" where
  "crossSectionType e full =
     (let r = elementType full; ds = star_axes (args e) (ty_dims (attrs full))
      in if ds = [] then None else Some (Type ((attrs r)\<lparr>ty_dims := ds\<rparr>) (members r), int (length ds)))"

definition complexArith :: "PType \<Rightarrow> PType \<Rightarrow> bool" where
  "complexArith a b =
     (let ac = isComplex a \<or> isNumeric a; bc = isComplex b \<or> isNumeric b
      in ac \<and> bc \<and> (isComplex a \<or> isComplex b))"

section \<open>Conversion checks\<close>

fun hasDynamicMember :: "PType \<Rightarrow> bool" and dynamic_members :: "Member list \<Rightarrow> bool" where
  "hasDynamicMember (Type x ms) = dynamic_members ms"
| "dynamic_members [] = False"
| "dynamic_members (Member n t # ms) =
     (if isArray t \<and> isDynamic t then True
      else if isStruct t \<and> hasDynamicMember t then True
      else dynamic_members ms)"

definition checkAssignable :: "PType \<Rightarrow> PType \<Rightarrow> SourceLoc \<Rightarrow> string \<Rightarrow> Diags \<Rightarrow> bool \<times> Diags" where
  "checkAssignable dst src l what d =
     (if isStruct dst \<or> isStruct src then
        (if isStruct dst \<and> isStruct src \<and> type_eq dst src then
           (True,
            if hasDynamicMember dst \<and> what \<noteq> ''assignment'' then
              error d l (what @ '': a whole-structure value with a dynamic member is not implemented here'') ''(13)'' []
            else d)
         else if isStruct dst \<and> isStruct src then
           (False, error d l (what @ '': whole-structure assignment requires identical structure shapes'') ''(127)'' [])
         else
           (False, error d l (what @ '': a whole structure cannot be mixed with a non-structure in this position'') ''(127)'' []))
      else if isNumeric dst \<and> (isNumeric src \<or> isBit src) then (True, d)
      else if isTask dst \<and> isTask src then (True, d)
      else if isEvent dst \<and> isEvent src then (True, d)
      else if isLabel dst \<and> isLabel src then (True, d)
      else if isLocator dst \<and> isLocator src then (True, d)
      else if isEntry dst \<and> isEntry src then (True, d)
      else if isBit dst \<and> (isBit src \<or> isNumeric src) then (True, d)
      else if isChar dst \<and> ty_picture (attrs dst) \<noteq> [] then
        (if isNumeric src then (True, d)
         else if isChar src \<and> ty_picture (attrs src) = ty_picture (attrs dst) then (True, d)
         else (False, error d l (what @ '': assignment from '' @ desc src @ '' to '' @ desc dst @
                 '' is not implemented in this stage; write a numeric value or the same PICTURE'') ''(86)'' []))
      else if isChar dst \<and> isChar src then (True, d)
      else if (isComplex dst \<or> isComplex src) \<and> isComplex dst \<and> (isComplex src \<or> isNumeric src) then (True, d)
      else if (isComplex dst \<or> isComplex src) \<and> isNumeric dst \<and> isComplex src then (True, d)
      else (False, error d l (what @ '': conversion from '' @ desc src @ '' to '' @ desc dst @
              '' is not implemented in this stage'') ''(86)'' []))"

text \<open>The loop of \<open>checkStarLaterAxes\<close> over the axes after the first.\<close>

fun star_later_loop :: "Dim list \<Rightarrow> Dim list \<Rightarrow> SourceLoc \<Rightarrow> Diags \<Rightarrow> Diags" where
  "star_later_loop (pd # pds) (ad # ads) l d =
     (if dim_dyn ad \<or> dim_lbDyn ad \<or> dim_adj ad \<or> dim_lb ad \<noteq> dim_lb pd \<or> dim_ub ad \<noteq> dim_ub pd then
        error d l ''an argument to a multi-axis '*' parameter must match its fixed later axes'' ''(13)'' []
      else star_later_loop pds ads l d)"
| "star_later_loop _ _ l d = d"

definition checkStarLaterAxes :: "PType \<Rightarrow> PType \<Rightarrow> SourceLoc \<Rightarrow> Diags \<Rightarrow> Diags" where
  "checkStarLaterAxes pty aty l d =
     (let pds = ty_dims (attrs pty); ads = ty_dims (attrs aty)
      in if \<not> isArray pty \<or> length pds < 2 \<or> \<not> dim_adj (hd pds) then d
         else if \<not> isArray aty \<or> length ads \<noteq> length pds then
           error d l ''an argument to a multi-axis '*' parameter must be an array of the same rank'' ''(13)'' []
         else star_later_loop (tl pds) (tl ads) l d)"

text \<open>The member loop of \<open>checkByNameMatch\<close>; the source member is the first of that name.\<close>

fun checkByNameMatch :: "PType \<Rightarrow> PType \<Rightarrow> SourceLoc \<Rightarrow> Diags \<Rightarrow> Diags"
  and by_name_members :: "Member list \<Rightarrow> Member list \<Rightarrow> SourceLoc \<Rightarrow> Diags \<Rightarrow> Diags" where
  "checkByNameMatch (Type x ms) src l d =
     (if (isArray (Type x ms) \<or> isArray src) \<and>
         (\<not> isArray (Type x ms) \<or> \<not> isArray src \<or> ty_dims x \<noteq> ty_dims (attrs src)) then
        error d l ''BY NAME assignment between arrayed structures needs matching extents'' ''(86)'' []
      else by_name_members ms (members src) l d)"
| "by_name_members [] ns l d = d"
| "by_name_members (Member n t # ms) ns l d =
     by_name_members ms ns l
       (case find (\<lambda>m. mname m = n) ns of
          None \<Rightarrow> d
        | Some m \<Rightarrow>
            if isStruct t \<and> isStruct (mty m) then checkByNameMatch t (mty m) l d
            else if isStruct t \<or> isStruct (mty m) then
              error d l (''BY NAME assignment mixes a structure with a non-structure member '' @ [QUOTE] @ n @ [QUOTE])
                ''(86)'' []
            else if isArray t \<or> isArray (mty m) then
              (if \<not> type_eq t (mty m) then
                 error d l (''BY NAME array member '' @ [QUOTE] @ n @ [QUOTE] @ '' must have the same type on both sides'')
                   ''(86)'' []
               else d)
            else snd (checkAssignable t (mty m) l ''BY NAME assignment'' d))"

section \<open>Element counts and INITIAL lists\<close>

definition elementCount :: "PType \<Rightarrow> int" where
  "elementCount t = foldl (\<lambda>n d. n * (dim_ub d - dim_lb d + 1)) 1 (ty_dims (attrs t))"

text \<open>The recursion on \<open>m->ty.elementType()\<close> has the members of \<open>m->ty\<close>, which is all it looks at.\<close>

fun structureLeafCount :: "PType \<Rightarrow> int" and leaf_count_members :: "Member list \<Rightarrow> int" where
  "structureLeafCount (Type x ms) = leaf_count_members ms"
| "leaf_count_members [] = 0"
| "leaf_count_members (Member n t # ms) =
     (if isStruct t then structureLeafCount t
      else if isArray t then
        (if isStruct (elementType t) then elementCount t * structureLeafCount t else elementCount t)
      else 1) + leaf_count_members ms"

definition kMaxInitElems :: int where "kMaxInitElems = 2 ^ 20"

text \<open>\<open>out\<close> and the sink are threaded through the list; a null \<open>value\<close> is pushed as it is.\<close>

fun flatten_item :: "SourceLoc \<Rightarrow> int \<Rightarrow> InitItem \<Rightarrow> Expr option list \<times> Diags \<Rightarrow> Expr option list \<times> Diags"
  and flattenInitItems :: "SourceLoc \<Rightarrow> int \<Rightarrow> InitItem list \<Rightarrow> Expr option list \<times> Diags \<Rightarrow> Expr option list \<times> Diags" where
  "flattenInitItems l maxElems [] od = od"
| "flattenInitItems l maxElems (it # its) od = flattenInitItems l maxElems its (flatten_item l maxElems it od)"
| "flatten_item l maxElems (InitItem k v f its) (out, d) =
     (case k of
        II_Value \<Rightarrow> (out @ [v], d)
      | II_Repeat \<Rightarrow>
          if out = [] then (out, error d l ([QUOTE] @ ''*'' @ [QUOTE] @ '' in INITIAL has no preceding value to repeat'') ''(29)'' [])
          else (out @ [last out], d)
      | II_Group \<Rightarrow> flattenInitItems l maxElems its (out, d)
      | II_Iter \<Rightarrow>
          (case flattenInitItems l maxElems its ([], d) of
             (sub, d1) \<Rightarrow>
               let factor = (if f < 0 then 0 else f);
                   limit = (if maxElems \<ge> 0 then maxElems else kMaxInitElems)
               in if factor > limit then
                    (out, error d1 l ''an INITIAL repetition factor exceeds the number of elements'' ''(29)'' [])
                  else (out @ concat (replicate (nat factor) sub), d1)))"

section \<open>Subscripts and members\<close>

definition isIntegerSubscriptType :: "PType \<Rightarrow> bool" where
  "isIntegerSubscriptType t \<longleftrightarrow> (kind_of t = TK_FixedBin \<or> kind_of t = TK_FixedDec) \<and> scale_of t = 0"

definition checkSubscriptTypes :: "Expr \<Rightarrow> Diags \<Rightarrow> Diags" where
  "checkSubscriptTypes e d =
     fold (\<lambda>a d.
       if ekind a = EK_Star then d
       else let t = x_ty (xa a)
            in if isVoid t then d
               else if isIntegerSubscriptType t then d
               else error d (x_loc (xa a)) (''a subscript must be of an integer type, not '' @ desc t) ''(126)'' [])
     (args e) d"

definition checkSubscriptBoundsDims :: "Expr \<Rightarrow> Dim list \<Rightarrow> string \<Rightarrow> Diags \<Rightarrow> Diags" where
  "checkSubscriptBoundsDims e dims name d0 =
     fold (\<lambda>(idx, dm) d.
       if ekind idx \<noteq> EK_IntLit then d
       else if dim_dyn dm then d
       else let v = x_ival (xa idx)
            in if v < dim_lb dm \<or> v > dim_ub dm then
                 error d (x_loc (xa idx))
                   (''subscript '' @ to_string v @ '' is out of bounds '' @ to_string (dim_lb dm) @ '':'' @
                    to_string (dim_ub dm) @ '' for array '' @ [QUOTE] @ name @ [QUOTE]) ''(126)'' []
               else d)
     (zip (args e) dims) d0"

text \<open>The first member of a name, with its position.\<close>

fun member_index :: "string \<Rightarrow> Member list \<Rightarrow> nat \<Rightarrow> nat option" where
  "member_index n [] k = None"
| "member_index n (m # ms) k = (if mname m = n then Some k else member_index n ms (Suc k))"

text \<open>The loop over \<open>e->path\<close>: the member indices found so far, the type reached (\<^const>\<open>None\<close> for the null pointer)
  and the sink.\<close>

fun member_path_loop ::
  "string \<Rightarrow> SourceLoc \<Rightarrow> string list \<Rightarrow> PType \<Rightarrow> nat list \<Rightarrow> Diags \<Rightarrow> nat list \<times> PType option \<times> Diags" where
  "member_path_loop name l [] t mp d = (mp, Some t, d)"
| "member_path_loop name l (p # ps) t mp d =
     (if \<not> isStruct t then
        (mp, None, error d l ([QUOTE] @ name @ [QUOTE] @ '' is not a structure, so it cannot be qualified by '' @
                     [QUOTE] @ p @ [QUOTE]) ''(124)'' [])
      else case member_index p (members t) 0 of
        None \<Rightarrow> (mp, None, error d l (''structure '' @ [QUOTE] @ name @ [QUOTE] @ '' has no member '' @ [QUOTE] @ p @ [QUOTE])
                            ''(124)'' [])
      | Some m \<Rightarrow> member_path_loop name l ps (mty (members t ! m)) (mp @ [m]) d)"

definition resolveMemberPath :: "Expr \<Rightarrow> PType \<Rightarrow> Diags \<Rightarrow> Expr \<times> PType option \<times> Diags" where
  "resolveMemberPath e base d =
     (case member_path_loop (x_name (xa e)) (x_loc (xa e)) (x_path (xa e)) base [] d of
        (mp, t, d1) \<Rightarrow>
          (Expr ((xa e)\<lparr>x_memberPath := mp\<rparr>) (locPtr e) (opa e) (opb e) (args e), t, d1))"

section \<open>Designators, storage sizes and GENERIC classes\<close>

fun designator_loop :: "string \<Rightarrow> string \<Rightarrow> string list \<Rightarrow> string list" where
  "designator_loop [] w ws = (if w \<noteq> [] then ws @ [w] else ws)"
| "designator_loop (c # cs) w ws =
     (if c = CHR '' '' \<or> c = CHR 0x09 then
        (if w \<noteq> [] then designator_loop cs [] (ws @ [w]) else designator_loop cs w ws)
      else designator_loop cs (w @ [c]) ws)"

definition splitDesignator :: "string \<Rightarrow> string list" where
  "splitDesignator raw = designator_loop raw [] []"

fun static_extent :: "Dim list \<Rightarrow> int \<Rightarrow> int option" where
  "static_extent [] n = Some n"
| "static_extent (d # ds) n =
     (if dim_dyn d \<or> dim_lbDyn d then None else static_extent ds (n * (dim_ub d - dim_lb d + 1)))"

text \<open>The size of the element type is the same computation without the axes.\<close>

fun staticStoreBytes :: "PType \<Rightarrow> int" and scalar_bytes :: "type_attrs \<Rightarrow> Member list \<Rightarrow> int"
  and member_bytes :: "bool \<Rightarrow> Member list \<Rightarrow> int \<Rightarrow> int" where
  "staticStoreBytes (Type x ms) =
     (if ty_dims x \<noteq> [] then
        (case static_extent (ty_dims x) 1 of
           None \<Rightarrow> - 1
         | Some n \<Rightarrow> let el = scalar_bytes x ms in if el < 0 then - 1 else n * el)
      else scalar_bytes x ms)"
| "scalar_bytes x ms =
     (case ty_k x of
        TK_FixedBin \<Rightarrow> c_div (intBits (Type x [])) 8
      | TK_FixedDec \<Rightarrow> c_div (intBits (Type x [])) 8
      | TK_Float \<Rightarrow> 8
      | TK_Char \<Rightarrow> ty_len x
      | TK_Bit \<Rightarrow> c_div (ty_len x + 7) 8
      | TK_Pointer \<Rightarrow> 8
      | TK_Offset \<Rightarrow> 8
      | TK_Area \<Rightarrow> 8
      | TK_Entry \<Rightarrow> 8
      | TK_Label \<Rightarrow> 8
      | TK_Task \<Rightarrow> 4
      | TK_Event \<Rightarrow> 4
      | TK_Complex \<Rightarrow> 16
      | TK_Struct \<Rightarrow> member_bytes (ty_isUnion x) ms 0
      | TK_Void \<Rightarrow> - 1)"
| "member_bytes u [] n = n"
| "member_bytes u (Member nm t # ms) n =
     (let s = staticStoreBytes t
      in if s < 0 then - 1 else member_bytes u ms (if u then max n s else n + s))"

definition whenClass :: "PType \<Rightarrow> TK" where
  "whenClass t = (case kind_of t of TK_FixedBin \<Rightarrow> TK_FixedBin | TK_FixedDec \<Rightarrow> TK_FixedBin | k \<Rightarrow> k)"

definition matchWhenType :: "PType \<Rightarrow> PType \<Rightarrow> bool" where
  "matchWhenType a w \<longleftrightarrow> whenClass a = whenClass w"

section \<open>Typing of expressions\<close>

text \<open>The type of an integer constant; the loop that counts the digits is the one of the constant folder.\<close>

definition intLitType :: "expr_attrs \<Rightarrow> PType" where
  "intLitType x =
     (let t = (if x_wideIval x \<noteq> word_of_int (x_ival x) then fixedDec (constDigits_loop (native_mag (x_wideIval x)) 0) 0
               else fixedDec (if x_ival x > 99999 \<or> x_ival x < - 99999 then 15 else 5) 0)
      in if intBits t = 32 \<and> (x_ival x > 2147483647 \<or> x_ival x < - 2147483648) then fixedBin 63 0 else t)"

definition typeUnary :: "Tok \<Rightarrow> SourceLoc \<Rightarrow> PType \<Rightarrow> Diags \<Rightarrow> PType \<times> Diags" where
  "typeUnary op l t d =
     (if op = Tok_Not then
        (if isBit t then bit_ty (len_of t) else bit_ty 1,
         if \<not> isBit t \<and> \<not> isNumeric t
         then error d l ''operand of NOT must be a bit or arithmetic value'' ''(122)'' [] else d)
      else if \<not> isNumeric t then
        (fixedBin 31 0, error d l (''operand of unary '' @ [QUOTE] @ ''-'' @ [QUOTE] @ '' must be arithmetic, found '' @ desc t)
                          ''(122)'' [])
      else (t, d))"

definition INT_MAX :: int where "INT_MAX = 2147483647"

definition operands_error :: "SourceLoc \<Rightarrow> PType \<Rightarrow> PType \<Rightarrow> Diags \<Rightarrow> Diags" where
  "operands_error l A B d =
     error d l (''arithmetic operator requires arithmetic operands ('' @ desc A @ '', '' @ desc B @ '')'') ''(120)'' []"

definition compare_error :: "SourceLoc \<Rightarrow> PType \<Rightarrow> PType \<Rightarrow> Diags \<Rightarrow> Diags" where
  "compare_error l A B d = error d l (''cannot compare '' @ desc A @ '' with '' @ desc B) ''(117)'' []"

definition typeBinary :: "Tok \<Rightarrow> SourceLoc \<Rightarrow> PType \<Rightarrow> PType \<Rightarrow> Diags \<Rightarrow> PType \<times> Diags" where
  "typeBinary op l A B d =
     (if op = Tok_Plus \<or> op = Tok_Minus then
        (if complexArith A B then (complexTy, d)
         else if \<not> isNumeric A \<or> \<not> isNumeric B then (fixedBin 31 0, operands_error l A B d)
         else (arithResultType A B, d))
      else if op = Tok_Star then
        (if complexArith A B then (complexTy, d)
         else if \<not> isNumeric A \<or> \<not> isNumeric B then (fixedBin 31 0, operands_error l A B d)
         else (mulResultType A B, d))
      else if op = Tok_Slash then
        (if complexArith A B then (complexTy, d)
         else if \<not> isNumeric A \<or> \<not> isNumeric B then
           (flt 6, error d l ''operator requires arithmetic operands'' ''(121)'' [])
         else if isFixed A \<and> isFixed B then (divResultType A B, d)
         else (flt (max 6 (max (prec_of A) (prec_of B))), d))
      else if op = Tok_Power then
        (if complexArith A B then (complexTy, d)
         else if \<not> isNumeric A \<or> \<not> isNumeric B then
           (flt 6, error d l ''operator requires arithmetic operands'' ''(121)'' [])
         else (flt (max 6 (max (prec_of A) (prec_of B))), d))
      else if op = Tok_Concat then
        (let len = (if isChar A then len_of A else 24) + (if isChar B then len_of B else 24)
         in if len > INT_MAX
            then (chr_ty INT_MAX False, error d l ''the concatenated character length is too large'' ''(119)'' [])
            else (chr_ty len False, d))
      else if op = Tok_Amp \<or> op = Tok_Bar then
        (if (\<not> isBit A \<and> \<not> isNumeric A) \<or> (\<not> isBit B \<and> \<not> isNumeric B) then
           (bit_ty 1, error d l ''logical operator requires bit operands'' ''(116)'' [])
         else if (isBit A \<and> len_of A > 1) \<or> (isBit B \<and> len_of B > 1) then
           (bit_ty (if isBit A then len_of A else len_of B),
            if \<not> (isBit A \<and> isBit B) \<or> len_of A \<noteq> len_of B
            then error d l ''logical operators require identical BIT lengths in this stage'' ''(116)'' [] else d)
         else (bit_ty 1, d))
      else if op = Tok_Eq \<or> op = Tok_Ne then
        (bit_ty 1,
         if (isLocator A \<or> isLocator B) \<and> \<not> (isLocator A \<and> isLocator B) then
           error d l ''a POINTER or OFFSET can only be compared with another locator'' ''(117)'' []
         else if isComplex A \<or> isComplex B then
           (if \<not> (isComplex A \<or> isNumeric A) \<or> \<not> (isComplex B \<or> isNumeric B) then compare_error l A B d else d)
         else if isChar A \<noteq> isChar B then compare_error l A B d
         else d)
      else if op = Tok_Lt \<or> op = Tok_Le \<or> op = Tok_Gt \<or> op = Tok_Ge \<or> op = Tok_Ngt \<or> op = Tok_Nlt then
        (bit_ty 1,
         if isComplex A \<or> isComplex B then
           error d l ''ordered comparison of a COMPLEX value is not allowed'' ''(117)'' []
         else if isLocator A \<or> isLocator B then
           error d l ''ordered comparison of a POINTER or OFFSET is not allowed'' ''(117)'' []
         else if isChar A \<noteq> isChar B then compare_error l A B d
         else d)
      else (fixedBin 31 0, d))"

text \<open>The constant fold that ends the case of an infix operator.\<close>

definition fold_node :: "Expr \<Rightarrow> Expr" where
  "fold_node e =
     (if (eop e = Tok_Plus \<or> eop e = Tok_Minus \<or> eop e = Tok_Star) \<and> kind_of (x_ty (xa e)) = TK_FixedDec
      then the (snd (foldConstExpr (Some e) (x_ty (xa e)) (scale_of (x_ty (xa e))))) else e)"

text \<open>\<open>typeExpr\<close> annotates the tree.  The cases of the switch that resolve a name (a reference, a subscripted
  reference, a call) are the argument \<open>refs\<close>; the outer \<^const>\<open>None\<close> is the null dereference of an operator node
  without its operand.\<close>

fun typeExpr :: "(Expr \<Rightarrow> Diags \<Rightarrow> Expr \<times> Diags) \<Rightarrow> Expr option \<Rightarrow> Diags \<Rightarrow> (Expr option \<times> Diags) option" where
  "typeExpr refs None d = Some (None, d)"
| "typeExpr refs (Some (Expr x lp a b as)) d =
     (let typed = (\<lambda>t. Expr (x\<lparr>x_ty := t\<rparr>) lp a b as)
      in case x_kind x of
        EK_IntLit \<Rightarrow> Some (Some (typed (intLitType x)), d)
      | EK_DecLit \<Rightarrow>
          Some (Some (if \<not> x_folded x
                      then typed (fixedDec (if x_decPrec x > 0 then x_decPrec x else 1) (x_decScale x))
                      else Expr x lp a b as), d)
      | EK_FltLit \<Rightarrow> Some (Some (typed (flt 6)), d)
      | EK_ComplexLit \<Rightarrow> Some (Some (typed complexTy), d)
      | EK_CharLit \<Rightarrow> Some (Some (typed (chr_ty (int (length (x_sval x))) False)), d)
      | EK_BitLit \<Rightarrow> Some (Some (typed (bit_ty (max 1 (int (length (x_sval x)))))), d)
      | EK_Star \<Rightarrow> Some (Some (typed voidTy), d)
      | EK_TypeTag \<Rightarrow>
          Some (Some (typed voidTy),
                error d (x_loc x) ''a ': ... :' designator is only allowed in an enquiry built-in'' ''(123)'' [])
      | EK_Unary \<Rightarrow>
          (case typeExpr refs a d of
             Some (Some a1, d1) \<Rightarrow>
               (case typeUnary (x_op x) (x_loc x) (x_ty (xa a1)) d1 of
                  (t, d2) \<Rightarrow> Some (Some (Expr (x\<lparr>x_ty := t\<rparr>) lp (Some a1) b as), d2))
           | _ \<Rightarrow> None)
      | EK_Binary \<Rightarrow>
          (case typeExpr refs a d of
             Some (Some a1, d1) \<Rightarrow>
               (case typeExpr refs b d1 of
                  Some (Some b1, d2) \<Rightarrow>
                    (case typeBinary (x_op x) (x_loc x) (x_ty (xa a1)) (x_ty (xa b1)) d2 of
                       (t, d3) \<Rightarrow> Some (Some (fold_node (Expr (x\<lparr>x_ty := t\<rparr>) lp (Some a1) (Some b1) as)), d3))
                | _ \<Rightarrow> None)
           | _ \<Rightarrow> None)
      | _ \<Rightarrow> (case refs (Expr x lp a b as) d of (e, d1) \<Rightarrow> Some (Some e, d1)))"

end
