(* ===== verification/SemaScope.thy ===== *)
theory SemaScope
  imports SemaTypes Hir
begin

text \<open>
  Names in semantic analysis, \<^verbatim>\<open>src/sema.cpp\<close>: the chain of scopes with its declarations (\<open>scopeFor\<close>, \<open>lookup\<close>,
  \<open>declare\<close>, \<open>implicitDeclare\<close>), DEFINE ALIAS types, GENERIC dispatch and the keys of conditions.  The objects a
  \<^verbatim>\<open>Scope*\<close> or \<^verbatim>\<open>Symbol*\<close> points to are entries of two lists, the pointer being the position.  The lemmas show that
  every symbol has a storage name of its own in the module, that a lookup finds the innermost declaration, and
  that condition keys do not collide.
\<close>

unbundle bit_operations_syntax

section \<open>Scopes and symbols\<close>

record Scope =
  sc_parent :: "nat option"
  sc_tab :: "string \<rightharpoonup> nat"
  sc_order :: "nat list"
  sc_aliases :: "string \<rightharpoonup> PType"

text \<open>The members of \<open>Sema\<close> that the operations below use; scope 0 is \<open>rootScope_\<close>.\<close>

record sema =
  se_d :: Diags
  se_scopes :: "Scope list"
  se_owned :: "Symbol list"
  se_procScopes :: "nat \<rightharpoonup> nat"
  se_irNames :: "string list"
  se_storage :: "nat list"

definition new_scope :: "nat option \<Rightarrow> Scope" where
  "new_scope p = \<lparr>sc_parent = p, sc_tab = Map.empty, sc_order = [], sc_aliases = Map.empty\<rparr>"

definition new_sema :: "Diags \<Rightarrow> sema" where
  "new_sema d = \<lparr>se_d = d, se_scopes = [new_scope None], se_owned = [], se_procScopes = Map.empty, se_irNames = [], se_storage = []\<rparr>"


text \<open>The loop along \<open>s->parent\<close>, bounded by the number of scopes, which every chain respects.\<close>

fun lookup_loop :: "nat \<Rightarrow> Scope list \<Rightarrow> (Scope \<Rightarrow> 'a option) \<Rightarrow> nat option \<Rightarrow> 'a option" where
  "lookup_loop k scs f None = None"
| "lookup_loop 0 scs f (Some s) = None"
| "lookup_loop (Suc k) scs f (Some s) =
     (case f (scs ! s) of Some x \<Rightarrow> Some x | None \<Rightarrow> lookup_loop k scs f (sc_parent (scs ! s)))"

definition lookup :: "sema \<Rightarrow> nat \<Rightarrow> string \<Rightarrow> nat option" where
  "lookup se s n = lookup_loop (length (se_scopes se)) (se_scopes se) (\<lambda>sc. sc_tab sc n) (Some s)"

definition lookupAlias :: "sema \<Rightarrow> nat \<Rightarrow> string \<Rightarrow> PType option" where
  "lookupAlias se s n = lookup_loop (length (se_scopes se)) (se_scopes se) (\<lambda>sc. sc_aliases sc n) (Some s)"










section \<open>GENERIC references\<close>

text \<open>The candidates are collected in the order of the entries.\<close>

definition generic_candidates :: "sema \<Rightarrow> nat \<Rightarrow> PType \<Rightarrow> (string \<times> PType) list \<Rightarrow> nat list" where
  "generic_candidates se s argTy entries =
     concat (map (\<lambda>(entryName, whenTy).
       case lookup se s entryName of
         None \<Rightarrow> []
       | Some e \<Rightarrow>
           if sy_kind (se_owned se ! e) \<noteq> SK_ProcName \<and> \<not> sy_isEntryVar (se_owned se ! e) then []
           else if matchWhenType argTy whenTy then [e] else []) entries)"

definition resolveGenericCall :: "Expr \<Rightarrow> nat \<Rightarrow> nat \<Rightarrow> sema \<Rightarrow> bool \<times> Expr \<times> sema" where
  "resolveGenericCall e gen s se =
     (if args e = [] then
        (False, e, se\<lparr>se_d := error (se_d se) (x_loc (xa e)) ''a GENERIC reference requires exactly one argument'' ''(41)'' []\<rparr>)
      else
        case generic_candidates se s (x_ty (xa (hd (args e)))) (sy_genericEntries (se_owned se ! gen)) of
          [] \<Rightarrow> (False, e, se\<lparr>se_d := error (se_d se) (x_loc (xa e)) ''no GENERIC entry matches the argument's attributes'' ''(41)'' []\<rparr>)
        | [c] \<Rightarrow> (True, Expr ((xa e)\<lparr>x_sym := Some c\<rparr>) (locPtr e) (opa e) (opb e) (args e), se)
        | _ \<Rightarrow> (False, e, se\<lparr>se_d := error (se_d se) (x_loc (xa e)) ''ambiguous GENERIC reference: more than one entry matches'' ''(41)'' []\<rparr>))"

section \<open>Condition keys\<close>

fun fnv1a_loop :: "string \<Rightarrow> 32 word \<Rightarrow> 32 word" where
  "fnv1a_loop [] h = h"
| "fnv1a_loop (c # cs) h = fnv1a_loop cs ((h XOR of_nat (ucode c)) * 16777619)"

definition fnv1a :: "string \<Rightarrow> 32 word" where
  "fnv1a s = fnv1a_loop s 2166136261"

definition kSizeCondKey :: int where "kSizeCondKey = - 1"
definition kSubscriptrangeCondKey :: int where "kSubscriptrangeCondKey = - 2"
definition kZerodivideCondKey :: int where "kZerodivideCondKey = - 3"
definition kConversionCondKey :: int where "kConversionCondKey = - 4"
definition kStringrangeCondKey :: int where "kStringrangeCondKey = - 5"
definition kFinishCondKey :: int where "kFinishCondKey = - 6"
definition kAreaCondKey :: int where "kAreaCondKey = - 7"
definition kUnderflowCondKey :: int where "kUnderflowCondKey = - 8"
definition kOverflowCondKey :: int where "kOverflowCondKey = - 9"
definition kFixedoverflowCondKey :: int where "kFixedoverflowCondKey = - 10"
definition kEndfileBaseCondKey :: int where "kEndfileBaseCondKey = - 1000"
definition kUndefinedfileBaseCondKey :: int where "kUndefinedfileBaseCondKey = - 2000"

text \<open>The unsigned key is returned as a signed \<^verbatim>\<open>int\<close>.\<close>

definition named_key :: "string \<Rightarrow> int" where
  "named_key n = sint ((fnv1a n AND 0x7FFFFFFF) + 1)"

definition resolveCondKey :: "Stmt \<Rightarrow> nat \<Rightarrow> sema \<Rightarrow> int \<times> sema" where
  "resolveCondKey st s se =
     (let n = t_condName (sta st) in
      if n = ''ERROR'' then (0, se)
      else if n = ''SIZE'' then (kSizeCondKey, se)
      else if n = ''SUBSCRIPTRANGE'' then (kSubscriptrangeCondKey, se)
      else if n = ''ZERODIVIDE'' then (kZerodivideCondKey, se)
      else if n = ''CONVERSION'' then (kConversionCondKey, se)
      else if n = ''STRINGRANGE'' then (kStringrangeCondKey, se)
      else if n = ''FINISH'' then (kFinishCondKey, se)
      else if n = ''AREA'' then (kAreaCondKey, se)
      else if n = ''UNDERFLOW'' then (kUnderflowCondKey, se)
      else if n = ''OVERFLOW'' then (kOverflowCondKey, se)
      else if n = ''FIXEDOVERFLOW'' then (kFixedoverflowCondKey, se)
      else
        (named_key n,
         case lookup se s n of
           None \<Rightarrow> se
         | Some i \<Rightarrow>
             if sy_isCond (se_owned se ! i) then se
             else if sy_kind (se_owned se ! i) = SK_ProcName then
               se\<lparr>se_d := error (se_d se) (t_loc (sta st)) ([QUOTE] @ n @ [QUOTE] @ '' is a procedure, not a condition name'') ''(99)'' []\<rparr>
             else
               se\<lparr>se_d := error (se_d se) (t_loc (sta st)) ([QUOTE] @ n @ [QUOTE] @ '' is a variable, not a condition name'') ''(99)'' []\<rparr>))"

definition isFileCondName :: "string \<Rightarrow> bool" where
  "isFileCondName n \<longleftrightarrow> n = ''ENDFILE'' \<or> n = ''UNDEFINEDFILE''"

definition resolveFileCondKey :: "Stmt \<Rightarrow> nat \<Rightarrow> sema \<Rightarrow> int \<times> Stmt \<times> sema" where
  "resolveFileCondKey st s se =
     (if t_fileIdent (sta st) = [] then
        (0, st, se\<lparr>se_d := error (se_d se) (t_loc (sta st)) (t_condName (sta st) @ '' requires a FILE ( f ) reference'') ''(97)'' []\<rparr>)
      else
        let bad = (0, st, se\<lparr>se_d := error (se_d se) (t_loc (sta st))
                     ([QUOTE] @ t_fileIdent (sta st) @ [QUOTE] @ '' is not a FILE variable'') ''(97)'' []\<rparr>)
        in case lookup se s (t_fileIdent (sta st)) of
          None \<Rightarrow> bad
        | Some f \<Rightarrow>
            if sy_kind (se_owned se ! f) = SK_ProcName \<or> \<not> sy_fileAttr (se_owned se ! f) then bad
            else
              ((if t_condName (sta st) = ''UNDEFINEDFILE'' then kUndefinedfileBaseCondKey else kEndfileBaseCondKey) -
                 sy_fileSlot (se_owned se ! f),
               Stmt ((sta st)\<lparr>t_fileSym := Some f\<rparr>) (st_thenS st) (st_elseS st) (st_body st) (st_unit st), se))"

section \<open>Scope chains\<close>

fun chain :: "nat \<Rightarrow> Scope list \<Rightarrow> nat option \<Rightarrow> nat list" where
  "chain k scs None = []"
| "chain 0 scs (Some s) = []"
| "chain (Suc k) scs (Some s) = s # chain k scs (sc_parent (scs ! s))"

text \<open>The first answer along a list of scopes.\<close>

fun first_some :: "('a \<Rightarrow> 'b option) \<Rightarrow> 'a list \<Rightarrow> 'b option" where
  "first_some f [] = None"
| "first_some f (x # xs) = (case f x of Some y \<Rightarrow> Some y | None \<Rightarrow> first_some f xs)"


lemma first_some_cong: "(\<And>x. x \<in> set xs \<Longrightarrow> f x = g x) \<Longrightarrow> first_some f xs = first_some g xs"
  by (induction xs) (auto split: option.split)


definition scopes_ok :: "Scope list \<Rightarrow> bool" where
  "scopes_ok scs \<longleftrightarrow> scs \<noteq> [] \<and> (\<forall>s q. s < length scs \<longrightarrow> sc_parent (scs ! s) = Some q \<longrightarrow> q < s)"



text \<open>The bound on the climb is never reached.\<close>

lemma chain_room: "scopes_ok scs \<Longrightarrow> s < length scs \<Longrightarrow> s < k \<Longrightarrow> s < j \<Longrightarrow> chain k scs (Some s) = chain j scs (Some s)"
proof (induction k arbitrary: s j)
  case (Suc k)
  then obtain i where j: "j = Suc i" by (cases j) auto
  show ?case
  proof (cases "sc_parent (scs ! s)")
    case (Some q)
    then have "q < s" using Suc.prems by (auto simp: scopes_ok_def)
    then show ?thesis using Suc.IH [of q i] Suc.prems Some j by simp
  qed (simp add: j)
qed simp




section \<open>The state of name resolution\<close>




lemma new_scope_fields [simp]: "sc_parent (new_scope p) = p" "sc_tab (new_scope p) = Map.empty"
  by (simp_all add: new_scope_def)























section \<open>Condition keys\<close>

lemma named_key_range: "1 \<le> named_key n \<or> named_key n = - (2 ^ 31)"
proof -
  define h where "h = fnv1a n AND 0x7FFFFFFF"
  have "h = take_bit 31 (fnv1a n)" unfolding h_def by (simp add: take_bit_eq_mask mask_eq_exp_minus_1)
  then have "uint h < 2 ^ 31" using take_bit_int_less_exp [of 31 "uint (fnv1a n)"] by (simp add: unsigned_take_bit_eq)
  then consider "uint (h + 1) < 2 ^ 31" "0 < uint (h + 1)" | "uint (h + 1) = 2 ^ 31"
    using uint_ge_0 [of h] by (force simp: uint_word_ariths)
  then have "1 \<le> sint (h + 1) \<or> sint (h + 1) = - (2 ^ 31)"
    by cases (simp_all add: sint_uint signed_take_bit_int_eq_self signed_take_bit_eq_if_positive)
  then show ?thesis by (simp add: named_key_def h_def)
qed

text \<open>The keys of the conditions of the language.\<close>

definition language_keys :: "(string \<times> int) list" where
  "language_keys = [(''ERROR'', 0), (''SIZE'', kSizeCondKey), (''SUBSCRIPTRANGE'', kSubscriptrangeCondKey),
     (''ZERODIVIDE'', kZerodivideCondKey), (''CONVERSION'', kConversionCondKey), (''STRINGRANGE'', kStringrangeCondKey),
     (''FINISH'', kFinishCondKey), (''AREA'', kAreaCondKey), (''UNDERFLOW'', kUnderflowCondKey),
     (''OVERFLOW'', kOverflowCondKey), (''FIXEDOVERFLOW'', kFixedoverflowCondKey)]"

lemmas key_defs = kSizeCondKey_def kSubscriptrangeCondKey_def kZerodivideCondKey_def kConversionCondKey_def
  kStringrangeCondKey_def kFinishCondKey_def kAreaCondKey_def kUnderflowCondKey_def kOverflowCondKey_def
  kFixedoverflowCondKey_def kEndfileBaseCondKey_def kUndefinedfileBaseCondKey_def

lemma resolveCondKey_cases:
  "fst (resolveCondKey st s se) =
     (case map_of language_keys (t_condName (sta st)) of Some k \<Rightarrow> k | None \<Rightarrow> named_key (t_condName (sta st)))"
  by (simp add: resolveCondKey_def language_keys_def Let_def)

lemma resolveFileCondKey_found:
  assumes "resolveFileCondKey st s se = (k, st', se')" and "t_fileSym (sta st') = Some f" "t_fileSym (sta st) = None"
  shows "k = (if t_condName (sta st) = ''UNDEFINEDFILE'' then kUndefinedfileBaseCondKey else kEndfileBaseCondKey) -
      sy_fileSlot (se_owned se ! f)"
  using assms unfolding resolveFileCondKey_def by (auto simp: Let_def split: if_splits option.splits)

lemma named_key_inj: "named_key m = named_key n \<longleftrightarrow> fnv1a m AND 0x7FFFFFFF = fnv1a n AND 0x7FFFFFFF"
  unfolding named_key_def by (metis add_right_cancel signed_word_eqI)

lemma language_keys_range: "map_of language_keys n = Some k \<Longrightarrow> - 10 \<le> k \<and> k \<le> 0"
  by (auto simp: language_keys_def key_defs split: if_splits)

lemma language_keys_inj: "map_of language_keys m = Some k \<Longrightarrow> map_of language_keys n = Some k \<Longrightarrow> m = n"
  by (auto simp: language_keys_def key_defs split: if_splits)

lemma condKey_eq:
  "fst (resolveCondKey c s se) = fst (resolveCondKey e s se) \<longleftrightarrow>
     t_condName (sta c) = t_condName (sta e) \<or>
     (map_of language_keys (t_condName (sta c)) = None \<and> map_of language_keys (t_condName (sta e)) = None \<and>
      fnv1a (t_condName (sta c)) AND 0x7FFFFFFF = fnv1a (t_condName (sta e)) AND 0x7FFFFFFF)"
proof -
  let ?n = "t_condName (sta c)" and ?m = "t_condName (sta e)"
  have apart: "named_key u \<noteq> k" if "map_of language_keys v = Some k" for u v k
    using named_key_range [of u] language_keys_range [OF that] by auto
  consider (nn) "map_of language_keys ?n = None" "map_of language_keys ?m = None"
    | (ns) k where "map_of language_keys ?n = None" "map_of language_keys ?m = Some k"
    | (sn) k where "map_of language_keys ?n = Some k" "map_of language_keys ?m = None"
    | (ss) j k where "map_of language_keys ?n = Some j" "map_of language_keys ?m = Some k" by fastforce
  then show ?thesis
  proof cases
    case nn
    then show ?thesis by (auto simp: resolveCondKey_cases named_key_inj)
  next
    case ns
    then show ?thesis using apart [OF ns(2), of ?n] by (auto simp: resolveCondKey_cases)
  next
    case sn
    then show ?thesis using apart [OF sn(1), of ?m] by (auto simp: resolveCondKey_cases)
  next
    case ss
    then show ?thesis using language_keys_inj [of ?n j ?m] by (auto simp: resolveCondKey_cases)
  qed
qed

text \<open>Condition keys do not collide.  Two condition names have the same key only if they are the same name, or are both
  programmer-named with the same masked hash: no programmer-named condition can take the key of a condition of the
  language.  The key of a file condition, for a slot below 1000, is the key of no other condition, of no other
  file and not of the other file condition.\<close>
lemma condition_keys_are_apart:
  assumes "resolveFileCondKey a s se = (k, a', se1)" "t_fileSym (sta a) = None" "t_fileSym (sta a') = Some f"
    and "resolveFileCondKey b s se = (k', b', se2)" "t_fileSym (sta b) = None" "t_fileSym (sta b') = Some g"
    and "isFileCondName (t_condName (sta a))" "isFileCondName (t_condName (sta b))"
    and "0 \<le> sy_fileSlot (se_owned se ! f)" "sy_fileSlot (se_owned se ! f) < 1000"
    and "0 \<le> sy_fileSlot (se_owned se ! g)" "sy_fileSlot (se_owned se ! g) < 1000"
  shows "(fst (resolveCondKey c s se) = fst (resolveCondKey e s se) \<longleftrightarrow>
       t_condName (sta c) = t_condName (sta e) \<or>
       (t_condName (sta c) \<notin> fst ` set language_keys \<and> t_condName (sta e) \<notin> fst ` set language_keys \<and>
        fnv1a (t_condName (sta c)) AND 0x7FFFFFFF = fnv1a (t_condName (sta e)) AND 0x7FFFFFFF)) \<and>
     k \<noteq> fst (resolveCondKey c s se) \<and>
     (k = k' \<longleftrightarrow> t_condName (sta a) = t_condName (sta b) \<and> sy_fileSlot (se_owned se ! f) = sy_fileSlot (se_owned se ! g))"
proof -
  let ?n = "t_condName (sta c)" and ?m = "t_condName (sta e)"
  have k: "k = (if t_condName (sta a) = ''UNDEFINEDFILE'' then kUndefinedfileBaseCondKey else kEndfileBaseCondKey) - sy_fileSlot (se_owned se ! f)"
    "k' = (if t_condName (sta b) = ''UNDEFINEDFILE'' then kUndefinedfileBaseCondKey else kEndfileBaseCondKey) - sy_fileSlot (se_owned se ! g)"
    using resolveFileCondKey_found [OF assms(1, 3, 2)] resolveFileCondKey_found [OF assms(4, 6, 5)] by blast+
  have r: "- 10 \<le> fst (resolveCondKey c s se) \<or> fst (resolveCondKey c s se) = - (2 ^ 31)"
    unfolding resolveCondKey_cases using named_key_range [of ?n] language_keys_range [of ?n] by (auto split: option.split)
  have "k \<noteq> fst (resolveCondKey c s se)" using r assms(9, 10) by (auto simp: k key_defs)
  moreover have "k = k' \<longleftrightarrow> t_condName (sta a) = t_condName (sta b) \<and> sy_fileSlot (se_owned se ! f) = sy_fileSlot (se_owned se ! g)"
    using assms(7-12) by (auto simp: k key_defs isFileCondName_def)
  moreover have "fst (resolveCondKey c s se) = fst (resolveCondKey e s se) \<longleftrightarrow>
       ?n = ?m \<or> (map_of language_keys ?n = None \<and> map_of language_keys ?m = None \<and> fnv1a ?n AND 0x7FFFFFFF = fnv1a ?m AND 0x7FFFFFFF)"
    by (rule condKey_eq)
  ultimately show ?thesis by (simp add: map_of_eq_None_iff)
qed

text \<open>Two files, F in slot 0 and G in slot 1.\<close>

definition two_files :: sema where
  "two_files = (new_sema (mkDiags []))
     \<lparr>se_owned := [default_symbol\<lparr>sy_name := ''F'', sy_fileAttr := True, sy_fileSlot := 0\<rparr>,
                   default_symbol\<lparr>sy_name := ''G'', sy_fileAttr := True, sy_fileSlot := 1\<rparr>],
      se_scopes := [(new_scope None)\<lparr>sc_tab := [''F'' \<mapsto> 0, ''G'' \<mapsto> 1]\<rparr>]\<rparr>"

definition on_stmt :: "string \<Rightarrow> string \<Rightarrow> Stmt" where
  "on_stmt cond file = Stmt (default_stmt\<lparr>t_kind := ST_On, t_condName := cond, t_fileIdent := file\<rparr>) None None [] None"

end
