(* ===== verification/SemaCalls.thy ===== *)
theory SemaCalls
  imports SemaScope
begin

text \<open>
  The call graph and the static links of semantic analysis, \<^verbatim>\<open>src/sema.cpp\<close>: \<open>collectExprCallees\<close> to \<open>collectCallees\<close>
  and \<open>checkRecursion\<close> (rule 5), \<open>noteStaticUse\<close> and \<open>computeEnv\<close> (rule 8).  A \<^verbatim>\<open>Proc*\<close> is a position in the list of
  procedures; \<open>S\<close> gives the symbol a \<^verbatim>\<open>Symbol*\<close> points to.  The lemmas show that the recursion check reports exactly
  the procedures on a cycle of the call graph that lack RECURSIVE, and that the environment of a procedure has
  exactly the outer variables that it and the procedures inside it use.
\<close>

section \<open>The call graph\<close>

definition add_callee :: "nat option \<Rightarrow> nat list \<Rightarrow> nat list" where
  "add_callee po out = (case po of None \<Rightarrow> out | Some p \<Rightarrow> if p \<in> set out then out else out @ [p])"

definition sym_proc :: "(nat \<Rightarrow> Symbol) \<Rightarrow> nat option \<Rightarrow> nat option" where
  "sym_proc S so = (case so of None \<Rightarrow> None | Some i \<Rightarrow> sy_proc (S i))"

fun collectExprCallees :: "(nat \<Rightarrow> Symbol) \<Rightarrow> Expr option \<Rightarrow> nat list \<Rightarrow> nat list"
  and collect_args :: "(nat \<Rightarrow> Symbol) \<Rightarrow> Expr list \<Rightarrow> nat list \<Rightarrow> nat list" where
  "collectExprCallees S None out = out"
| "collectExprCallees S (Some (Expr x lp a b as)) out =
     (let out1 = collectExprCallees S lp out
      in case x_kind x of
        EK_Call \<Rightarrow> collect_args S as (add_callee (sym_proc S (x_sym x)) out1)
      | EK_Binary \<Rightarrow> collectExprCallees S b (collectExprCallees S a out1)
      | EK_Unary \<Rightarrow> collectExprCallees S a out1
      | EK_Subscript \<Rightarrow> collect_args S as out1
      | _ \<Rightarrow> out1)"
| "collect_args S [] out = out"
| "collect_args S (e # es) out = collect_args S es (collectExprCallees S (Some e) out)"

fun collectInitItemCallees :: "(nat \<Rightarrow> Symbol) \<Rightarrow> InitItem \<Rightarrow> nat list \<Rightarrow> nat list"
  and collect_init_items :: "(nat \<Rightarrow> Symbol) \<Rightarrow> InitItem list \<Rightarrow> nat list \<Rightarrow> nat list" where
  "collectInitItemCallees S (InitItem k v f its) out = collect_init_items S its (collectExprCallees S v out)"
| "collect_init_items S [] out = out"
| "collect_init_items S (it # its) out = collect_init_items S its (collectInitItemCallees S it out)"

definition collect_opts :: "(nat \<Rightarrow> Symbol) \<Rightarrow> Expr option list \<Rightarrow> nat list \<Rightarrow> nat list" where
  "collect_opts S es out = fold (collectExprCallees S) es out"

text \<open>The expressions of one declared item, and of one statement in the order of the calls.\<close>

definition collect_decl :: "(nat \<Rightarrow> Symbol) \<Rightarrow> DeclItem \<Rightarrow> nat list \<Rightarrow> nat list" where
  "collect_decl S dc out =
     collect_init_items S (dc_initItems dc)
       (collect_opts S ([dc_init dc, dc_initCall dc] @ dc_dynBounds dc @ dc_dynLbBounds dc) out)"

definition stmt_operands :: "stmt_attrs \<Rightarrow> Expr option list" where
  "stmt_operands x =
     [t_target x, t_value x, t_cond x, t_from x, t_to x, t_by x, t_skipCount x, t_stringTarget x] @
     map Some (t_items x) @ map Some (t_extraTargets x) @ map Some (t_args x) @
     [t_taskRef x, t_eventRef x, t_priorityExpr x, t_value x] @ map Some (t_waitEvents x) @ [t_waitCount x] @
     concat (map (\<lambda>f. [fi_w f, fi_d f]) (t_formats x)) @ t_allocBase x @ t_allocSet x @ t_freeBase x"

definition collect_stmt_here :: "(nat \<Rightarrow> Symbol) \<Rightarrow> stmt_attrs \<Rightarrow> nat list \<Rightarrow> nat list" where
  "collect_stmt_here S x out =
     (let out1 = collect_opts S (stmt_operands x) out;
          out2 = (if t_kind x = ST_CallS then add_callee (sym_proc S (t_sym x)) out1 else out1)
      in if t_kind x = ST_Declare then fold (collect_decl S) (t_decls x) out2 else out2)"

fun collectStmtCallees :: "(nat \<Rightarrow> Symbol) \<Rightarrow> Stmt option \<Rightarrow> nat list \<Rightarrow> nat list"
  and collectCallees :: "(nat \<Rightarrow> Symbol) \<Rightarrow> Stmt option list \<Rightarrow> nat list \<Rightarrow> nat list" where
  "collectStmtCallees S None out = out"
| "collectStmtCallees S (Some (Stmt x th el bd un)) out =
     collectCallees S bd (collectStmtCallees S un (collectStmtCallees S el (collectStmtCallees S th (collect_stmt_here S x out))))"
| "collectCallees S [] out = out"
| "collectCallees S (s # ss) out = collectCallees S ss (collectStmtCallees S s out)"

text \<open>The depth-first search; the list is the vector with its back first, so a pushed list of callees comes
  reversed.  A procedure outside the program has no entry in \<open>adj\<close>.\<close>

function cycle_search :: "nat list list \<Rightarrow> nat \<Rightarrow> nat list \<Rightarrow> nat list \<Rightarrow> bool" where
  "cycle_search adj start [] seen = False"
| "cycle_search adj start (q # st) seen =
     (if q = start then True
      else if q \<in> set seen then cycle_search adj start st seen
      else cycle_search adj start ((if q < length adj then rev (adj ! q) else []) @ st) (q # seen))"
  by pat_completeness auto

termination
proof (relation "inv_image (less_than <*lex*> less_than) (\<lambda>(adj, start, st, seen). (card ({..<length adj} - set seen), length st))",
    goal_cases)
  case (3 adj start q st seen)
  show ?case
  proof (cases "q < length adj")
    case True
    with 3 have "card ({..<length adj} - set (q # seen)) < card ({..<length adj} - set seen)"
      by (intro psubset_card_mono) auto
    then show ?thesis by simp
  next
    case False
    then have "{..<length adj} - set (q # seen) = {..<length adj} - set seen" by auto
    then show ?thesis using False by simp
  qed
qed auto

definition call_lists :: "(nat \<Rightarrow> Symbol) \<Rightarrow> Proc list \<Rightarrow> nat list list" where
  "call_lists S procs = map (\<lambda>p. collectCallees S (pr_body p) []) procs"

definition recursion_error :: "Proc \<Rightarrow> Diags \<Rightarrow> Diags" where
  "recursion_error p d =
     error d (pr_loc p) (''procedure '' @ [QUOTE] @ pr_name p @ [QUOTE] @
       '' is invoked recursively but lacks the RECURSIVE attribute; add RECURSIVE to its PROCEDURE statement'') ''(5)'' []"

definition checkRecursion :: "(nat \<Rightarrow> Symbol) \<Rightarrow> Proc list \<Rightarrow> Diags \<Rightarrow> Diags" where
  "checkRecursion S procs d =
     (let adj = call_lists S procs
      in fold (\<lambda>start d.
           let cycle = cycle_search adj start (rev (adj ! start)) []
           in if cycle \<and> \<not> pr_isRecursive (procs ! start) then recursion_error (procs ! start) d else d)
         [0..<length procs] d)"

section \<open>Static links\<close>

text \<open>The climbs along \<open>parent\<close> and along the bases of a symbol take a bound \<open>k\<close>; a chain of parents without a cycle is
  not longer than the list of procedures, and \<^const>\<open>None\<close> is a chain of bases longer than the bound.\<close>

fun isDescendantOf :: "nat \<Rightarrow> Proc list \<Rightarrow> nat option \<Rightarrow> nat \<Rightarrow> bool" where
  "isDescendantOf k procs None anc = False"
| "isDescendantOf 0 procs (Some c) anc = False"
| "isDescendantOf (Suc k) procs (Some c) anc = (if c = anc then True else isDescendantOf k procs (pr_parent (procs ! c)) anc)"

definition addEnv :: "nat \<Rightarrow> nat list \<Rightarrow> nat list" where
  "addEnv s env = (if s \<in> set env then env else env @ [s])"

definition static_use :: "(nat \<Rightarrow> Symbol) \<Rightarrow> Proc list \<Rightarrow> nat \<Rightarrow> nat \<Rightarrow> bool" where
  "static_use S procs p s \<longleftrightarrow>
     (sy_kind (S s) = SK_Var \<or> sy_kind (S s) = SK_Param) \<and>
     (case sy_owner (S s) of
        None \<Rightarrow> False
      | Some ow \<Rightarrow> ow \<noteq> p \<and> isDescendantOf (length procs) procs (Some p) ow \<and> \<not> pr_isPackage (procs ! ow))"

fun noteStaticUse :: "nat \<Rightarrow> (nat \<Rightarrow> Symbol) \<Rightarrow> nat option \<Rightarrow> nat option \<Rightarrow> Proc list \<Rightarrow> Proc list option" where
  "noteStaticUse 0 S p s procs = None"
| "noteStaticUse (Suc k) S p s procs =
     (case (s, p) of
        (Some i, Some q) \<Rightarrow>
          let procs1 = (if static_use S procs q i
                        then procs[q := (procs ! q)\<lparr>pr_directUses := addEnv i (pr_directUses (procs ! q))\<rparr>] else procs)
          in (case (if sy_basedBase (S i) \<noteq> None then noteStaticUse k S p (sy_basedBase (S i)) procs1 else Some procs1) of
                None \<Rightarrow> None
              | Some procs2 \<Rightarrow>
                  if sy_definedBase (S i) \<noteq> None then noteStaticUse k S p (sy_definedBase (S i)) procs2 else Some procs2)
      | _ \<Rightarrow> Some procs)"

fun fold_opt :: "('a \<Rightarrow> 'b \<Rightarrow> 'b option) \<Rightarrow> 'a list \<Rightarrow> 'b \<Rightarrow> 'b option" where
  "fold_opt f [] s = Some s"
| "fold_opt f (x # xs) s = (case f x s of None \<Rightarrow> None | Some s1 \<Rightarrow> fold_opt f xs s1)"

text \<open>The environment of \<open>p\<close> from its own uses and the environments of the procedures declared in it.\<close>

definition env_of :: "(nat \<Rightarrow> Symbol) \<Rightarrow> nat \<Rightarrow> Proc list \<Rightarrow> nat list" where
  "env_of S p procs =
     fold (\<lambda>q env.
         if pr_parent (procs ! q) \<noteq> Some p then env
         else fold (\<lambda>s env. if sy_owner (S s) \<noteq> Some p then addEnv s env else env) (pr_env (procs ! q)) env)
       [0..<length procs] (fold addEnv (pr_directUses (procs ! p)) [])"

text \<open>\<open>computeEnv\<close> goes down the tree of procedures; \<^const>\<open>None\<close> is a descent deeper than the bound.\<close>

primrec computeEnv :: "nat \<Rightarrow> (nat \<Rightarrow> Symbol) \<Rightarrow> nat \<Rightarrow> Proc list \<Rightarrow> Proc list option" where
  "computeEnv 0 S p procs = None"
| "computeEnv (Suc k) S p procs =
     (case fold_opt (\<lambda>q procs. if pr_parent (procs ! q) = Some p then computeEnv k S q procs else Some procs)
             [0..<length procs] procs of
        None \<Rightarrow> None
      | Some procs1 \<Rightarrow> Some (procs1[p := (procs1 ! p)\<lparr>pr_env := env_of S p procs1\<rparr>]))"

definition compute_all :: "nat \<Rightarrow> (nat \<Rightarrow> Symbol) \<Rightarrow> Proc list \<Rightarrow> Proc list option" where
  "compute_all k S procs =
     fold_opt (\<lambda>p procs. if pr_parent (procs ! p) = None then computeEnv k S p procs else Some procs) [0..<length procs] procs"

section \<open>Which calls the graph has\<close>

text \<open>A procedure is called in an expression when it, or an operand that is evaluated, is a call of it.\<close>

inductive calls_in :: "(nat \<Rightarrow> Symbol) \<Rightarrow> Expr \<Rightarrow> nat \<Rightarrow> bool" for S where
  here: "ekind e = EK_Call \<Longrightarrow> sym_proc S (x_sym (xa e)) = Some q \<Longrightarrow> calls_in S e q"
| argument: "ekind e = EK_Call \<or> ekind e = EK_Subscript \<Longrightarrow> a \<in> set (args e) \<Longrightarrow> calls_in S a q \<Longrightarrow> calls_in S e q"
| left: "ekind e = EK_Binary \<or> ekind e = EK_Unary \<Longrightarrow> opa e = Some a \<Longrightarrow> calls_in S a q \<Longrightarrow> calls_in S e q"
| right: "ekind e = EK_Binary \<Longrightarrow> opb e = Some b \<Longrightarrow> calls_in S b q \<Longrightarrow> calls_in S e q"
| locator: "locPtr e = Some l \<Longrightarrow> calls_in S l q \<Longrightarrow> calls_in S e q"

definition calls_opt :: "(nat \<Rightarrow> Symbol) \<Rightarrow> Expr option \<Rightarrow> nat set" where
  "calls_opt S eo = {q. \<exists>e. eo = Some e \<and> calls_in S e q}"

lemma calls_opt_simps [simp]: "calls_opt S None = {}" "calls_opt S (Some e) = {q. calls_in S e q}"
  by (simp_all add: calls_opt_def)

lemma set_add_callee [simp]: "set (add_callee po out) = set out \<union> set_option po"
  by (auto simp: add_callee_def split: option.split)
















section \<open>The recursion check\<close>











text \<open>A function that calls itself in the bound of an ALLOCATE.\<close>

definition self_call :: Expr where
  "self_call = Expr (default_expr\<lparr>x_kind := EK_Call, x_sym := Some 0\<rparr>) None None None []"

definition self_allocating :: "Proc list" where
  "self_allocating = [default_proc\<lparr>pr_body := [Some (Stmt (default_stmt\<lparr>t_kind := ST_Allocate, t_sym := Some 1,
     t_allocBounds := [[\<lparr>ab_lb = None, ab_ub = Some self_call, ab_star = False\<rparr>]]\<rparr>) None None [] None)]\<rparr>]"

text \<open>The bounds of an ALLOCATE are not searched, so this direct recursion is not seen.\<close>
lemma allocate_bounds_are_not_searched:
  "checkRecursion (\<lambda>i. default_symbol\<lparr>sy_proc := Some i\<rparr>) self_allocating d = d \<and>
   calls_in (\<lambda>i. default_symbol\<lparr>sy_proc := Some i\<rparr>) self_call 0"
proof
  show "calls_in (\<lambda>i. default_symbol\<lparr>sy_proc := Some i\<rparr>) self_call 0"
    by (rule here) (simp_all add: self_call_def sym_proc_def)
  show "checkRecursion (\<lambda>i. default_symbol\<lparr>sy_proc := Some i\<rparr>) self_allocating d = d"
    by (simp add: checkRecursion_def call_lists_def self_allocating_def default_proc_def default_stmt_def
        collect_stmt_here_def stmt_operands_def collect_opts_def)
qed

section \<open>Static links are exact\<close>

text \<open>Everything of a procedure but its environment.\<close>

definition strip :: "Proc list \<Rightarrow> Proc list" where
  "strip procs = map (\<lambda>p. p\<lparr>pr_env := []\<rparr>) procs"

lemma strip_same:
  assumes "strip procs = strip base"
  shows "length procs = length base"
    and "p < length procs \<Longrightarrow> pr_parent (procs ! p) = pr_parent (base ! p)"
    and "p < length procs \<Longrightarrow> pr_directUses (procs ! p) = pr_directUses (base ! p)"
proof -
  show l: "length procs = length base" using assms unfolding strip_def by (metis length_map)
  have e: "(procs ! p)\<lparr>pr_env := []\<rparr> = (base ! p)\<lparr>pr_env := []\<rparr>" if "p < length procs"
    using assms that l unfolding strip_def by (metis nth_map)
  show "p < length procs \<Longrightarrow> pr_parent (procs ! p) = pr_parent (base ! p)"
    using e by (metis Proc.select_convs(13) Proc.surjective Proc.update_convs(17))
  show "p < length procs \<Longrightarrow> pr_directUses (procs ! p) = pr_directUses (base ! p)"
    using e by (metis Proc.select_convs(16) Proc.surjective Proc.update_convs(17))
qed

lemma strip_env [simp]: "strip (procs[p := (procs ! p)\<lparr>pr_env := e\<rparr>]) = strip procs"
  by (cases "p < length procs") (auto simp: strip_def map_update list_update_beyond intro!: nth_equalityI simp: nth_list_update)

text \<open>What a procedure needs from outside: what it uses, and what the procedures in it need and it does not own.\<close>

inductive needs :: "(nat \<Rightarrow> Symbol) \<Rightarrow> Proc list \<Rightarrow> nat \<Rightarrow> nat \<Rightarrow> bool" for S base where
  used: "s \<in> set (pr_directUses (base ! p)) \<Longrightarrow> needs S base p s"
| inner: "q < length base \<Longrightarrow> pr_parent (base ! q) = Some p \<Longrightarrow> needs S base q s \<Longrightarrow> sy_owner (S s) \<noteq> Some p \<Longrightarrow> needs S base p s"

definition child :: "Proc list \<Rightarrow> (nat \<times> nat) set" where
  "child base = {(p, q). q < length base \<and> pr_parent (base ! q) = Some p}"

lemma set_addEnv [simp]: "set (addEnv s env) = insert s (set env)"
  by (auto simp: addEnv_def)

lemma set_fold_addEnv: "set (fold addEnv xs env) = set xs \<union> set env"
  by (induction xs arbitrary: env) auto

lemma set_fold_owned:
  "set (fold (\<lambda>s env. if sy_owner (S s) \<noteq> Some p then addEnv s env else env) xs env) = {s \<in> set xs. sy_owner (S s) \<noteq> Some p} \<union> set env"
  by (induction xs arbitrary: env) auto

lemma set_env_of:
  "set (env_of S p procs) = set (pr_directUses (procs ! p)) \<union>
     {s. \<exists>q < length procs. pr_parent (procs ! q) = Some p \<and> s \<in> set (pr_env (procs ! q)) \<and> sy_owner (S s) \<noteq> Some p}"
proof -
  have "set (fold (\<lambda>q env. if pr_parent (procs ! q) \<noteq> Some p then env
         else fold (\<lambda>s env. if sy_owner (S s) \<noteq> Some p then addEnv s env else env) (pr_env (procs ! q)) env) qs env) =
     set env \<union> {s. \<exists>q \<in> set qs. pr_parent (procs ! q) = Some p \<and> s \<in> set (pr_env (procs ! q)) \<and> sy_owner (S s) \<noteq> Some p}" for qs env
    by (induction qs arbitrary: env) (auto simp: set_fold_owned)
  from this [of "[0..<length procs]"] show ?thesis unfolding env_of_def by (auto simp: set_fold_addEnv)
qed

text \<open>The environments of the subtrees of some procedures are computed, the others are as they were.\<close>

definition computed :: "(nat \<Rightarrow> Symbol) \<Rightarrow> Proc list \<Rightarrow> nat set \<Rightarrow> Proc list \<Rightarrow> Proc list \<Rightarrow> bool" where
  "computed S base R procs procs' \<longleftrightarrow>
     strip procs' = strip base \<and>
     (\<forall>r < length base. if r \<in> (child base)\<^sup>* `` R then set (pr_env (procs' ! r)) = {s. needs S base r s}
        else pr_env (procs' ! r) = pr_env (procs ! r))"

lemma computed_none: "strip procs = strip base \<Longrightarrow> computed S base {} procs procs"
  by (simp add: computed_def)

lemma computed_trans:
  assumes "computed S base R procs procs1" and "computed S base Q procs1 procs2"
  shows "computed S base (R \<union> Q) procs procs2"
  unfolding computed_def
proof (intro conjI allI impI)
  fix r assume "r < length base"
  then show "if r \<in> (child base)\<^sup>* `` (R \<union> Q) then set (pr_env (procs2 ! r)) = {s. needs S base r s} else pr_env (procs2 ! r) = pr_env (procs ! r)"
    using assms unfolding computed_def Image_Un by (cases "r \<in> (child base)\<^sup>* `` R"; cases "r \<in> (child base)\<^sup>* `` Q") simp_all
qed (use assms in \<open>simp add: computed_def\<close>)

lemma computed_fold:
  assumes "\<And>q ps ps'. q \<in> set qs \<Longrightarrow> strip ps = strip base \<Longrightarrow> f q ps = Some ps' \<Longrightarrow> computed S base (R q) ps ps'"
    and "strip procs = strip base" and "fold_opt f qs procs = Some procs'"
  shows "computed S base (\<Union>q \<in> set qs. R q) procs procs'"
  using assms
proof (induction qs arbitrary: procs)
  case Nil
  then show ?case by (simp add: computed_none)
next
  case (Cons q qs)
  then obtain ps where f: "f q procs = Some ps" "fold_opt f qs ps = Some procs'" by (auto split: option.splits)
  have c: "computed S base (R q) procs ps" using Cons.prems f by auto
  then have "strip ps = strip base" by (simp add: computed_def)
  then have "computed S base (\<Union>q \<in> set qs. R q) ps procs'" using Cons.IH Cons.prems(1) f(2) by auto
  with c show ?case using computed_trans by fastforce
qed

lemma below_unfold: "r \<in> (child base)\<^sup>* `` {p} \<longleftrightarrow> r = p \<or> r \<in> (child base)\<^sup>* `` {q. (p, q) \<in> child base}"
  by (auto elim: converse_rtranclE intro: converse_rtrancl_into_rtrancl)

lemma env_of_needs:
  assumes "computed S base {q. (p, q) \<in> child base} procs procs1" and "p < length base"
  shows "set (env_of S p procs1) = {s. needs S base p s}"
proof -
  have st: "strip procs1 = strip base" using assms(1) by (simp add: computed_def)
  have kids: "set (pr_env (procs1 ! q)) = {s. needs S base q s}" if "(p, q) \<in> child base" for q
  proof -
    have "q < length base" "q \<in> (child base)\<^sup>* `` {q. (p, q) \<in> child base}" using that by (auto simp: child_def)
    then show ?thesis using assms(1) unfolding computed_def by auto
  qed
  have "s \<in> set (env_of S p procs1) \<longleftrightarrow> s \<in> set (pr_directUses (base ! p)) \<or>
      (\<exists>q. (p, q) \<in> child base \<and> needs S base q s \<and> sy_owner (S s) \<noteq> Some p)" for s
  proof -
    have "q < length procs1 \<and> pr_parent (procs1 ! q) = Some p \<longleftrightarrow> (p, q) \<in> child base" for q
      using strip_same [OF st] by (auto simp: child_def)
    then have "s \<in> set (env_of S p procs1) \<longleftrightarrow> s \<in> set (pr_directUses (procs1 ! p)) \<or>
        (\<exists>q. (p, q) \<in> child base \<and> s \<in> set (pr_env (procs1 ! q)) \<and> sy_owner (S s) \<noteq> Some p)"
      unfolding set_env_of by blast
    then show ?thesis using kids strip_same [OF st] assms(2) by (metis mem_Collect_eq)
  qed
  moreover have "needs S base p s \<longleftrightarrow> s \<in> set (pr_directUses (base ! p)) \<or>
      (\<exists>q. (p, q) \<in> child base \<and> needs S base q s \<and> sy_owner (S s) \<noteq> Some p)" for s
    unfolding needs.simps [of S base p s] child_def by blast
  ultimately show ?thesis by blast
qed

lemma computeEnv_computed:
  "computeEnv k S p procs = Some procs' \<Longrightarrow> strip procs = strip base \<Longrightarrow> p < length base \<Longrightarrow> computed S base {p} procs procs'"
proof (induction k arbitrary: p procs procs')
  case (Suc k)
  let ?kids = "{q. (p, q) \<in> child base}"
  let ?f = "\<lambda>q procs. if pr_parent (procs ! q) = Some p then computeEnv k S q procs else Some procs"
  obtain procs1 where f: "fold_opt ?f [0..<length procs] procs = Some procs1"
    and r: "procs' = procs1[p := (procs1 ! p)\<lparr>pr_env := env_of S p procs1\<rparr>]"
    using Suc.prems(1) by (auto split: option.splits)
  have len: "length procs = length base" using Suc.prems(2) by (rule strip_same)
  have "computed S base (\<Union>q \<in> set [0..<length procs]. {q} \<inter> ?kids) procs procs1"
  proof (rule computed_fold [OF _ Suc.prems(2) f])
    fix q ps ps' assume q: "q \<in> set [0..<length procs]" and st: "strip ps = strip base" and e: "?f q ps = Some ps'"
    then have ql: "q < length base" "q < length ps" using len strip_same(1) [OF st] by auto
    show "computed S base ({q} \<inter> ?kids) ps ps'"
    proof (cases "pr_parent (base ! q) = Some p")
      case True
      then have "{q} \<inter> ?kids = {q}" using ql by (auto simp: child_def)
      then show ?thesis using Suc.IH [OF _ st ql(1)] e True strip_same(2) [OF st ql(2)] by auto
    next
      case False
      then have "{q} \<inter> ?kids = {}" by (auto simp: child_def)
      then show ?thesis using e False strip_same(2) [OF st ql(2)] computed_none [OF st] by auto
    qed
  qed
  moreover have "(\<Union>q \<in> set [0..<length procs]. {q} \<inter> ?kids) = ?kids" using len by (auto simp: child_def)
  ultimately have c: "computed S base ?kids procs procs1" by simp
  then have st1: "strip procs1 = strip base" by (simp add: computed_def)
  have pl: "p < length procs1" using Suc.prems(3) strip_same(1) [OF st1] by simp
  have "set (pr_env (procs' ! p)) = {s. needs S base p s}"
    using env_of_needs [OF c Suc.prems(3)] pl by (simp add: r)
  moreover have "pr_env (procs' ! x) = pr_env (procs1 ! x)" if "x \<noteq> p" for x using that by (simp add: r)
  ultimately have "if x \<in> (child base)\<^sup>* `` {p} then set (pr_env (procs' ! x)) = {s. needs S base x s}
      else pr_env (procs' ! x) = pr_env (procs ! x)" if "x < length base" for x
    using c that unfolding computed_def below_unfold [of x base p]
    by (cases "x = p"; cases "x \<in> (child base)\<^sup>* `` ?kids") simp_all
  moreover have "strip procs' = strip base" using st1 by (simp add: r)
  ultimately show ?case unfolding computed_def by blast
qed simp

lemma fold_opt_total:
  "(\<And>q s. q \<in> set qs \<Longrightarrow> P s \<Longrightarrow> \<exists>t. f q s = Some t \<and> P t) \<Longrightarrow> P s \<Longrightarrow> \<exists>t. fold_opt f qs s = Some t \<and> P t"
proof (induction qs arbitrary: s)
  case (Cons q qs)
  from Cons.prems(1) [of q s] Cons.prems(2) obtain t where "f q s = Some t" "P t" by auto
  then show ?case using Cons.IH [of t] Cons.prems(1) by auto
qed simp

lemma computeEnv_total:
  assumes "\<And>p q. (p, q) \<in> child base \<Longrightarrow> h q < (h p :: nat)"
  shows "h p < k \<Longrightarrow> strip procs = strip base \<Longrightarrow> p < length base \<Longrightarrow> \<exists>procs'. computeEnv k S p procs = Some procs' \<and> strip procs' = strip base"
proof (induction k arbitrary: p procs)
  case (Suc k)
  let ?f = "\<lambda>q procs. if pr_parent (procs ! q) = Some p then computeEnv k S q procs else Some procs"
  have "\<exists>procs1. fold_opt ?f [0..<length procs] procs = Some procs1 \<and> strip procs1 = strip base"
  proof (rule fold_opt_total [where P = "\<lambda>ps. strip ps = strip base"])
    fix q ps assume q: "q \<in> set [0..<length procs]" and st: "strip ps = strip base"
    then have ql: "q < length base" "q < length ps" using strip_same(1) [OF st] strip_same(1) [OF Suc.prems(2)] by auto
    show "\<exists>t. ?f q ps = Some t \<and> strip t = strip base"
    proof (cases "pr_parent (base ! q) = Some p")
      case True
      then have "h q < k" using assms [of p q] Suc.prems(1) ql by (auto simp: child_def)
      then show ?thesis using Suc.IH [OF _ st ql(1)] True strip_same(2) [OF st ql(2)] by auto
    next
      case False
      then show ?thesis using st strip_same(2) [OF st ql(2)] by auto
    qed
  qed (rule Suc.prems(2))
  then show ?case by auto
qed simp

text \<open>The procedures form a tree, and what a procedure uses is owned by a procedure around it.\<close>

definition tree_ok :: "Proc list \<Rightarrow> bool" where
  "tree_ok procs \<longleftrightarrow> acyclic (child procs) \<and> (\<forall>q < length procs. \<forall>p. pr_parent (procs ! q) = Some p \<longrightarrow> p < length procs)"

definition uses_ok :: "(nat \<Rightarrow> Symbol) \<Rightarrow> Proc list \<Rightarrow> bool" where
  "uses_ok S procs \<longleftrightarrow>
     (\<forall>q < length procs. \<forall>s \<in> set (pr_directUses (procs ! q)). \<exists>ow. sy_owner (S s) = Some ow \<and> (ow, q) \<in> (child procs)\<^sup>+)"

lemma finite_child: "finite (child procs)"
proof (rule finite_subset)
  show "child procs \<subseteq> (\<lambda>q. (the (pr_parent (procs ! q)), q)) ` {..<length procs}" by (force simp: child_def)
qed simp

text \<open>The number of procedures below one bounds the descent.\<close>

definition height :: "Proc list \<Rightarrow> nat \<Rightarrow> nat" where
  "height procs p = card ((child procs)\<^sup>+ `` {p})"

lemma below_finite: "finite ((child procs)\<^sup>+ `` {p})"
  by (rule finite_subset [of _ "snd ` (child procs)\<^sup>+"]) (force, simp add: finite_child)

lemma height_decreases: "tree_ok procs \<Longrightarrow> (p, q) \<in> child procs \<Longrightarrow> height procs q < height procs p"
  unfolding height_def
proof (rule psubset_card_mono [OF below_finite])
  assume t: "tree_ok procs" and c: "(p, q) \<in> child procs"
  have "q \<notin> (child procs)\<^sup>+ `` {q}" using t by (auto simp: tree_ok_def acyclic_def)
  moreover have "q \<in> (child procs)\<^sup>+ `` {p}" using c by auto
  moreover have "(child procs)\<^sup>+ `` {q} \<subseteq> (child procs)\<^sup>+ `` {p}" using c by auto
  ultimately show "(child procs)\<^sup>+ `` {q} \<subset> (child procs)\<^sup>+ `` {p}" by blast
qed

lemma height_le: "height procs p \<le> length procs"
proof -
  have "(child procs)\<^sup>+ `` {p} \<subseteq> {..<length procs}" by (auto simp: child_def elim: trancl.cases)
  from card_mono [OF _ this] show ?thesis by (simp add: height_def)
qed

lemma has_root:
  assumes "tree_ok procs" and "p < length procs"
  shows "\<exists>r < length procs. pr_parent (procs ! r) = None \<and> (r, p) \<in> (child procs)\<^sup>*"
proof -
  have "wf (child procs)" using assms(1) finite_child by (simp add: tree_ok_def finite_acyclic_wf)
  then show ?thesis using assms(2)
  proof (induction p rule: wf_induct_rule)
    case (less p)
    show ?case
    proof (cases "pr_parent (procs ! p)")
      case (Some q)
      then have "q < length procs" "(q, p) \<in> child procs" using assms(1) less.prems by (auto simp: tree_ok_def child_def)
      then show ?thesis using less.IH [of q] by (meson rtrancl.rtrancl_into_rtrancl)
    qed (use less.prems in blast)
  qed
qed

lemma needs_iff:
  assumes "tree_ok procs" and "uses_ok S procs" and "p < length procs"
  shows "needs S procs p s \<longleftrightarrow> (\<exists>q ow. (p, q) \<in> (child procs)\<^sup>* \<and> s \<in> set (pr_directUses (procs ! q)) \<and>
      sy_owner (S s) = Some ow \<and> (ow, p) \<in> (child procs)\<^sup>+)"
proof
  assume "needs S procs p s"
  then show "\<exists>q ow. (p, q) \<in> (child procs)\<^sup>* \<and> s \<in> set (pr_directUses (procs ! q)) \<and> sy_owner (S s) = Some ow \<and> (ow, p) \<in> (child procs)\<^sup>+"
    using assms(3)
  proof (induction rule: needs.induct)
    case (used s p)
    then show ?case using assms(2) unfolding uses_ok_def by blast
  next
    case (inner q p s)
    then obtain q' ow where r: "(q, q') \<in> (child procs)\<^sup>*" "s \<in> set (pr_directUses (procs ! q'))" "sy_owner (S s) = Some ow"
      "(ow, q) \<in> (child procs)\<^sup>+" by blast
    have c: "(p, q) \<in> child procs" using inner.hyps by (simp add: child_def)
    from r(4) have "(ow, p) \<in> (child procs)\<^sup>*" by (cases rule: trancl.cases) (use c in \<open>auto simp: child_def\<close>)
    moreover have "ow \<noteq> p" using inner.hyps(4) r(3) by auto
    ultimately have "(ow, p) \<in> (child procs)\<^sup>+" by (simp add: rtrancl_eq_or_trancl)
    then show ?case using r c by (meson converse_rtrancl_into_rtrancl)
  qed
next
  assume "\<exists>q ow. (p, q) \<in> (child procs)\<^sup>* \<and> s \<in> set (pr_directUses (procs ! q)) \<and> sy_owner (S s) = Some ow \<and> (ow, p) \<in> (child procs)\<^sup>+"
  then obtain q ow where q: "(p, q) \<in> (child procs)\<^sup>*" and u: "s \<in> set (pr_directUses (procs ! q))" "sy_owner (S s) = Some ow"
    and o: "(ow, p) \<in> (child procs)\<^sup>+" by blast
  from q o show "needs S procs p s"
  proof (induction rule: converse_rtrancl_induct)
    case base
    then show ?case using u by (simp add: used)
  next
    case (step p p1)
    then have "needs S procs p1 s" by (meson trancl.trancl_into_trancl)
    moreover have "ow \<noteq> p" using step.prems assms(1) by (auto simp: tree_ok_def acyclic_def)
    ultimately show ?case using step.hyps(1) u(2) inner [of p1 procs p S s] by (auto simp: child_def)
  qed
qed

lemma compute_all_needs:
  assumes "tree_ok procs" and "length procs < k"
  shows "\<exists>procs'. compute_all k S procs = Some procs' \<and> strip procs' = strip procs \<and>
    (\<forall>p < length procs. set (pr_env (procs' ! p)) = {s. needs S procs p s})"
proof -
  let ?f = "\<lambda>p ps. if pr_parent (ps ! p) = None then computeEnv k S p ps else Some ps"
  have "\<exists>t. fold_opt ?f [0..<length procs] procs = Some t \<and> strip t = strip procs"
  proof (rule fold_opt_total [where P = "\<lambda>ps. strip ps = strip procs"])
    fix q ps assume "q \<in> set [0..<length procs]" "strip ps = strip procs"
    then show "\<exists>t. ?f q ps = Some t \<and> strip t = strip procs"
      using computeEnv_total [of procs "height procs" q k ps S] height_decreases [OF assms(1)] height_le [of procs q] assms(2) by auto
  qed simp
  then obtain t where t: "fold_opt ?f [0..<length procs] procs = Some t" by blast
  let ?roots = "{r. r < length procs \<and> pr_parent (procs ! r) = None}"
  have "computed S procs (\<Union>q \<in> set [0..<length procs]. {q} \<inter> ?roots) procs t"
  proof (rule computed_fold [OF _ refl t])
    fix q ps ps' assume q: "q \<in> set [0..<length procs]" and st: "strip ps = strip procs" and e: "?f q ps = Some ps'"
    have "pr_parent (ps ! q) = pr_parent (procs ! q)" using strip_same [OF st] q by simp
    then show "computed S procs ({q} \<inter> ?roots) ps ps'"
      using e q st computeEnv_computed [of k S q ps ps' procs] computed_none [OF st]
      by (cases "pr_parent (procs ! q) = None") (auto simp: Int_absorb2)
  qed
  moreover have "(\<Union>q \<in> set [0..<length procs]. {q} \<inter> ?roots) = ?roots" by auto
  ultimately have c: "computed S procs ?roots procs t" by simp
  have "set (pr_env (t ! p)) = {s. needs S procs p s}" if "p < length procs" for p
  proof -
    have "p \<in> (child procs)\<^sup>* `` ?roots" using has_root [OF assms(1) that] by blast
    then show ?thesis using c that unfolding computed_def by auto
  qed
  then show ?thesis using t c unfolding compute_all_def computed_def by blast
qed

text \<open>C28: Static links are exact.  For a tree of procedures the pass over all roots returns, and the environment of a procedure has
  exactly the variables that are owned by a procedure around it and used in it or in a procedure inside it; so every
  variable a procedure needs from outside is one the enclosing procedure owns or has in its own environment
  and can pass on.\<close>
theorem static_links_are_exact:
  assumes "tree_ok procs" and "uses_ok S procs"
  shows "\<exists>procs'. compute_all (Suc (length procs)) S procs = Some procs' \<and>
    (\<forall>p < length procs. set (pr_env (procs' ! p)) =
       {s. \<exists>q ow. (p, q) \<in> (child procs)\<^sup>* \<and> s \<in> set (pr_directUses (procs ! q)) \<and>
             sy_owner (S s) = Some ow \<and> (ow, p) \<in> (child procs)\<^sup>+}) \<and>
    (\<forall>p q. p < length procs \<and> (p, q) \<in> child procs \<longrightarrow>
       (\<forall>s \<in> set (pr_env (procs' ! q)). sy_owner (S s) = Some p \<or> s \<in> set (pr_env (procs' ! p))))"
proof -
  obtain procs' where c: "compute_all (Suc (length procs)) S procs = Some procs'"
    and e: "\<And>p. p < length procs \<Longrightarrow> set (pr_env (procs' ! p)) = {s. needs S procs p s}"
    using compute_all_needs [OF assms(1), of "Suc (length procs)" S] by auto
  have "sy_owner (S s) = Some p \<or> s \<in> set (pr_env (procs' ! p))"
    if "p < length procs" "(p, q) \<in> child procs" "s \<in> set (pr_env (procs' ! q))" for p q s
    using that e [of p] e [of q] inner [of q procs p S s] by (auto simp: child_def)
  then show ?thesis using c e needs_iff [OF assms] by auto
qed

text \<open>Three procedures, each inside the one before; the innermost uses a variable of the outermost.\<close>

definition three_deep :: "Proc list" where
  "three_deep = [default_proc, default_proc\<lparr>pr_parent := Some 0\<rparr>, default_proc\<lparr>pr_parent := Some 1, pr_directUses := [7]\<rparr>]"

abbreviation outer_var :: "nat \<Rightarrow> Symbol" where
  "outer_var \<equiv> \<lambda>i. default_symbol\<lparr>sy_owner := Some 0\<rparr>"

lemma three_deep_child: "child three_deep = {(0, 1), (1, 2)}"
  by (auto simp: child_def three_deep_def default_proc_def less_Suc_eq nth_Cons' numeral_2_eq_2)

theorem static_links_are_exact_witness:
  "\<exists>procs'. compute_all 4 outer_var three_deep = Some procs' \<and> 7 \<in> set (pr_env (procs' ! 1))"
proof -
  have "(child three_deep)\<^sup>+ \<subseteq> {(p, q). p < q}"
    unfolding three_deep_child by (rule trancl_Int_subset) auto
  then have "acyclic (child three_deep)" by (auto simp: acyclic_def)
  then have t: "tree_ok three_deep"
    by (auto simp: tree_ok_def three_deep_def default_proc_def less_Suc_eq nth_Cons' numeral_2_eq_2)
  have two: "(0, 2) \<in> (child three_deep)\<^sup>+"
    by (rule trancl_into_trancl2 [of _ 1]) (auto simp: three_deep_child)
  have "q = 2" if "q < length three_deep" "s \<in> set (pr_directUses (three_deep ! q))" for q s
    using that by (auto simp: three_deep_def default_proc_def less_Suc_eq nth_Cons' numeral_2_eq_2 split: if_splits)
  with two have u: "uses_ok outer_var three_deep" unfolding uses_ok_def by fastforce
  have "(1, 2) \<in> (child three_deep)\<^sup>*" "(0, 1) \<in> (child three_deep)\<^sup>+" by (auto simp: three_deep_child)
  moreover have "7 \<in> set (pr_directUses (three_deep ! 2))" "length three_deep = 3" by (simp_all add: three_deep_def)
  ultimately show ?thesis using static_links_are_exact [OF t u] by (fastforce simp: eval_nat_numeral)
qed

text \<open>The uses that are recorded are of that kind.\<close>

lemma descendant_below:
  assumes "tree_ok procs" and "isDescendantOf k procs (Some c) anc" and "c < length procs"
  shows "(anc, c) \<in> (child procs)\<^sup>*"
  using assms(2, 3)
proof (induction k arbitrary: c)
  case (Suc k)
  show ?case
  proof (cases "c = anc")
    case False
    then obtain q where q: "pr_parent (procs ! c) = Some q" "isDescendantOf k procs (Some q) anc"
      using Suc.prems by (cases "pr_parent (procs ! c)") auto
    then have "q < length procs" "(q, c) \<in> child procs" using assms(1) Suc.prems(2) by (auto simp: tree_ok_def child_def)
    then show ?thesis using Suc.IH [OF q(2)] by (meson rtrancl.rtrancl_into_rtrancl)
  qed simp
qed simp

lemma child_uses [simp]: "child (procs[q := (procs ! q)\<lparr>pr_directUses := u\<rparr>]) = child procs"
  by (cases "q < length procs") (auto simp: child_def nth_list_update list_update_beyond split: if_splits)

lemma noteStaticUse_keeps:
  assumes "noteStaticUse k S (Some p) s procs = Some procs'" and "tree_ok procs" "uses_ok S procs" "p < length procs"
  shows "uses_ok S procs' \<and> tree_ok procs' \<and> length procs' = length procs"
  using assms
proof (induction k arbitrary: s procs procs')
  case (Suc k)
  show ?case
  proof (cases s)
    case (Some i)
    let ?p1 = "if static_use S procs p i then procs[p := (procs ! p)\<lparr>pr_directUses := addEnv i (pr_directUses (procs ! p))\<rparr>] else procs"
    have len: "length ?p1 = length procs" by simp
    have par: "pr_parent (?p1 ! q) = pr_parent (procs ! q)" for q
      by (cases "q < length procs"; cases "p < length procs") (simp_all add: nth_list_update list_update_beyond)
    have t1: "tree_ok ?p1" using Suc.prems(2) unfolding tree_ok_def par len by simp
    have "\<exists>ow. sy_owner (S i) = Some ow \<and> (ow, p) \<in> (child procs)\<^sup>+" if "static_use S procs p i"
    proof -
      from that obtain ow where ow: "sy_owner (S i) = Some ow" "ow \<noteq> p" "isDescendantOf (length procs) procs (Some p) ow"
        by (auto simp: static_use_def split: option.splits)
      then have "(ow, p) \<in> (child procs)\<^sup>*" using descendant_below Suc.prems(2, 4) by blast
      then show ?thesis using ow by (auto simp: rtrancl_eq_or_trancl)
    qed
    then have u1: "uses_ok S ?p1" using Suc.prems(3, 4) by (auto simp: uses_ok_def nth_list_update)
    obtain p2 where p2: "(if sy_basedBase (S i) \<noteq> None then noteStaticUse k S (Some p) (sy_basedBase (S i)) ?p1 else Some ?p1) = Some p2"
      and r: "(if sy_definedBase (S i) \<noteq> None then noteStaticUse k S (Some p) (sy_definedBase (S i)) p2 else Some p2) = Some procs'"
      using Suc.prems(1) Some by (auto simp: Let_def split: option.splits)
    have k2: "uses_ok S p2 \<and> tree_ok p2 \<and> length p2 = length procs"
      using p2 Suc.IH [of "sy_basedBase (S i)" ?p1 p2] t1 u1 Suc.prems(4) len by (cases "sy_basedBase (S i) = None") simp_all
    show ?thesis
      using r Suc.IH [of "sy_definedBase (S i)" p2 procs'] k2 Suc.prems(4) by (cases "sy_definedBase (S i) = None") simp_all
  qed (use Suc.prems in simp)
qed simp

end
