(* ===== verification/ParseExpr.thy ===== *)
theory ParseExpr
  imports Fuel Lexer Constfold
begin

text \<open>
  The expression parser, \<^verbatim>\<open>src/parser.h\<close> and the section on rules (115) to (129) of \<^verbatim>\<open>src/parser.cpp\<close>: precedence climbing over
  the token list, prefix operators, powers, primaries and references, with the conversion of constants.  The
  parser object is the record \<open>pst\<close>.  The members call each other, so each takes the function that performs the
  calls (theory \<open>Fuel\<close>); the results are the node, \<^const>\<open>None\<close> for the null pointer, and the state.  \<^verbatim>\<open>strtod\<close> and the
  conversion to double are parameters.  A null argument, which is pushed only after a message, is left out of the list
  of arguments.
\<close>

section \<open>Constants\<close>

text \<open>\<^verbatim>\<open>strtoll\<close> in base 2 or 10, saturating.\<close>

definition strtoll :: "string \<Rightarrow> int \<Rightarrow> int" where
  "strtoll s base =
     (let r = dropWhile c_isspace s;
          neg = (r \<noteq> [] \<and> hd r = CHR ''-'');
          r1 = (if r \<noteq> [] \<and> (hd r = CHR ''-'' \<or> hd r = CHR ''+'') then tl r else r);
          ds = takeWhile (\<lambda>c. c_isdigit c \<and> int (digit_val c) < base) r1;
          v = foldl (\<lambda>v c. v * base + int (digit_val c)) 0 ds
      in max (- (2 ^ 63)) (min (2 ^ 63 - 1) (if neg then - v else v)))"

definition digit_word :: "char \<Rightarrow> 128 word" where
  "digit_word c = word_of_int (int (ucode c) - 48)"

definition parseIntConstant :: "string \<Rightarrow> int \<Rightarrow> expr_attrs \<Rightarrow> expr_attrs" where
  "parseIntConstant txt base e =
     e\<lparr>x_wideIval := foldl (\<lambda>v c. if \<not> c_isdigit c \<or> int (ucode c) - 48 \<ge> base then v
                                   else v * word_of_int base + digit_word c) 0 txt,
       x_ival := strtoll txt base\<rparr>"

definition all_digits :: "string \<Rightarrow> bool" where
  "all_digits s \<longleftrightarrow> s \<noteq> [] \<and> list_all c_isdigit s"

definition dec_word :: "128 word \<Rightarrow> string \<Rightarrow> 128 word" where
  "dec_word v s = foldl (\<lambda>v c. v * 10 + digit_word c) v s"

definition up_to_dot :: "string \<Rightarrow> string" where
  "up_to_dot s = takeWhile (\<lambda>c. c \<noteq> CHR ''.'') s"

definition after_dot :: "string \<Rightarrow> string" where
  "after_dot s = drop 1 (dropWhile (\<lambda>c. c \<noteq> CHR ''.'') s)"

text \<open>The updated node, or \<^const>\<open>None\<close> for the result \<^verbatim>\<open>false\<close>, which leaves the node alone.\<close>

definition parseSterlingConstant :: "string \<Rightarrow> expr_attrs \<Rightarrow> expr_attrs option" where
  "parseSterlingConstant txt e =
     (if CHR ''.'' \<notin> set txt then None
      else if CHR ''.'' \<notin> set (after_dot txt) then None
      else
        let poundsS = up_to_dot txt; shillS = up_to_dot (after_dot txt); penceS = after_dot (after_dot txt);
            d3 = (CHR ''.'' \<in> set penceS);
            penceIntS = up_to_dot penceS; penceFracS = (if d3 then after_dot penceS else [])
        in if \<not> all_digits poundsS \<or> \<not> all_digits shillS \<or> \<not> all_digits penceIntS \<or> (d3 \<and> \<not> all_digits penceFracS) then None
           else if length shillS > 2 \<or> length penceIntS > 2 \<or> length penceFracS > 38 then None
           else
             let shill = strtoll shillS 10; penceInt = strtoll penceIntS 10
             in if shill \<ge> 20 \<or> penceInt \<ge> 12 then None
                else
                  let scale = length penceFracS;
                      sig = dropWhile (\<lambda>c. c = CHR ''0'') poundsS;
                      poundsDigits = (if sig = [] then 1 else length sig)
                  in if poundsDigits + scale + 3 > 38 then None
                     else
                       let pounds = dec_word 0 poundsS; penceFrac = dec_word 0 penceFracS;
                           v0 = pounds * 240 + word_of_int shill * 12 + word_of_int penceInt;
                           value = ((\<lambda>v. v * 10) ^^ scale) v0 + penceFrac;
                           prec = constDigits_loop (native_mag value) 0
                       in if prec > 38 then None
                          else Some (e\<lparr>x_kind := EK_DecLit, x_wideIval := value, x_ival := native_to_i64 value,
                                       x_decScale := int scale, x_decPrec := prec\<rparr>))"

definition parseDecConstant :: "string \<Rightarrow> expr_attrs \<Rightarrow> expr_attrs" where
  "parseDecConstant txt e =
     (let intPart = up_to_dot txt; fracPart = (if CHR ''.'' \<in> set txt then after_dot txt else []);
          scaled = dec_word (dec_word 0 intPart) fracPart
      in e\<lparr>x_wideIval := scaled, x_ival := native_to_i64 scaled, x_decScale := int (length fracPart),
           x_decPrec := int (length intPart + length fracPart)\<rparr>)"

definition nibble :: "char \<Rightarrow> int" where
  "nibble c =
     (if in_range c CHR ''0'' CHR ''9'' then int (ucode c) - 48
      else if in_range c CHR ''A'' CHR ''F'' then int (ucode c) - 65 + 10
      else if in_range c CHR ''a'' CHR ''f'' then int (ucode c) - 97 + 10
      else - 1)"

text \<open>The pairs of digits; \<^const>\<open>None\<close> when a character is no digit.\<close>

fun hex_bytes :: "string \<Rightarrow> string option" where
  "hex_bytes (h # l # cs) =
     (if nibble h < 0 \<or> nibble l < 0 then None
      else map_option (\<lambda>bs. char_of (nat (nibble h * 16 + nibble l)) # bs) (hex_bytes cs))"
| "hex_bytes _ = Some []"

definition decodeHexLiteral :: "string \<Rightarrow> SourceLoc \<Rightarrow> Diags \<Rightarrow> string option \<times> Diags" where
  "decodeHexLiteral hex l d =
     (if length hex mod 2 \<noteq> 0 then (None, error d l ''a hex X literal needs an even digit count'' ''(143)'' [])
      else case hex_bytes hex of
        None \<Rightarrow> (None, error d l ''a hex X literal needs hex digits'' ''(143)'' [])
      | Some bs \<Rightarrow> (Some bs, d))"

section \<open>Operators\<close>

definition word_operators :: "(string \<times> Tok) list" where
  "word_operators = [(''AND'', Tok_Amp), (''OR'', Tok_Bar), (''CAT'', Tok_Concat), (''GT'', Tok_Gt), (''LT'', Tok_Lt),
     (''GE'', Tok_Ge), (''LE'', Tok_Le), (''NE'', Tok_Ne), (''NG'', Tok_Ngt), (''NL'', Tok_Nlt)]"

definition infixOp :: "Token \<Rightarrow> Tok" where
  "infixOp t =
     (if tk_kind t \<in> {Tok_Bar, Tok_Amp, Tok_Concat, Tok_Eq, Tok_Ne, Tok_Lt, Tok_Le, Tok_Gt, Tok_Ge, Tok_Ngt, Tok_Nlt,
        Tok_Plus, Tok_Minus, Tok_Star, Tok_Slash, Tok_Power} then tk_kind t
      else if tk_kind t = Tok_Word then
        (case map_of word_operators (tk_text t) of Some op \<Rightarrow> op | None \<Rightarrow> Tok_Eof)
      else Tok_Eof)"

fun precOf :: "Tok \<Rightarrow> int" where
  "precOf Tok_Bar = 1"
| "precOf Tok_Amp = 2"
| "precOf Tok_Eq = 3"
| "precOf Tok_Ne = 3"
| "precOf Tok_Lt = 3"
| "precOf Tok_Le = 3"
| "precOf Tok_Gt = 3"
| "precOf Tok_Ge = 3"
| "precOf Tok_Ngt = 3"
| "precOf Tok_Nlt = 3"
| "precOf Tok_Concat = 4"
| "precOf Tok_Plus = 5"
| "precOf Tok_Minus = 5"
| "precOf Tok_Star = 6"
| "precOf Tok_Slash = 6"
| "precOf _ = 0"

definition isEnquiryName :: "string \<Rightarrow> bool" where
  "isEnquiryName w \<longleftrightarrow> w = ''NULL'' \<or> w = ''DECLARESIZE'' \<or> w = ''EPSILON'' \<or> w = ''MAXVAL'' \<or> w = ''MINVAL''"

section \<open>The parser object\<close>

record pst =
  ps_t :: "Token list"
  ps_i :: nat
  ps_d :: Diags
  ps_exprDepth :: nat

definition p_cur :: "pst \<Rightarrow> Token" where "p_cur s = ps_t s ! ps_i s"

definition p_peek :: "pst \<Rightarrow> nat \<Rightarrow> Token" where
  "p_peek s n = (let j = ps_i s + n in if j < length (ps_t s) then ps_t s ! j else last (ps_t s))"

definition p_at :: "Tok \<Rightarrow> pst \<Rightarrow> bool" where "p_at k s \<longleftrightarrow> tk_kind (p_cur s) = k"

definition advance :: "pst \<Rightarrow> pst" where
  "advance s = (if ps_i s + 1 < length (ps_t s) then s\<lparr>ps_i := ps_i s + 1\<rparr> else s)"

definition p_error :: "SourceLoc \<Rightarrow> string \<Rightarrow> string \<Rightarrow> pst \<Rightarrow> pst" where
  "p_error l m r s = s\<lparr>ps_d := error (ps_d s) l m r []\<rparr>"

definition expect :: "Tok \<Rightarrow> string \<Rightarrow> pst \<Rightarrow> bool \<times> pst" where
  "expect k rule s =
     (if p_at k s then (True, advance s)
      else (False, p_error (tk_loc (p_cur s))
              (''expected '' @ tokName k @ '', found '' @
               (if p_at Tok_Word s then [QUOTE] @ tk_text (p_cur s) @ [QUOTE] else tokName (tk_kind (p_cur s)))) rule s))"

definition kMaxExprDepth :: nat where "kMaxExprDepth = 512"
definition kMaxReplicatedChars :: int where "kMaxReplicatedChars = 2 ^ 20"

text \<open>The floating-point conversions of the C library.\<close>

record float_lib =
  fl_strtod :: "string \<Rightarrow> 64 word"
  fl_double :: "int \<Rightarrow> 64 word"

definition leaf_node :: "expr_attrs \<Rightarrow> Expr" where "leaf_node x = Expr x None None None []"

section \<open>Primaries without sub-expressions\<close>

text \<open>A numeric constant at the current token.\<close>

definition number_node :: "float_lib \<Rightarrow> pst \<Rightarrow> Expr option \<times> pst" where
  "number_node fp s =
     (let t = p_cur s; e = default_expr\<lparr>x_loc := tk_loc t\<rparr>
      in if tk_sterling t then
           (case parseSterlingConstant (tk_text t) e of
              Some e1 \<Rightarrow> (Some (leaf_node e1), advance s)
            | None \<Rightarrow> (Some (leaf_node e), advance (p_error (tk_loc t) ''invalid sterling constant'' ''(145)'' s)))
         else if tk_imaginary t then
           (Some (leaf_node (e\<lparr>x_kind := EK_ComplexLit,
              x_fval := (if tk_isFloat t then fl_strtod fp (tk_text t)
                         else if tk_binaryRadix t then fl_double fp (strtoll (tk_text t) 2)
                         else fl_double fp (strtoll (tk_text t) 10))\<rparr>)), advance s)
         else if tk_isFloat t then
           (Some (leaf_node (if tk_hasExp t then e\<lparr>x_kind := EK_FltLit, x_fval := fl_strtod fp (tk_text t)\<rparr>
                             else parseDecConstant (tk_text t) (e\<lparr>x_kind := EK_DecLit\<rparr>))),
            advance (if tk_binaryRadix t
                     then p_error (tk_loc t) ''a binary radix suffix is not valid on a fractional constant'' ''(136)'' s else s))
         else
           (Some (leaf_node (parseIntConstant (tk_text t) (if tk_binaryRadix t then 2 else 10) (e\<lparr>x_kind := EK_IntLit\<rparr>))),
            advance s))"

definition is_replicated :: "pst \<Rightarrow> bool" where
  "is_replicated s \<longleftrightarrow>
     p_at Tok_LParen s \<and> tk_kind (p_peek s 1) = Tok_Number \<and> \<not> tk_isFloat (p_peek s 1) \<and> tk_kind (p_peek s 2) = Tok_RParen \<and>
     (tk_kind (p_peek s 3) = Tok_CharLit \<or> tk_kind (p_peek s 3) = Tok_BitLit \<or> tk_kind (p_peek s 3) = Tok_HexLit)"

text \<open>The replicated constant \<open>( n ) 'text'\<close>.\<close>

definition replicated_node :: "pst \<Rightarrow> Expr option \<times> pst" where
  "replicated_node s =
     (let e = default_expr\<lparr>x_loc := tk_loc (p_cur s)\<rparr>;
          s1 = advance s;
          count = strtoll (tk_text (p_cur s1)) 10;
          cl = tk_loc (p_cur s1);
          s3 = advance (advance s1);
          lit = p_cur s3;
          s4 = advance s3
      in if count < 0 \<or> count > kMaxReplicatedChars div int (max 1 (length (tk_sval lit))) then
           (Some (leaf_node (e\<lparr>x_kind := EK_CharLit, x_sval := []\<rparr>)),
            p_error cl ''a replicated string constant is too large'' ''(129)'' s4)
         else if tk_kind lit = Tok_HexLit then
           (case decodeHexLiteral (tk_sval lit) (tk_loc lit) (ps_d s4) of
              (None, d) \<Rightarrow> (Some (leaf_node e), s4\<lparr>ps_d := d\<rparr>)
            | (Some bs, d) \<Rightarrow>
                (Some (leaf_node (e\<lparr>x_kind := EK_CharLit, x_sval := concat (replicate (nat count) bs)\<rparr>)), s4\<lparr>ps_d := d\<rparr>))
         else
           (Some (leaf_node (e\<lparr>x_kind := (if tk_kind lit = Tok_CharLit then EK_CharLit else EK_BitLit),
                               x_sval := concat (replicate (nat count) (tk_sval lit))\<rparr>)), s4))"

definition string_node :: "ExprKind \<Rightarrow> pst \<Rightarrow> Expr option \<times> pst" where
  "string_node k s =
     (Some (leaf_node (default_expr\<lparr>x_loc := tk_loc (p_cur s), x_kind := k, x_sval := tk_sval (p_cur s)\<rparr>)), advance s)"

definition hex_node :: "pst \<Rightarrow> Expr option \<times> pst" where
  "hex_node s =
     (let e = default_expr\<lparr>x_loc := tk_loc (p_cur s)\<rparr>; s1 = advance s
      in case decodeHexLiteral (tk_sval (p_cur s)) (tk_loc (p_cur s)) (ps_d s1) of
        (None, d) \<Rightarrow> (Some (leaf_node e), s1\<lparr>ps_d := d\<rparr>)
      | (Some bs, d) \<Rightarrow> (Some (leaf_node (e\<lparr>x_kind := EK_CharLit, x_sval := bs\<rparr>)), s1\<lparr>ps_d := d\<rparr>))"

text \<open>The loop over \<open>.NAME\<close> qualifiers.\<close>

function path_loop :: "expr_attrs \<Rightarrow> pst \<Rightarrow> expr_attrs \<times> pst" where
  "path_loop b s =
     (if p_at Tok_Dot s then
        let s1 = advance s
        in if p_at Tok_Word s1 then path_loop (b\<lparr>x_path := x_path b @ [tk_text (p_cur s1)]\<rparr>) (advance s1)
           else (b, p_error (tk_loc (p_cur s1)) (''expected a member name after '' @ [QUOTE] @ ''.'' @ [QUOTE]) ''(124)'' s1)
      else (b, s))"
  by pat_completeness auto
termination
  by (relation "measure (\<lambda>(b, s). length (ps_t s) - ps_i s)")
    (auto simp: advance_def p_at_def p_cur_def split: if_splits)

declare path_loop.simps [simp del]

section \<open>The members that call each other\<close>

datatype xcall =
  X_Expr int
| X_Loop int Expr
| X_Unary
| X_Power
| X_Primary
| X_Basic
| X_Args expr_attrs "Expr list"
| X_Arrow Expr
| X_Tag expr_attrs string

type_synonym xres = "(Expr option \<times> pst) option"
type_synonym xrec = "xcall \<Rightarrow> pst \<Rightarrow> xres"

text \<open>\<open>DepthGuard\<close> counts the level for the rest of the member.\<close>

definition enter :: "pst \<Rightarrow> pst" where "enter s = s\<lparr>ps_exprDepth := ps_exprDepth s + 1\<rparr>"
definition leave :: "pst \<Rightarrow> pst" where "leave s = s\<lparr>ps_exprDepth := ps_exprDepth s - 1\<rparr>"

definition too_deep :: "string \<Rightarrow> pst \<Rightarrow> xres" where
  "too_deep rule s = Some (None, p_error (tk_loc (p_cur s)) ''expression nesting is too deep'' rule s)"

definition op_node :: "ExprKind \<Rightarrow> Tok \<Rightarrow> SourceLoc \<Rightarrow> Expr option \<Rightarrow> Expr option \<Rightarrow> Expr" where
  "op_node k op l a b = Expr (default_expr\<lparr>x_kind := k, x_op := op, x_loc := l\<rparr>) None a b []"

definition parseExpr :: "xrec \<Rightarrow> int \<Rightarrow> pst \<Rightarrow> xres" where
  "parseExpr rec minPrec s =
     (if ps_exprDepth s \<ge> kMaxExprDepth then too_deep ''(123)'' s
      else do {
        (lhs, s1) \<leftarrow> rec X_Unary (enter s);
        case lhs of
          None \<Rightarrow> Some (None, leave s1)
        | Some l \<Rightarrow> do { (r, s2) \<leftarrow> rec (X_Loop minPrec l) s1; Some (r, leave s2) } })"

definition infixLoop :: "xrec \<Rightarrow> int \<Rightarrow> Expr \<Rightarrow> pst \<Rightarrow> xres" where
  "infixLoop rec minPrec lhs s =
     (let op = infixOp (p_cur s); p = precOf op
      in if op = Tok_Eof \<or> p = 0 \<or> p < minPrec then Some (Some lhs, s)
         else do {
           (rhs, s1) \<leftarrow> rec (X_Expr (p + 1)) (advance s);
           case rhs of
             None \<Rightarrow> Some (None, s1)
           | Some r \<Rightarrow> rec (X_Loop minPrec (op_node EK_Binary op (tk_loc (p_cur s)) (Some lhs) (Some r))) s1 })"

definition at_prefix :: "pst \<Rightarrow> bool" where
  "at_prefix s \<longleftrightarrow>
     p_at Tok_Plus s \<or> p_at Tok_Minus s \<or> p_at Tok_Not s \<or>
     (p_at Tok_Word s \<and> tk_text (p_cur s) = ''NOT'' \<and>
      tk_kind (p_peek s 1) \<in> {Tok_Word, Tok_Number, Tok_LParen, Tok_CharLit, Tok_BitLit})"

definition parseUnaryE :: "xrec \<Rightarrow> pst \<Rightarrow> xres" where
  "parseUnaryE rec s =
     (if ps_exprDepth s \<ge> kMaxExprDepth then too_deep ''(122)'' s
      else if at_prefix s then
        let op = (if p_at Tok_Word s then Tok_Not else tk_kind (p_cur s))
        in do {
          (operand, s1) \<leftarrow> rec X_Unary (advance (enter s));
          case operand of
            None \<Rightarrow> Some (None, leave s1)
          | Some a \<Rightarrow>
              Some (Some (if op = Tok_Plus then a else op_node EK_Unary op (tk_loc (p_cur s)) (Some a) None), leave s1) }
      else do { (r, s1) \<leftarrow> rec X_Power (enter s); Some (r, leave s1) })"

definition parsePower :: "xrec \<Rightarrow> pst \<Rightarrow> xres" where
  "parsePower rec s =
     do {
       (base, s1) \<leftarrow> rec X_Primary s;
       case base of
         None \<Rightarrow> Some (None, s1)
       | Some a \<Rightarrow>
           if p_at Tok_Power s1 then do {
             (ex, s2) \<leftarrow> rec X_Unary (advance s1);
             case ex of
               None \<Rightarrow> Some (None, s2)
             | Some b \<Rightarrow> Some (Some (op_node EK_Binary Tok_Power (tk_loc (p_cur s1)) (Some a) (Some b)), s2) }
           else Some (Some a, s1) }"

definition parsePrimaryE :: "float_lib \<Rightarrow> xrec \<Rightarrow> pst \<Rightarrow> xres" where
  "parsePrimaryE fp rec s =
     (if is_replicated s then Some (replicated_node s)
      else if p_at Tok_LParen s then do {
        (inner, s1) \<leftarrow> rec (X_Expr 1) (advance s);
        Some (inner, snd (expect Tok_RParen ''(123)'' s1)) }
      else if p_at Tok_Number s then Some (number_node fp s)
      else if p_at Tok_CharLit s then Some (string_node EK_CharLit s)
      else if p_at Tok_HexLit s then Some (hex_node s)
      else if p_at Tok_BitLit s then Some (string_node EK_BitLit s)
      else if p_at Tok_Word s then do {
        (lhs, s1) \<leftarrow> rec X_Basic s;
        case lhs of None \<Rightarrow> Some (None, s1) | Some l \<Rightarrow> rec (X_Arrow l) s1 }
      else Some (None, p_error (tk_loc (p_cur s)) (''expected an expression, found '' @ tokName (tk_kind (p_cur s))) ''(123)'' s))"

text \<open>The locator qualifications \<open>-> X\<close>.\<close>

definition with_locator :: "Expr \<Rightarrow> Expr \<Rightarrow> Expr" where
  "with_locator l r = Expr (xa r) (Some l) (opa r) (opb r) (args r)"

definition arrowLoop :: "xrec \<Rightarrow> Expr \<Rightarrow> pst \<Rightarrow> xres" where
  "arrowLoop rec lhs s =
     (if p_at Tok_Arrow s then
        let s1 = advance s
        in if \<not> p_at Tok_Word s1 then
             Some (Some lhs, p_error (tk_loc (p_cur s1)) (''expected a based variable after '' @ [QUOTE] @ ''->'' @ [QUOTE]) ''(124)'' s1)
           else do {
             (rhs, s2) \<leftarrow> rec X_Basic s1;
             case rhs of
               None \<Rightarrow> Some (None, s2)
             | Some r \<Rightarrow> rec (X_Arrow (with_locator lhs r)) s2 }
      else Some (Some lhs, s))"

text \<open>A basic reference: the name and its qualifiers, the argument list, the qualifiers behind it.\<close>

definition parseBasic :: "xrec \<Rightarrow> pst \<Rightarrow> xres" where
  "parseBasic rec s =
     (let t = p_cur s;
          (b, s1) = path_loop (default_expr\<lparr>x_kind := EK_VarRef, x_loc := tk_loc t, x_name := tk_text t\<rparr>) (advance s)
      in if p_at Tok_LParen s1 then
           let b1 = b\<lparr>x_kind := EK_Call\<rparr>; s2 = advance s1
           in do {
             (r, s3) \<leftarrow> (if p_at Tok_RParen s2 then Some (Some (leaf_node b1), s2) else rec (X_Args b1 []) s2);
             case r of
               None \<Rightarrow> Some (None, s3)
             | Some e \<Rightarrow>
                 let (b2, s5) = path_loop (xa e) (snd (expect Tok_RParen ''(126)'' s3))
                 in Some (Some (Expr b2 None None None (args e)), s5) }
         else let (b2, s2) = path_loop b s1 in Some (Some (leaf_node b2), s2))"

text \<open>One argument: a star, a type designator of an enquiry function, or an expression.\<close>

definition argument :: "xrec \<Rightarrow> string \<Rightarrow> pst \<Rightarrow> xres" where
  "argument rec w s =
     (if p_at Tok_Star s then
        Some (Some (leaf_node (default_expr\<lparr>x_kind := EK_Star, x_loc := tk_loc (p_cur s)\<rparr>)), advance s)
      else if p_at Tok_Colon s \<and> isEnquiryName w then
        rec (X_Tag (default_expr\<lparr>x_kind := EK_TypeTag, x_loc := tk_loc (p_cur s)\<rparr>) []) (advance s)
      else rec (X_Expr 1) s)"

text \<open>The loop over the arguments; its result is the node with the arguments read.\<close>

definition argsLoop :: "xrec \<Rightarrow> expr_attrs \<Rightarrow> Expr list \<Rightarrow> pst \<Rightarrow> xres" where
  "argsLoop rec b as s =
     do {
       (a, s1) \<leftarrow> argument rec (x_name b) s;
       let as1 = (case a of None \<Rightarrow> as | Some e \<Rightarrow> as @ [e])
       in if p_at Tok_Comma s1 then rec (X_Args b as1) (advance s1)
          else Some (Some (Expr b None None None as1), s1) }"

definition typeDesignator :: "xrec \<Rightarrow> expr_attrs \<Rightarrow> string \<Rightarrow> pst \<Rightarrow> xres" where
  "typeDesignator rec t raw s =
     (if p_at Tok_Eof s \<or> p_at Tok_Semi s then
        Some (Some (leaf_node (t\<lparr>x_sval := raw\<rparr>)),
              p_error (tk_loc (p_cur s)) (''expected '' @ [QUOTE] @ '':'' @ [QUOTE] @ '' to close the type designator'') ''(126)'' s)
      else if p_at Tok_Colon s then Some (Some (leaf_node (t\<lparr>x_sval := raw\<rparr>)), advance s)
      else rec (X_Tag t (if tk_text (p_cur s) \<noteq> [] then (if raw \<noteq> [] then raw @ '' '' else raw) @ tk_text (p_cur s) else raw))
             (advance s))"

fun expr_body :: "float_lib \<Rightarrow> xrec \<Rightarrow> xcall \<Rightarrow> pst \<Rightarrow> xres" where
  "expr_body fp rec (X_Expr m) s = parseExpr rec m s"
| "expr_body fp rec (X_Loop m l) s = infixLoop rec m l s"
| "expr_body fp rec X_Unary s = parseUnaryE rec s"
| "expr_body fp rec X_Power s = parsePower rec s"
| "expr_body fp rec X_Primary s = parsePrimaryE fp rec s"
| "expr_body fp rec X_Basic s = parseBasic rec s"
| "expr_body fp rec (X_Args b as) s = argsLoop rec b as s"
| "expr_body fp rec (X_Arrow l) s = arrowLoop rec l s"
| "expr_body fp rec (X_Tag t raw) s = typeDesignator rec t raw s"

lemmas expr_defs = parseExpr_def infixLoop_def parseUnaryE_def parsePower_def parsePrimaryE_def parseBasic_def argsLoop_def argument_def
  arrowLoop_def typeDesignator_def

definition below :: "'a option \<Rightarrow> 'a option \<Rightarrow> bool" where
  "below r r' \<longleftrightarrow> (\<forall>v. r = Some v \<longrightarrow> r' = Some v)"

lemma below_intros:
  "below r r"
  "below r r' \<Longrightarrow> (\<And>a s. below (k a s) (k' a s)) \<Longrightarrow> below (r \<bind> (\<lambda>(a, s). k a s)) (r' \<bind> (\<lambda>(a, s). k' a s))"
  "below r1 r1' \<Longrightarrow> below r2 r2' \<Longrightarrow> below (if b then r1 else r2) (if b then r1' else r2')"
  "below r1 r1' \<Longrightarrow> (\<And>x. below (h x) (h' x)) \<Longrightarrow> below (case eo of None \<Rightarrow> r1 | Some x \<Rightarrow> h x) (case eo of None \<Rightarrow> r1' | Some x \<Rightarrow> h' x)"
  "(\<And>a s. below (q a s) (q' a s)) \<Longrightarrow> below (case p of (a, s) \<Rightarrow> q a s) (case p of (a, s) \<Rightarrow> q' a s)"
  by (auto simp: below_def bind_eq_Some_conv split: option.split prod.split)

interpretation ex: fuelled "expr_body fp" for fp
proof
  fix f g :: xrec and c s r
  assume a: "agrees f g" and b: "expr_body fp f c s = Some r"
  have ag: "below (f c s) (g c s)" for c s using a unfolding agrees_def below_def by blast
  have "below (expr_body fp f c s) (expr_body fp g c s)"
    by (cases c; simp only: expr_body.simps expr_defs Let_def; intro below_intros ag)
  with b show "expr_body fp g c s = Some r" by (simp add: below_def)
qed

end
