(* ===== verification/Grammar.thy ===== *)
theory Grammar
  imports ParseExpr
begin

text \<open>
  The expression grammar of rules (115) to (129) as an inductive relation between token lists and trees, and the
  parser of \<open>ParseExpr\<close> against it.  A relation is indexed with the nesting the parser has left; \<open>nm\<close> says which words
  may be names.
\<close>

section \<open>The grammar\<close>

text \<open>The node of a numeric token, when the token is well-formed.\<close>

definition number_value :: "float_lib \<Rightarrow> Token \<Rightarrow> Expr option" where
  "number_value fp t =
     (let e = default_expr\<lparr>x_loc := tk_loc t\<rparr>
      in if tk_sterling t then map_option leaf_node (parseSterlingConstant (tk_text t) e)
         else if tk_imaginary t then
           Some (leaf_node (e\<lparr>x_kind := EK_ComplexLit,
              x_fval := (if tk_isFloat t then fl_strtod fp (tk_text t)
                         else if tk_binaryRadix t then fl_double fp (strtoll (tk_text t) 2)
                         else fl_double fp (strtoll (tk_text t) 10))\<rparr>))
         else if tk_isFloat t then
           (if tk_binaryRadix t then None
            else Some (leaf_node (if tk_hasExp t then e\<lparr>x_kind := EK_FltLit, x_fval := fl_strtod fp (tk_text t)\<rparr>
                                  else parseDecConstant (tk_text t) (e\<lparr>x_kind := EK_DecLit\<rparr>))))
         else Some (leaf_node (parseIntConstant (tk_text t) (if tk_binaryRadix t then 2 else 10) (e\<lparr>x_kind := EK_IntLit\<rparr>))))"

definition string_leaf :: "Token \<Rightarrow> ExprKind \<Rightarrow> string \<Rightarrow> Expr" where
  "string_leaf t k v = leaf_node (default_expr\<lparr>x_loc := tk_loc t, x_kind := k, x_sval := v\<rparr>)"

text \<open>The text of a string token: the characters, or the bytes of an even number of hexadecimal digits.\<close>

definition string_text :: "Token \<Rightarrow> (ExprKind \<times> string) option" where
  "string_text t =
     (if tk_kind t = Tok_CharLit then Some (EK_CharLit, tk_sval t)
      else if tk_kind t = Tok_BitLit then Some (EK_BitLit, tk_sval t)
      else if tk_kind t = Tok_HexLit \<and> even (length (tk_sval t)) then map_option (Pair EK_CharLit) (hex_bytes (tk_sval t))
      else None)"

text \<open>Member qualifiers \<open>.A.B\<close>.\<close>

inductive path_g :: "Token list \<Rightarrow> string list \<Rightarrow> bool" where
  path_end: "path_g [] []"
| path_dot: "tk_kind d = Tok_Dot \<Longrightarrow> tk_kind w = Tok_Word \<Longrightarrow> path_g ts p \<Longrightarrow> path_g (d # w # ts) (tk_text w # p)"

text \<open>The text of a designator: the spellings, separated by blanks.\<close>

fun tag_text :: "string \<Rightarrow> Token list \<Rightarrow> string" where
  "tag_text raw [] = raw"
| "tag_text raw (t # ts) = tag_text (if tk_text t \<noteq> [] then (if raw \<noteq> [] then raw @ '' '' else raw) @ tk_text t else raw) ts"

definition tag_token :: "Token \<Rightarrow> bool" where
  "tag_token t \<longleftrightarrow> tk_kind t \<noteq> Tok_Eof \<and> tk_kind t \<noteq> Tok_Semi \<and> tk_kind t \<noteq> Tok_Colon"

definition ref_node :: "Token \<Rightarrow> ExprKind \<Rightarrow> string list \<Rightarrow> Expr list \<Rightarrow> Expr" where
  "ref_node w k p as = Expr (default_expr\<lparr>x_kind := k, x_loc := tk_loc w, x_name := tk_text w, x_path := p\<rparr>) None None None as"

definition prefix_operand :: "Token \<Rightarrow> bool" where
  "prefix_operand t \<longleftrightarrow> tk_kind t \<in> {Tok_Word, Tok_Number, Tok_LParen, Tok_CharLit, Tok_BitLit}"

inductive expr_g :: "float_lib \<Rightarrow> (string \<Rightarrow> bool) \<Rightarrow> nat \<Rightarrow> int \<Rightarrow> Token list \<Rightarrow> Expr \<Rightarrow> bool"
  and unary_g :: "float_lib \<Rightarrow> (string \<Rightarrow> bool) \<Rightarrow> nat \<Rightarrow> Token list \<Rightarrow> Expr \<Rightarrow> bool"
  and power_g :: "float_lib \<Rightarrow> (string \<Rightarrow> bool) \<Rightarrow> nat \<Rightarrow> Token list \<Rightarrow> Expr \<Rightarrow> bool"
  and prim_g :: "float_lib \<Rightarrow> (string \<Rightarrow> bool) \<Rightarrow> nat \<Rightarrow> Token list \<Rightarrow> Expr \<Rightarrow> bool"
  and ref_g :: "float_lib \<Rightarrow> (string \<Rightarrow> bool) \<Rightarrow> nat \<Rightarrow> Token list \<Rightarrow> Expr \<Rightarrow> bool"
  and basic_g :: "float_lib \<Rightarrow> (string \<Rightarrow> bool) \<Rightarrow> nat \<Rightarrow> Token list \<Rightarrow> Expr \<Rightarrow> bool"
  and args_g :: "float_lib \<Rightarrow> (string \<Rightarrow> bool) \<Rightarrow> nat \<Rightarrow> string \<Rightarrow> Token list \<Rightarrow> Expr list \<Rightarrow> bool"
  and arg_g :: "float_lib \<Rightarrow> (string \<Rightarrow> bool) \<Rightarrow> nat \<Rightarrow> string \<Rightarrow> Token list \<Rightarrow> Expr \<Rightarrow> bool"
for fp nm where
  operand: "unary_g fp nm n ts e \<Longrightarrow> expr_g fp nm (Suc n) p ts e"
| infix_operator: "expr_g fp nm (Suc n) q ts a \<Longrightarrow> q = precOf (infixOp t) \<Longrightarrow> 0 < q \<Longrightarrow> p \<le> q \<Longrightarrow> expr_g fp nm n (q + 1) us b \<Longrightarrow>
    expr_g fp nm (Suc n) p (ts @ t # us) (op_node EK_Binary (infixOp t) (tk_loc t) (Some a) (Some b))"
| plus: "tk_kind t = Tok_Plus \<Longrightarrow> unary_g fp nm n ts e \<Longrightarrow> unary_g fp nm (Suc n) (t # ts) e"
| prefix_operator: "tk_kind t = Tok_Minus \<or> tk_kind t = Tok_Not \<Longrightarrow> unary_g fp nm n ts e \<Longrightarrow>
    unary_g fp nm (Suc n) (t # ts) (op_node EK_Unary (tk_kind t) (tk_loc t) (Some e) None)"
| not_word: "tk_kind t = Tok_Word \<Longrightarrow> tk_text t = ''NOT'' \<Longrightarrow> prefix_operand (hd ts) \<Longrightarrow> unary_g fp nm n ts e \<Longrightarrow>
    unary_g fp nm (Suc n) (t # ts) (op_node EK_Unary Tok_Not (tk_loc t) (Some e) None)"
| no_prefix: "power_g fp nm n ts e \<Longrightarrow> unary_g fp nm (Suc n) ts e"
| no_power: "prim_g fp nm n ts e \<Longrightarrow> power_g fp nm n ts e"
| power: "prim_g fp nm n ts a \<Longrightarrow> tk_kind t = Tok_Power \<Longrightarrow> unary_g fp nm n us b \<Longrightarrow>
    power_g fp nm n (ts @ t # us) (op_node EK_Binary Tok_Power (tk_loc t) (Some a) (Some b))"
| parens: "tk_kind l = Tok_LParen \<Longrightarrow> tk_kind r = Tok_RParen \<Longrightarrow> expr_g fp nm n 1 ts e \<Longrightarrow> prim_g fp nm n (l # ts @ [r]) e"
| number: "tk_kind t = Tok_Number \<Longrightarrow> number_value fp t = Some e \<Longrightarrow> prim_g fp nm n [t] e"
| string: "string_text t = Some (k, v) \<Longrightarrow> prim_g fp nm n [t] (string_leaf t k v)"
| replicated: "tk_kind l = Tok_LParen \<Longrightarrow> tk_kind c = Tok_Number \<Longrightarrow> \<not> tk_isFloat c \<Longrightarrow> tk_kind r = Tok_RParen \<Longrightarrow>
    string_text t = Some (k, v) \<Longrightarrow> 0 \<le> strtoll (tk_text c) 10 \<Longrightarrow>
    strtoll (tk_text c) 10 \<le> kMaxReplicatedChars div int (max 1 (length (tk_sval t))) \<Longrightarrow>
    prim_g fp nm n [l, c, r, t] (string_leaf l k (concat (replicate (nat (strtoll (tk_text c) 10)) v)))"
| reference: "ref_g fp nm n ts e \<Longrightarrow> prim_g fp nm n ts e"
| basic: "basic_g fp nm n ts e \<Longrightarrow> ref_g fp nm n ts e"
| located: "ref_g fp nm n ts l \<Longrightarrow> tk_kind t = Tok_Arrow \<Longrightarrow> basic_g fp nm n us e \<Longrightarrow> ref_g fp nm n (ts @ t # us) (with_locator l e)"
| name: "tk_kind w = Tok_Word \<Longrightarrow> nm (tk_text w) \<Longrightarrow> path_g ts p \<Longrightarrow> basic_g fp nm n (w # ts) (ref_node w EK_VarRef p [])"
| no_args: "tk_kind w = Tok_Word \<Longrightarrow> nm (tk_text w) \<Longrightarrow> path_g ts p \<Longrightarrow> tk_kind l = Tok_LParen \<Longrightarrow> tk_kind r = Tok_RParen \<Longrightarrow> path_g us q \<Longrightarrow>
    basic_g fp nm n (w # ts @ l # r # us) (ref_node w EK_Call (p @ q) [])"
| call: "tk_kind w = Tok_Word \<Longrightarrow> nm (tk_text w) \<Longrightarrow> path_g ts p \<Longrightarrow> tk_kind l = Tok_LParen \<Longrightarrow> args_g fp nm n (tk_text w) vs as \<Longrightarrow>
    tk_kind r = Tok_RParen \<Longrightarrow> path_g us q \<Longrightarrow> basic_g fp nm n (w # ts @ l # vs @ r # us) (ref_node w EK_Call (p @ q) as)"
| last_arg: "arg_g fp nm n w ts a \<Longrightarrow> args_g fp nm n w ts [a]"
| more_args: "arg_g fp nm n w ts a \<Longrightarrow> tk_kind c = Tok_Comma \<Longrightarrow> args_g fp nm n w us as \<Longrightarrow> args_g fp nm n w (ts @ c # us) (a # as)"
| star: "tk_kind t = Tok_Star \<Longrightarrow> arg_g fp nm n w [t] (leaf_node (default_expr\<lparr>x_kind := EK_Star, x_loc := tk_loc t\<rparr>))"
| designator: "tk_kind c = Tok_Colon \<Longrightarrow> isEnquiryName w \<Longrightarrow> list_all tag_token ts \<Longrightarrow> tk_kind d = Tok_Colon \<Longrightarrow>
    arg_g fp nm n w (c # ts @ [d]) (leaf_node (default_expr\<lparr>x_kind := EK_TypeTag, x_loc := tk_loc c, x_sval := tag_text [] ts\<rparr>))"
| argument: "expr_g fp nm n 1 ts e \<Longrightarrow> arg_g fp nm n w ts e"

section \<open>The token stream\<close>

definition ready :: "pst \<Rightarrow> bool" where
  "ready s \<longleftrightarrow> ps_i s < length (ps_t s) \<and> tk_kind (last (ps_t s)) = Tok_Eof"

definition pending :: "pst \<Rightarrow> Token list" where "pending s = drop (ps_i s) (ps_t s)"

definition skip :: "nat \<Rightarrow> pst \<Rightarrow> pst" where "skip n s = s\<lparr>ps_i := ps_i s + n\<rparr>"

text \<open>The kind of the token after a piece of input.\<close>

abbreviation next_kind :: "Token list \<Rightarrow> Tok" where "next_kind ts \<equiv> tk_kind (hd ts)"

lemma rest_nonempty: "ready s \<Longrightarrow> pending s \<noteq> []"
  by (simp add: ready_def pending_def)

lemma cur_pending: "ready s \<Longrightarrow> p_cur s = hd (pending s)"
  by (simp add: ready_def pending_def p_cur_def hd_drop_conv_nth)

lemma at_rest: "ready s \<Longrightarrow> p_at k s \<longleftrightarrow> next_kind (pending s) = k"
  by (simp add: p_at_def cur_pending)

lemma last_rest: "ready s \<Longrightarrow> tk_kind (last (pending s)) = Tok_Eof"
  by (simp add: ready_def pending_def)

lemma rest_two: "ready s \<Longrightarrow> pending s = t # ts \<Longrightarrow> tk_kind t \<noteq> Tok_Eof \<Longrightarrow> ts \<noteq> []"
  using last_rest [of s] by auto

lemma rest_skip [simp]: "pending (skip n s) = drop n (pending s)"
  by (simp add: pending_def skip_def add.commute)

lemma skip_skip [simp]: "skip m (skip n s) = skip (n + m) s"
  by (simp add: skip_def)

lemma skip_0 [simp]: "skip 0 s = s"
  by (simp add: skip_def)

lemma skip_fields [simp]: "ps_d (skip n s) = ps_d s" "ps_exprDepth (skip n s) = ps_exprDepth s" "ps_t (skip n s) = ps_t s"
  by (simp_all add: skip_def)

lemma enter_leave [simp]:
  "leave (enter s) = s" "pending (enter s) = pending s" "pending (leave s) = pending s" "ready (enter s) \<longleftrightarrow> ready s" "ready (leave s) \<longleftrightarrow> ready s"
  "ps_d (enter s) = ps_d s" "ps_d (leave s) = ps_d s" "ps_exprDepth (enter s) = Suc (ps_exprDepth s)" "ps_t (enter s) = ps_t s"
  "ps_t (leave s) = ps_t s" "ps_exprDepth (leave s) = ps_exprDepth s - 1" "ps_i (enter s) = ps_i s" "ps_i (leave s) = ps_i s"
  "skip n (enter s) = enter (skip n s)" "leave (enter s) = s"
  by (simp_all add: enter_def leave_def pending_def ready_def skip_def)

lemma skip_leave: "skip n (leave s) = leave (skip n s)"
  by (simp add: leave_def skip_def)

lemma ready_skip: "ready s \<Longrightarrow> pending s = ts @ rs \<Longrightarrow> rs \<noteq> [] \<Longrightarrow> ready (skip (length ts) s)"
proof -
  assume r: "ready s" "pending s = ts @ rs" "rs \<noteq> []"
  then have "length (ts @ rs) = length (ps_t s) - ps_i s" by (metis length_drop pending_def)
  with r show ?thesis by (cases rs) (auto simp: ready_def skip_def)
qed

lemma ready_skip_one: "ready s \<Longrightarrow> next_kind (pending s) \<noteq> Tok_Eof \<Longrightarrow> ready (skip 1 s)"
proof -
  assume r: "ready s" "next_kind (pending s) \<noteq> Tok_Eof"
  obtain t ts where t: "pending s = t # ts" using rest_nonempty [OF r(1)] by (cases "pending s") auto
  then have "ts \<noteq> []" using rest_two [OF r(1) t] r(2) by simp
  then show ?thesis using ready_skip [of s "[t]" ts] r(1) t by simp
qed

lemma advance_skip: "ready s \<Longrightarrow> next_kind (pending s) \<noteq> Tok_Eof \<Longrightarrow> advance s = skip 1 s"
  using ready_skip_one [of s] by (auto simp: advance_def skip_def ready_def)

lemma advance_enter [simp]: "advance (enter s) = enter (advance s)"
  by (simp add: advance_def enter_def)

lemma peek_rest: "ready s \<Longrightarrow> n < length (pending s) \<Longrightarrow> p_peek s n = pending s ! n"
  by (auto simp: p_peek_def pending_def ready_def Let_def)

lemma rest_Cons_skip: "pending s = t # ts \<Longrightarrow> pending (skip 1 s) = ts"
  by simp

text \<open>Consuming one token that is not the last.\<close>

lemma eat_one:
  assumes "ready s" and "pending s = t # ts" and "tk_kind t \<noteq> Tok_Eof"
  shows "p_cur s = t" "advance s = skip 1 s" "ready (skip 1 s)" "pending (skip 1 s) = ts"
  using assms cur_pending [of s] advance_skip [of s] ready_skip_one [of s] by auto

section \<open>What every run does\<close>

text \<open>A run keeps the tokens and the depth, moves forward and loses no message.\<close>

definition forward :: "pst \<Rightarrow> pst \<Rightarrow> bool" where
  "forward s s' \<longleftrightarrow> ready s' \<and> ps_t s' = ps_t s \<and> ps_exprDepth s' = ps_exprDepth s \<and> ps_i s \<le> ps_i s' \<and> errs (ps_d s) \<le> errs (ps_d s')"

lemma forward_refl: "ready s \<Longrightarrow> forward s s"
  by (simp add: forward_def)

lemma forward_trans: "forward s t \<Longrightarrow> forward t u \<Longrightarrow> forward s u"
  by (auto simp: forward_def)

lemma forward_advance: "ready s \<Longrightarrow> forward s (advance s)"
  by (auto simp: forward_def advance_def ready_def)

lemma forward_error: "ready s \<Longrightarrow> forward s (p_error l m r s)"
  by (simp add: forward_def p_error_def ready_def)

lemma forward_leave: "forward (enter s) t \<Longrightarrow> forward s (leave t)"
  by (simp add: forward_def)

lemma forward_ready: "forward s t \<Longrightarrow> ready t"
  by (simp add: forward_def)

lemma forward_step: "forward s t \<Longrightarrow> forward s (advance t)" "forward s t \<Longrightarrow> forward s (p_error l m r t)"
  using forward_trans forward_advance forward_error forward_ready by blast+

lemma forward_expect: "forward s t \<Longrightarrow> forward s (snd (expect k r t))"
  by (auto simp: expect_def forward_step)

lemma forward_hex:
  "forward s t \<Longrightarrow> decodeHexLiteral h l (ps_d t) = (x, d) \<Longrightarrow> forward s (t\<lparr>ps_d := d\<rparr>)"
  by (auto simp: forward_def decodeHexLiteral_def ready_def split: if_splits option.splits)

lemma forward_number: "ready s \<Longrightarrow> forward s (snd (number_node fp s))"
  by (auto simp: number_node_def Let_def split: option.split intro!: forward_step forward_refl)

lemma forward_replicated: "ready s \<Longrightarrow> forward s (snd (replicated_node s))"
  by (auto simp: replicated_node_def Let_def split: option.split prod.split intro!: forward_step forward_refl elim!: forward_hex [rotated])

lemma forward_hex_node: "ready s \<Longrightarrow> forward s (snd (hex_node s))"
  by (auto simp: hex_node_def Let_def split: option.split prod.split intro!: forward_step forward_refl elim!: forward_hex [rotated])

lemma forward_path: "forward u s \<Longrightarrow> forward u (snd (path_loop b s))"
proof (induction b s rule: path_loop.induct)
  case (1 b s)
  then show ?case by (subst path_loop.simps) (auto simp: Let_def intro: forward_step)
qed

lemma forward_path_eq: "path_loop b s = (b', s') \<Longrightarrow> forward u s \<Longrightarrow> forward u s'"
  using forward_path [of u s b] by simp

section \<open>Inversion\<close>

text \<open>How each member reaches a result.\<close>

lemma parseExpr_cases:
  assumes "parseExpr rec m s = Some (r, s')"
  obtains (deep) "kMaxExprDepth \<le> ps_exprDepth s" "r = None" "s' = p_error (tk_loc (p_cur s)) ''expression nesting is too deep'' ''(123)'' s"
  | (null) s1 where "ps_exprDepth s < kMaxExprDepth" "rec X_Unary (enter s) = Some (None, s1)" "r = None" "s' = leave s1"
  | (loop) l s1 s2 where "ps_exprDepth s < kMaxExprDepth" "rec X_Unary (enter s) = Some (Some l, s1)"
      "rec (X_Loop m l) s1 = Some (r, s2)" "s' = leave s2"
proof (cases "kMaxExprDepth \<le> ps_exprDepth s")
  case False
  then obtain lo s1 where l: "rec X_Unary (enter s) = Some (lo, s1)"
    "(case lo of None \<Rightarrow> Some (None, leave s1) | Some l \<Rightarrow> do { (r, s2) \<leftarrow> rec (X_Loop m l) s1; Some (r, leave s2) }) = Some (r, s')"
    using assms by (auto simp: parseExpr_def bind_eq_Some_conv)
  then show ?thesis using False null loop by (cases lo) (auto simp: bind_eq_Some_conv)
qed (use assms deep in \<open>auto simp: parseExpr_def too_deep_def\<close>)

lemma infixLoop_cases:
  assumes "infixLoop rec m l s = Some (r, s')"
  obtains (stop) "precOf (infixOp (p_cur s)) = 0 \<or> precOf (infixOp (p_cur s)) < m" "r = Some l" "s' = s"
  | (null) "0 < precOf (infixOp (p_cur s))" "rec (X_Expr (precOf (infixOp (p_cur s)) + 1)) (advance s) = Some (None, s')" "r = None"
  | (step) b s1 where "0 < precOf (infixOp (p_cur s))" "m \<le> precOf (infixOp (p_cur s))"
      "rec (X_Expr (precOf (infixOp (p_cur s)) + 1)) (advance s) = Some (Some b, s1)"
      "rec (X_Loop m (op_node EK_Binary (infixOp (p_cur s)) (tk_loc (p_cur s)) (Some l) (Some b))) s1 = Some (r, s')"
proof (cases "infixOp (p_cur s) = Tok_Eof \<or> precOf (infixOp (p_cur s)) = 0 \<or> precOf (infixOp (p_cur s)) < m")
  case True
  then have "Some (Some l, s) = Some (r, s')" using assms by (simp add: infixLoop_def Let_def)
  moreover have "precOf (infixOp (p_cur s)) = 0 \<or> precOf (infixOp (p_cur s)) < m" using True by (elim disjE) simp_all
  ultimately show ?thesis by (intro stop) simp_all
next
  case False
  have pos: "0 \<le> precOf k" for k by (cases k) auto
  obtain bo s1 where l: "rec (X_Expr (precOf (infixOp (p_cur s)) + 1)) (advance s) = Some (bo, s1)"
    "(case bo of None \<Rightarrow> Some (None, s1) | Some b \<Rightarrow>
       rec (X_Loop m (op_node EK_Binary (infixOp (p_cur s)) (tk_loc (p_cur s)) (Some l) (Some b))) s1) = Some (r, s')"
    using assms False by (auto simp: infixLoop_def Let_def bind_eq_Some_conv)
  have "0 < precOf (infixOp (p_cur s))" "m \<le> precOf (infixOp (p_cur s))" using False pos [of "infixOp (p_cur s)"] by auto
  then show ?thesis using l null step by (cases bo) auto
qed

definition prefix_op :: "pst \<Rightarrow> Tok" where
  "prefix_op s = (if p_at Tok_Word s then Tok_Not else tk_kind (p_cur s))"

lemma parseUnary_cases:
  assumes "parseUnaryE rec s = Some (r, s')"
  obtains (deep) "kMaxExprDepth \<le> ps_exprDepth s" "r = None" "s' = p_error (tk_loc (p_cur s)) ''expression nesting is too deep'' ''(122)'' s"
  | (null) s1 where "at_prefix s" "rec X_Unary (advance (enter s)) = Some (None, s1)" "r = None" "s' = leave s1"
  | (prefix) a s1 where "ps_exprDepth s < kMaxExprDepth" "at_prefix s" "rec X_Unary (advance (enter s)) = Some (Some a, s1)" "s' = leave s1"
      "r = Some (if prefix_op s = Tok_Plus then a else op_node EK_Unary (prefix_op s) (tk_loc (p_cur s)) (Some a) None)"
  | (power) s1 where "ps_exprDepth s < kMaxExprDepth" "\<not> at_prefix s" "rec X_Power (enter s) = Some (r, s1)" "s' = leave s1"
proof (cases "kMaxExprDepth \<le> ps_exprDepth s")
  case False
  show ?thesis
  proof (cases "at_prefix s")
    case True
    then obtain ao s1 where l: "rec X_Unary (advance (enter s)) = Some (ao, s1)"
      "(case ao of None \<Rightarrow> Some (None, leave s1) | Some a \<Rightarrow>
         Some (Some (if prefix_op s = Tok_Plus then a else op_node EK_Unary (prefix_op s) (tk_loc (p_cur s)) (Some a) None), leave s1)) = Some (r, s')"
      using assms False unfolding parseUnaryE_def Let_def prefix_op_def [symmetric] by (auto simp: bind_eq_Some_conv simp del: advance_enter)
    then show ?thesis using True False null prefix by (cases ao) (auto simp del: advance_enter)
  next
    case notp: False
    then show ?thesis using assms False power by (auto simp: parseUnaryE_def bind_eq_Some_conv)
  qed
qed (use assms deep in \<open>auto simp: parseUnaryE_def too_deep_def\<close>)

lemma parsePower_cases:
  assumes "parsePower rec s = Some (r, s')"
  obtains (null) "rec X_Primary s = Some (None, s')" "r = None"
  | (plain) a where "rec X_Primary s = Some (Some a, s')" "\<not> p_at Tok_Power s'" "r = Some a"
  | (nullexp) a s1 where "rec X_Primary s = Some (Some a, s1)" "rec X_Unary (advance s1) = Some (None, s')" "r = None"
  | (power) a s1 b where "rec X_Primary s = Some (Some a, s1)" "p_at Tok_Power s1" "rec X_Unary (advance s1) = Some (Some b, s')"
      "r = Some (op_node EK_Binary Tok_Power (tk_loc (p_cur s1)) (Some a) (Some b))"
proof -
  obtain ao s1 where l: "rec X_Primary s = Some (ao, s1)"
    "(case ao of None \<Rightarrow> Some (None, s1) | Some a \<Rightarrow>
       if p_at Tok_Power s1 then do {
         (ex, s2) \<leftarrow> rec X_Unary (advance s1);
         case ex of None \<Rightarrow> Some (None, s2)
         | Some b \<Rightarrow> Some (Some (op_node EK_Binary Tok_Power (tk_loc (p_cur s1)) (Some a) (Some b)), s2) }
       else Some (Some a, s1)) = Some (r, s')"
    using assms by (auto simp: parsePower_def bind_eq_Some_conv)
  show ?thesis
  proof (cases ao)
    case (Some a)
    show ?thesis
    proof (cases "p_at Tok_Power s1")
      case True
      then obtain bo s2 where "rec X_Unary (advance s1) = Some (bo, s2)"
        "(case bo of None \<Rightarrow> Some (None, s2) | Some b \<Rightarrow> Some (Some (op_node EK_Binary Tok_Power (tk_loc (p_cur s1)) (Some a) (Some b)), s2)) = Some (r, s')"
        using l(2) Some by (auto simp: bind_eq_Some_conv)
      then show ?thesis using l(1) Some True nullexp power by (cases bo) auto
    qed (use l Some plain in auto)
  qed (use l null in auto)
qed

lemma arrowLoop_cases:
  assumes "arrowLoop rec l s = Some (r, s')"
  obtains (stop) "\<not> p_at Tok_Arrow s" "r = Some l" "s' = s"
  | (bad) "p_at Tok_Arrow s" "\<not> p_at Tok_Word (advance s)" "r = Some l"
      "s' = p_error (tk_loc (p_cur (advance s))) (''expected a based variable after '' @ [QUOTE] @ ''->'' @ [QUOTE]) ''(124)'' (advance s)"
  | (null) "p_at Tok_Word (advance s)" "rec X_Basic (advance s) = Some (None, s')" "r = None"
  | (step) e s1 where "p_at Tok_Arrow s" "p_at Tok_Word (advance s)" "rec X_Basic (advance s) = Some (Some e, s1)"
      "rec (X_Arrow (with_locator l e)) s1 = Some (r, s')"
proof -
  show ?thesis
  proof (cases "p_at Tok_Arrow s \<and> p_at Tok_Word (advance s)")
    case True
    then obtain eo s1 where "rec X_Basic (advance s) = Some (eo, s1)"
      "(case eo of None \<Rightarrow> Some (None, s1) | Some e \<Rightarrow> rec (X_Arrow (with_locator l e)) s1) = Some (r, s')"
      using assms by (auto simp: arrowLoop_def Let_def bind_eq_Some_conv)
    then show ?thesis using True null step by (cases eo) auto
  qed (use assms stop bad in \<open>auto simp: arrowLoop_def Let_def split: if_splits\<close>)
qed

lemma argsLoop_cases:
  assumes "argsLoop rec b as s = Some (r, s')"
  obtains ao s1 where
    "argument rec (x_name b) s = Some (ao, s1)"
    "if p_at Tok_Comma s1 then rec (X_Args b (case ao of None \<Rightarrow> as | Some e \<Rightarrow> as @ [e])) (advance s1) = Some (r, s')
     else r = Some (Expr b None None None (case ao of None \<Rightarrow> as | Some e \<Rightarrow> as @ [e])) \<and> s' = s1"
proof -
  from assms obtain ao s1 where
    1: "argument rec (x_name b) s = Some (ao, s1)"
    and 2: "(let as1 = (case ao of None \<Rightarrow> as | Some e \<Rightarrow> as @ [e])
       in if p_at Tok_Comma s1 then rec (X_Args b as1) (advance s1) else Some (Some (Expr b None None None as1), s1)) = Some (r, s')"
    unfolding argsLoop_def bind_eq_Some_conv by fastforce
  from 2 show ?thesis by (intro that [OF 1]) (auto simp: Let_def split: if_splits)
qed

definition name_attrs :: "Token \<Rightarrow> expr_attrs" where
  "name_attrs t = default_expr\<lparr>x_kind := EK_VarRef, x_loc := tk_loc t, x_name := tk_text t\<rparr>"

lemma parseBasic_cases:
  assumes "parseBasic rec s = Some (r, s')"
  obtains (plain) b s1 where "path_loop (name_attrs (p_cur s)) (advance s) = (b, s1)" "\<not> p_at Tok_LParen s1"
      "r = Some (leaf_node (fst (path_loop b s1)))" "s' = snd (path_loop b s1)"
  | (null) b s1 where "path_loop (name_attrs (p_cur s)) (advance s) = (b, s1)"
      "rec (X_Args (b\<lparr>x_kind := EK_Call\<rparr>) []) (advance s1) = Some (None, s')" "r = None"
  | (call) b s1 e s3 where "path_loop (name_attrs (p_cur s)) (advance s) = (b, s1)" "p_at Tok_LParen s1"
      "(if p_at Tok_RParen (advance s1) then Some (Some (leaf_node (b\<lparr>x_kind := EK_Call\<rparr>)), advance s1)
        else rec (X_Args (b\<lparr>x_kind := EK_Call\<rparr>) []) (advance s1)) = Some (Some e, s3)"
      "r = Some (Expr (fst (path_loop (xa e) (snd (expect Tok_RParen ''(126)'' s3)))) None None None (args e))"
      "s' = snd (path_loop (xa e) (snd (expect Tok_RParen ''(126)'' s3)))"
proof -
  obtain b s1 where p: "path_loop (name_attrs (p_cur s)) (advance s) = (b, s1)" by (metis surj_pair)
  show ?thesis
  proof (cases "p_at Tok_LParen s1")
    case True
    then obtain eo s3 where
      "(if p_at Tok_RParen (advance s1) then Some (Some (leaf_node (b\<lparr>x_kind := EK_Call\<rparr>)), advance s1)
        else rec (X_Args (b\<lparr>x_kind := EK_Call\<rparr>) []) (advance s1)) = Some (eo, s3)"
      "(case eo of None \<Rightarrow> Some (None, s3) | Some e \<Rightarrow>
         let (b2, s5) = path_loop (xa e) (snd (expect Tok_RParen ''(126)'' s3)) in Some (Some (Expr b2 None None None (args e)), s5)) = Some (r, s')"
      using assms p unfolding parseBasic_def name_attrs_def Let_def by (auto simp: bind_eq_Some_conv)
    then show ?thesis using p True null call by (cases eo) (auto simp: Let_def split: prod.splits if_splits)
  next
    case False
    then show ?thesis using assms p plain unfolding parseBasic_def name_attrs_def Let_def by (auto split: prod.splits)
  qed
qed

section \<open>Every run goes forward\<close>

lemma run_forward: "run_fuel (expr_body fp) k c s = Some (r, s') \<Longrightarrow> ready s \<Longrightarrow> forward s s'"
proof (induction k arbitrary: c s r s')
  case (Suc k)
  have IH: "run_fuel (expr_body fp) k c t = Some (r, t') \<Longrightarrow> forward s t \<Longrightarrow> forward s t'" for c s t r t'
    using Suc.IH forward_trans forward_ready by blast
  have IHe: "run_fuel (expr_body fp) k c t = Some (r, t') \<Longrightarrow> forward (enter s) t \<Longrightarrow> forward s (leave t')" for c s t r t'
    using IH forward_leave by blast
  note fs = forward_refl [OF Suc.prems(2)] forward_refl [of "enter s"] forward_advance [of "enter s"]
  have rs: "ready (enter s)" using Suc.prems(2) by simp
  show ?case
  proof (cases c)
    case (X_Expr m)
    then have "parseExpr (run_fuel (expr_body fp) k) m s = Some (r, s')" using Suc.prems(1) by simp
    then show ?thesis using fs(2) [OF rs] fs(1) by (cases rule: parseExpr_cases) (auto intro: forward_step IHe dest: IH)
  next
    case (X_Loop m l)
    then have "infixLoop (run_fuel (expr_body fp) k) m l s = Some (r, s')" using Suc.prems(1) by simp
    then show ?thesis using fs(1) by (cases rule: infixLoop_cases) (blast intro: forward_step IH)+
  next
    case X_Unary
    then have "parseUnaryE (run_fuel (expr_body fp) k) s = Some (r, s')" using Suc.prems(1) by simp
    then show ?thesis using fs(2, 3) [OF rs] fs(1) by (cases rule: parseUnary_cases) (auto intro: forward_step IHe simp del: advance_enter)
  next
    case X_Power
    then have "parsePower (run_fuel (expr_body fp) k) s = Some (r, s')" using Suc.prems(1) by simp
    then show ?thesis using fs(1) by (cases rule: parsePower_cases) (blast intro: forward_step IH)+
  next
    case X_Primary
    then show ?thesis using Suc.prems fs(1) forward_number [of s fp] forward_replicated [of s] forward_hex_node [of s]
      by (auto simp: parsePrimaryE_def string_node_def bind_eq_Some_conv split: if_splits option.splits
          intro: forward_step IH forward_expect)
  next
    case X_Basic
    then have "parseBasic (run_fuel (expr_body fp) k) s = Some (r, s')" using Suc.prems(1) by simp
    then show ?thesis
    proof (cases rule: parseBasic_cases)
      case (plain b s1)
      then show ?thesis using fs(1) by (auto intro: forward_path forward_path_eq forward_step)
    next
      case (null b s1)
      then show ?thesis using fs(1) by (blast intro: forward_path_eq forward_step IH)
    next
      case (call b s1 e s3)
      then have "forward s s1" using fs(1) by (blast intro: forward_path_eq forward_step)
      then have "forward s s3" using call(3) by (auto split: if_splits intro: forward_step IH)
      then show ?thesis using call(5) by (auto intro: forward_path forward_expect)
    qed
  next
    case (X_Args b as)
    then have "argsLoop (run_fuel (expr_body fp) k) b as s = Some (r, s')" using Suc.prems(1) by simp
    then show ?thesis using fs(1)
    proof (cases rule: argsLoop_cases)
      case (1 ao s1)
      then have "forward s s1" using fs(1) by (auto simp: argument_def split: if_splits intro: forward_step IH)
      then show ?thesis using 1(2) by (auto split: if_splits intro: forward_step IH)
    qed
  next
    case (X_Arrow l)
    then have "arrowLoop (run_fuel (expr_body fp) k) l s = Some (r, s')" using Suc.prems(1) by simp
    then show ?thesis using fs(1) by (cases rule: arrowLoop_cases) (blast intro: forward_step IH)+
  next
    case (X_Tag t raw)
    then show ?thesis using Suc.prems fs(1)
      by (auto simp: typeDesignator_def bind_eq_Some_conv split: if_splits option.splits intro: forward_step IH)
  qed
qed simp

section \<open>Shapes of derivable token lists\<close>

definition starts_expr :: "Token list \<Rightarrow> bool" where
  "starts_expr ts \<longleftrightarrow> ts \<noteq> [] \<and>
     next_kind ts \<in> {Tok_Plus, Tok_Minus, Tok_Not, Tok_Word, Tok_Number, Tok_LParen, Tok_CharLit, Tok_BitLit, Tok_HexLit}"

lemma starts_expr_append [simp]: "starts_expr ts \<Longrightarrow> starts_expr (ts @ us)"
  by (auto simp: starts_expr_def)

lemma starts_expr_Cons [simp]:
  "starts_expr (t # ts) \<longleftrightarrow>
     tk_kind t \<in> {Tok_Plus, Tok_Minus, Tok_Not, Tok_Word, Tok_Number, Tok_LParen, Tok_CharLit, Tok_BitLit, Tok_HexLit}"
  by (simp add: starts_expr_def)

lemma string_text_kind: "string_text t = Some v \<Longrightarrow> tk_kind t \<in> {Tok_CharLit, Tok_BitLit, Tok_HexLit}"
  by (auto simp: string_text_def split: if_splits)

lemmas grammar_inducts = expr_g_unary_g_power_g_prim_g_ref_g_basic_g_args_g_arg_g.inducts

lemma starts:
  "expr_g fp nm n p ts e \<Longrightarrow> starts_expr ts"
  "unary_g fp nm n ts e \<Longrightarrow> starts_expr ts"
  "power_g fp nm n ts e \<Longrightarrow> starts_expr ts"
  "prim_g fp nm n ts e \<Longrightarrow> starts_expr ts"
  "ref_g fp nm n ts e \<Longrightarrow> ts \<noteq> [] \<and> next_kind ts = Tok_Word"
  "basic_g fp nm n ts e \<Longrightarrow> ts \<noteq> [] \<and> next_kind ts = Tok_Word"
  "args_g fp nm n w ts as \<Longrightarrow> ts \<noteq> []"
  "arg_g fp nm n w ts e \<Longrightarrow> ts \<noteq> []"
  by (induction rule: grammar_inducts) (auto simp: starts_expr_def dest: string_text_kind)

definition starts_prim :: "(string \<Rightarrow> bool) \<Rightarrow> Token list \<Rightarrow> bool" where
  "starts_prim nm ts \<longleftrightarrow> ts \<noteq> [] \<and>
     (next_kind ts = Tok_Word \<and> nm (tk_text (hd ts)) \<or>
      next_kind ts \<in> {Tok_Number, Tok_LParen, Tok_CharLit, Tok_BitLit, Tok_HexLit})"

lemma starts_prim_append [simp]: "starts_prim nm ts \<Longrightarrow> starts_prim nm (ts @ us)"
  by (auto simp: starts_prim_def)

lemma primary_starts:
  "expr_g fp nm n p ts e \<Longrightarrow> True"
  "unary_g fp nm n ts e \<Longrightarrow> True"
  "power_g fp nm n ts e \<Longrightarrow> starts_prim nm ts"
  "prim_g fp nm n ts e \<Longrightarrow> starts_prim nm ts"
  "ref_g fp nm n ts e \<Longrightarrow> starts_prim nm ts"
  "basic_g fp nm n ts e \<Longrightarrow> starts_prim nm ts"
  "args_g fp nm n w ts as \<Longrightarrow> True"
  "arg_g fp nm n w ts e \<Longrightarrow> True"
  by (induction rule: grammar_inducts) (auto simp: starts_prim_def dest: string_text_kind)

text \<open>After a leading number comes an operator.\<close>

definition number_then :: "Token list \<Rightarrow> bool" where
  "number_then ts \<longleftrightarrow> next_kind ts = Tok_Number \<longrightarrow>
     tl ts = [] \<or> 0 < precOf (infixOp (hd (tl ts))) \<or> next_kind (tl ts) = Tok_Power"

lemma number_then_append: "ts \<noteq> [] \<Longrightarrow> number_then ts \<Longrightarrow> 0 < precOf (infixOp t) \<or> tk_kind t = Tok_Power \<Longrightarrow> number_then (ts @ t # us)"
  by (cases ts; cases "tl ts") (auto simp: number_then_def)

lemma number_then_other: "next_kind ts \<noteq> Tok_Number \<Longrightarrow> number_then ts"
  by (simp add: number_then_def)

lemma numbers:
  "expr_g fp nm n p ts e \<Longrightarrow> number_then ts"
  "unary_g fp nm n ts e \<Longrightarrow> number_then ts"
  "power_g fp nm n ts e \<Longrightarrow> number_then ts"
  "prim_g fp nm n ts e \<Longrightarrow> number_then ts"
  "ref_g fp nm n ts e \<Longrightarrow> True"
  "basic_g fp nm n ts e \<Longrightarrow> True"
  "args_g fp nm n w ts as \<Longrightarrow> True"
  "arg_g fp nm n w ts e \<Longrightarrow> True"
proof (induction rule: grammar_inducts)
  case (infix_operator n q ts a t p us b)
  then show ?case using starts(1) starts_expr_def number_then_append by metis
next
  case (power n ts a t us b)
  then show ?case using starts(4) starts_expr_def number_then_append by metis
next
  case (reference n ts e)
  then have "next_kind ts = Tok_Word" using starts(5) by blast
  then show ?case by (intro number_then_other) simp
next
  case (number t e n)
  then show ?case by (simp add: number_then_def)
next
  case (string t k v n)
  then show ?case by (simp add: number_then_def)
qed (simp_all add: number_then_other, auto simp: number_then_other)

definition after_basic :: "Token list \<Rightarrow> bool" where
  "after_basic rs \<longleftrightarrow> rs \<noteq> [] \<and> next_kind rs \<notin> {Tok_LParen, Tok_Dot}"

definition after_prim :: "Token list \<Rightarrow> bool" where
  "after_prim rs \<longleftrightarrow> after_basic rs \<and> next_kind rs \<notin> {Tok_Arrow, Tok_CharLit, Tok_BitLit, Tok_HexLit}"

definition after_power :: "Token list \<Rightarrow> bool" where
  "after_power rs \<longleftrightarrow> after_prim rs \<and> next_kind rs \<noteq> Tok_Power"

lemmas after_defs = after_power_def after_prim_def after_basic_def

lemma operator_follows: "0 < precOf (infixOp t) \<Longrightarrow> after_power (t # ts)"
  by (auto simp: after_defs infixOp_def)

lemma operator_not_eof: "0 < precOf (infixOp t) \<Longrightarrow> tk_kind t \<noteq> Tok_Eof"
  by (auto simp: infixOp_def)

lemma kind_follows: "tk_kind t \<in> {Tok_RParen, Tok_Comma} \<Longrightarrow> after_power (t # ts) \<and> precOf (infixOp t) = 0"
  by (auto simp: after_defs infixOp_def)

end
