(* ===== verification/GrammarComplete.thy ===== *)
theory GrammarComplete
  imports Grammar
begin

text \<open>
  Derivable input is parsed: for each phrase of the grammar a predicate says what the parser makes of its tokens, whatever
  follows them; a lemma per rule shows that the rule keeps it, and rule induction puts them together.
\<close>

section \<open>Derivable input is parsed\<close>

abbreviation evals :: "float_lib \<Rightarrow> xcall \<Rightarrow> pst \<Rightarrow> Expr option \<times> pst \<Rightarrow> bool" where
  "evals fp \<equiv> ex.evals fp"

lemma path_parsed:
  "path_g ts p \<Longrightarrow> ready s \<Longrightarrow> pending s = ts @ rs \<Longrightarrow> rs \<noteq> [] \<Longrightarrow> next_kind rs \<noteq> Tok_Dot \<Longrightarrow>
   path_loop b s = (b\<lparr>x_path := x_path b @ p\<rparr>, skip (length ts) s)"
proof (induction arbitrary: s b rule: path_g.induct)
  case path_end
  then have "\<not> p_at Tok_Dot s" by (simp add: at_rest)
  then show ?case by (subst path_loop.simps) simp
next
  case (path_dot d w ts p)
  note one = eat_one [OF path_dot.prems(1), of d "w # ts @ rs"]
  note two = eat_one [of "skip 1 s" w "ts @ rs"]
  have "p_at Tok_Dot s" "advance s = skip 1 s" "ready (skip 1 s)" "pending (skip 1 s) = w # ts @ rs"
    using one path_dot by (simp_all add: at_rest)
  moreover from this have "p_at Tok_Word (skip 1 s)" "p_cur (skip 1 s) = w" "advance (skip 1 s) = skip 2 s" "ready (skip 2 s)"
    "pending (skip 2 s) = ts @ rs" using two path_dot.hyps by (simp_all add: at_rest numeral_2_eq_2)
  ultimately show ?case
    using path_dot.IH [of "skip 2 s" "b\<lparr>x_path := x_path b @ [tk_text w]\<rparr>"] path_dot.prems
    by (subst path_loop.simps) (simp add: Let_def)
qed

lemma tag_parsed:
  "ready s \<Longrightarrow> pending s = ts @ d # rs \<Longrightarrow> rs \<noteq> [] \<Longrightarrow> list_all tag_token ts \<Longrightarrow> tk_kind d = Tok_Colon \<Longrightarrow>
   evals fp (X_Tag t raw) s (Some (leaf_node (t\<lparr>x_sval := tag_text raw ts\<rparr>)), skip (Suc (length ts)) s)"
proof (induction ts arbitrary: s raw)
  case Nil
  then have "p_at Tok_Colon s" "advance s = skip 1 s" using eat_one [of s d rs] by (simp_all add: at_rest)
  then show ?case by (intro ex.evals_step0) (simp add: typeDesignator_def p_at_def)
next
  case (Cons u us)
  then have u: "advance s = skip 1 s" "ready (skip 1 s)" "pending (skip 1 s) = us @ d # rs" "p_cur s = u"
    "\<not> p_at Tok_Eof s" "\<not> p_at Tok_Semi s" "\<not> p_at Tok_Colon s"
    using eat_one [of s u "us @ d # rs"] by (simp_all add: at_rest tag_token_def)
  define raw' where "raw' = (if tk_text u \<noteq> [] then (if raw \<noteq> [] then raw @ '' '' else raw) @ tk_text u else raw)"
  have "evals fp (X_Tag t raw') (skip 1 s) (Some (leaf_node (t\<lparr>x_sval := tag_text raw' us\<rparr>)), skip (Suc (length us)) (skip 1 s))"
    using Cons.prems by (intro Cons.IH u) simp_all
  moreover have "expr_body fp f (X_Tag t raw) s = f (X_Tag t raw') (skip 1 s)" for f
    using u by (simp add: typeDesignator_def raw'_def)
  moreover have "tag_text raw (u # us) = tag_text raw' us" by (simp add: raw'_def)
  ultimately show ?case by (elim ex.evals_step1) simp
qed

lemma loop_stops: "precOf (infixOp (p_cur s)) < m \<or> precOf (infixOp (p_cur s)) = 0 \<Longrightarrow> evals fp (X_Loop m e) s (Some e, s)"
  by (intro ex.evals_step0) (auto simp: infixLoop_def Let_def)

section \<open>The input of a phrase\<close>

text \<open>The parser stands before \<open>ts\<close>, which \<open>rs\<close> follows, with \<open>n\<close> levels of nesting left.\<close>

definition at_phrase :: "nat \<Rightarrow> Token list \<Rightarrow> Token list \<Rightarrow> pst \<Rightarrow> bool" where
  "at_phrase n ts rs s \<longleftrightarrow> ready s \<and> pending s = ts @ rs \<and> ps_exprDepth s + n = kMaxExprDepth"

lemma input_left: "at_phrase n (ts @ us) rs s \<Longrightarrow> at_phrase n ts (us @ rs) s"
  by (simp add: at_phrase_def)

lemma input_right: "at_phrase n (ts @ us) rs s \<Longrightarrow> us @ rs \<noteq> [] \<Longrightarrow> at_phrase n us rs (skip (length ts) s)"
  using ready_skip [of s ts "us @ rs"] by (auto simp: at_phrase_def)

lemma input_enter: "at_phrase (Suc n) ts rs s \<Longrightarrow> at_phrase n ts rs (enter s)"
  by (simp add: at_phrase_def)

lemma input_one:
  assumes "at_phrase n (t # ts) rs s" and "tk_kind t \<noteq> Tok_Eof"
  shows "p_cur s = t" "advance s = skip 1 s" "at_phrase n ts rs (skip 1 s)"
  using eat_one [of s t "ts @ rs"] assms by (simp_all add: at_phrase_def)

lemma input_at: "at_phrase n (t # ts) rs s \<Longrightarrow> p_at k s \<longleftrightarrow> tk_kind t = k"
  using at_rest [of s] by (simp add: at_phrase_def)

lemma input_cur: "at_phrase n (t # ts) rs s \<Longrightarrow> p_cur s = t"
  using cur_pending [of s] by (simp add: at_phrase_def)

lemma input_next: "at_phrase n [] rs s \<Longrightarrow> p_cur s = hd rs \<and> (p_at k s \<longleftrightarrow> next_kind rs = k)"
  using at_rest [of s] cur_pending [of s] by (simp add: at_phrase_def)

lemma input_after: "at_phrase n ts rs s \<Longrightarrow> rs \<noteq> [] \<Longrightarrow> at_phrase n [] rs (skip (length ts) s)"
  using input_right [of n ts "[]" rs s] by simp

lemma input_room: "at_phrase (Suc n) ts rs s \<Longrightarrow> \<not> kMaxExprDepth \<le> ps_exprDepth s"
  by (simp add: at_phrase_def)

section \<open>What the parser makes of each phrase\<close>

text \<open>The loops of an expression and of a locator chain continue behind the phrase, so these two say what a run does when its
  continuation gives a result.\<close>

definition expr_ok :: "float_lib \<Rightarrow> nat \<Rightarrow> int \<Rightarrow> Token list \<Rightarrow> Expr \<Rightarrow> bool" where
  "expr_ok fp n p ts e \<longleftrightarrow> (\<forall>s rs m r. at_phrase n ts rs s \<longrightarrow> after_power rs \<longrightarrow> precOf (infixOp (hd rs)) \<le> p \<longrightarrow> m \<le> p \<longrightarrow>
     evals fp (X_Loop m e) (enter (skip (length ts) s)) r \<longrightarrow> evals fp (X_Expr m) s (fst r, leave (snd r)))"

definition unary_ok :: "float_lib \<Rightarrow> nat \<Rightarrow> Token list \<Rightarrow> Expr \<Rightarrow> bool" where
  "unary_ok fp n ts e \<longleftrightarrow> (\<forall>s rs. at_phrase n ts rs s \<longrightarrow> after_power rs \<longrightarrow> evals fp X_Unary s (Some e, skip (length ts) s))"

definition power_ok :: "float_lib \<Rightarrow> nat \<Rightarrow> Token list \<Rightarrow> Expr \<Rightarrow> bool" where
  "power_ok fp n ts e \<longleftrightarrow> (\<forall>s rs. at_phrase n ts rs s \<longrightarrow> after_power rs \<longrightarrow> evals fp X_Power s (Some e, skip (length ts) s))"

definition prim_ok :: "float_lib \<Rightarrow> nat \<Rightarrow> Token list \<Rightarrow> Expr \<Rightarrow> bool" where
  "prim_ok fp n ts e \<longleftrightarrow> (\<forall>s rs. at_phrase n ts rs s \<longrightarrow> after_prim rs \<longrightarrow> evals fp X_Primary s (Some e, skip (length ts) s))"

definition ref_ok :: "float_lib \<Rightarrow> nat \<Rightarrow> Token list \<Rightarrow> Expr \<Rightarrow> bool" where
  "ref_ok fp n ts e \<longleftrightarrow> (\<forall>s rs r. at_phrase n ts rs s \<longrightarrow> after_basic rs \<longrightarrow>
     evals fp (X_Arrow e) (skip (length ts) s) r \<longrightarrow> evals fp X_Primary s r)"

definition basic_ok :: "float_lib \<Rightarrow> nat \<Rightarrow> Token list \<Rightarrow> Expr \<Rightarrow> bool" where
  "basic_ok fp n ts e \<longleftrightarrow> (\<forall>s rs. at_phrase n ts rs s \<longrightarrow> after_basic rs \<longrightarrow> evals fp X_Basic s (Some e, skip (length ts) s))"

definition args_ok :: "float_lib \<Rightarrow> nat \<Rightarrow> string \<Rightarrow> Token list \<Rightarrow> Expr list \<Rightarrow> bool" where
  "args_ok fp n w ts as \<longleftrightarrow> (\<forall>s rs b as0. at_phrase n ts rs s \<longrightarrow> rs \<noteq> [] \<longrightarrow> next_kind rs = Tok_RParen \<longrightarrow> x_name b = w \<longrightarrow>
     evals fp (X_Args b as0) s (Some (Expr b None None None (as0 @ as)), skip (length ts) s))"

definition arg_ok :: "float_lib \<Rightarrow> nat \<Rightarrow> string \<Rightarrow> Token list \<Rightarrow> Expr \<Rightarrow> bool" where
  "arg_ok fp n w ts e \<longleftrightarrow> (\<forall>s rs. at_phrase n ts rs s \<longrightarrow> rs \<noteq> [] \<longrightarrow> next_kind rs \<in> {Tok_Comma, Tok_RParen} \<longrightarrow>
     (\<exists>c t v. evals fp c t v \<and> (\<forall>f. f c t = Some v \<longrightarrow> argument f w s = Some (Some e, skip (length ts) s))))"

lemma args_okD:
  "args_ok fp n w ts as \<Longrightarrow> at_phrase n ts rs s \<Longrightarrow> rs \<noteq> [] \<Longrightarrow> next_kind rs = Tok_RParen \<Longrightarrow> x_name b = w \<Longrightarrow>
   evals fp (X_Args b as0) s (Some (Expr b None None None (as0 @ as)), skip (length ts) s)"
  unfolding args_ok_def by blast

lemma arg_okE:
  assumes "arg_ok fp n w ts e" and "at_phrase n ts rs s" and "rs \<noteq> []" and "next_kind rs = Tok_Comma \<or> next_kind rs = Tok_RParen"
  obtains c t v where "evals fp c t v" "\<And>f. f c t = Some v \<Longrightarrow> argument f w s = Some (Some e, skip (length ts) s)"
  using assms unfolding arg_ok_def by blast

text \<open>A whole expression: nothing behind it continues it.\<close>

lemma expr_okD:
  assumes "expr_ok fp n p ts e" and "at_phrase n ts rs s" and "after_power rs" and "precOf (infixOp (hd rs)) < p \<or> precOf (infixOp (hd rs)) = 0 \<and> 0 \<le> p"
  shows "evals fp (X_Expr p) s (Some e, skip (length ts) s)"
proof -
  have "p_cur (enter (skip (length ts) s)) = hd rs"
    using input_next [OF input_after [OF assms(2)]] assms(3) by (simp add: after_defs enter_def p_cur_def)
  then have "evals fp (X_Loop p e) (enter (skip (length ts) s)) (Some e, enter (skip (length ts) s))"
    using assms(4) by (intro loop_stops) auto
  moreover have "precOf (infixOp (hd rs)) \<le> p" using assms(4) by auto
  ultimately show ?thesis using assms(1-3) unfolding expr_ok_def by fastforce
qed

lemma operand_ok:
  assumes "unary_ok fp n ts e"
  shows "expr_ok fp (Suc n) p ts e"
  unfolding expr_ok_def
proof (intro allI impI)
  fix s rs m r
  assume i: "at_phrase (Suc n) ts rs s" and "after_power rs" and l: "evals fp (X_Loop m e) (enter (skip (length ts) s)) r"
  then have u: "evals fp X_Unary (enter s) (Some e, enter (skip (length ts) s))"
    using assms input_enter [OF i] unfolding unary_ok_def by fastforce
  show "evals fp (X_Expr m) s (fst r, leave (snd r))"
    using input_room [OF i] by (intro ex.evals_step2 [OF u l]) (auto simp: parseExpr_def split: prod.splits)
qed

lemma infix_ok:
  assumes "expr_ok fp (Suc n) q ts a" and "q = precOf (infixOp t)" and "0 < q" and "p \<le> q" and "expr_ok fp n (q + 1) us b"
  shows "expr_ok fp (Suc n) p (ts @ t # us) (op_node EK_Binary (infixOp t) (tk_loc t) (Some a) (Some b))"
  unfolding expr_ok_def
proof (intro allI impI)
  fix s rs m r
  let ?s1 = "enter (skip (length ts) s)"
  assume i: "at_phrase (Suc n) (ts @ t # us) rs s" and f: "after_power rs" and q: "precOf (infixOp (hd rs)) \<le> p" "m \<le> p"
    and l: "evals fp (X_Loop m (op_node EK_Binary (infixOp t) (tk_loc t) (Some a) (Some b))) (enter (skip (length (ts @ t # us)) s)) r"
  have "at_phrase n (t # us) rs ?s1" using input_enter [OF input_right [OF i]] by simp
  from input_one [OF this operator_not_eof] have s1: "p_cur ?s1 = t" "advance ?s1 = skip 1 ?s1" "at_phrase n us rs (skip 1 ?s1)"
    using assms(2, 3) by simp_all
  have b: "evals fp (X_Expr (q + 1)) (skip 1 ?s1) (Some b, skip (length us) (skip 1 ?s1))"
    using assms(4) q by (intro expr_okD [OF assms(5) s1(3) f]) auto
  have l2: "evals fp (X_Loop m (op_node EK_Binary (infixOp t) (tk_loc t) (Some a) (Some b))) (skip (length us) (skip 1 ?s1)) r"
    using l by (simp add: add.assoc)
  have "evals fp (X_Loop m a) ?s1 r"
    using s1 assms(2-4) q by (intro ex.evals_step2 [OF b l2]) (auto simp: infixLoop_def Let_def)
  then show "evals fp (X_Expr m) s (fst r, leave (snd r))"
    using assms(1-4) q input_left [OF i] operator_follows [of t "us @ rs"] unfolding expr_ok_def by fastforce
qed

text \<open>A prefix operator: the operand is read one level deeper.\<close>

lemma prefix_step:
  assumes "unary_ok fp n ts e" and "at_phrase (Suc n) (t # ts) rs s" and "after_power rs" and "tk_kind t \<noteq> Tok_Eof" and "at_prefix s"
  shows "evals fp X_Unary s
    (Some (if prefix_op s = Tok_Plus then e else op_node EK_Unary (prefix_op s) (tk_loc t) (Some e) None), skip (length (t # ts)) s)"
proof -
  note one = input_one [OF input_enter [OF assms(2)] assms(4)]
  have "evals fp X_Unary (skip 1 (enter s)) (Some e, skip (length ts) (skip 1 (enter s)))"
    using assms(1, 3) one(3) unfolding unary_ok_def by blast
  moreover have "p_cur s = t" using input_cur [OF assms(2)] .
  ultimately show ?thesis
    using input_room [OF assms(2)] one(2) assms(5)
    by (elim ex.evals_step1) (simp add: parseUnaryE_def prefix_op_def Let_def)
qed

lemma sign_prefix:
  assumes "at_phrase n (t # ts) rs s" and "tk_kind t \<in> {Tok_Plus, Tok_Minus, Tok_Not}"
  shows "at_prefix s" "prefix_op s = tk_kind t"
  using input_at [OF assms(1)] input_cur [OF assms(1)] assms(2) by (auto simp: at_prefix_def prefix_op_def)

lemma not_prefix:
  assumes "at_phrase n (t # ts) rs s" and "tk_kind t = Tok_Word" and "tk_text t = ''NOT''" and "ts \<noteq> []" and "prefix_operand (hd ts)"
  shows "at_prefix s" "prefix_op s = Tok_Not"
proof -
  have "p_peek s 1 = hd ts" using assms(1, 4) peek_rest [of s 1] by (cases ts) (auto simp: at_phrase_def)
  then show "at_prefix s" "prefix_op s = Tok_Not"
    using input_at [OF assms(1)] input_cur [OF assms(1)] assms(2, 3, 5) by (auto simp: at_prefix_def prefix_op_def prefix_operand_def)
qed

lemma plus_ok: "tk_kind t = Tok_Plus \<Longrightarrow> unary_ok fp n ts e \<Longrightarrow> unary_ok fp (Suc n) (t # ts) e"
  unfolding unary_ok_def [of _ "Suc n"] using prefix_step [of fp n ts e t] sign_prefix [of "Suc n" t ts] by fastforce

lemma prefix_ok:
  "tk_kind t = Tok_Minus \<or> tk_kind t = Tok_Not \<Longrightarrow> unary_ok fp n ts e \<Longrightarrow>
   unary_ok fp (Suc n) (t # ts) (op_node EK_Unary (tk_kind t) (tk_loc t) (Some e) None)"
  unfolding unary_ok_def [of _ "Suc n"] using prefix_step [of fp n ts e t] sign_prefix [of "Suc n" t ts] by fastforce

lemma not_ok:
  "tk_kind t = Tok_Word \<Longrightarrow> tk_text t = ''NOT'' \<Longrightarrow> ts \<noteq> [] \<Longrightarrow> prefix_operand (hd ts) \<Longrightarrow> unary_ok fp n ts e \<Longrightarrow>
   unary_ok fp (Suc n) (t # ts) (op_node EK_Unary Tok_Not (tk_loc t) (Some e) None)"
  unfolding unary_ok_def [of _ "Suc n"] using prefix_step [of fp n ts e t] not_prefix [of "Suc n" t ts] by fastforce

lemma no_prefix_ok:
  assumes "power_ok fp n ts e" and "starts_prim nm ts" and "\<not> nm ''NOT''"
  shows "unary_ok fp (Suc n) ts e"
  unfolding unary_ok_def
proof (intro allI impI)
  fix s rs
  assume i: "at_phrase (Suc n) ts rs s" and f: "after_power rs"
  from i f have "evals fp X_Power (enter s) (Some e, enter (skip (length ts) s))"
    using assms(1) input_enter [OF i] unfolding power_ok_def by fastforce
  moreover obtain t us where ts: "ts = t # us" using assms(2) by (cases ts) (auto simp: starts_prim_def)
  moreover have "\<not> at_prefix s"
    using assms(2, 3) input_at [OF i [unfolded ts]] input_cur [OF i [unfolded ts]] ts by (auto simp: at_prefix_def starts_prim_def)
  ultimately show "evals fp X_Unary s (Some e, skip (length ts) s)"
    using input_room [OF i] by (elim ex.evals_step1) (simp add: parseUnaryE_def)
qed

lemma no_power_ok: "prim_ok fp n ts e \<Longrightarrow> power_ok fp n ts e"
  unfolding power_ok_def
proof (intro allI impI)
  fix s rs
  assume p: "prim_ok fp n ts e" and i: "at_phrase n ts rs s" and f: "after_power rs"
  have "evals fp X_Primary s (Some e, skip (length ts) s)" using p i f unfolding prim_ok_def after_power_def by blast
  moreover have "\<not> p_at Tok_Power (skip (length ts) s)" using input_next [OF input_after [OF i]] f by (simp add: after_defs)
  ultimately show "evals fp X_Power s (Some e, skip (length ts) s)" by (elim ex.evals_step1) (simp add: parsePower_def)
qed

lemma power_operator_ok:
  assumes "prim_ok fp n ts a" and "tk_kind t = Tok_Power" and "unary_ok fp n us b"
  shows "power_ok fp n (ts @ t # us) (op_node EK_Binary Tok_Power (tk_loc t) (Some a) (Some b))"
  unfolding power_ok_def
proof (intro allI impI)
  fix s rs
  assume i: "at_phrase n (ts @ t # us) rs s" and f: "after_power rs"
  have "after_prim (t # us @ rs)" using assms(2) by (simp add: after_defs)
  then have a: "evals fp X_Primary s (Some a, skip (length ts) s)"
    using assms(1) input_left [OF i] unfolding prim_ok_def by fastforce
  have j: "at_phrase n (t # us) rs (skip (length ts) s)" using input_right [OF i] by simp
  note one = input_one [OF j]
  have b: "evals fp X_Unary (skip 1 (skip (length ts) s)) (Some b, skip (length us) (skip 1 (skip (length ts) s)))"
    using assms(2, 3) one(3) f unfolding unary_ok_def by fastforce
  show "evals fp X_Power s (Some (op_node EK_Binary Tok_Power (tk_loc t) (Some a) (Some b)), skip (length (ts @ t # us)) s)"
    using one(1, 2) assms(2) input_at [OF j] by (intro ex.evals_step2 [OF a b]) (simp add: parsePower_def)
qed

lemma number_parsed:
  assumes "at_phrase n [t] rs s" and "tk_kind t = Tok_Number" and "number_value fp t = Some e"
  shows "number_node fp s = (Some e, skip 1 s)"
  using assms(3) input_one [OF assms(1)] assms(2)
  by (auto simp: number_node_def number_value_def Let_def split: if_splits option.splits)

lemma not_replicated: "\<not> p_at Tok_LParen s \<Longrightarrow> \<not> is_replicated s"
  by (simp add: is_replicated_def)

lemma primary_leaf:
  assumes "at_phrase n (t # ts) rs s" and "tk_kind t = k" and "k \<in> {Tok_Number, Tok_CharLit, Tok_HexLit, Tok_BitLit}"
  shows "parsePrimaryE fp rec s =
    Some (if k = Tok_Number then number_node fp s else if k = Tok_CharLit then string_node EK_CharLit s
          else if k = Tok_HexLit then hex_node s else string_node EK_BitLit s)"
  using input_at [OF assms(1)] assms(2, 3) by (auto simp: parsePrimaryE_def is_replicated_def)

lemma number_ok: "tk_kind t = Tok_Number \<Longrightarrow> number_value fp t = Some e \<Longrightarrow> prim_ok fp n [t] e"
  unfolding prim_ok_def by (auto intro!: ex.evals_step0 simp: primary_leaf number_parsed)

lemma hex_decoded: "even (length h) \<Longrightarrow> hex_bytes h = Some bs \<Longrightarrow> decodeHexLiteral h l d = (Some bs, d)"
  by (simp add: decodeHexLiteral_def)

lemma string_parsed:
  assumes "at_phrase n [t] rs s" and "string_text t = Some (k, v)"
  shows "parsePrimaryE fp rec s = Some (Some (string_leaf t k v), skip 1 s)"
proof -
  have "tk_kind t \<noteq> Tok_Eof" using string_text_kind [OF assms(2)] by auto
  note one = input_one [OF assms(1) this]
  show ?thesis
    using assms(2) one primary_leaf [OF assms(1), of "tk_kind t" fp rec]
    by (auto simp: string_text_def string_node_def hex_node_def hex_decoded string_leaf_def Let_def split: if_splits)
qed

lemma string_ok: "string_text t = Some (k, v) \<Longrightarrow> prim_ok fp n [t] (string_leaf t k v)"
  unfolding prim_ok_def by (auto intro!: ex.evals_step0 simp: string_parsed)

lemma peek_input: "at_phrase n ts rs s \<Longrightarrow> k < length (ts @ rs) \<Longrightarrow> p_peek s k = (ts @ rs) ! k"
  using peek_rest [of s k] by (simp add: at_phrase_def)

lemma replicated_parsed:
  assumes "at_phrase n [l, c, r, t] rs s" and "tk_kind l = Tok_LParen" and "tk_kind c = Tok_Number" and "tk_kind r = Tok_RParen"
    and "string_text t = Some (k, v)" and "0 \<le> strtoll (tk_text c) 10"
    and "strtoll (tk_text c) 10 \<le> kMaxReplicatedChars div int (max 1 (length (tk_sval t)))"
  shows "replicated_node s = (Some (string_leaf l k (concat (replicate (nat (strtoll (tk_text c) 10)) v))), skip 4 s)"
proof -
  have t: "tk_kind t \<noteq> Tok_Eof" using string_text_kind [OF assms(5)] by auto
  note one = input_one [OF assms(1)] note two = input_one [OF one(3)] note three = input_one [OF two(3)]
  note four = input_one [OF three(3)]
  have s: "advance s = skip 1 s" "advance (skip 1 s) = skip 2 s" "advance (skip 2 s) = skip 3 s" "advance (skip 3 s) = skip 4 s"
    "p_cur s = l" "p_cur (skip 1 s) = c" "p_cur (skip 3 s) = t"
    using one two three four assms(2-4) t by (simp_all add: eval_nat_numeral)
  show ?thesis
    using assms(5-7) s
    by (auto simp: replicated_node_def string_text_def hex_decoded string_leaf_def Let_def split: if_splits)
qed

lemma replicated_ok:
  assumes "tk_kind l = Tok_LParen" and "tk_kind c = Tok_Number" and "\<not> tk_isFloat c" and "tk_kind r = Tok_RParen"
    and "string_text t = Some (k, v)" and "0 \<le> strtoll (tk_text c) 10"
    and "strtoll (tk_text c) 10 \<le> kMaxReplicatedChars div int (max 1 (length (tk_sval t)))"
  shows "prim_ok fp n [l, c, r, t] (string_leaf l k (concat (replicate (nat (strtoll (tk_text c) 10)) v)))"
  unfolding prim_ok_def
proof (intro allI impI)
  fix s rs
  assume i: "at_phrase n [l, c, r, t] rs s" and "after_prim rs"
  have "is_replicated s"
    using input_at [OF i, of Tok_LParen] peek_input [OF i, of 1] peek_input [OF i, of 2] peek_input [OF i, of 3]
      assms(1-4) string_text_kind [OF assms(5)] by (simp add: is_replicated_def)
  then show "evals fp X_Primary s (Some (string_leaf l k (concat (replicate (nat (strtoll (tk_text c) 10)) v))), skip (length [l, c, r, t]) s)"
    using replicated_parsed [OF i assms(1, 2, 4-7)] by (intro ex.evals_step0) (simp add: parsePrimaryE_def eval_nat_numeral)
qed

lemma parenthesised_not_replicated:
  assumes "at_phrase n (l # ts @ [r]) rs s" and "tk_kind r = Tok_RParen" and "number_then ts" and "starts_expr ts" and "after_prim rs"
  shows "\<not> is_replicated s"
proof (cases ts)
  case (Cons x us)
  show ?thesis
  proof (cases us)
    case Nil
    then have "p_peek s 3 = hd rs"
      using peek_input [OF assms(1), of 3] assms(5) Cons by (cases rs) (auto simp: after_defs eval_nat_numeral)
    then show ?thesis using assms(5) by (auto simp: is_replicated_def after_defs)
  next
    case more: (Cons y vs)
    then have "p_peek s 1 = x" "p_peek s 2 = y"
      using peek_input [OF assms(1), of 1] peek_input [OF assms(1), of 2] Cons by (simp_all add: eval_nat_numeral)
    then show ?thesis using assms(3) Cons more by (auto simp: is_replicated_def number_then_def infixOp_def)
  qed
qed (use assms(4) in \<open>simp add: starts_expr_def\<close>)

lemma parens_ok:
  assumes "tk_kind l = Tok_LParen" and "tk_kind r = Tok_RParen" and "expr_ok fp n 1 ts e" and "number_then ts" and "starts_expr ts"
  shows "prim_ok fp n (l # ts @ [r]) e"
  unfolding prim_ok_def
proof (intro allI impI)
  fix s rs
  assume i: "at_phrase n (l # ts @ [r]) rs s" and f: "after_prim rs"
  have nr: "\<not> is_replicated s" by (rule parenthesised_not_replicated [OF i assms(2, 4, 5) f])
  note one = input_one [OF i]
  have j: "at_phrase n (ts @ [r]) rs (skip 1 s)" using one(3) assms(1) by simp
  have "after_power ([r] @ rs)" "precOf (infixOp (hd ([r] @ rs))) = 0" using kind_follows [of r rs] assms(2) by auto
  then have e: "evals fp (X_Expr 1) (skip 1 s) (Some e, skip (length ts) (skip 1 s))"
    by (intro expr_okD [OF assms(3) input_left [OF j]]) simp_all
  have k: "at_phrase n [r] rs (skip (length ts) (skip 1 s))" using input_right [OF j] by simp
  have "snd (expect Tok_RParen ''(123)'' (skip (length ts) (skip 1 s))) = skip (length (l # ts @ [r])) s"
    using input_one [OF k] input_at [OF k] assms(2) by (simp add: expect_def)
  with e show "evals fp X_Primary s (Some e, skip (length (l # ts @ [r])) s)"
    using one(2) input_at [OF i] assms(1) nr by (elim ex.evals_step1) (simp add: parsePrimaryE_def)
qed

section \<open>References\<close>

lemma path_input: "path_g ts p \<Longrightarrow> at_phrase n (ts @ us) rs s \<Longrightarrow> us @ rs \<noteq> [] \<Longrightarrow> next_kind (us @ rs) \<noteq> Tok_Dot \<Longrightarrow>
   path_loop b s = (b\<lparr>x_path := x_path b @ p\<rparr>, skip (length ts) s)"
  using path_parsed [of ts p s "us @ rs" b] by (simp add: at_phrase_def)

lemma path_none: "at_phrase n (t # ts) rs s \<Longrightarrow> tk_kind t \<noteq> Tok_Dot \<Longrightarrow> path_loop b s = (b, s)"
  using input_at [of n t ts rs s] by (subst path_loop.simps) simp

lemma name_ok:
  assumes "tk_kind w = Tok_Word" and "path_g ts p"
  shows "basic_ok fp n (w # ts) (ref_node w EK_VarRef p [])"
  unfolding basic_ok_def
proof (intro allI impI)
  fix s rs
  assume i: "at_phrase n (w # ts) rs s" and f: "after_basic rs"
  note one = input_one [OF i]
  have j: "at_phrase n (ts @ []) rs (skip 1 s)" using one(3) assms(1) by simp
  have p: "path_loop b (skip 1 s) = (b\<lparr>x_path := x_path b @ p\<rparr>, skip (length (w # ts)) s)" for b
    using path_input [OF assms(2) j] f by (auto simp: after_basic_def)
  have k: "at_phrase n [] rs (skip (length (w # ts)) s)" using input_after [OF i] f by (simp add: after_basic_def)
  have "path_loop b (skip (length (w # ts)) s) = (b, skip (length (w # ts)) s)" for b
    using input_next [OF k] f by (subst path_loop.simps) (simp add: after_basic_def)
  then show "evals fp X_Basic s (Some (ref_node w EK_VarRef p []), skip (length (w # ts)) s)"
    using p one(1, 2) assms(1) input_next [OF k] f
    by (intro ex.evals_step0) (simp add: parseBasic_def Let_def after_basic_def ref_node_def leaf_node_def default_expr_def)
qed

text \<open>The shape of a call: the name with its qualifiers, the parenthesis, the arguments, the qualifiers behind.\<close>

lemma call_shape:
  assumes "at_phrase n (w # ts @ l # vs @ r # us) rs s" and "after_basic rs"
    and "tk_kind w = Tok_Word" and "path_g ts p" and "tk_kind l = Tok_LParen" and "tk_kind r = Tok_RParen" and "path_g us q"
  obtains s1 where "p_cur s = w" "path_loop b (advance s) = (b\<lparr>x_path := x_path b @ p\<rparr>, s1)" "p_at Tok_LParen s1" "advance s1 = skip 1 s1"
    "at_phrase n (vs @ [r]) (us @ rs) (skip 1 s1)" "p_at Tok_RParen (skip (length vs) (skip 1 s1))"
    "path_loop b2 (snd (expect Tok_RParen ''(126)'' (skip (length vs) (skip 1 s1)))) =
       (b2\<lparr>x_path := x_path b2 @ q\<rparr>, skip (length (w # ts @ l # vs @ r # us)) s)"
proof
  let ?s1 = "skip (Suc (length ts)) s"
  note one = input_one [OF assms(1)]
  show "p_cur s = w" using one(1) assms(3) by simp
  have a: "at_phrase n (ts @ l # vs @ r # us) rs (skip 1 s)" using one(3) assms(3) by simp
  show "path_loop b (advance s) = (b\<lparr>x_path := x_path b @ p\<rparr>, ?s1)"
    using path_input [OF assms(4) a, of b] one(2) assms(3, 5) by simp
  have b: "at_phrase n (l # vs @ r # us) rs ?s1" using input_right [OF a] by simp
  note two = input_one [OF b]
  show "p_at Tok_LParen ?s1" using input_at [OF b] assms(5) by simp
  show "advance ?s1 = skip 1 ?s1" using two(2) assms(5) by simp
  have c: "at_phrase n ((vs @ [r]) @ us) rs (skip 1 ?s1)" using two(3) assms(5) by simp
  show "at_phrase n (vs @ [r]) (us @ rs) (skip 1 ?s1)" by (rule input_left [OF c])
  have d: "at_phrase n (r # us) rs (skip (length vs) (skip 1 ?s1))" using input_right [of n vs "r # us" rs "skip 1 ?s1"] c by simp
  show "p_at Tok_RParen (skip (length vs) (skip 1 ?s1))" using input_at [OF d] assms(6) by simp
  note three = input_one [OF d]
  have e: "snd (expect Tok_RParen ''(126)'' (skip (length vs) (skip 1 ?s1))) = skip 1 (skip (length vs) (skip 1 ?s1))"
    using three(2) input_at [OF d] assms(6) by (simp add: expect_def)
  have "at_phrase n (us @ []) rs (skip 1 (skip (length vs) (skip 1 ?s1)))" using three(3) assms(6) by simp
  from path_input [OF assms(7) this, of b2] e
  show "path_loop b2 (snd (expect Tok_RParen ''(126)'' (skip (length vs) (skip 1 ?s1)))) =
       (b2\<lparr>x_path := x_path b2 @ q\<rparr>, skip (length (w # ts @ l # vs @ r # us)) s)"
    using assms(2) by (simp add: after_basic_def ac_simps)
qed

lemma no_args_ok:
  assumes "tk_kind w = Tok_Word" and "path_g ts p" and "tk_kind l = Tok_LParen" and "tk_kind r = Tok_RParen" and "path_g us q"
  shows "basic_ok fp n (w # ts @ l # r # us) (ref_node w EK_Call (p @ q) [])"
  unfolding basic_ok_def
proof (intro allI impI)
  fix s rs
  assume i: "at_phrase n (w # ts @ l # r # us) rs s" and f: "after_basic rs"
  show "evals fp X_Basic s (Some (ref_node w EK_Call (p @ q) []), skip (length (w # ts @ l # r # us)) s)"
    using call_shape [of n w ts l "[]" r us rs s p q, OF _ f assms, of "name_attrs w" "name_attrs w\<lparr>x_path := p, x_kind := EK_Call\<rparr>"] i
    by (intro ex.evals_step0) (fastforce simp: parseBasic_def Let_def ref_node_def leaf_node_def default_expr_def name_attrs_def)
qed

lemma call_ok:
  assumes "tk_kind w = Tok_Word" and "path_g ts p" and "tk_kind l = Tok_LParen" and "tk_kind r = Tok_RParen" and "path_g us q"
    and "args_ok fp n (tk_text w) vs as" and "vs \<noteq> []" and "next_kind vs \<noteq> Tok_RParen"
  shows "basic_ok fp n (w # ts @ l # vs @ r # us) (ref_node w EK_Call (p @ q) as)"
  unfolding basic_ok_def
proof (intro allI impI)
  fix s rs
  let ?b = "name_attrs w" and ?c = "name_attrs w\<lparr>x_path := p, x_kind := EK_Call\<rparr>"
  assume i: "at_phrase n (w # ts @ l # vs @ r # us) rs s" and f: "after_basic rs"
  obtain s1 where s1: "p_cur s = w" "path_loop ?b (advance s) = (?b\<lparr>x_path := x_path ?b @ p\<rparr>, s1)" "p_at Tok_LParen s1" "advance s1 = skip 1 s1"
    "at_phrase n (vs @ [r]) (us @ rs) (skip 1 s1)" "p_at Tok_RParen (skip (length vs) (skip 1 s1))"
    "path_loop ?c (snd (expect Tok_RParen ''(126)'' (skip (length vs) (skip 1 s1)))) =
       (?c\<lparr>x_path := x_path ?c @ q\<rparr>, skip (length (w # ts @ l # vs @ r # us)) s)"
    using call_shape [OF i f assms(1-5)] by blast
  have "\<not> p_at Tok_RParen (skip 1 s1)" using input_at [of n "hd vs" "tl vs @ [r]" "us @ rs" "skip 1 s1"] s1(5) assms(7, 8) by (cases vs) simp_all
  moreover have "evals fp (X_Args ?c []) (skip 1 s1) (Some (Expr ?c None None None ([] @ as)), skip (length vs) (skip 1 s1))"
    using assms(4) by (intro args_okD [OF assms(6) input_left [OF s1(5)]]) (simp_all add: name_attrs_def)
  ultimately show "evals fp X_Basic s (Some (ref_node w EK_Call (p @ q) as), skip (length (w # ts @ l # vs @ r # us)) s)"
    using s1 by (elim ex.evals_step1) (simp add: parseBasic_def Let_def name_attrs_def ref_node_def default_expr_def)
qed

lemma basic_ref_ok:
  assumes "basic_ok fp n ts e" and "ts \<noteq> []" and "next_kind ts = Tok_Word"
  shows "ref_ok fp n ts e"
  unfolding ref_ok_def
proof (intro allI impI)
  fix s rs r
  assume i: "at_phrase n ts rs s" and f: "after_basic rs" and a: "evals fp (X_Arrow e) (skip (length ts) s) r"
  have b: "evals fp X_Basic s (Some e, skip (length ts) s)" using assms(1) i f unfolding basic_ok_def by blast
  have "p_at Tok_Word s" using input_at [of n "hd ts" "tl ts" rs s] i assms(2, 3) by simp
  then show "evals fp X_Primary s r"
    by (intro ex.evals_step2 [OF b a]) (simp add: parsePrimaryE_def is_replicated_def p_at_def)
qed

lemma located_ok:
  assumes "ref_ok fp n ts l" and "tk_kind t = Tok_Arrow" and "basic_ok fp n us e" and "us \<noteq> []" and "next_kind us = Tok_Word"
  shows "ref_ok fp n (ts @ t # us) (with_locator l e)"
  unfolding ref_ok_def
proof (intro allI impI)
  fix s rs r
  let ?s1 = "skip (length ts) s"
  assume i: "at_phrase n (ts @ t # us) rs s" and f: "after_basic rs"
    and a: "evals fp (X_Arrow (with_locator l e)) (skip (length (ts @ t # us)) s) r"
  have j: "at_phrase n (t # us) rs ?s1" using input_right [OF i] by simp
  note one = input_one [OF j]
  have w: "p_at Tok_Word (skip 1 ?s1)"
    using input_at [of n "hd us" "tl us" rs "skip 1 ?s1"] one(3) assms(2, 4, 5) by simp
  have b: "evals fp X_Basic (skip 1 ?s1) (Some e, skip (length us) (skip 1 ?s1))"
    using assms(2, 3) one(3) f unfolding basic_ok_def by fastforce
  have c: "evals fp (X_Arrow (with_locator l e)) (skip (length us) (skip 1 ?s1)) r" using a by (simp add: add.assoc)
  have "evals fp (X_Arrow l) ?s1 r"
    using w one(2) assms(2) input_at [OF j] by (intro ex.evals_step2 [OF b c]) (simp add: arrowLoop_def Let_def)
  moreover have "after_basic (t # us @ rs)" using assms(2) by (simp add: after_basic_def)
  ultimately show "evals fp X_Primary s r" using assms(1) input_left [OF i] unfolding ref_ok_def by fastforce
qed

lemma reference_ok:
  assumes "ref_ok fp n ts e"
  shows "prim_ok fp n ts e"
  unfolding prim_ok_def
proof (intro allI impI)
  fix s rs
  assume i: "at_phrase n ts rs s" and f: "after_prim rs"
  have "\<not> p_at Tok_Arrow (skip (length ts) s)" using input_next [OF input_after [OF i]] f by (simp add: after_defs)
  then have "evals fp (X_Arrow e) (skip (length ts) s) (Some e, skip (length ts) s)"
    by (intro ex.evals_step0) (simp add: arrowLoop_def)
  then show "evals fp X_Primary s (Some e, skip (length ts) s)"
    using assms i f unfolding ref_ok_def after_prim_def by blast
qed

section \<open>Arguments\<close>

lemma star_ok: "tk_kind t = Tok_Star \<Longrightarrow> arg_ok fp n w [t] (leaf_node (default_expr\<lparr>x_kind := EK_Star, x_loc := tk_loc t\<rparr>))"
  unfolding arg_ok_def
proof (intro allI impI)
  fix s rs
  assume t: "tk_kind t = Tok_Star" and i: "at_phrase n [t] rs s"
  let ?e = "leaf_node (default_expr\<lparr>x_kind := EK_Star, x_loc := tk_loc t\<rparr>)"
  have "evals fp (X_Loop (precOf (infixOp t) + 1) ?e) s (Some ?e, s)" using input_cur [OF i] by (intro loop_stops) simp
  moreover have "argument f w s = Some (Some ?e, skip (length [t]) s)" for f
    using input_one [OF i] input_at [OF i] t by (simp add: argument_def)
  ultimately show "\<exists>c u v. evals fp c u v \<and> (\<forall>f. f c u = Some v \<longrightarrow> argument f w s = Some (Some ?e, skip (length [t]) s))" by blast
qed

lemma designator_ok:
  assumes "tk_kind c = Tok_Colon" and "isEnquiryName w" and "list_all tag_token ts" and "tk_kind d = Tok_Colon"
  shows "arg_ok fp n w (c # ts @ [d]) (leaf_node (default_expr\<lparr>x_kind := EK_TypeTag, x_loc := tk_loc c, x_sval := tag_text [] ts\<rparr>))"
    (is "arg_ok _ _ _ _ ?e")
  unfolding arg_ok_def
proof (intro allI impI)
  fix s rs
  assume i: "at_phrase n (c # ts @ [d]) rs s" and r: "rs \<noteq> []"
  note one = input_one [OF i]
  let ?c = "X_Tag (default_expr\<lparr>x_kind := EK_TypeTag, x_loc := tk_loc c\<rparr>) []"
  have "evals fp ?c (skip 1 s) (Some ?e, skip (length (c # ts @ [d])) s)"
    using tag_parsed [of "skip 1 s" ts d rs fp "default_expr\<lparr>x_kind := EK_TypeTag, x_loc := tk_loc c\<rparr>" "[]"] one(3) assms r
    by (simp add: at_phrase_def)
  moreover have "argument f w s = f ?c (skip 1 s)" for f
    using one(1, 2) input_at [OF i] assms(1, 2) by (simp add: argument_def)
  ultimately show "\<exists>k u v. evals fp k u v \<and> (\<forall>f. f k u = Some v \<longrightarrow> argument f w s = Some (Some ?e, skip (length (c # ts @ [d])) s))"
    by metis
qed

lemma argument_ok:
  assumes "expr_ok fp n 1 ts e" and "starts_expr ts"
  shows "arg_ok fp n w ts e"
  unfolding arg_ok_def
proof (intro allI impI)
  fix s rs
  assume i: "at_phrase n ts rs s" and r: "rs \<noteq> []" "next_kind rs \<in> {Tok_Comma, Tok_RParen}"
  have "after_power rs" "precOf (infixOp (hd rs)) = 0" using kind_follows [of "hd rs" "tl rs"] r by auto
  then have "evals fp (X_Expr 1) s (Some e, skip (length ts) s)" by (intro expr_okD [OF assms(1) i]) auto
  moreover obtain t us where t: "ts = t # us" using assms(2) by (cases ts) (auto simp: starts_expr_def)
  moreover have "argument f w s = f (X_Expr 1) s" for f
    using input_at [OF i [unfolded t], of Tok_Star] input_at [OF i [unfolded t], of Tok_Colon] assms(2) t by (auto simp: argument_def)
  ultimately show "\<exists>c u v. evals fp c u v \<and> (\<forall>f. f c u = Some v \<longrightarrow> argument f w s = Some (Some e, skip (length ts) s))"
    by (intro exI [of _ "X_Expr 1"] exI conjI allI impI) simp_all
qed

lemma last_arg_ok:
  assumes "arg_ok fp n w ts a"
  shows "args_ok fp n w ts [a]"
  unfolding args_ok_def
proof (intro allI impI)
  fix s rs as0 and b :: expr_attrs
  assume i: "at_phrase n ts rs s" and r: "rs \<noteq> []" "next_kind rs = Tok_RParen" and b: "x_name b = w"
  obtain c u v where "evals fp c u v" "\<And>f. f c u = Some v \<Longrightarrow> argument f w s = Some (Some a, skip (length ts) s)"
    using arg_okE [OF assms i r(1)] r(2) by blast
  then show "evals fp (X_Args b as0) s (Some (Expr b None None None (as0 @ [a])), skip (length ts) s)"
    using input_next [OF input_after [OF i r(1)]] r(2) b by (elim ex.evals_step1) (simp add: argsLoop_def)
qed

lemma more_args_ok:
  assumes "arg_ok fp n w ts a" and "tk_kind c = Tok_Comma" and "args_ok fp n w us as"
  shows "args_ok fp n w (ts @ c # us) (a # as)"
  unfolding args_ok_def
proof (intro allI impI)
  fix s rs as0 and b :: expr_attrs
  let ?s1 = "skip (length ts) s"
  assume i: "at_phrase n (ts @ c # us) rs s" and r: "rs \<noteq> []" "next_kind rs = Tok_RParen" and b: "x_name b = w"
  obtain k u v where a: "evals fp k u v" "\<And>f. f k u = Some v \<Longrightarrow> argument f w s = Some (Some a, ?s1)"
    by (rule arg_okE [OF assms(1) input_left [OF i]]) (use assms(2) in simp_all)
  have j: "at_phrase n (c # us) rs ?s1" using input_right [OF i] by simp
  note one = input_one [OF j]
  have l: "evals fp (X_Args b (as0 @ [a])) (skip 1 ?s1) (Some (Expr b None None None ((as0 @ [a]) @ as)), skip (length us) (skip 1 ?s1))"
    using assms(2) one(3) r b by (intro args_okD [OF assms(3)]) simp_all
  show "evals fp (X_Args b as0) s (Some (Expr b None None None (as0 @ a # as)), skip (length (ts @ c # us)) s)"
    using a(2) one(2) assms(2) input_at [OF j] b by (intro ex.evals_step2 [OF a(1) l]) (simp add: argsLoop_def)
qed

section \<open>Derivable input is parsed, altogether\<close>

lemma arg_start: "arg_g fp nm n w ts e \<Longrightarrow> next_kind ts \<noteq> Tok_RParen"
  by (induction rule: arg_g.cases) (auto dest!: starts(1) simp: starts_expr_def)

lemma args_start: "args_g fp nm n w ts as \<Longrightarrow> next_kind ts \<noteq> Tok_RParen"
  by (induction rule: args_g.cases) (use arg_start starts(8) in \<open>fastforce+\<close>)

lemma complete:
  "expr_g fp nm n p ts e \<Longrightarrow> \<not> nm ''NOT'' \<Longrightarrow> expr_ok fp n p ts e"
  "unary_g fp nm n ts e \<Longrightarrow> \<not> nm ''NOT'' \<Longrightarrow> unary_ok fp n ts e"
  "power_g fp nm n ts e \<Longrightarrow> \<not> nm ''NOT'' \<Longrightarrow> power_ok fp n ts e"
  "prim_g fp nm n ts e \<Longrightarrow> \<not> nm ''NOT'' \<Longrightarrow> prim_ok fp n ts e"
  "ref_g fp nm n ts e \<Longrightarrow> \<not> nm ''NOT'' \<Longrightarrow> ref_ok fp n ts e"
  "basic_g fp nm n ts e \<Longrightarrow> \<not> nm ''NOT'' \<Longrightarrow> basic_ok fp n ts e"
  "args_g fp nm n w ts as \<Longrightarrow> \<not> nm ''NOT'' \<Longrightarrow> args_ok fp n w ts as"
  "arg_g fp nm n w ts e \<Longrightarrow> \<not> nm ''NOT'' \<Longrightarrow> arg_ok fp n w ts e"
proof (induction rule: grammar_inducts)
  case operand then show ?case by (blast intro: operand_ok)
next
  case infix_operator then show ?case by (blast intro: infix_ok)
next
  case plus then show ?case by (blast intro: plus_ok)
next
  case prefix_operator then show ?case by (blast intro: prefix_ok)
next
  case (not_word t ts n e)
  then have "ts \<noteq> []" using starts(2) by (auto simp: starts_expr_def)
  with not_word show ?case by (blast intro: not_ok)
next
  case no_prefix then show ?case by (blast intro: no_prefix_ok primary_starts(3))
next
  case no_power then show ?case by (blast intro: no_power_ok)
next
  case power then show ?case by (blast intro: power_operator_ok)
next
  case parens then show ?case by (blast intro: parens_ok numbers(1) starts(1))
next
  case number then show ?case by (blast intro: number_ok)
next
  case string then show ?case by (blast intro: string_ok)
next
  case replicated then show ?case by (blast intro: replicated_ok)
next
  case reference then show ?case by (blast intro: reference_ok)
next
  case basic then show ?case using starts(6) by (blast intro: basic_ref_ok)
next
  case located then show ?case using starts(6) by (blast intro: located_ok)
next
  case name then show ?case by (blast intro: name_ok)
next
  case no_args then show ?case by (blast intro: no_args_ok)
next
  case call then show ?case using starts(7) args_start call_ok by metis
next
  case last_arg then show ?case by (blast intro: last_arg_ok)
next
  case more_args then show ?case by (blast intro: more_args_ok)
next
  case star then show ?case by (blast intro: star_ok)
next
  case designator then show ?case by (blast intro: designator_ok)
next
  case argument then show ?case by (blast intro: argument_ok starts(1))
qed

text \<open>A derivable expression followed by a token that does not continue it.\<close>

definition ends_expr :: "Token \<Rightarrow> bool" where
  "ends_expr t \<longleftrightarrow> infixOp t = Tok_Eof \<and> tk_kind t \<notin> {Tok_LParen, Tok_Dot, Tok_Arrow, Tok_CharLit, Tok_BitLit, Tok_HexLit}"

lemma ends_expr_follows: "ends_expr t \<Longrightarrow> after_power (t # rs) \<and> precOf (infixOp t) = 0"
  by (auto simp: ends_expr_def after_defs infixOp_def split: if_splits)

lemma expression_parsed:
  assumes "expr_g fp nm n p ts e" and "\<not> nm ''NOT''" and "0 \<le> p" and "at_phrase n ts (t # rs) s" and "ends_expr t"
  shows "evals fp (X_Expr p) s (Some e, skip (length ts) s)"
  using ends_expr_follows [OF assms(5), of rs] assms(3) by (intro expr_okD [OF complete(1) [OF assms(1, 2)] assms(4)]) auto

lemma grammar_unambiguous:
  assumes "expr_g fp nm n p ts e" and "expr_g fp nm n p ts e2" and "\<not> nm ''NOT''" and "0 \<le> p" and "n \<le> kMaxExprDepth"
  shows "e = e2"
proof -
  define t :: Token where "t = undefined\<lparr>tk_kind := Tok_Eof\<rparr>"
  define s where "s = \<lparr>ps_t = ts @ [t], ps_i = 0, ps_d = undefined, ps_exprDepth = kMaxExprDepth - n\<rparr>"
  have "at_phrase n ts [t] s" "ends_expr t" using assms(5) by (simp_all add: at_phrase_def s_def t_def ready_def pending_def ends_expr_def infixOp_def)
  then have "evals fp (X_Expr p) s (Some e, skip (length ts) s)" "evals fp (X_Expr p) s (Some e2, skip (length ts) s)"
    using assms expression_parsed by blast+
  then show ?thesis unfolding ex.evals_def using ex.run_det by blast
qed

end
