(* ===== verification/GrammarSound.thy ===== *)
theory GrammarSound
  imports Grammar
begin

text \<open>
  Accepted input is derivable: a run without a message consumed exactly the tokens of a phrase and returned its tree.  The
  induction is on the fuel; a lemma per member shows what it returns when the members it calls are sound.
\<close>

section \<open>Runs without a message\<close>

definition clean :: "pst \<Rightarrow> pst \<Rightarrow> bool" where
  "clean s s' \<longleftrightarrow> errs (ps_d s') = errs (ps_d s)"

lemma clean_split: "clean s u \<Longrightarrow> forward s t \<Longrightarrow> forward t u \<Longrightarrow> clean s t \<and> clean t u"
  by (simp add: clean_def forward_def)

lemma error_not_clean: "forward s t \<Longrightarrow> \<not> clean s (p_error l m r t)"
  by (simp add: clean_def forward_def p_error_def)

lemma clean_skip [simp]:
  "clean (enter s) t \<longleftrightarrow> clean s t" "clean s (leave t) \<longleftrightarrow> clean s t" "clean s s"
  by (simp_all add: clean_def)

lemma clean_advance [simp]: "clean (advance s) t \<longleftrightarrow> clean s t" "clean s (advance t) \<longleftrightarrow> clean s t"
  by (simp_all add: clean_def advance_def)

text \<open>The tokens a run consumed.\<close>

definition consumed :: "pst \<Rightarrow> Token list \<Rightarrow> pst \<Rightarrow> bool" where
  "consumed s ts s' \<longleftrightarrow> take (length ts) (pending s) = ts \<and> s' = skip (length ts) s \<and> ready s'"

lemma consumed_Nil [simp]: "consumed s [] s \<longleftrightarrow> ready s"
  by (simp add: consumed_def)

lemma consumed_append: "consumed s ts t \<Longrightarrow> consumed t us u \<Longrightarrow> consumed s (ts @ us) u"
  by (auto simp: consumed_def take_add)

lemma consumed_ready: "consumed s ts t \<Longrightarrow> ready t"
  by (auto simp: consumed_def)

lemma consumed_leave: "consumed (enter s) ts t \<Longrightarrow> consumed s ts (leave t)"
  by (auto simp: consumed_def)

lemma consumed_depth: "consumed s ts t \<Longrightarrow> ps_exprDepth t = ps_exprDepth s"
  by (auto simp: consumed_def)

lemma consumed_one: "ready s \<Longrightarrow> tk_kind (p_cur s) \<noteq> Tok_Eof \<Longrightarrow> consumed s [p_cur s] (advance s)"
  using cur_pending [of s] advance_skip [of s] ready_skip_one [of s] rest_nonempty [of s] by (cases "pending s") (auto simp: consumed_def)

lemma consumed_at: "ready s \<Longrightarrow> p_at k s \<Longrightarrow> k \<noteq> Tok_Eof \<Longrightarrow> consumed s [p_cur s] (advance s)"
  by (rule consumed_one) (auto simp: p_at_def)

lemma consumed_clean: "consumed s ts t \<Longrightarrow> clean s t"
  by (auto simp: consumed_def clean_def)

lemma consumed_forward: "consumed s ts t \<Longrightarrow> forward s t"
  by (auto simp: consumed_def forward_def) (simp add: skip_def)

lemma expect_clean:
  assumes "clean s (snd (expect k rl s))" and "ready s" and "k \<noteq> Tok_Eof"
  shows "p_at k s" "consumed s [p_cur s] (snd (expect k rl s))"
  using assms error_not_clean [OF forward_refl] consumed_at [of s k] by (auto simp: expect_def split: if_splits)

section \<open>Qualifiers\<close>

lemma path_g_append: "path_g ts p \<Longrightarrow> path_g us q \<Longrightarrow> path_g (ts @ us) (p @ q)"
  by (induction rule: path_g.induct) (auto intro: path_g.intros)

lemma path_sound:
  "path_loop b s = (b', s') \<Longrightarrow> ready s \<Longrightarrow> clean s s' \<Longrightarrow>
   \<exists>ts p. consumed s ts s' \<and> path_g ts p \<and> b' = b\<lparr>x_path := x_path b @ p\<rparr> \<and> \<not> p_at Tok_Dot s'"
proof (induction b s rule: path_loop.induct)
  case (1 b s)
  show ?case
  proof (cases "p_at Tok_Dot s")
    case False
    then have "b' = b" "s' = s" using "1.prems"(1) by (simp_all add: path_loop.simps [of b s])
    then show ?thesis using False "1.prems"(2) path_end by (intro exI [of _ "[]"]) simp
  next
    case True
    let ?s1 = "advance s"
    have d: "consumed s [p_cur s] ?s1" using consumed_at [OF "1.prems"(2) True] by simp
    have w: "p_at Tok_Word ?s1"
      using "1.prems" True error_not_clean [OF forward_advance [OF "1.prems"(2)]]
      by (subst (asm) path_loop.simps) (auto simp: Let_def split: if_splits)
    have e: "consumed ?s1 [p_cur ?s1] (advance ?s1)" using consumed_at [OF consumed_ready [OF d] w] by simp
    have "path_loop (b\<lparr>x_path := x_path b @ [tk_text (p_cur ?s1)]\<rparr>) (advance ?s1) = (b', s')"
      using "1.prems"(1) True w by (simp add: path_loop.simps [of b s] Let_def)
    from "1.IH" [OF True refl w this consumed_ready [OF e]] "1.prems"(3)
    obtain ts p where r: "consumed (advance ?s1) ts s'" "path_g ts p"
      "b' = b\<lparr>x_path := x_path b @ [tk_text (p_cur ?s1)], x_path := (x_path b @ [tk_text (p_cur ?s1)]) @ p\<rparr>" "\<not> p_at Tok_Dot s'"
      by auto
    have "consumed s (p_cur s # p_cur ?s1 # ts) s'" using consumed_append [OF consumed_append [OF d e] r(1)] by simp
    moreover have "path_g (p_cur s # p_cur ?s1 # ts) (tk_text (p_cur ?s1) # p)"
      using True w r(2) by (intro path_dot) (simp_all add: p_at_def)
    ultimately show ?thesis using r(3, 4) by fastforce
  qed
qed

section \<open>What a run without a message returns\<close>

text \<open>The levels of nesting left.\<close>

definition room :: "pst \<Rightarrow> nat" where "room s = kMaxExprDepth - ps_exprDepth s"

abbreviation any_name :: "string \<Rightarrow> bool" where "any_name \<equiv> (\<lambda>_. True)"

fun sound_call :: "float_lib \<Rightarrow> xcall \<Rightarrow> pst \<Rightarrow> Expr option \<Rightarrow> pst \<Rightarrow> bool" where
  "sound_call fp (X_Expr m) s r s' \<longleftrightarrow> (\<exists>ts e. r = Some e \<and> consumed s ts s' \<and> expr_g fp any_name (room s) m ts e \<and>
     (precOf (infixOp (p_cur s')) < m \<or> precOf (infixOp (p_cur s')) = 0))"
| "sound_call fp (X_Loop m l) s r s' \<longleftrightarrow> (\<forall>us q. expr_g fp any_name (Suc (room s)) q us l \<longrightarrow> m \<le> q \<longrightarrow> precOf (infixOp (p_cur s)) \<le> q \<longrightarrow>
     (\<exists>ts e. r = Some e \<and> consumed s ts s' \<and> expr_g fp any_name (Suc (room s)) m (us @ ts) e \<and>
       (precOf (infixOp (p_cur s')) < m \<or> precOf (infixOp (p_cur s')) = 0)))"
| "sound_call fp X_Unary s r s' \<longleftrightarrow> (\<exists>ts e. r = Some e \<and> consumed s ts s' \<and> unary_g fp any_name (room s) ts e)"
| "sound_call fp X_Power s r s' \<longleftrightarrow> (\<exists>ts e. r = Some e \<and> consumed s ts s' \<and> power_g fp any_name (room s) ts e)"
| "sound_call fp X_Primary s r s' \<longleftrightarrow> (\<exists>ts e. r = Some e \<and> consumed s ts s' \<and> prim_g fp any_name (room s) ts e)"
| "sound_call fp X_Basic s r s' \<longleftrightarrow> p_at Tok_Word s \<longrightarrow> (\<exists>ts e. r = Some e \<and> consumed s ts s' \<and> basic_g fp any_name (room s) ts e)"
| "sound_call fp (X_Args b as0) s r s' \<longleftrightarrow> (\<exists>ts as. r = Some (Expr b None None None (as0 @ as)) \<and> consumed s ts s' \<and>
     args_g fp any_name (room s) (x_name b) ts as)"
| "sound_call fp (X_Arrow l) s r s' \<longleftrightarrow> (\<forall>us. ref_g fp any_name (room s) us l \<longrightarrow>
     (\<exists>ts e. r = Some e \<and> consumed s ts s' \<and> ref_g fp any_name (room s) (us @ ts) e))"
| "sound_call fp (X_Tag t raw) s r s' \<longleftrightarrow> (\<exists>ts d. r = Some (leaf_node (t\<lparr>x_sval := tag_text raw ts\<rparr>)) \<and> consumed s (ts @ [d]) s' \<and>
     list_all tag_token ts \<and> tk_kind d = Tok_Colon)"

definition good :: "float_lib \<Rightarrow> xrec \<Rightarrow> bool" where
  "good fp rec \<longleftrightarrow> (\<forall>c s r s'. rec c s = Some (r, s') \<longrightarrow> ready s \<longrightarrow> forward s s' \<and> (clean s s' \<longrightarrow> sound_call fp c s r s'))"

lemma goodD: "good fp rec \<Longrightarrow> rec c s = Some (r, s') \<Longrightarrow> ready s \<Longrightarrow> forward s s'"
  "good fp rec \<Longrightarrow> rec c s = Some (r, s') \<Longrightarrow> ready s \<Longrightarrow> clean s s' \<Longrightarrow> sound_call fp c s r s'"
  unfolding good_def by blast+

lemma expr_g_weaken: "expr_g fp nm n q ts e \<Longrightarrow> p \<le> q \<Longrightarrow> expr_g fp nm n p ts e"
  by (erule expr_g.cases) (auto intro: expr_g_unary_g_power_g_prim_g_ref_g_basic_g_args_g_arg_g.intros)

lemma room_simps [simp]: "room (enter s) = room s - 1" "ps_exprDepth s < kMaxExprDepth \<Longrightarrow> Suc (room s - Suc 0) = room s"
  by (simp_all add: room_def)

lemma consumed_room: "consumed s ts t \<Longrightarrow> room t = room s"
  by (simp add: room_def consumed_depth)

lemma p_cur_enter [simp]: "p_cur (enter s) = p_cur s" "p_cur (leave s) = p_cur s"
  by (simp_all add: p_cur_def enter_def leave_def)

section \<open>The members\<close>

text \<open>A call of a member, then the rest of the run: both are without a message.\<close>

lemma good_then:
  assumes "good fp rec" and "rec c t = Some (r, u)" and "ready t" and "clean t v" and "forward u v"
  shows "sound_call fp c t r u" "clean u v"
  using goodD [OF assms(1-3)] clean_split [OF assms(4) _ assms(5)] by blast+

lemma good_last:
  assumes "good fp rec" and "rec c t = Some (r, u)" and "ready t" and "clean t u"
  shows "sound_call fp c t r u"
  using goodD(2) [OF assms] .

lemma parseExpr_sound:
  assumes g: "good fp rec" and e: "parseExpr rec m s = Some (r, s')" and s: "ready s" "clean s s'"
  shows "sound_call fp (X_Expr m) s r s'"
  using e
proof (cases rule: parseExpr_cases)
  case deep
  then show ?thesis using s error_not_clean [OF forward_refl] by blast
next
  case (null s1)
  then show ?thesis using good_last [OF g null(2)] s by simp
next
  case (loop l s1 s2)
  have rs: "ready (enter s)" using s by simp
  note f1 = goodD(1) [OF g loop(2) rs]
  note f2 = goodD(1) [OF g loop(3) forward_ready [OF f1]]
  obtain ts where u: "consumed (enter s) ts s1" "unary_g fp any_name (room (enter s)) ts l" and c: "clean s1 s2"
    using good_then [OF g loop(2) rs _ f2] s(2) loop(4) by auto
  have "expr_g fp any_name (Suc (room s1)) (max m (precOf (infixOp (p_cur s1)))) ts l"
    using operand [OF u(2)] consumed_room [OF u(1)] by simp
  then obtain us e where "r = Some e" "consumed s1 us s2" "expr_g fp any_name (Suc (room s1)) m (ts @ us) e"
    "precOf (infixOp (p_cur s2)) < m \<or> precOf (infixOp (p_cur s2)) = 0"
    using good_last [OF g loop(3) forward_ready [OF f1] c] by fastforce
  moreover have "Suc (room s1) = room s" using consumed_room [OF u(1)] loop(1) by (simp add: room_def)
  ultimately show ?thesis using consumed_leave [OF consumed_append [OF u(1)]] loop(4) by auto
qed

lemma infixLoop_sound:
  assumes g: "good fp rec" and e: "infixLoop rec m l s = Some (r, s')" and s: "ready s" "clean s s'"
  shows "sound_call fp (X_Loop m l) s r s'"
  unfolding sound_call.simps
proof (intro allI impI)
  fix us q
  let ?p = "precOf (infixOp (p_cur s))"
  assume l: "expr_g fp any_name (Suc (room s)) q us l" "m \<le> q" "?p \<le> q"
  from e show "\<exists>ts e. r = Some e \<and> consumed s ts s' \<and> expr_g fp any_name (Suc (room s)) m (us @ ts) e \<and>
       (precOf (infixOp (p_cur s')) < m \<or> precOf (infixOp (p_cur s')) = 0)"
  proof (cases rule: infixLoop_cases)
    case stop
    then show ?thesis using s(1) expr_g_weaken [OF l(1, 2)] by (intro exI [of _ "[]"]) auto
  next
    case null
    then show ?thesis using good_last [OF g null(2)] s forward_ready [OF forward_advance [OF s(1)]] by simp
  next
    case (step b s1)
    have o: "consumed s [p_cur s] (advance s)" using consumed_one [OF s(1)] operator_not_eof [OF step(1)] .
    note f1 = goodD(1) [OF g step(3) consumed_ready [OF o]]
    note f2 = goodD(1) [OF g step(4) forward_ready [OF f1]]
    obtain ts where b: "consumed (advance s) ts s1" "expr_g fp any_name (room s) (?p + 1) ts b"
      "precOf (infixOp (p_cur s1)) \<le> ?p" and c: "clean s1 s'"
      using good_then [OF g step(3) consumed_ready [OF o] _ f2] s(2) step(1) consumed_room [OF o] by fastforce
    have "expr_g fp any_name (Suc (room s)) ?p (us @ p_cur s # ts) (op_node EK_Binary (infixOp (p_cur s)) (tk_loc (p_cur s)) (Some l) (Some b))"
      using infix_operator [OF expr_g_weaken [OF l(1, 3)] refl step(1) order.refl b(2)] .
    moreover have o1: "consumed s (p_cur s # ts) s1" using consumed_append [OF o b(1)] by simp
    ultimately obtain vs e where "r = Some e" "consumed s1 vs s'" "expr_g fp any_name (Suc (room s)) m ((us @ p_cur s # ts) @ vs) e"
      "precOf (infixOp (p_cur s')) < m \<or> precOf (infixOp (p_cur s')) = 0"
      using good_last [OF g step(4) forward_ready [OF f1] c] step(2) b(3) consumed_room [OF o1] by fastforce
    then show ?thesis using consumed_append [OF o1] by fastforce
  qed
qed

lemma prefix_word_operand: "ready s \<Longrightarrow> at_prefix s \<Longrightarrow> p_at Tok_Word s \<Longrightarrow> tk_text (p_cur s) = ''NOT'' \<and> prefix_operand (p_cur (advance s))"
proof -
  assume s: "ready s" "at_prefix s" "p_at Tok_Word s"
  have o: "consumed s [p_cur s] (advance s)" using consumed_at [OF s(1, 3)] by simp
  then have "p_peek s 1 = p_cur (advance s)" by (auto simp: consumed_def skip_def ready_def p_peek_def p_cur_def)
  then show ?thesis using s(2, 3) by (auto simp: at_prefix_def prefix_operand_def p_at_def)
qed

lemma hd_consumed: "consumed s ts t \<Longrightarrow> ts \<noteq> [] \<Longrightarrow> ready s \<Longrightarrow> hd ts = p_cur s"
  unfolding consumed_def by (metis cur_pending hd_take length_greater_0_conv)

lemma parseUnary_sound:
  assumes g: "good fp rec" and e: "parseUnaryE rec s = Some (r, s')" and s: "ready s" "clean s s'"
  shows "sound_call fp X_Unary s r s'"
  using e
proof (cases rule: parseUnary_cases)
  case deep
  then show ?thesis using s error_not_clean [OF forward_refl] by blast
next
  case (null s1)
  then show ?thesis using good_last [OF g null(2)] s forward_ready [OF forward_advance, of "enter s"] by (simp del: advance_enter)
next
  case (power s1)
  have "ready (enter s)" "clean (enter s) s1" using s power(4) by simp_all
  from good_last [OF g power(3) this] obtain ts e where "r = Some e" "consumed (enter s) ts s1" "power_g fp any_name (room s - 1) ts e"
    by auto
  moreover from this have "unary_g fp any_name (room s) ts e" using no_prefix [of fp any_name "room s - 1" ts e] power(1) by simp
  ultimately show ?thesis using consumed_leave power(4) by auto
next
  case (prefix a s1)
  have k: "tk_kind (p_cur s) \<in> {Tok_Plus, Tok_Minus, Tok_Not, Tok_Word}" using prefix(2) by (auto simp: at_prefix_def p_at_def)
  have o: "consumed (enter s) [p_cur s] (advance (enter s))"
    using consumed_one [of "enter s"] s(1) k by auto
  obtain ts where a: "consumed (advance (enter s)) ts s1" "unary_g fp any_name (room s - 1) ts a"
    using good_last [OF g prefix(3) consumed_ready [OF o]] s(2) prefix(4) consumed_room [OF o] by (auto simp del: advance_enter)
  have h: "ts \<noteq> []" "hd ts = p_cur (advance s)"
    using starts(2) [OF a(2)] hd_consumed [OF a(1) _ consumed_ready [OF o]] by (auto simp: starts_expr_def)
  have "unary_g fp any_name (Suc (room s - 1)) (p_cur s # ts)
      (if prefix_op s = Tok_Plus then a else op_node EK_Unary (prefix_op s) (tk_loc (p_cur s)) (Some a) None)"
  proof (cases "p_at Tok_Word s")
    case True
    then show ?thesis using not_word [OF _ _ _ a(2), of "p_cur s"] prefix_word_operand [OF s(1) prefix(2) True] h
      by (simp add: prefix_op_def p_at_def)
  next
    case False
    then show ?thesis using k plus [OF _ a(2), of "p_cur s"] prefix_operator [OF _ a(2), of "p_cur s"] by (auto simp: prefix_op_def p_at_def)
  qed
  then show ?thesis using consumed_leave [OF consumed_append [OF o a(1)]] prefix(1, 4, 5) by auto
qed

lemma parsePower_sound:
  assumes g: "good fp rec" and e: "parsePower rec s = Some (r, s')" and s: "ready s" "clean s s'"
  shows "sound_call fp X_Power s r s'"
  using e
proof (cases rule: parsePower_cases)
  case null
  then show ?thesis using good_last [OF g null(1) s] by simp
next
  case (plain a)
  then show ?thesis using good_last [OF g plain(1) s] by (auto intro: no_power)
next
  case (nullexp a s1)
  note f1 = goodD(1) [OF g nullexp(1) s(1)]
  note f2 = goodD(1) [OF g nullexp(2) forward_ready [OF forward_step(1) [OF f1]]]
  have "clean (advance s1) s'" using clean_split [OF s(2) forward_step(1) [OF f1] f2] by simp
  then show ?thesis using good_last [OF g nullexp(2) forward_ready [OF forward_step(1) [OF f1]]] by simp
next
  case (power a s1 b)
  note f1 = goodD(1) [OF g power(1) s(1)]
  have o: "consumed s1 [p_cur s1] (advance s1)" using consumed_at [OF forward_ready [OF f1] power(2)] by simp
  note f2 = goodD(1) [OF g power(3) consumed_ready [OF o]]
  obtain ts where a: "consumed s ts s1" "prim_g fp any_name (room s) ts a" and c: "clean (advance s1) s'"
    using good_then [OF g power(1) s(1, 2) forward_trans [OF forward_advance [OF forward_ready [OF f1]] f2]] by auto
  obtain us where b: "consumed (advance s1) us s'" "unary_g fp any_name (room s) us b"
    using good_last [OF g power(3) consumed_ready [OF o] c] consumed_room [OF a(1)] consumed_room [OF o] by auto
  have "power_g fp any_name (room s) (ts @ p_cur s1 # us) (op_node EK_Binary Tok_Power (tk_loc (p_cur s1)) (Some a) (Some b))"
    using power(2) by (intro expr_g_unary_g_power_g_prim_g_ref_g_basic_g_args_g_arg_g.power [OF a(2) _ b(2)]) (simp add: p_at_def)
  moreover have "consumed s (ts @ p_cur s1 # us) s'" using consumed_append [OF a(1) consumed_append [OF o b(1)]] by simp
  ultimately show ?thesis using power(4) by auto
qed

section \<open>Primaries\<close>

lemma number_sound:
  assumes "ready s" and "p_at Tok_Number s" and "clean s (snd (number_node fp s))"
  shows "sound_call fp X_Primary s (fst (number_node fp s)) (snd (number_node fp s))"
proof -
  have o: "consumed s [p_cur s] (advance s)" using consumed_at [OF assms(1, 2)] by simp
  obtain e where "number_value fp (p_cur s) = Some e" "number_node fp s = (Some e, advance s)"
    using assms(3) error_not_clean [OF forward_refl [OF assms(1)]]
    by (auto simp: number_node_def number_value_def Let_def split: if_splits option.splits)
  then show ?thesis using o number [of "p_cur s" fp e] assms(2) by (auto simp: p_at_def)
qed

lemma hex_clean:
  assumes "decodeHexLiteral h l (ps_d t) = (x, d)" and "clean t (t\<lparr>ps_d := d\<rparr>)"
  obtains bs where "x = Some bs" "even (length h)" "hex_bytes h = Some bs" "t\<lparr>ps_d := d\<rparr> = t"
proof (cases "hex_bytes h")
  case (Some bs)
  then show ?thesis using assms by (intro that [of bs]) (auto simp: decodeHexLiteral_def clean_def split: if_splits)
qed (use assms in \<open>auto simp: decodeHexLiteral_def clean_def split: if_splits\<close>)

lemma string_sound:
  assumes "ready s" and "p_at k s" and "k \<in> {Tok_CharLit, Tok_BitLit}"
  shows "sound_call fp X_Primary s (fst (string_node (if k = Tok_CharLit then EK_CharLit else EK_BitLit) s)) (advance s)"
  using consumed_at [OF assms(1, 2)] string [of "p_cur s"] assms(2, 3)
  by (auto simp: string_node_def string_text_def p_at_def string_leaf_def)

lemma hex_sound:
  assumes "ready s" and "p_at Tok_HexLit s" and "clean s (snd (hex_node s))"
  shows "sound_call fp X_Primary s (fst (hex_node s)) (snd (hex_node s))"
proof -
  obtain x d where x: "decodeHexLiteral (tk_sval (p_cur s)) (tk_loc (p_cur s)) (ps_d (advance s)) = (x, d)" by (metis surj_pair)
  then have "clean (advance s) ((advance s)\<lparr>ps_d := d\<rparr>)" using assms(3) by (auto simp: hex_node_def Let_def split: option.splits)
  from hex_clean [OF x this] obtain bs where h: "x = Some bs" "even (length (tk_sval (p_cur s)))" "hex_bytes (tk_sval (p_cur s)) = Some bs"
    "(advance s)\<lparr>ps_d := d\<rparr> = advance s" by blast
  have "string_text (p_cur s) = Some (EK_CharLit, bs)" using assms(2) h by (simp add: string_text_def p_at_def)
  from string [OF this] show ?thesis using consumed_at [OF assms(1, 2)] x h by (auto simp: hex_node_def string_leaf_def Let_def)
qed

text \<open>The four tokens of a replicated constant.\<close>

lemma replicated_tokens:
  assumes "ready s" and "is_replicated s"
  obtains l c r t where "consumed s [l, c, r, t] (advance (advance (advance (advance s))))" "p_cur s = l" "p_cur (advance s) = c"
    "p_cur (advance (advance (advance s))) = t" "tk_kind l = Tok_LParen" "tk_kind c = Tok_Number" "\<not> tk_isFloat c" "tk_kind r = Tok_RParen"
    "tk_kind t \<in> {Tok_CharLit, Tok_BitLit, Tok_HexLit}"
proof -
  have cur: "p_cur (advance u) = p_peek u 1 \<and> p_peek (advance u) k = p_peek u (Suc k)" if "consumed u [p_cur u] (advance u)" for u k
    using that by (auto simp: consumed_def skip_def ready_def p_peek_def p_cur_def)
  have a: "consumed s [p_cur s] (advance s)" using assms consumed_at [of s Tok_LParen] by (simp add: is_replicated_def)
  have a1: "tk_kind (p_cur (advance s)) = Tok_Number" "\<not> tk_isFloat (p_cur (advance s))" using cur [OF a] assms(2) by (auto simp: is_replicated_def)
  have b: "consumed (advance s) [p_cur (advance s)] (advance (advance s))" using consumed_one [OF consumed_ready [OF a]] a1 by simp
  have b1: "tk_kind (p_cur (advance (advance s))) = Tok_RParen" using cur [OF a] cur [OF b] assms(2) by (auto simp: is_replicated_def eval_nat_numeral)
  have c: "consumed (advance (advance s)) [p_cur (advance (advance s))] (advance (advance (advance s)))"
    using consumed_one [OF consumed_ready [OF b]] b1 by simp
  have c1: "tk_kind (p_cur (advance (advance (advance s)))) \<in> {Tok_CharLit, Tok_BitLit, Tok_HexLit}"
    using cur [OF a] cur [OF b] cur [OF c] assms(2) by (auto simp: is_replicated_def eval_nat_numeral)
  have d: "consumed (advance (advance (advance s))) [p_cur (advance (advance (advance s)))] (advance (advance (advance (advance s))))"
    using consumed_one [OF consumed_ready [OF c]] c1 by auto
  have "consumed s [p_cur s, p_cur (advance s), p_cur (advance (advance s)), p_cur (advance (advance (advance s)))] (advance (advance (advance (advance s))))"
    using consumed_append [OF a consumed_append [OF b consumed_append [OF c d]]] by simp
  then show ?thesis using a1 b1 c1 assms(2) by (intro that) (auto simp: is_replicated_def p_at_def)
qed

lemma replicated_sound:
  assumes "ready s" and "is_replicated s" and "clean s (snd (replicated_node s))"
  shows "sound_call fp X_Primary s (fst (replicated_node s)) (snd (replicated_node s))"
proof -
  let ?s4 = "advance (advance (advance (advance s)))"
  obtain l c r t where o: "consumed s [l, c, r, t] ?s4" "p_cur s = l" "p_cur (advance s) = c" "p_cur (advance (advance (advance s))) = t"
    and k: "tk_kind l = Tok_LParen" "tk_kind c = Tok_Number" "\<not> tk_isFloat c" "tk_kind r = Tok_RParen" "tk_kind t \<in> {Tok_CharLit, Tok_BitLit, Tok_HexLit}"
    using replicated_tokens [OF assms(1, 2)] .
  let ?n = "strtoll (tk_text c) 10"
  have n: "0 \<le> ?n" "?n \<le> kMaxReplicatedChars div int (max 1 (length (tk_sval t)))"
    using assms(3) error_not_clean [OF consumed_forward [OF o(1)]] o(2-4) by (auto simp: replicated_node_def Let_def split: if_splits)
  obtain x d where x: "decodeHexLiteral (tk_sval t) (tk_loc t) (ps_d ?s4) = (x, d)" by (metis surj_pair)
  have h: "clean ?s4 (?s4\<lparr>ps_d := d\<rparr>)" if "tk_kind t = Tok_HexLit"
    using that assms(3) n o(2-4) x by (auto simp: replicated_node_def Let_def split: option.splits)
  obtain m v where v: "string_text t = Some (m, v)"
    "replicated_node s = (Some (string_leaf l m (concat (replicate (nat ?n) v))), ?s4)"
  proof (cases "tk_kind t = Tok_HexLit")
    case True
    from hex_clean [OF x h [OF True]] obtain bs where "x = Some bs" "even (length (tk_sval t))" "hex_bytes (tk_sval t) = Some bs"
      "?s4\<lparr>ps_d := d\<rparr> = ?s4" by blast
    then show ?thesis using True x n o(2-4) by (intro that [of EK_CharLit bs]) (simp_all add: string_text_def replicated_node_def Let_def string_leaf_def)
  next
    case False
    then show ?thesis using k(5) n o(2-4)
      by (intro that [of "if tk_kind t = Tok_CharLit then EK_CharLit else EK_BitLit" "tk_sval t"])
        (auto simp: string_text_def replicated_node_def Let_def string_leaf_def)
  qed
  from replicated [OF k(1-4) v(1) n] v(2) o(1) show ?thesis by auto
qed

lemma parsePrimary_sound:
  assumes g: "good fp rec" and e: "parsePrimaryE fp rec s = Some (r, s')" and s: "ready s" "clean s s'"
  shows "sound_call fp X_Primary s r s'"
proof -
  consider (rep) "is_replicated s" | (par) "\<not> is_replicated s" "p_at Tok_LParen s" | (num) "p_at Tok_Number s" | (chr) "p_at Tok_CharLit s"
    | (hex) "p_at Tok_HexLit s" | (bit) "p_at Tok_BitLit s" | (word) "p_at Tok_Word s"
    | (bad) "\<not> is_replicated s" "tk_kind (p_cur s) \<notin> {Tok_LParen, Tok_Number, Tok_CharLit, Tok_HexLit, Tok_BitLit, Tok_Word}"
    by (auto simp: p_at_def)
  then show ?thesis
  proof cases
    case rep
    then show ?thesis using e replicated_sound [OF s(1) rep] s(2) by (simp add: parsePrimaryE_def)
  next
    case par
    obtain s1 where i: "rec (X_Expr 1) (advance s) = Some (r, s1)" "s' = snd (expect Tok_RParen ''(123)'' s1)"
      using e par by (auto simp: parsePrimaryE_def bind_eq_Some_conv)
    have o: "consumed s [p_cur s] (advance s)" using consumed_at [OF s(1) par(2)] by simp
    note f = goodD(1) [OF g i(1) consumed_ready [OF o]]
    obtain ts x where x: "r = Some x" "consumed (advance s) ts s1" "expr_g fp any_name (room s) 1 ts x" and c: "clean s1 s'"
      using good_then [OF g i(1) consumed_ready [OF o], of s'] forward_expect [OF forward_refl [OF forward_ready [OF f]]] s(2) i(2)
        consumed_room [OF o] by auto
    note ex = expect_clean [OF c [unfolded i(2)] forward_ready [OF f]]
    have "prim_g fp any_name (room s) (p_cur s # ts @ [p_cur s1]) x" using par(2) ex(1) by (intro parens [OF _ _ x(3)]) (simp_all add: p_at_def)
    moreover have "consumed s (p_cur s # ts @ [p_cur s1]) s'" using consumed_append [OF o consumed_append [OF x(2) ex(2)]] i(2) by simp
    ultimately show ?thesis using x(1) by auto
  next
    case num
    then show ?thesis using e number_sound [OF s(1) num, of fp] s(2) by (simp add: parsePrimaryE_def is_replicated_def p_at_def)
  next
    case chr
    then show ?thesis using e string_sound [OF s(1) chr, of fp] by (simp add: parsePrimaryE_def is_replicated_def p_at_def string_node_def)
  next
    case hex
    then show ?thesis using e hex_sound [OF s(1) hex, of fp] s(2) by (simp add: parsePrimaryE_def is_replicated_def p_at_def)
  next
    case bit
    then show ?thesis using e string_sound [OF s(1) bit, of fp] by (simp add: parsePrimaryE_def is_replicated_def p_at_def string_node_def)
  next
    case word
    obtain lo s1 where l: "rec X_Basic s = Some (lo, s1)" "(case lo of None \<Rightarrow> Some (None, s1) | Some l \<Rightarrow> rec (X_Arrow l) s1) = Some (r, s')"
      using e word by (auto simp: parsePrimaryE_def is_replicated_def p_at_def bind_eq_Some_conv)
    note f = goodD(1) [OF g l(1) s(1)]
    have "forward s1 s'" using l(2) goodD(1) [OF g _ forward_ready [OF f]] forward_refl [OF forward_ready [OF f]] by (cases lo) auto
    from good_then [OF g l(1) s this] word obtain ts b where b: "lo = Some b" "consumed s ts s1" "basic_g fp any_name (room s) ts b" and c: "clean s1 s'"
      by auto
    from good_last [OF g _ forward_ready [OF f] c] l(2) b(1) consumed_room [OF b(2)] basic [OF b(3)]
    obtain us x where "r = Some x" "consumed s1 us s'" "ref_g fp any_name (room s) (ts @ us) x" by fastforce
    then show ?thesis using consumed_append [OF b(2)] reference by fastforce
  next
    case bad
    then have "s' = p_error (tk_loc (p_cur s)) (''expected an expression, found '' @ tokName (tk_kind (p_cur s))) ''(123)'' s"
      using e by (simp add: parsePrimaryE_def p_at_def)
    then show ?thesis using s error_not_clean [OF forward_refl] by blast
  qed
qed

section \<open>References and arguments\<close>

lemma arrowLoop_sound:
  assumes g: "good fp rec" and e: "arrowLoop rec l s = Some (r, s')" and s: "ready s" "clean s s'"
  shows "sound_call fp (X_Arrow l) s r s'"
  unfolding sound_call.simps
proof (intro allI impI)
  fix us
  assume l: "ref_g fp any_name (room s) us l"
  from e show "\<exists>ts e. r = Some e \<and> consumed s ts s' \<and> ref_g fp any_name (room s) (us @ ts) e"
  proof (cases rule: arrowLoop_cases)
    case stop
    then show ?thesis using s(1) l by (intro exI [of _ "[]"]) auto
  next
    case bad
    then show ?thesis using s error_not_clean [OF forward_advance [OF s(1)]] by blast
  next
    case null
    then show ?thesis using good_last [OF g null(2) forward_ready [OF forward_advance [OF s(1)]]] s(2) by simp
  next
    case (step x s1)
    have o: "consumed s [p_cur s] (advance s)" using consumed_at [OF s(1) step(1)] by simp
    note f1 = goodD(1) [OF g step(3) consumed_ready [OF o]]
    note f2 = goodD(1) [OF g step(4) forward_ready [OF f1]]
    obtain ts where b: "consumed (advance s) ts s1" "basic_g fp any_name (room s) ts x" and c: "clean s1 s'"
      using good_then [OF g step(3) consumed_ready [OF o] _ f2] s(2) step(2) consumed_room [OF o] by auto
    have o1: "consumed s (p_cur s # ts) s1" using consumed_append [OF o b(1)] by simp
    have "ref_g fp any_name (room s) (us @ p_cur s # ts) (with_locator l x)" using step(1) by (intro located [OF l _ b(2)]) (simp add: p_at_def)
    with good_last [OF g step(4) forward_ready [OF f1] c] consumed_room [OF o1]
    obtain vs y where "r = Some y" "consumed s1 vs s'" "ref_g fp any_name (room s) ((us @ p_cur s # ts) @ vs) y" by fastforce
    then show ?thesis using consumed_append [OF o1] by fastforce
  qed
qed

lemma typeDesignator_sound:
  assumes g: "good fp rec" and e: "typeDesignator rec t raw s = Some (r, s')" and s: "ready s" "clean s s'"
  shows "sound_call fp (X_Tag t raw) s r s'"
proof (cases "p_at Tok_Eof s \<or> p_at Tok_Semi s")
  case True
  then have "s' = p_error (tk_loc (p_cur s)) (''expected '' @ [QUOTE] @ '':'' @ [QUOTE] @ '' to close the type designator'') ''(126)'' s"
    using e by (auto simp: typeDesignator_def)
  then show ?thesis using s error_not_clean [OF forward_refl] by blast
next
  case False
  have o: "consumed s [p_cur s] (advance s)" using consumed_one [OF s(1)] False by (simp add: p_at_def)
  show ?thesis
  proof (cases "p_at Tok_Colon s")
    case True
    then show ?thesis using e False o by (auto simp: typeDesignator_def p_at_def intro!: exI [of _ "[]"])
  next
    case nc: False
    define raw' where "raw' = (if tk_text (p_cur s) \<noteq> [] then (if raw \<noteq> [] then raw @ '' '' else raw) @ tk_text (p_cur s) else raw)"
    have "rec (X_Tag t raw') (advance s) = Some (r, s')" using e False nc by (simp add: typeDesignator_def raw'_def)
    from good_last [OF g this consumed_ready [OF o]] s(2) obtain ts d where "r = Some (leaf_node (t\<lparr>x_sval := tag_text raw' ts\<rparr>))"
      "consumed (advance s) (ts @ [d]) s'" "list_all tag_token ts" "tk_kind d = Tok_Colon" by auto
    moreover have "tag_text raw (p_cur s # ts) = tag_text raw' ts" by (simp add: raw'_def)
    moreover have "consumed s ((p_cur s # ts) @ [d]) s'" using consumed_append [OF o calculation(2)] by simp
    moreover have "tag_token (p_cur s)" using False nc by (simp add: tag_token_def p_at_def)
    ultimately show ?thesis unfolding sound_call.simps by (intro exI [of _ "p_cur s # ts"] exI [of _ d]) simp
  qed
qed

lemma argument_forward:
  assumes "good fp rec" and "argument rec w s = Some (ao, s')" and "ready s"
  shows "forward s s'"
proof -
  note adv = forward_advance [OF assms(3)]
  have "rec c (advance s) = Some (ao, s') \<Longrightarrow> forward s s'" for c
    using goodD(1) [OF assms(1) _ forward_ready [OF adv]] forward_trans [OF adv] by blast
  then show ?thesis using assms adv goodD(1) [OF assms(1) _ assms(3)] by (auto simp: argument_def split: if_splits)
qed

lemma argument_sound:
  assumes g: "good fp rec" and e: "argument rec w s = Some (ao, s')" and s: "ready s" "clean s s'"
  shows "\<exists>ts a. ao = Some a \<and> consumed s ts s' \<and> arg_g fp any_name (room s) w ts a"
proof -
  consider (st) "p_at Tok_Star s" | (tag) "p_at Tok_Colon s" "isEnquiryName w" | (ex) "\<not> p_at Tok_Star s" "\<not> (p_at Tok_Colon s \<and> isEnquiryName w)"
    by blast
  then show ?thesis
  proof cases
    case st
    then show ?thesis using e consumed_at [OF s(1) st] star [of "p_cur s" fp any_name "room s" w] by (auto simp: argument_def p_at_def)
  next
    case tag
    have o: "consumed s [p_cur s] (advance s)" using consumed_at [OF s(1) tag(1)] by simp
    have "rec (X_Tag (default_expr\<lparr>x_kind := EK_TypeTag, x_loc := tk_loc (p_cur s)\<rparr>) []) (advance s) = Some (ao, s')"
      using e tag by (simp add: argument_def p_at_def)
    from good_last [OF g this consumed_ready [OF o]] s(2) obtain ts d where
      "ao = Some (leaf_node (default_expr\<lparr>x_kind := EK_TypeTag, x_loc := tk_loc (p_cur s), x_sval := tag_text [] ts\<rparr>))"
      "consumed (advance s) (ts @ [d]) s'" "list_all tag_token ts" "tk_kind d = Tok_Colon" by auto
    moreover from this have "arg_g fp any_name (room s) w (p_cur s # ts @ [d])
        (leaf_node (default_expr\<lparr>x_kind := EK_TypeTag, x_loc := tk_loc (p_cur s), x_sval := tag_text [] ts\<rparr>))"
      using tag by (intro designator) (simp_all add: p_at_def)
    ultimately show ?thesis using consumed_append [OF o] by fastforce
  next
    case ex
    then have "rec (X_Expr 1) s = Some (ao, s')" using e by (auto simp: argument_def)
    from good_last [OF g this s] show ?thesis by (auto intro: argument)
  qed
qed

lemma argsLoop_sound:
  assumes g: "good fp rec" and e: "argsLoop rec b as0 s = Some (r, s')" and s: "ready s" "clean s s'"
  shows "sound_call fp (X_Args b as0) s r s'"
  using e
proof (cases rule: argsLoop_cases)
  case (1 ao s1)
  note f1 = argument_forward [OF g 1(1) s(1)]
  show ?thesis
  proof (cases "p_at Tok_Comma s1")
    case True
    have o: "consumed s1 [p_cur s1] (advance s1)" using consumed_at [OF forward_ready [OF f1] True] by simp
    have l: "rec (X_Args b (case ao of None \<Rightarrow> as0 | Some e \<Rightarrow> as0 @ [e])) (advance s1) = Some (r, s')" using 1(2) True by simp
    note f2 = goodD(1) [OF g l consumed_ready [OF o]]
    have c: "clean s s1" "clean (advance s1) s'" using clean_split [OF s(2) forward_step(1) [OF f1] f2] by simp_all
    obtain ts a where a: "ao = Some a" "consumed s ts s1" "arg_g fp any_name (room s) (x_name b) ts a"
      using argument_sound [OF g 1(1) s(1) c(1)] by blast
    obtain us as where "r = Some (Expr b None None None ((as0 @ [a]) @ as))" "consumed (advance s1) us s'"
      "args_g fp any_name (room s) (x_name b) us as"
      using good_last [OF g l consumed_ready [OF o] c(2)] a(1) consumed_room [OF a(2)] consumed_room [OF o] by auto
    moreover from this have "args_g fp any_name (room s) (x_name b) (ts @ p_cur s1 # us) (a # as)"
      using True by (intro more_args [OF a(3)]) (simp_all add: p_at_def)
    moreover have "consumed s (ts @ p_cur s1 # us) s'" using consumed_append [OF a(2) consumed_append [OF o calculation(2)]] by simp
    ultimately show ?thesis by auto
  next
    case False
    then have "r = Some (Expr b None None None (case ao of None \<Rightarrow> as0 | Some e \<Rightarrow> as0 @ [e]))" "s' = s1" using 1(2) by simp_all
    then show ?thesis using argument_sound [OF g 1(1) s(1)] s(2) last_arg by fastforce
  qed
qed

text \<open>The arguments between the parentheses, or none.\<close>

lemma call_arguments:
  assumes g: "good fp rec" and s: "ready s" "clean s s'"
    and e: "(if p_at Tok_RParen s then Some (Some (leaf_node b), s) else rec (X_Args b []) s) = Some (r, s')"
  obtains ts as where "r = Some (Expr b None None None as)" "consumed s ts s'"
    "ts = [] \<and> as = [] \<or> args_g fp any_name (room s) (x_name b) ts as"
proof (cases "p_at Tok_RParen s")
  case True
  then show ?thesis using e s(1) by (intro that [of "[]" "[]"]) (auto simp: leaf_node_def)
next
  case False
  then show ?thesis using good_last [OF g _ s] e that by fastforce
qed

lemma call_derivation:
  assumes "tk_kind w = Tok_Word" and "path_g ts p" and "tk_kind l = Tok_LParen" and "vs = [] \<and> as = [] \<or> args_g fp any_name n (tk_text w) vs as"
    and "tk_kind r = Tok_RParen" and "path_g us q"
  shows "basic_g fp any_name n (w # ts @ l # vs @ r # us) (ref_node w EK_Call (p @ q) as)"
  using assms(4)
proof
  assume "vs = [] \<and> as = []"
  then show ?thesis using no_args [OF assms(1) _ assms(2, 3, 5, 6)] by simp
qed (use call [OF assms(1) _ assms(2, 3) _ assms(5, 6)] in simp)

text \<open>A word and its qualifiers.\<close>

lemma word_with_path:
  assumes "ready s" and "p_at Tok_Word s" and "path_loop (name_attrs (p_cur s)) (advance s) = (b, s1)"
  shows "forward s s1"
    and "clean s s1 \<Longrightarrow> \<exists>ts p. consumed s (p_cur s # ts) s1 \<and> path_g ts p \<and> b = name_attrs (p_cur s)\<lparr>x_path := p\<rparr>"
proof -
  have o: "consumed s [p_cur s] (advance s)" using consumed_at [OF assms(1, 2)] by simp
  show "forward s s1" using forward_path_eq [OF assms(3) consumed_forward [OF o]] .
  assume "clean s s1"
  then obtain ts p where "consumed (advance s) ts s1" "path_g ts p" "b = name_attrs (p_cur s)\<lparr>x_path := x_path (name_attrs (p_cur s)) @ p\<rparr>"
    using path_sound [OF assms(3) consumed_ready [OF o]] by auto
  then show "\<exists>ts p. consumed s (p_cur s # ts) s1 \<and> path_g ts p \<and> b = name_attrs (p_cur s)\<lparr>x_path := p\<rparr>"
    using consumed_append [OF o] by (auto simp: name_attrs_def default_expr_def)
qed

lemma plain_name_sound:
  assumes s: "ready s" "clean s s'" and w: "p_at Tok_Word s" and p: "path_loop (name_attrs (p_cur s)) (advance s) = (b, s1)"
    and q: "path_loop b s1 = (b', s')"
  shows "\<exists>ts. consumed s ts s' \<and> basic_g fp any_name (room s) ts (leaf_node b')"
proof -
  note f = word_with_path(1) [OF s(1) w p]
  have c: "clean s s1" "clean s1 s'" using clean_split [OF s(2) f forward_path_eq [OF q forward_refl [OF forward_ready [OF f]]]] by simp_all
  obtain ts ps where 1: "consumed s (p_cur s # ts) s1" "path_g ts ps" "b = name_attrs (p_cur s)\<lparr>x_path := ps\<rparr>"
    using word_with_path(2) [OF s(1) w p c(1)] by blast
  obtain us qs where 2: "consumed s1 us s'" "path_g us qs" "b' = b\<lparr>x_path := x_path b @ qs\<rparr>"
    using path_sound [OF q forward_ready [OF f] c(2)] by blast
  have "basic_g fp any_name (room s) (p_cur s # ts @ us) (ref_node (p_cur s) EK_VarRef (ps @ qs) [])"
    using w path_g_append [OF 1(2) 2(2)] by (intro name) (simp_all add: p_at_def)
  moreover have "leaf_node b' = ref_node (p_cur s) EK_VarRef (ps @ qs) []"
    using 1(3) 2(3) by (simp add: leaf_node_def ref_node_def name_attrs_def default_expr_def)
  ultimately show ?thesis using consumed_append [OF 1(1) 2(1)] by auto
qed

text \<open>The closing parenthesis of a call and the qualifiers behind it.\<close>

lemma close_call_sound:
  assumes s: "ready s" "clean s s'" and q: "path_loop b (snd (expect Tok_RParen rl s)) = (b', s')"
  shows "\<exists>us p. p_at Tok_RParen s \<and> consumed s (p_cur s # us) s' \<and> path_g us p \<and> b' = b\<lparr>x_path := x_path b @ p\<rparr>"
proof -
  let ?t = "snd (expect Tok_RParen rl s)"
  note f = forward_expect [OF forward_refl [OF s(1)], of Tok_RParen rl]
  have c: "clean s ?t" "clean ?t s'" using clean_split [OF s(2) f forward_path_eq [OF q forward_refl [OF forward_ready [OF f]]]] by simp_all
  note ec = expect_clean [OF c(1) s(1)]
  obtain us p where "consumed ?t us s'" "path_g us p" "b' = b\<lparr>x_path := x_path b @ p\<rparr>"
    using path_sound [OF q forward_ready [OF f] c(2)] by blast
  then show ?thesis using ec consumed_append [OF ec(2)] by auto
qed

lemma call_sound:
  assumes g: "good fp rec" and s: "ready s" "clean s s'" and w: "p_at Tok_Word s" and lp: "p_at Tok_LParen s1"
    and p: "path_loop (name_attrs (p_cur s)) (advance s) = (b, s1)"
    and a: "(if p_at Tok_RParen (advance s1) then Some (Some (leaf_node (b\<lparr>x_kind := EK_Call\<rparr>)), advance s1)
             else rec (X_Args (b\<lparr>x_kind := EK_Call\<rparr>) []) (advance s1)) = Some (Some e, s3)"
    and q: "path_loop (xa e) (snd (expect Tok_RParen ''(126)'' s3)) = (b', s')"
  shows "\<exists>ts. consumed s ts s' \<and> basic_g fp any_name (room s) ts (Expr b' None None None (args e))"
proof -
  let ?c = "b\<lparr>x_kind := EK_Call\<rparr>"
  note f1 = word_with_path(1) [OF s(1) w p]
  have o: "consumed s1 [p_cur s1] (advance s1)" using consumed_at [OF forward_ready [OF f1] lp] by simp
  have f2: "forward (advance s1) s3" using a goodD(1) [OF g _ consumed_ready [OF o]] forward_refl [OF consumed_ready [OF o]] by (auto split: if_splits)
  have f3: "forward s3 s'" using forward_path_eq [OF q forward_expect [OF forward_refl [OF forward_ready [OF f2]]]] .
  have c: "clean s s1" "clean (advance s1) s'"
    using clean_split [OF s(2) f1 forward_trans [OF consumed_forward [OF o] forward_trans [OF f2 f3]]] by simp_all
  have c2: "clean (advance s1) s3" "clean s3 s'" using clean_split [OF c(2) f2 f3] by simp_all
  obtain ts ps where 1: "consumed s (p_cur s # ts) s1" "path_g ts ps" "b = name_attrs (p_cur s)\<lparr>x_path := ps\<rparr>"
    using word_with_path(2) [OF s(1) w p c(1)] by blast
  obtain vs as where 2: "Some e = Some (Expr ?c None None None as)" "consumed (advance s1) vs s3"
    "vs = [] \<and> as = [] \<or> args_g fp any_name (room (advance s1)) (x_name ?c) vs as"
    by (rule call_arguments [OF g consumed_ready [OF o] c2(1) a])
  obtain us qs where 3: "p_at Tok_RParen s3" "consumed s3 (p_cur s3 # us) s'" "path_g us qs" "b' = xa e\<lparr>x_path := x_path (xa e) @ qs\<rparr>"
    using close_call_sound [OF forward_ready [OF f2] c2(2) q] by blast
  have "room (advance s1) = room s" "x_name ?c = tk_text (p_cur s)"
    using consumed_room [OF o] consumed_room [OF 1(1)] 1(3) by (simp_all add: name_attrs_def)
  then have "basic_g fp any_name (room s) (p_cur s # ts @ p_cur s1 # vs @ p_cur s3 # us) (ref_node (p_cur s) EK_Call (ps @ qs) as)"
    using w 1(2) lp 2(3) 3(1, 3) by (intro call_derivation) (simp_all add: p_at_def)
  moreover have "Expr b' None None None (args e) = ref_node (p_cur s) EK_Call (ps @ qs) as"
    using 2(1) 3(4) 1(3) by (simp add: ref_node_def name_attrs_def default_expr_def)
  ultimately show ?thesis using consumed_append [OF 1(1) consumed_append [OF o consumed_append [OF 2(2) 3(2)]]] by auto
qed

lemma parseBasic_sound:
  assumes g: "good fp rec" and e: "parseBasic rec s = Some (r, s')" and s: "ready s" "clean s s'" and w: "p_at Tok_Word s"
  shows "\<exists>ts e. r = Some e \<and> consumed s ts s' \<and> basic_g fp any_name (room s) ts e"
  using e
proof (cases rule: parseBasic_cases)
  case (plain b s1)
  have "path_loop b s1 = (fst (path_loop b s1), s')" using plain(4) by simp
  from plain_name_sound [OF s w plain(1) this] show ?thesis using plain(3) by blast
next
  case (null b s1)
  note f = forward_step(1) [OF word_with_path(1) [OF s(1) w null(1)]]
  have "clean (advance s1) s'" using clean_split [OF s(2) f goodD(1) [OF g null(2) forward_ready [OF f]]] by simp
  then show ?thesis using good_last [OF g null(2) forward_ready [OF f]] by simp
next
  case (call b s1 e s3)
  have "path_loop (xa e) (snd (expect Tok_RParen ''(126)'' s3)) = (fst (path_loop (xa e) (snd (expect Tok_RParen ''(126)'' s3))), s')"
    using call(5) by simp
  from call_sound [OF g s w call(2, 1, 3) this] show ?thesis using call(4) by blast
qed

section \<open>Every run\<close>

lemma runs_are_good: "good fp (run_fuel (expr_body fp) k)"
proof (induction k)
  case 0
  then show ?case by (simp add: good_def)
next
  case (Suc k)
  note members = parseExpr_sound [OF Suc] infixLoop_sound [OF Suc] parseUnary_sound [OF Suc] parsePower_sound [OF Suc]
    parsePrimary_sound [OF Suc] parseBasic_sound [OF Suc] argsLoop_sound [OF Suc] arrowLoop_sound [OF Suc] typeDesignator_sound [OF Suc]
  show ?case unfolding good_def
  proof (intro allI impI conjI)
    fix c s r s'
    assume r: "run_fuel (expr_body fp) (Suc k) c s = Some (r, s')" and s: "ready s"
    show "forward s s'" by (rule run_forward [OF r s])
    assume "clean s s'"
    then show "sound_call fp c s r s'" using members r s by (cases c) (simp_all del: sound_call.simps, simp)
  qed
qed

lemma accepted_expression:
  assumes "ex.evals fp (X_Expr m) s (r, s')" and "ready s" and "clean s s'"
  obtains ts e where "r = Some e" "consumed s ts s'" "expr_g fp any_name (room s) m ts e"
  using assms goodD(2) [OF runs_are_good] unfolding ex.evals_def by fastforce

end
