(* ===== verification/GrammarTotal.thy ===== *)
theory GrammarTotal
  imports Grammar
begin

text \<open>
  Every call of the expression parser returns: the calls of a member are smaller in the lexicographic order of nesting
  left, tokens left and rank of the member.
\<close>

section \<open>Every call returns\<close>

text \<open>Each call either goes one level deeper, or consumes a token, or moves on to a member of lower rank.\<close>

fun rank :: "xcall \<Rightarrow> nat" where
  "rank X_Power = 2"
| "rank X_Primary = 1"
| "rank (X_Args b as) = 1"
| "rank _ = 0"

definition smaller :: "((xcall \<times> pst) \<times> (xcall \<times> pst)) set" where
  "smaller = inv_image (less_than <*lex*> less_than <*lex*> less_than)
     (\<lambda>(c, s). (kMaxExprDepth - ps_exprDepth s, length (pending s), rank c))"

lemma wf_smaller: "wf smaller"
  unfolding smaller_def by (intro wf_inv_image wf_lex_prod wf_less_than)

definition returns :: "float_lib \<Rightarrow> xcall \<Rightarrow> pst \<Rightarrow> bool" where
  "returns fp c s \<longleftrightarrow> (\<exists>r t. ex.evals fp c s (r, t) \<and> forward s t)"

lemma returnsI: "ex.evals fp c s rt \<Longrightarrow> ready s \<Longrightarrow> returns fp c s"
  unfolding returns_def ex.evals_def by (cases rt) (use run_forward in blast)

lemma returns_leaf: "expr_body fp (\<lambda>_ _. None) c s \<noteq> None \<Longrightarrow> ready s \<Longrightarrow> returns fp c s"
  using ex.evals_step0 returnsI by blast

lemma returnsE:
  assumes "returns fp c s"
  obtains r t where "ex.evals fp c s (r, t)" "forward s t"
  using assms unfolding returns_def by blast

text \<open>The three ways to become smaller.\<close>

lemma forward_rest: "forward s t \<Longrightarrow> length (pending t) \<le> length (pending s)"
  by (auto simp: forward_def pending_def)

lemma advance_rest: "ready s \<Longrightarrow> tk_kind (p_cur s) \<noteq> Tok_Eof \<Longrightarrow> length (pending (advance s)) < length (pending s)"
  using advance_skip [of s] rest_nonempty [of s] by (cases "pending s") (auto simp: cur_pending)

lemma smaller_deeper: "ps_exprDepth s < kMaxExprDepth \<Longrightarrow> forward (enter s) t \<Longrightarrow> ((c', t), (c, s)) \<in> smaller"
  by (auto simp: smaller_def forward_def)

lemma smaller_token:
  assumes "forward s t" and "tk_kind (p_cur t) \<noteq> Tok_Eof" and "forward (advance t) u"
  shows "((c', u), (c, s)) \<in> smaller"
  using assms advance_rest [OF forward_ready [OF assms(1)] assms(2)] forward_rest [OF assms(1)] forward_rest [OF assms(3)]
    forward_advance [OF forward_ready [OF assms(1)]] by (simp add: smaller_def forward_def)

lemma smaller_rank: "forward s t \<Longrightarrow> rank c' < rank c \<Longrightarrow> ((c', t), (c, s)) \<in> smaller"
  using forward_rest [of s t] by (auto simp: smaller_def forward_def)

text \<open>What the calls smaller than \<open>(c, s)\<close> give.\<close>

definition below_returns :: "float_lib \<Rightarrow> xcall \<Rightarrow> pst \<Rightarrow> bool" where
  "below_returns fp c s \<longleftrightarrow> (\<forall>c' t. ((c', t), (c, s)) \<in> smaller \<longrightarrow> ready t \<longrightarrow> returns fp c' t)"

lemma below_deeper:
  "below_returns fp c s \<Longrightarrow> ps_exprDepth s < kMaxExprDepth \<Longrightarrow> forward (enter s) t \<Longrightarrow> returns fp c' t"
  using smaller_deeper forward_ready unfolding below_returns_def by blast

lemma below_token:
  "below_returns fp c s \<Longrightarrow> forward s t \<Longrightarrow> tk_kind (p_cur t) \<noteq> Tok_Eof \<Longrightarrow> forward (advance t) u \<Longrightarrow> returns fp c' u"
  using smaller_token forward_ready unfolding below_returns_def by blast

lemma below_rank: "below_returns fp c s \<Longrightarrow> forward s t \<Longrightarrow> rank c' < rank c \<Longrightarrow> returns fp c' t"
  using smaller_rank forward_ready unfolding below_returns_def by blast

lemma parseExpr_returns:
  assumes b: "below_returns fp (X_Expr m) s" and s: "ready s"
  shows "returns fp (X_Expr m) s"
proof (cases "ps_exprDepth s < kMaxExprDepth")
  case False
  then show ?thesis using s by (intro returnsI [OF ex.evals_step0]) (auto simp: parseExpr_def too_deep_def)
next
  case True
  have "forward (enter s) (enter s)" using s by (simp add: forward_refl)
  then obtain lo s1 where l: "ex.evals fp X_Unary (enter s) (lo, s1)" "forward (enter s) s1"
    using below_deeper [OF b True] returnsE by blast
  show ?thesis
  proof (cases lo)
    case None
    then have "ex.evals fp (X_Expr m) s (None, leave s1)" using l(1) True by (elim ex.evals_step1) (simp add: parseExpr_def)
    then show ?thesis using s by (rule returnsI)
  next
    case (Some x)
    obtain r s2 where r: "ex.evals fp (X_Loop m x) s1 (r, s2)" using below_deeper [OF b True l(2)] returnsE by blast
    have "ex.evals fp (X_Expr m) s (r, leave s2)" using True Some by (intro ex.evals_step2 [OF l(1) r]) (simp add: parseExpr_def)
    then show ?thesis using s by (rule returnsI)
  qed
qed

lemma infixLoop_returns:
  assumes b: "below_returns fp (X_Loop m l) s" and s: "ready s"
  shows "returns fp (X_Loop m l) s"
proof (cases "infixOp (p_cur s) = Tok_Eof \<or> precOf (infixOp (p_cur s)) = 0 \<or> precOf (infixOp (p_cur s)) < m")
  case True
  then show ?thesis using s by (intro returnsI [OF ex.evals_step0]) (auto simp: infixLoop_def Let_def)
next
  case False
  then have k: "tk_kind (p_cur s) \<noteq> Tok_Eof" by (auto simp: infixOp_def)
  note t = below_token [OF b forward_refl [OF s] k]
  obtain ro s1 where r: "ex.evals fp (X_Expr (precOf (infixOp (p_cur s)) + 1)) (advance s) (ro, s1)" "forward (advance s) s1"
    using t [OF forward_refl [OF forward_ready [OF forward_advance [OF s]]]] returnsE by blast
  show ?thesis
  proof (cases ro)
    case None
    then have "ex.evals fp (X_Loop m l) s (None, s1)" using r(1) False by (elim ex.evals_step1) (simp add: infixLoop_def Let_def)
    then show ?thesis using s by (rule returnsI)
  next
    case (Some x)
    obtain y where y: "ex.evals fp (X_Loop m (op_node EK_Binary (infixOp (p_cur s)) (tk_loc (p_cur s)) (Some l) (Some x))) s1 y"
      using t [OF r(2)] returnsE by blast
    have "ex.evals fp (X_Loop m l) s y" using Some False by (intro ex.evals_step2 [OF r(1) y]) (simp add: infixLoop_def Let_def)
    then show ?thesis using s by (rule returnsI)
  qed
qed

lemma parseUnary_returns:
  assumes b: "below_returns fp X_Unary s" and s: "ready s"
  shows "returns fp X_Unary s"
proof (cases "ps_exprDepth s < kMaxExprDepth")
  case False
  then show ?thesis using s by (intro returnsI [OF ex.evals_step0]) (auto simp: parseUnaryE_def too_deep_def)
next
  case True
  have f: "forward (enter s) (enter s)" "forward (enter s) (advance (enter s))" using s by (simp_all add: forward_refl forward_advance del: advance_enter)
  show ?thesis
  proof (cases "at_prefix s")
    case p: True
    obtain ao s1 where a: "ex.evals fp X_Unary (advance (enter s)) (ao, s1)" using below_deeper [OF b True f(2)] returnsE by blast
    have "ex.evals fp X_Unary s (map_option (\<lambda>a. if prefix_op s = Tok_Plus then a else op_node EK_Unary (prefix_op s) (tk_loc (p_cur s)) (Some a) None) ao, leave s1)"
      using a True p by (elim ex.evals_step1) (simp add: parseUnaryE_def prefix_op_def Let_def split: option.split del: advance_enter)
    then show ?thesis using s by (rule returnsI)
  next
    case p: False
    obtain r s1 where a: "ex.evals fp X_Power (enter s) (r, s1)" using below_deeper [OF b True f(1)] returnsE by blast
    have "ex.evals fp X_Unary s (r, leave s1)" using a True p by (elim ex.evals_step1) (simp add: parseUnaryE_def)
    then show ?thesis using s by (rule returnsI)
  qed
qed

lemma parsePower_returns:
  assumes b: "below_returns fp X_Power s" and s: "ready s"
  shows "returns fp X_Power s"
proof -
  obtain ao s1 where a: "ex.evals fp X_Primary s (ao, s1)" "forward s s1" 
    by (rule returnsE [OF below_rank [OF b forward_refl [OF s], of X_Primary]]) simp
  show ?thesis
  proof (cases "ao \<noteq> None \<and> p_at Tok_Power s1")
    case False
    then have "ex.evals fp X_Power s (ao, s1)" using a(1) by (elim ex.evals_step1) (auto simp: parsePower_def split: option.split)
    then show ?thesis using s by (rule returnsI)
  next
    case True
    then have k: "tk_kind (p_cur s1) \<noteq> Tok_Eof" by (simp add: p_at_def)
    obtain bo s2 where c: "ex.evals fp X_Unary (advance s1) (bo, s2)"
      using below_token [OF b a(2) k forward_refl] forward_ready [OF forward_step(1) [OF a(2)]] returnsE by blast
    have "ex.evals fp X_Power s (map_option (\<lambda>b. op_node EK_Binary Tok_Power (tk_loc (p_cur s1)) ao (Some b)) bo, s2)"
      using True by (intro ex.evals_step2 [OF a(1) c]) (auto simp: parsePower_def split: option.split)
    then show ?thesis using s by (rule returnsI)
  qed
qed

lemma parsePrimary_returns:
  assumes b: "below_returns fp X_Primary s" and s: "ready s"
  shows "returns fp X_Primary s"
proof -
  consider (par) "\<not> is_replicated s" "p_at Tok_LParen s" | (word) "p_at Tok_Word s" | (leaf) "is_replicated s \<or> \<not> p_at Tok_LParen s" "\<not> p_at Tok_Word s"
    by blast
  then show ?thesis
  proof cases
    case par
    then have k: "tk_kind (p_cur s) \<noteq> Tok_Eof" by (simp add: p_at_def)
    obtain r s1 where "ex.evals fp (X_Expr 1) (advance s) (r, s1)"
      using below_token [OF b forward_refl [OF s] k forward_refl] forward_ready [OF forward_advance [OF s]] returnsE by blast
    then have "ex.evals fp X_Primary s (r, snd (expect Tok_RParen ''(123)'' s1))"
      using par by (elim ex.evals_step1) (simp add: parsePrimaryE_def)
    then show ?thesis using s by (rule returnsI)
  next
    case word
    have w: "parsePrimaryE fp rec s = do { (lhs, s1) \<leftarrow> rec X_Basic s; case lhs of None \<Rightarrow> Some (None, s1) | Some l \<Rightarrow> rec (X_Arrow l) s1 }" for rec
      using word by (simp add: parsePrimaryE_def is_replicated_def p_at_def)
    obtain lo s1 where l: "ex.evals fp X_Basic s (lo, s1)" "forward s s1" 
      by (rule returnsE [OF below_rank [OF b forward_refl [OF s], of X_Basic]]) simp
    show ?thesis
    proof (cases lo)
      case None
      then have "ex.evals fp X_Primary s (None, s1)" using l(1) by (elim ex.evals_step1) (simp add: w)
      then show ?thesis using s by (rule returnsI)
    next
      case (Some x)
      obtain r t where y: "ex.evals fp (X_Arrow x) s1 (r, t)"
        by (rule returnsE [OF below_rank [OF b l(2), of "X_Arrow x"]]) simp
      have "ex.evals fp X_Primary s (r, t)" using Some by (intro ex.evals_step2 [OF l(1) y]) (simp add: w)
      then show ?thesis using s by (rule returnsI)
    qed
  next
    case leaf
    then show ?thesis using s by (intro returns_leaf) (auto simp: parsePrimaryE_def)
  qed
qed

lemma arrowLoop_returns:
  assumes b: "below_returns fp (X_Arrow l) s" and s: "ready s"
  shows "returns fp (X_Arrow l) s"
proof (cases "p_at Tok_Arrow s \<and> p_at Tok_Word (advance s)")
  case False
  then show ?thesis using s by (intro returns_leaf) (auto simp: arrowLoop_def Let_def)
next
  case True
  then have k: "tk_kind (p_cur s) \<noteq> Tok_Eof" by (simp add: p_at_def)
  note t = below_token [OF b forward_refl [OF s] k]
  obtain ro s1 where r: "ex.evals fp X_Basic (advance s) (ro, s1)" "forward (advance s) s1"
    using t [OF forward_refl [OF forward_ready [OF forward_advance [OF s]]]] returnsE by blast
  show ?thesis
  proof (cases ro)
    case None
    then have "ex.evals fp (X_Arrow l) s (None, s1)" using r(1) True by (elim ex.evals_step1) (simp add: arrowLoop_def Let_def)
    then show ?thesis using s by (rule returnsI)
  next
    case (Some x)
    obtain y where y: "ex.evals fp (X_Arrow (with_locator l x)) s1 y" using t [OF r(2)] returnsE by blast
    have "ex.evals fp (X_Arrow l) s y" using Some True by (intro ex.evals_step2 [OF r(1) y]) (simp add: arrowLoop_def Let_def)
    then show ?thesis using s by (rule returnsI)
  qed
qed

lemma parseBasic_returns:
  assumes b: "below_returns fp X_Basic s" and s: "ready s"
  shows "returns fp X_Basic s"
proof -
  obtain x s1 where p: "path_loop (default_expr\<lparr>x_kind := EK_VarRef, x_loc := tk_loc (p_cur s), x_name := tk_text (p_cur s)\<rparr>) (advance s) = (x, s1)"
    by (metis surj_pair)
  have f: "forward s s1" using forward_path_eq [OF p forward_advance [OF s]] .
  show ?thesis
  proof (cases "p_at Tok_LParen s1 \<and> \<not> p_at Tok_RParen (advance s1)")
    case False
    then show ?thesis using s p by (intro returns_leaf) (auto simp: parseBasic_def Let_def leaf_node_def split: prod.split)
  next
    case True
    then have k: "tk_kind (p_cur s1) \<noteq> Tok_Eof" by (simp add: p_at_def)
    obtain ro s3 where r: "ex.evals fp (X_Args (x\<lparr>x_kind := EK_Call\<rparr>) []) (advance s1) (ro, s3)"
      using below_token [OF b f k forward_refl] forward_ready [OF forward_step(1) [OF f]] returnsE by blast
    have "ex.evals fp X_Basic s (case ro of None \<Rightarrow> (None, s3) | Some e \<Rightarrow>
        (let (b2, s5) = path_loop (xa e) (snd (expect Tok_RParen ''(126)'' s3)) in (Some (Expr b2 None None None (args e)), s5)))"
      using r True p by (elim ex.evals_step1) (simp add: parseBasic_def Let_def split: option.split prod.split)
    then show ?thesis using s by (rule returnsI)
  qed
qed

lemma argument_returns:
  assumes b: "below_returns fp (X_Args x as) s" and s: "ready s"
  obtains c t v ao s1 where "ex.evals fp c t v" "\<And>f. f c t = Some v \<Longrightarrow> argument f w s = Some (ao, s1)" "forward s s1"
proof -
  note fs = forward_refl [OF s] and adv = forward_advance [OF s]
  consider (st) "p_at Tok_Star s" | (tag) "p_at Tok_Colon s" "isEnquiryName w" | (ex) "\<not> p_at Tok_Star s" "\<not> (p_at Tok_Colon s \<and> isEnquiryName w)" by blast
  then show ?thesis
  proof cases
    case st
    obtain r t where "ex.evals fp (X_Expr 1) s (r, t)" 
      by (rule returnsE [OF below_rank [OF b fs, of "X_Expr 1"]]) simp
    then show ?thesis by (rule that) (use st adv in \<open>simp_all add: argument_def\<close>)
  next
    case tag
    then have k: "tk_kind (p_cur s) \<noteq> Tok_Eof" by (simp add: p_at_def)
    let ?c = "X_Tag (default_expr\<lparr>x_kind := EK_TypeTag, x_loc := tk_loc (p_cur s)\<rparr>) []"
    obtain r t where r: "ex.evals fp ?c (advance s) (r, t)" "forward (advance s) t"
      using below_token [OF b fs k forward_refl [OF forward_ready [OF adv]]] returnsE by blast
    show ?thesis by (rule that [OF r(1) _ forward_trans [OF adv r(2)]]) (use tag in \<open>simp add: argument_def p_at_def\<close>)
  next
    case ex
    obtain r t where r: "ex.evals fp (X_Expr 1) s (r, t)" "forward s t" 
      by (rule returnsE [OF below_rank [OF b fs, of "X_Expr 1"]]) simp
    show ?thesis by (rule that [OF r(1) _ r(2)]) (use ex in \<open>auto simp: argument_def\<close>)
  qed
qed

lemma argsLoop_returns:
  assumes b: "below_returns fp (X_Args x as) s" and s: "ready s"
  shows "returns fp (X_Args x as) s"
proof -
  obtain c t v ao s1 where a: "ex.evals fp c t v" "\<And>f. f c t = Some v \<Longrightarrow> argument f (x_name x) s = Some (ao, s1)" and f: "forward s s1"
    using argument_returns [OF b s, of "x_name x"] by blast
  let ?as = "case ao of None \<Rightarrow> as | Some e \<Rightarrow> as @ [e]"
  show ?thesis
  proof (cases "p_at Tok_Comma s1")
    case False
    then have "ex.evals fp (X_Args x as) s (Some (Expr x None None None ?as), s1)" using a by (elim ex.evals_step1) (simp add: argsLoop_def Let_def)
    then show ?thesis using s by (rule returnsI)
  next
    case True
    then have k: "tk_kind (p_cur s1) \<noteq> Tok_Eof" by (simp add: p_at_def)
    obtain y where y: "ex.evals fp (X_Args x ?as) (advance s1) y"
      using below_token [OF b f k forward_refl] forward_ready [OF forward_step(1) [OF f]] returnsE by blast
    have "ex.evals fp (X_Args x as) s y" using a(2) True by (intro ex.evals_step2 [OF a(1) y]) (simp add: argsLoop_def Let_def)
    then show ?thesis using s by (rule returnsI)
  qed
qed

lemma typeDesignator_returns:
  assumes b: "below_returns fp (X_Tag t raw) s" and s: "ready s"
  shows "returns fp (X_Tag t raw) s"
proof (cases "p_at Tok_Eof s \<or> p_at Tok_Semi s \<or> p_at Tok_Colon s")
  case True
  then show ?thesis using s by (intro returns_leaf) (auto simp: typeDesignator_def)
next
  case False
  then have k: "tk_kind (p_cur s) \<noteq> Tok_Eof" by (simp add: p_at_def)
  define raw' where "raw' = (if tk_text (p_cur s) \<noteq> [] then (if raw \<noteq> [] then raw @ '' '' else raw) @ tk_text (p_cur s) else raw)"
  obtain y where y: "ex.evals fp (X_Tag t raw') (advance s) y"
    using below_token [OF b forward_refl [OF s] k forward_refl] forward_ready [OF forward_advance [OF s]] returnsE by blast
  have "expr_body fp rec (X_Tag t raw) s = rec (X_Tag t raw') (advance s)" for rec using False by (simp add: typeDesignator_def raw'_def)
  then have "ex.evals fp (X_Tag t raw) s y" using y by (elim ex.evals_step1) simp
  then show ?thesis using s by (rule returnsI)
qed

lemma every_call_returns: "ready s \<Longrightarrow> returns fp c s"
proof (induction "(c, s)" arbitrary: c s rule: wf_induct_rule [OF wf_smaller])
  case 1
  then have b: "below_returns fp c s" unfolding below_returns_def by blast
  then show ?case using 1(2)
    by (cases c) (simp_all add: parseExpr_returns infixLoop_returns parseUnary_returns parsePower_returns parsePrimary_returns
        parseBasic_returns argsLoop_returns arrowLoop_returns typeDesignator_returns)
qed

end
