(* ===== verification/ParseStmt.thy ===== *)
theory ParseStmt
  imports GrammarComplete GrammarSound GrammarTotal AstStmt
begin

text \<open>
  Statements of \<^verbatim>\<open>src/parser.cpp\<close> that hold expressions only: recovery, the lookahead that tells an assignment from a keyword
  statement, assignments and the simple keyword statements, each given the function that runs the expression
  parser.  The result is the statement, \<^const>\<open>None\<close> for the null pointer, and the state; the outer \<^const>\<open>None\<close> stands for an
  expression run that was cut short or a loop that does not end.
\<close>

section \<open>Token access and recovery\<close>

definition p_word :: "string \<Rightarrow> pst \<Rightarrow> bool" where "p_word w s \<longleftrightarrow> p_at Tok_Word s \<and> tk_text (p_cur s) = w"

definition eat :: "Tok \<Rightarrow> pst \<Rightarrow> bool \<times> pst" where
  "eat k s = (if p_at k s then (True, advance s) else (False, s))"

partial_function (option) resync_loop :: "pst \<Rightarrow> pst option" where
  "resync_loop s = (if p_at Tok_Eof s \<or> p_at Tok_Semi s then Some s else resync_loop (advance s))"

definition resync :: "pst \<Rightarrow> pst option" where
  "resync s = do { s1 \<leftarrow> resync_loop s; Some (snd (eat Tok_Semi s1)) }"

definition p_error_fix :: "SourceLoc \<Rightarrow> string \<Rightarrow> string \<Rightarrow> string \<Rightarrow> pst \<Rightarrow> pst" where
  "p_error_fix l m r f s = s\<lparr>ps_d := error (ps_d s) l m r f\<rparr>"

type_synonym sres = "(Stmt option \<times> pst) option"

text \<open>A statement given up: skip behind the next semicolon and return the null pointer.\<close>

definition give_up :: "pst \<Rightarrow> sres" where
  "give_up s = do { s1 \<leftarrow> resync s; Some (None, s1) }"

definition leaf_stmt :: "stmt_attrs \<Rightarrow> Stmt" where "leaf_stmt x = Stmt x None None [] None"

section \<open>Assignment or keyword\<close>

text \<open>Qualifiers \<open>.W\<close> and \<open>-> W\<close>.\<close>

fun skip_quals :: "Token list \<Rightarrow> Token list" where
  "skip_quals (d # w # ts) =
     (if (tk_kind d = Tok_Dot \<or> tk_kind d = Tok_Arrow) \<and> tk_kind w = Tok_Word then skip_quals ts else d # w # ts)"
| "skip_quals ts = ts"

text \<open>A group in parentheses; \<^const>\<open>None\<close> when a semicolon or the end comes first.\<close>

fun skip_group :: "int \<Rightarrow> Token list \<Rightarrow> Token list option" where
  "skip_group depth [] = Some []"
| "skip_group depth (t # ts) =
     (if tk_kind t = Tok_LParen then skip_group (depth + 1) ts
      else if tk_kind t = Tok_RParen then (if depth - 1 = 0 then Some ts else skip_group (depth - 1) ts)
      else if tk_kind t = Tok_Semi \<or> tk_kind t = Tok_Eof then None
      else skip_group depth ts)"

lemma skip_quals_length: "length (skip_quals ts) \<le> length ts"
  by (induction ts rule: skip_quals.induct) auto

lemma skip_quals_same: "length (skip_quals ts) = length ts \<Longrightarrow> skip_quals ts = ts"
proof (cases ts rule: skip_quals.cases)
  case (1 d w us)
  then show "length (skip_quals ts) = length ts \<Longrightarrow> ?thesis" using skip_quals_length [of us] by auto
qed simp_all

lemma skip_group_length: "skip_group d ts = Some r \<Longrightarrow> length r \<le> length ts"
  by (induction d ts rule: skip_group.induct) (auto split: if_splits)

text \<open>The tail of a reference: qualifiers and groups, interleaved.\<close>

function ref_tail :: "Token list \<Rightarrow> Token list option" where
  "ref_tail ts =
     (let r = skip_quals ts
      in if r \<noteq> [] \<and> tk_kind (hd r) = Tok_LParen then do { r1 \<leftarrow> skip_group 0 r; ref_tail r1 }
         else if length r < length ts then ref_tail r
         else Some r)"
  by pat_completeness auto
termination
proof (relation "measure length")
  fix ts r r1
  assume r: "r = skip_quals ts" "r \<noteq> [] \<and> tk_kind (hd r) = Tok_LParen" "skip_group 0 r = Some r1"
  obtain t us where "r = t # us" "skip_group 1 us = Some r1" using r(2, 3) by (cases r) auto
  then show "(r1, ts) \<in> measure length" using skip_group_length [of 1 us r1] skip_quals_length [of ts] r(1) by simp
qed simp_all

declare ref_tail.simps [simp del]

lemma ref_tail_length: "ref_tail ts = Some r \<Longrightarrow> length r \<le> length ts"
proof (induction ts arbitrary: r rule: ref_tail.induct)
  case (1 ts)
  have l: "length (skip_quals ts) \<le> length ts" by (rule skip_quals_length)
  from "1.prems" show ?case
    using l "1.IH" skip_group_length
    by (subst (asm) ref_tail.simps) (force simp: Let_def bind_eq_Some_conv split: if_splits)
qed

function looks :: "Token list \<Rightarrow> bool" where
  "looks ts =
     (case ref_tail ts of
        None \<Rightarrow> False
      | Some (c # w # r) \<Rightarrow> if tk_kind c = Tok_Comma \<and> tk_kind w = Tok_Word then looks r else tk_kind c = Tok_Eq
      | Some [c] \<Rightarrow> tk_kind c = Tok_Eq
      | Some [] \<Rightarrow> False)"
  by pat_completeness auto
termination
  by (relation "measure length") (auto dest!: ref_tail_length)

declare looks.simps [simp del]

definition looksLikeAssignment :: "pst \<Rightarrow> bool" where
  "looksLikeAssignment s \<longleftrightarrow> ps_i s + 1 < length (ps_t s) \<and> looks (drop (ps_i s + 1) (ps_t s))"

definition stmtKeywordSpelling :: "string \<Rightarrow> bool" where
  "stmtKeywordSpelling w \<longleftrightarrow> w \<in> set [''DECLARE'', ''DCL'', ''IF'', ''DO'', ''BEGIN'', ''PUT'', ''CALL'', ''RETURN'', ''STOP'',
     ''EXIT'', ''GET'', ''GO'', ''GOTO'', ''ON'', ''SIGNAL'', ''REVERT'', ''ALLOCATE'', ''FREE'',
     ''OPEN'', ''CLOSE'', ''READ'', ''WRITE'', ''REWRITE'', ''DELETE'', ''WAIT'', ''DELAY'']"

definition atStmtKeyword :: "string \<Rightarrow> pst \<Rightarrow> bool" where
  "atStmtKeyword w s \<longleftrightarrow> p_word w s \<and> \<not> looksLikeAssignment s"

section \<open>Assignments\<close>

text \<open>The loop over further targets; the inner \<^const>\<open>None\<close> is a target that could not be read.\<close>

partial_function (option) targets_loop :: "xrec \<Rightarrow> Expr list \<Rightarrow> pst \<Rightarrow> (Expr list option \<times> pst) option" where
  "targets_loop run es s =
     (if p_at Tok_Comma s then do {
        (e, s1) \<leftarrow> run X_Primary (advance s);
        case e of None \<Rightarrow> Some (None, s1) | Some x \<Rightarrow> targets_loop run (es @ [x]) s1 }
      else Some (Some es, s))"

definition by_name :: "pst \<Rightarrow> bool \<times> pst" where
  "by_name s =
     (if p_at Tok_Comma s then
        let s1 = advance s
        in if p_word ''BY'' s1 \<and> tk_kind (p_peek s1 1) = Tok_Word \<and> tk_text (p_peek s1 1) = ''NAME'' then (True, advance (advance s1))
           else (False, p_error (tk_loc (p_cur s1)) ''malformed assignment: unexpected item after the right-hand side'' ''(86)'' s1)
      else (False, s))"

text \<open>From the equals sign on; the value may be the null pointer, after a message.\<close>

definition assign_value :: "xrec \<Rightarrow> stmt_attrs \<Rightarrow> pst \<Rightarrow> sres" where
  "assign_value run x s =
     (if \<not> p_at Tok_Eq s then
        give_up (p_error_fix (tk_loc (p_cur s)) (''expected '' @ [QUOTE] @ ''='' @ [QUOTE] @ '' in assignment statement'') ''(86)'' ''= '' s)
      else do {
        (v, s1) \<leftarrow> run (X_Expr 1) (advance s);
        let (byn, s2) = by_name s1
        in Some (Some (leaf_stmt (x\<lparr>t_value := v, t_byName := byn\<rparr>)), snd (expect Tok_Semi ''(86)'' s2)) })"

definition parseAssignment :: "xrec \<Rightarrow> pst \<Rightarrow> sres" where
  "parseAssignment run s =
     do {
       (t, s1) \<leftarrow> run X_Primary s;
       case t of
         None \<Rightarrow> give_up s1
       | Some t0 \<Rightarrow> do {
           (es, s2) \<leftarrow> targets_loop run [] s1;
           case es of
             None \<Rightarrow> give_up s2
           | Some further \<Rightarrow>
               assign_value run (default_stmt\<lparr>t_kind := ST_Assign, t_loc := tk_loc (p_cur s), t_target := Some t0, t_extraTargets := further\<rparr>) s2 } }"

section \<open>Simple statements\<close>

text \<open>\<open>parseExprOrPlaceholder\<close>: the zero that stands for an expression that could not be read.\<close>

definition parseExprOrPlaceholder :: "xrec \<Rightarrow> pst \<Rightarrow> (Expr \<times> pst) option" where
  "parseExprOrPlaceholder run s =
     do {
       (e, s1) \<leftarrow> run (X_Expr 1) s;
       Some (case e of Some x \<Rightarrow> x | None \<Rightarrow> leaf_node (default_expr\<lparr>x_kind := EK_IntLit, x_loc := tk_loc (p_cur s), x_ival := 0\<rparr>), s1) }"

definition stmt_at :: "StmtKind \<Rightarrow> pst \<Rightarrow> stmt_attrs" where
  "stmt_at k s = default_stmt\<lparr>t_kind := k, t_loc := tk_loc (p_cur s)\<rparr>"

definition parseLoopExit :: "bool \<Rightarrow> pst \<Rightarrow> sres" where
  "parseLoopExit isIterate s =
     (let x = stmt_at (if isIterate then ST_Iterate else ST_Leave) s; s1 = advance s;
          (x1, s2) = (if p_at Tok_Word s1 then (x\<lparr>t_name := tk_text (p_cur s1)\<rparr>, advance s1) else (x, s1))
      in if p_at Tok_Semi s2 then Some (Some (leaf_stmt x1), advance s2)
         else give_up (p_error (tk_loc (p_cur s2))
                (''expected '' @ [QUOTE] @ '';'' @ [QUOTE] @ '' after '' @ (if isIterate then ''ITERATE (ADR-105)'' else ''LEAVE (ADR-105)'')) [] s2))"

definition parseDelay :: "xrec \<Rightarrow> pst \<Rightarrow> sres" where
  "parseDelay run s =
     (let (ok, s1) = expect Tok_LParen ''(83)'' (advance s)
      in if \<not> ok then give_up s1
         else do {
           (v, s2) \<leftarrow> run (X_Expr 1) s1;
           Some (Some (leaf_stmt ((stmt_at ST_Delay s)\<lparr>t_value := v\<rparr>)),
                 snd (expect Tok_Semi ''(83)'' (snd (expect Tok_RParen ''(83)'' s2)))) })"

text \<open>The references of a list, up to the first token behind one that is no comma.\<close>

partial_function (option) refs_loop :: "xrec \<Rightarrow> Expr list \<Rightarrow> pst \<Rightarrow> (Expr list option \<times> pst) option" where
  "refs_loop run es s =
     do {
       (e, s1) \<leftarrow> run X_Primary s;
       case e of
         None \<Rightarrow> Some (None, s1)
       | Some x \<Rightarrow> if p_at Tok_Comma s1 then refs_loop run (es @ [x]) (advance s1) else Some (Some (es @ [x]), s1) }"

definition wait_count :: "xrec \<Rightarrow> stmt_attrs \<Rightarrow> pst \<Rightarrow> (stmt_attrs \<times> pst) option" where
  "wait_count run x s =
     (if p_at Tok_LParen s then do {
        (n, s1) \<leftarrow> run (X_Expr 1) (advance s);
        Some (x\<lparr>t_waitCount := n\<rparr>, snd (expect Tok_RParen ''(82)'' s1)) }
      else Some (x, s))"

definition parseWait :: "xrec \<Rightarrow> pst \<Rightarrow> sres" where
  "parseWait run s =
     (let (ok, s1) = expect Tok_LParen ''(82)'' (advance s)
      in if \<not> ok then give_up s1
         else do {
           (evs, s2) \<leftarrow> (if p_at Tok_RParen s1 then Some (Some [], s1) else refs_loop run [] s1);
           case evs of
             None \<Rightarrow> give_up s2
           | Some es \<Rightarrow>
               let (ok2, s3) = expect Tok_RParen ''(82)'' s2
               in if \<not> ok2 then give_up s3
                  else do {
                    (x, s4) \<leftarrow> wait_count run ((stmt_at ST_Wait s)\<lparr>t_waitEvents := es\<rparr>) s3;
                    Some (Some (leaf_stmt x), snd (expect Tok_Semi ''(82)'' s4)) } })"

definition returnStmt :: "xrec \<Rightarrow> pst \<Rightarrow> sres" where
  "returnStmt run s =
     (let x = stmt_at ST_Return s; s1 = advance s
      in if p_at Tok_LParen s1 then do {
           (v, s2) \<leftarrow> parseExprOrPlaceholder run (advance s1);
           Some (Some (leaf_stmt (x\<lparr>t_value := Some v\<rparr>)), snd (expect Tok_Semi ''(81)'' (snd (expect Tok_RParen ''(81)'' s2)))) }
         else Some (Some (leaf_stmt x), snd (expect Tok_Semi ''(81)'' s1)))"

definition stopStmt :: "pst \<Rightarrow> sres" where
  "stopStmt s = Some (Some (leaf_stmt (stmt_at ST_Stop s)), snd (expect Tok_Semi ''(85)'' (advance s)))"

text \<open>\<open>GO TO\<close> and \<open>GOTO\<close>: they differ in the words to skip and in the message.\<close>

definition gotoStmt :: "xrec \<Rightarrow> bool \<Rightarrow> pst \<Rightarrow> sres" where
  "gotoStmt run two s =
     (let x = stmt_at ST_Goto s; s1 = (if two then advance (advance s) else advance s)
      in if p_at Tok_Word s1 then
           Some (Some (leaf_stmt (x\<lparr>t_name := tk_text (p_cur s1)\<rparr>)), snd (expect Tok_Semi ''(77)'' (advance s1)))
         else if p_at Tok_LParen s1 then do {
           (v, s2) \<leftarrow> parseExprOrPlaceholder run (advance s1);
           Some (Some (leaf_stmt (x\<lparr>t_gotoTarget := Some v\<rparr>)), snd (expect Tok_Semi ''(77)'' (snd (expect Tok_RParen ''(77)'' s2)))) }
         else Some (Some (leaf_stmt x),
           snd (expect Tok_Semi ''(77)''
             (p_error (tk_loc (p_cur s1)) (if two then ''expected a label after GO TO'' else ''expected a label after GOTO'') ''(77)'' s1))))"

datatype simple_kind = S_Assign | S_LoopExit bool | S_Delay | S_Wait | S_Return | S_Stop | S_Goto bool

fun simple_stmt :: "simple_kind \<Rightarrow> xrec \<Rightarrow> pst \<Rightarrow> sres" where
  "simple_stmt S_Assign run s = parseAssignment run s"
| "simple_stmt (S_LoopExit b) run s = parseLoopExit b s"
| "simple_stmt S_Delay run s = parseDelay run s"
| "simple_stmt S_Wait run s = parseWait run s"
| "simple_stmt S_Return run s = returnStmt run s"
| "simple_stmt S_Stop run s = stopStmt s"
| "simple_stmt (S_Goto b) run s = gotoStmt run b s"

section \<open>The lookahead on references\<close>

lemma skip_quals_idem: "skip_quals (skip_quals ts) = skip_quals ts"
  by (induction ts rule: skip_quals.induct) auto

lemma ref_tail_end:
  assumes "skip_quals ts = ts" and "ts = [] \<or> tk_kind (hd ts) \<noteq> Tok_LParen"
  shows "ref_tail ts = Some ts"
  using assms by (subst ref_tail.simps) auto

lemma ref_tail_qual:
  assumes "tk_kind d = Tok_Dot \<or> tk_kind d = Tok_Arrow" and "tk_kind w = Tok_Word"
  shows "ref_tail (d # w # ts) = ref_tail ts"
proof -
  let ?r = "skip_quals ts"
  have q: "skip_quals (d # w # ts) = ?r" using assms by simp
  have l: "length ?r < length (d # w # ts)" using skip_quals_length [of ts] by simp
  show ?thesis
  proof (cases "?r \<noteq> [] \<and> tk_kind (hd ?r) = Tok_LParen")
    case True
    then show ?thesis by (simp add: ref_tail.simps [of "d # w # ts"] ref_tail.simps [of ts] q Let_def del: skip_quals.simps)
  next
    case False
    then have "ref_tail (d # w # ts) = ref_tail ?r" using l by (subst ref_tail.simps) (auto simp: q Let_def simp del: skip_quals.simps)
    moreover have "ref_tail ts = ref_tail ?r"
    proof (cases "length ?r < length ts")
      case True
      with False show ?thesis by (subst ref_tail.simps) auto
    next
      case same: False
      then show ?thesis using skip_quals_same [of ts] skip_quals_length [of ts] by simp
    qed
    ultimately show ?thesis by simp
  qed
qed

lemma ref_tail_group:
  assumes "tk_kind l = Tok_LParen" and "skip_group 1 g = Some r"
  shows "ref_tail (l # g) = ref_tail r"
proof -
  have "skip_quals (l # g) = l # g" using assms(1) by (cases g) simp_all
  then show ?thesis using assms by (subst ref_tail.simps) simp
qed

lemma ref_tail_stop: "tk_kind t \<notin> {Tok_Dot, Tok_Arrow, Tok_LParen} \<Longrightarrow> ref_tail (t # ts) = Some (t # ts)"
  by (rule ref_tail_end) (cases ts; simp)+

text \<open>Tokens whose parentheses match and that hold no semicolon and no end.\<close>

definition balanced :: "Token list \<Rightarrow> bool" where
  "balanced ts \<longleftrightarrow> (\<forall>d r. 0 < d \<longrightarrow> skip_group d (ts @ r) = skip_group d r)"

lemma balanced_Nil [simp]: "balanced []"
  by (simp add: balanced_def)

lemma balanced_append: "balanced ts \<Longrightarrow> balanced us \<Longrightarrow> balanced (ts @ us)"
  by (simp add: balanced_def)

lemma balanced_one: "tk_kind t \<notin> {Tok_LParen, Tok_RParen, Tok_Semi, Tok_Eof} \<Longrightarrow> balanced [t]"
  by (simp add: balanced_def)

lemma balanced_Cons: "tk_kind t \<notin> {Tok_LParen, Tok_RParen, Tok_Semi, Tok_Eof} \<Longrightarrow> balanced ts \<Longrightarrow> balanced (t # ts)"
  using balanced_append [OF balanced_one] by fastforce

lemma balanced_group: "tk_kind l = Tok_LParen \<Longrightarrow> tk_kind r = Tok_RParen \<Longrightarrow> balanced ts \<Longrightarrow> balanced (l # ts @ [r])"
  by (simp add: balanced_def)

lemma balanced_path: "path_g ts p \<Longrightarrow> balanced ts"
  by (induction rule: path_g.induct) (auto intro!: balanced_Cons)

lemma operator_token: "0 < precOf (infixOp t) \<Longrightarrow> tk_kind t \<notin> {Tok_LParen, Tok_RParen, Tok_Semi, Tok_Eof}"
  by (auto simp: infixOp_def)

lemma string_token: "string_text t = Some v \<Longrightarrow> tk_kind t \<notin> {Tok_LParen, Tok_RParen, Tok_Semi, Tok_Eof}"
  using string_text_kind [of t v] by auto

lemma balanced_call:
  "tk_kind w = Tok_Word \<Longrightarrow> balanced ts \<Longrightarrow> tk_kind l = Tok_LParen \<Longrightarrow> balanced vs \<Longrightarrow> tk_kind r = Tok_RParen \<Longrightarrow> balanced us \<Longrightarrow>
   balanced (w # ts @ l # vs @ r # us)"
  using balanced_Cons [OF _ balanced_append [OF _ balanced_append [OF balanced_group]], of w ts l r vs us] by simp

lemma phrases_are_balanced:
  "expr_g fp nm n p ts e \<Longrightarrow> (\<And>w. nm w \<Longrightarrow> \<not> isEnquiryName w) \<Longrightarrow> balanced ts"
  "unary_g fp nm n ts e \<Longrightarrow> (\<And>w. nm w \<Longrightarrow> \<not> isEnquiryName w) \<Longrightarrow> balanced ts"
  "power_g fp nm n ts e \<Longrightarrow> (\<And>w. nm w \<Longrightarrow> \<not> isEnquiryName w) \<Longrightarrow> balanced ts"
  "prim_g fp nm n ts e \<Longrightarrow> (\<And>w. nm w \<Longrightarrow> \<not> isEnquiryName w) \<Longrightarrow> balanced ts"
  "ref_g fp nm n ts e \<Longrightarrow> (\<And>w. nm w \<Longrightarrow> \<not> isEnquiryName w) \<Longrightarrow> balanced ts"
  "basic_g fp nm n ts e \<Longrightarrow> (\<And>w. nm w \<Longrightarrow> \<not> isEnquiryName w) \<Longrightarrow> balanced ts"
  "args_g fp nm n w ts as \<Longrightarrow> (\<And>w. nm w \<Longrightarrow> \<not> isEnquiryName w) \<Longrightarrow> nm w \<Longrightarrow> balanced ts"
  "arg_g fp nm n w ts e \<Longrightarrow> (\<And>w. nm w \<Longrightarrow> \<not> isEnquiryName w) \<Longrightarrow> nm w \<Longrightarrow> balanced ts"
proof (induction rule: grammar_inducts)
  case (infix_operator n q ts a t p us b)
  then show ?case by (intro balanced_append balanced_Cons operator_token) auto
next
  case (parens l r n ts e)
  then show ?case by (intro balanced_group) auto
next
  case (string t k v n)
  then show ?case by (intro balanced_one string_token) auto
next
  case (replicated l c r t k v n)
  have "balanced ([l] @ [c] @ [r])" using balanced_group [OF replicated(1, 4) balanced_one [of c]] replicated(2) by simp
  from balanced_append [OF this balanced_one [OF string_token [OF replicated(5)]]] show ?case by simp
next
  case (no_args w ts p l r us q n)
  then show ?case using balanced_call [of w ts l "[]" r us] by (simp add: balanced_path)
next
  case (call w ts p l n vs as r us q)
  then show ?case by (intro balanced_call) (auto simp: balanced_path)
qed (auto intro!: balanced_append balanced_Cons balanced_one balanced_group dest: balanced_path)

text \<open>The lookahead passes over a reference.\<close>

lemma path_passed: "path_g ts p \<Longrightarrow> ref_tail (ts @ rs) = ref_tail rs"
  by (induction rule: path_g.induct) (auto simp: ref_tail_qual)

lemma group_passed: "tk_kind l = Tok_LParen \<Longrightarrow> balanced vs \<Longrightarrow> tk_kind r = Tok_RParen \<Longrightarrow> ref_tail (l # vs @ r # rs) = ref_tail rs"
  by (rule ref_tail_group) (simp_all add: balanced_def)

lemma basic_passed:
  assumes "basic_g fp nm n ts e" and "\<And>w. nm w \<Longrightarrow> \<not> isEnquiryName w"
  shows "ref_tail (tl ts @ rs) = ref_tail rs"
  using assms(1)
proof (cases rule: basic_g.cases)
  case (name w us p)
  then show ?thesis by (simp add: path_passed)
next
  case (no_args w us p l r vs q)
  then show ?thesis using group_passed [of l "[]" r "vs @ rs"] by (simp add: path_passed)
next
  case (call w us p l xs as r vs q)
  then have "balanced xs" using phrases_are_balanced(7) assms(2) by blast
  with call show ?thesis using group_passed [of l xs r "vs @ rs"] by (simp add: path_passed)
qed

lemma reference_passed:
  assumes nm: "\<And>w. nm w \<Longrightarrow> \<not> isEnquiryName w"
  shows "ref_g fp nm n ts e \<Longrightarrow> ref_tail (tl ts @ rs) = ref_tail rs"
proof (induction ts arbitrary: e rs rule: length_induct)
  case (1 ts)
  from "1.prems" show ?case
  proof (cases rule: ref_g.cases)
    case basic
    then show ?thesis using basic_passed nm by blast
  next
    case (located us l t vs x)
    obtain w ws where vs: "vs = w # ws" "tk_kind w = Tok_Word" using starts(6) [OF located(5)] by (cases vs) auto
    have "us \<noteq> []" using starts(5) [OF located(3)] by simp
    then have "ref_tail (tl ts @ rs) = ref_tail (tl us @ t # w # ws @ rs)" using located(1) vs(1) by simp
    also have "\<dots> = ref_tail (t # w # ws @ rs)" using "1.IH" [rule_format, OF _ located(3)] located(1) by simp
    also have "\<dots> = ref_tail (ws @ rs)" using located(4) vs(2) by (intro ref_tail_qual) simp_all
    also have "\<dots> = ref_tail rs" using basic_passed [OF located(5) nm] vs(1) by simp
    finally show ?thesis .
  qed
qed

text \<open>The targets of an assignment.\<close>

inductive targets_g :: "float_lib \<Rightarrow> (string \<Rightarrow> bool) \<Rightarrow> nat \<Rightarrow> Token list \<Rightarrow> Expr list \<Rightarrow> bool" for fp nm n where
  one_target: "ref_g fp nm n ts e \<Longrightarrow> targets_g fp nm n ts [e]"
| more_targets: "ref_g fp nm n ts e \<Longrightarrow> tk_kind c = Tok_Comma \<Longrightarrow> targets_g fp nm n us es \<Longrightarrow> targets_g fp nm n (ts @ c # us) (e # es)"

lemma targets_start: "targets_g fp nm n ts es \<Longrightarrow> ts \<noteq> [] \<and> next_kind ts = Tok_Word \<and> es \<noteq> []"
  by (induction rule: targets_g.induct) (auto dest: starts(5))

lemma targets_recognised:
  assumes "targets_g fp nm n ts es" and "\<And>w. nm w \<Longrightarrow> \<not> isEnquiryName w" and "tk_kind q = Tok_Eq"
  shows "looks (tl ts @ q # rs)"
  using assms(1)
proof (induction rule: targets_g.induct)
  case (one_target ts e)
  then have "ref_tail (tl ts @ q # rs) = Some (q # rs)" using reference_passed [OF assms(2)] assms(3) by (simp add: ref_tail_stop)
  then show ?case using assms(3) by (subst looks.simps) (simp split: list.split)
next
  case (more_targets ts e c us es)
  obtain w ws where us: "us = w # ws" "tk_kind w = Tok_Word" using targets_start [OF more_targets(3)] by (cases us) auto
  have "ts \<noteq> []" using starts(5) [OF more_targets(1)] by simp
  then have "ref_tail (tl (ts @ c # us) @ q # rs) = Some (c # w # ws @ q # rs)"
    using reference_passed [OF assms(2) more_targets(1), of "c # us @ q # rs"] more_targets(2) us(1) by (simp add: ref_tail_stop)
  then show ?case using more_targets(2, 4) us by (subst looks.simps) simp
qed

section \<open>Runs with enough fuel\<close>

definition settled :: "(nat \<Rightarrow> 'a option) \<Rightarrow> 'a \<Rightarrow> bool" where
  "settled f r \<longleftrightarrow> (\<exists>K. \<forall>k \<ge> K. f k = Some r)"

lemma settled_const: "settled (\<lambda>_. Some r) r"
  by (simp add: settled_def)

lemma settled_bind:
  assumes "settled f (a, s)" and "settled (\<lambda>k. g k a s) r"
  shows "settled (\<lambda>k. f k \<bind> (\<lambda>(a, s). g k a s)) r"
proof -
  from assms obtain K L where "\<forall>k \<ge> K. f k = Some (a, s)" "\<forall>k \<ge> L. g k a s = Some r" unfolding settled_def by blast
  then show ?thesis unfolding settled_def by (intro exI [of _ "max K L"]) simp
qed

lemma settled_cong: "(\<And>k. f k = g k) \<Longrightarrow> settled g r \<Longrightarrow> settled f r"
  by (simp add: settled_def)

abbreviation expr_run :: "float_lib \<Rightarrow> nat \<Rightarrow> xrec" where "expr_run fp \<equiv> run_fuel (expr_body fp)"

lemma settled_run: "ex.evals fp c s r \<Longrightarrow> settled (\<lambda>k. expr_run fp k c s) r"
  unfolding settled_def ex.evals_def using ex.run_mono by blast

lemma settled_call:
  assumes "ready s"
  obtains r t where "settled (\<lambda>k. expr_run fp k c s) (r, t)" "forward s t"
  using returnsE [OF every_call_returns [OF assms]] settled_run by metis

section \<open>Assignments are parsed\<close>

definition assign_node :: "SourceLoc \<Rightarrow> Expr list \<Rightarrow> Expr \<Rightarrow> Stmt" where
  "assign_node l es v = leaf_stmt (default_stmt\<lparr>t_kind := ST_Assign, t_loc := l, t_target := Some (hd es), t_extraTargets := tl es, t_value := Some v\<rparr>)"

lemma reference_parsed:
  assumes "ref_g fp nm n ts e" and "\<not> nm ''NOT''" and "at_phrase n ts (t # rs) s" and "tk_kind t = Tok_Comma \<or> tk_kind t = Tok_Eq"
  shows "settled (\<lambda>k. expr_run fp k X_Primary s) (Some e, skip (length ts) s)"
proof -
  have "prim_ok fp n ts e" using complete(4) [OF reference [OF assms(1)] assms(2)] .
  moreover have "after_prim (t # rs)" using assms(4) by (auto simp: after_defs)
  ultimately show ?thesis using assms(3) settled_run unfolding prim_ok_def by blast
qed

lemma targets_parsed:
  assumes "targets_g fp nm n us es" and "\<not> nm ''NOT''" and "tk_kind q = Tok_Eq"
  shows "tk_kind c = Tok_Comma \<Longrightarrow> at_phrase n (c # us) (q # rs) s \<Longrightarrow>
    settled (\<lambda>k. targets_loop (expr_run fp k) es0 s) (Some (es0 @ es), skip (Suc (length us)) s)"
  using assms(1)
proof (induction arbitrary: c s es0 rule: targets_g.induct)
  case (one_target ts e)
  note one = input_one [OF one_target.prems(2)]
  have p: "at_phrase n ts (q # rs) (skip 1 s)" using one(3) one_target.prems(1) by simp
  have r: "settled (\<lambda>k. expr_run fp k X_Primary (skip 1 s)) (Some e, skip (length ts) (skip 1 s))"
    using assms(3) by (intro reference_parsed [OF one_target(1) assms(2) p]) simp
  have "\<not> p_at Tok_Comma (skip (length ts) (skip 1 s))" using input_next [OF input_after [OF p]] assms(3) by simp
  then have l: "settled (\<lambda>k. targets_loop (expr_run fp k) (es0 @ [e]) (skip (length ts) (skip 1 s))) (Some (es0 @ [e]), skip (Suc (length ts)) s)"
    by (subst targets_loop.simps) (simp add: settled_const)
  have "p_at Tok_Comma s" "advance s = skip 1 s" using one(2) input_at [OF one_target.prems(2)] one_target.prems(1) by simp_all
  then show ?case using settled_bind [OF r, where g = "\<lambda>k e s1. case e of None \<Rightarrow> Some (None, s1) | Some x \<Rightarrow> targets_loop (expr_run fp k) (es0 @ [x]) s1"] l
    by (subst targets_loop.simps) simp
next
  case (more_targets ts e d us es)
  note one = input_one [OF more_targets.prems(2)]
  have p: "at_phrase n (ts @ d # us) (q # rs) (skip 1 s)" using one(3) more_targets.prems(1) by simp
  have r: "settled (\<lambda>k. expr_run fp k X_Primary (skip 1 s)) (Some e, skip (length ts) (skip 1 s))"
    using more_targets(2) input_left [OF p] by (intro reference_parsed [OF more_targets(1) assms(2), of d "us @ q # rs"]) simp_all
  have "at_phrase n (d # us) (q # rs) (skip (length ts) (skip 1 s))" using input_right [OF p] by simp
  from more_targets.IH [OF more_targets(2) this]
  have l: "settled (\<lambda>k. targets_loop (expr_run fp k) (es0 @ [e]) (skip (length ts) (skip 1 s))) (Some ((es0 @ [e]) @ es), skip (Suc (length us)) (skip (length ts) (skip 1 s)))" .
  have "p_at Tok_Comma s" "advance s = skip 1 s" using one(2) input_at [OF more_targets.prems(2)] more_targets.prems(1) by simp_all
  then show ?case using settled_bind [OF r, where g = "\<lambda>k e s1. case e of None \<Rightarrow> Some (None, s1) | Some x \<Rightarrow> targets_loop (expr_run fp k) (es0 @ [x]) s1"] l
    by (subst targets_loop.simps) (simp add: ac_simps)
qed

lemma target_list_parsed:
  assumes "targets_g fp nm n ts es" and "\<not> nm ''NOT''" and "tk_kind q = Tok_Eq" and "at_phrase n ts (q # rs) s"
  obtains s1 where "settled (\<lambda>k. expr_run fp k X_Primary s) (Some (hd es), s1)"
    "settled (\<lambda>k. targets_loop (expr_run fp k) [] s1) (Some (tl es), skip (length ts) s)"
  using assms(1)
proof (cases rule: targets_g.cases)
  case (one_target e)
  have "\<not> p_at Tok_Comma (skip (length ts) s)" using input_next [OF input_after [OF assms(4)]] assms(3) by simp
  then have "settled (\<lambda>k. targets_loop (expr_run fp k) [] (skip (length ts) s)) (Some [], skip (length ts) s)"
    by (subst targets_loop.simps) (simp add: settled_const)
  moreover have "settled (\<lambda>k. expr_run fp k X_Primary s) (Some e, skip (length ts) s)"
    using assms(3) by (intro reference_parsed [OF one_target(2) assms(2, 4)]) simp
  ultimately show ?thesis using one_target(1) that by simp
next
  case (more_targets us e c vs fs)
  have p: "at_phrase n (us @ c # vs) (q # rs) s" using assms(4) more_targets(1) by simp
  have "settled (\<lambda>k. expr_run fp k X_Primary s) (Some e, skip (length us) s)"
    using more_targets(4) input_left [OF p] by (intro reference_parsed [OF more_targets(3) assms(2), of c "vs @ q # rs"]) simp_all
  moreover have "at_phrase n (c # vs) (q # rs) (skip (length us) s)" using input_right [OF p] by simp
  from targets_parsed [OF more_targets(5) assms(2, 3) more_targets(4) this, of "[]"]
  have "settled (\<lambda>k. targets_loop (expr_run fp k) [] (skip (length us) s)) (Some fs, skip (length ts) s)" using more_targets(1) by simp
  ultimately show ?thesis using more_targets(2) that by simp
qed

lemma assignment_parsed:
  assumes "targets_g fp nm n ts es" and "expr_g fp nm n 1 vs v" and "\<not> nm ''NOT''" and "tk_kind q = Tok_Eq" and "tk_kind m = Tok_Semi"
    and p: "at_phrase n (ts @ q # vs @ [m]) rs s"
  shows "settled (\<lambda>k. parseAssignment (expr_run fp k) s) (Some (assign_node (tk_loc (hd ts)) es v), skip (length (ts @ q # vs @ [m])) s)"
proof -
  let ?s2 = "skip (length ts) s"
  let ?s3 = "skip (length vs) (skip 1 ?s2)"
  have "at_phrase n ts (q # vs @ m # rs) s" using input_left [OF p] by simp
  from target_list_parsed [OF assms(1, 3, 4) this] obtain s1
    where t: "settled (\<lambda>k. expr_run fp k X_Primary s) (Some (hd es), s1)" "settled (\<lambda>k. targets_loop (expr_run fp k) [] s1) (Some (tl es), ?s2)" .
  have a: "at_phrase n (q # vs @ [m]) rs ?s2" using input_right [OF p] by simp
  note eq = input_one [OF a] input_at [OF a]
  have b: "at_phrase n (vs @ [m]) rs (skip 1 ?s2)" using eq(3) assms(4) by simp
  have "ends_expr m" using assms(5) by (simp add: ends_expr_def infixOp_def)
  then have v: "settled (\<lambda>k. expr_run fp k (X_Expr 1) (skip 1 ?s2)) (Some v, ?s3)"
    using input_left [OF b] by (intro settled_run expression_parsed [OF assms(2, 3)]) simp_all
  have c: "at_phrase n [m] rs ?s3" using input_right [OF b] by simp
  note fin = input_one [OF c] input_at [OF c]
  have e: "by_name ?s3 = (False, ?s3)" "snd (expect Tok_Semi ''(86)'' ?s3) = skip (length (ts @ q # vs @ [m])) s"
    using fin assms(5) by (simp_all add: by_name_def expect_def)
  obtain w ws where w: "ts = w # ws" using targets_start [OF assms(1)] by (cases ts) auto
  have h: "p_cur s = hd ts" using input_cur [of n w] p w by simp
  have "p_at Tok_Eq ?s2" "advance ?s2 = skip 1 ?s2" using eq assms(4) by simp_all
  then have last: "settled (\<lambda>k. assign_value (expr_run fp k) (default_stmt\<lparr>t_kind := ST_Assign, t_loc := tk_loc (p_cur s),
        t_target := Some (hd es), t_extraTargets := tl es\<rparr>) ?s2) (Some (assign_node (tk_loc (hd ts)) es v), skip (length (ts @ q # vs @ [m])) s)"
    unfolding assign_value_def
    using settled_bind [OF v, where g = "\<lambda>k v s1. let (byn, s2) = by_name s1
        in Some (Some (leaf_stmt (default_stmt\<lparr>t_kind := ST_Assign, t_loc := tk_loc (p_cur s), t_target := Some (hd es),
                            t_extraTargets := tl es, t_value := v, t_byName := byn\<rparr>)), snd (expect Tok_Semi ''(86)'' s2))"] e h
    by (simp add: settled_const assign_node_def default_stmt_def)
  show ?thesis unfolding parseAssignment_def
    by (rule settled_bind [OF t(1)], simp only: option.case, rule settled_bind [OF t(2)], simp only: option.case, rule last)
qed

section \<open>Recovery\<close>

lemma resync_loop_forward: "resync_loop t = Some u \<Longrightarrow> forward s t \<Longrightarrow> forward s u"
proof (induction "length (pending t)" arbitrary: t rule: less_induct)
  case less
  show ?case
  proof (cases "p_at Tok_Eof t \<or> p_at Tok_Semi t")
    case False
    then have "length (pending (advance t)) < length (pending t)"
      using advance_rest [OF forward_ready [OF less.prems(2)]] by (simp add: p_at_def)
    moreover have "resync_loop (advance t) = Some u" using less.prems(1) False by (subst (asm) resync_loop.simps) simp
    ultimately show ?thesis using less.hyps forward_step(1) [OF less.prems(2)] by blast
  qed (use less.prems in \<open>auto simp: resync_loop.simps [of t]\<close>)
qed

lemma resync_loop_returns: "ready t \<Longrightarrow> \<exists>u. resync_loop t = Some u"
proof (induction "length (pending t)" arbitrary: t rule: less_induct)
  case less
  show ?case
  proof (cases "p_at Tok_Eof t \<or> p_at Tok_Semi t")
    case True
    then show ?thesis by (subst resync_loop.simps) auto
  next
    case False
    then have "length (pending (advance t)) < length (pending t)" using advance_rest [OF less.prems] by (simp add: p_at_def)
    with less.hyps [of "advance t"] forward_ready [OF forward_advance [OF less.prems]] False show ?thesis
      by (subst resync_loop.simps) auto
  qed
qed

lemma give_up_returns: "ready t \<Longrightarrow> \<exists>u. give_up t = Some (None, u)"
  using resync_loop_returns [of t] by (auto simp: give_up_def resync_def)

lemma give_up_forward:
  assumes "give_up t = Some (r, u)" and "forward s t"
  shows "forward s u" "r = None"
  using assms resync_loop_forward [OF _ assms(2)] by (auto simp: give_up_def resync_def eat_def bind_eq_Some_conv split: if_splits intro: forward_step)

section \<open>Refusals are reported\<close>

text \<open>A state reached from another with at least one message more.\<close>

definition reported :: "pst \<Rightarrow> pst \<Rightarrow> bool" where
  "reported s t \<longleftrightarrow> forward s t \<and> errs (ps_d s) < errs (ps_d t)"

lemma reported_forward: "reported s t \<Longrightarrow> forward t u \<Longrightarrow> reported s u"
  using forward_trans by (auto simp: reported_def forward_def)

lemma forward_reported: "forward s t \<Longrightarrow> reported t u \<Longrightarrow> reported s u"
  using forward_trans by (auto simp: reported_def forward_def)

lemma error_reported: "forward s t \<Longrightarrow> reported s (p_error l m r t)" "forward s t \<Longrightarrow> reported s (p_error_fix l m r f t)"
  by (auto simp: reported_def forward_def p_error_def p_error_fix_def ready_def)

lemma give_up_reported:
  assumes "give_up t = Some (r, u)" and "reported s t"
  shows "reported s u"
proof -
  have "ready t" using assms(2) by (auto simp: reported_def intro: forward_ready)
  then show ?thesis using give_up_forward(1) [OF assms(1) forward_refl] reported_forward [OF assms(2)] by blast
qed

lemma run_forward_from: "expr_run fp k c t = Some (r, u) \<Longrightarrow> forward s t \<Longrightarrow> forward s u"
  using run_forward forward_trans forward_ready by blast

lemma null_reported:
  assumes "expr_run fp k c t = Some (None, u)" and "forward s t" and "c = X_Primary \<or> c = X_Expr m"
  shows "reported s u"
proof -
  have f: "forward t u" using run_forward [OF assms(1) forward_ready [OF assms(2)]] .
  have "\<not> clean t u" using goodD(2) [OF runs_are_good assms(1) forward_ready [OF assms(2)]] assms(3) by auto
  then have "reported t u" using f by (auto simp: reported_def clean_def forward_def)
  then show ?thesis using forward_reported assms(2) by blast
qed

lemma expect_reported: "expect k rl t = (b, u) \<Longrightarrow> forward s t \<Longrightarrow> forward s u \<and> (\<not> b \<longrightarrow> reported s u)"
  by (auto simp: expect_def error_reported split: if_splits intro: forward_step)

lemma targets_loop_reported:
  "targets_loop (expr_run fp k) es t = Some (r, u) \<Longrightarrow> forward s t \<Longrightarrow> forward s u \<and> (r = None \<longrightarrow> reported s u)"
proof (induction "length (pending t)" arbitrary: t es rule: less_induct)
  case less
  note adv = forward_step(1) [OF less.prems(2)]
  show ?case
  proof (cases "p_at Tok_Comma t")
    case True
    then obtain e t1 where e: "expr_run fp k X_Primary (advance t) = Some (e, t1)"
      "(case e of None \<Rightarrow> Some (None, t1) | Some x \<Rightarrow> targets_loop (expr_run fp k) (es @ [x]) t1) = Some (r, u)"
      using less.prems(1) by (subst (asm) targets_loop.simps) (auto simp: bind_eq_Some_conv)
    note g = run_forward_from [OF e(1) adv]
    have "length (pending t1) < length (pending t)"
      using advance_rest [OF forward_ready [OF less.prems(2)]] True forward_rest [OF run_forward [OF e(1) forward_ready [OF adv]]]
      by (simp add: p_at_def)
    with less.hyps [of t1] e(2) g show ?thesis
      using e(1) null_reported [OF _ adv, of fp k X_Primary] by (cases e) auto
  qed (use less.prems in \<open>auto simp: targets_loop.simps [of _ es t]\<close>)
qed

lemma refs_loop_reported:
  "refs_loop (expr_run fp k) es t = Some (r, u) \<Longrightarrow> forward s t \<Longrightarrow> forward s u \<and> (r = None \<longrightarrow> reported s u)"
proof (induction "length (pending t)" arbitrary: t es rule: less_induct)
  case less
  obtain e t1 where e: "expr_run fp k X_Primary t = Some (e, t1)"
    "(case e of None \<Rightarrow> Some (None, t1) | Some x \<Rightarrow>
       if p_at Tok_Comma t1 then refs_loop (expr_run fp k) (es @ [x]) (advance t1) else Some (Some (es @ [x]), t1)) = Some (r, u)"
    using less.prems(1) by (subst (asm) refs_loop.simps) (auto simp: bind_eq_Some_conv)
  note g = run_forward_from [OF e(1) less.prems(2)]
  have l: "length (pending (advance t1)) < length (pending t)" if "p_at Tok_Comma t1"
    using advance_rest [OF forward_ready [OF g]] that forward_rest [OF run_forward [OF e(1) forward_ready [OF less.prems(2)]]]
    by (simp add: p_at_def)
  show ?case
  proof (cases e)
    case None
    then show ?thesis using e g null_reported [OF _ less.prems(2), of fp k X_Primary] by auto
  next
    case (Some x)
    then show ?thesis using e(2) g l less.hyps [of "advance t1"] forward_step(1) [OF g] by (auto split: if_splits)
  qed
qed

lemma placeholder_forward: "parseExprOrPlaceholder (expr_run fp k) t = Some (v, u) \<Longrightarrow> forward s t \<Longrightarrow> forward s u"
  using run_forward_from by (auto simp: parseExprOrPlaceholder_def bind_eq_Some_conv)

lemma parseAssignment_reported:
  assumes "parseAssignment (expr_run fp k) s = Some (None, u)" and "ready s"
  shows "reported s u"
proof -
  note fs = forward_refl [OF assms(2)]
  obtain t s1 where t: "expr_run fp k X_Primary s = Some (t, s1)"
    "(case t of None \<Rightarrow> give_up s1 | Some t0 \<Rightarrow> do {
        (es, s2) \<leftarrow> targets_loop (expr_run fp k) [] s1;
        case es of None \<Rightarrow> give_up s2
        | Some further \<Rightarrow> assign_value (expr_run fp k)
            (default_stmt\<lparr>t_kind := ST_Assign, t_loc := tk_loc (p_cur s), t_target := Some t0, t_extraTargets := further\<rparr>) s2 }) = Some (None, u)"
    using assms(1) by (auto simp: parseAssignment_def bind_eq_Some_conv)
  note f1 = run_forward_from [OF t(1) fs]
  show ?thesis
  proof (cases t)
    case None
    then show ?thesis using t null_reported [OF _ fs, of fp k X_Primary] give_up_reported by auto
  next
    case (Some t0)
    then obtain es s2 where e: "targets_loop (expr_run fp k) [] s1 = Some (es, s2)"
      "(case es of None \<Rightarrow> give_up s2
        | Some further \<Rightarrow> assign_value (expr_run fp k)
            (default_stmt\<lparr>t_kind := ST_Assign, t_loc := tk_loc (p_cur s), t_target := Some t0, t_extraTargets := further\<rparr>) s2) = Some (None, u)"
      using t(2) by (auto simp: bind_eq_Some_conv)
    note f2 = targets_loop_reported [OF e(1) f1]
    show ?thesis
    proof (cases es)
      case None
      then show ?thesis using e(2) f2 give_up_reported by auto
    next
      case (Some further)
      then show ?thesis using e(2) f2 give_up_reported error_reported(2)
        by (auto simp: assign_value_def bind_eq_Some_conv Let_def split: if_splits prod.splits)
    qed
  qed
qed

lemma parseWait_reported:
  assumes "parseWait (expr_run fp k) s = Some (None, u)" and "ready s"
  shows "reported s u"
proof -
  obtain b s1 where x: "expect Tok_LParen ''(82)'' (advance s) = (b, s1)" by (metis surj_pair)
  note f1 = expect_reported [OF x forward_advance [OF assms(2)]]
  show ?thesis
  proof (cases b)
    case False
    then show ?thesis using assms(1) x f1 give_up_reported by (auto simp: parseWait_def)
  next
    case True
    then obtain evs s2 where e: "(if p_at Tok_RParen s1 then Some (Some [], s1) else refs_loop (expr_run fp k) [] s1) = Some (evs, s2)"
      "(case evs of None \<Rightarrow> give_up s2 | Some es \<Rightarrow>
         let (ok2, s3) = expect Tok_RParen ''(82)'' s2
         in if \<not> ok2 then give_up s3
            else do { (x, s4) \<leftarrow> wait_count (expr_run fp k) ((stmt_at ST_Wait s)\<lparr>t_waitEvents := es\<rparr>) s3;
                      Some (Some (leaf_stmt x), snd (expect Tok_Semi ''(82)'' s4)) }) = Some (None, u)"
      using assms(1) x by (auto simp: parseWait_def bind_eq_Some_conv)
    have f2: "forward s s2 \<and> (evs = None \<longrightarrow> reported s s2)" using e(1) f1 refs_loop_reported by (auto split: if_splits)
    show ?thesis
    proof (cases evs)
      case None
      then show ?thesis using e(2) f2 give_up_reported by auto
    next
      case (Some es)
      obtain b2 s3 where y: "expect Tok_RParen ''(82)'' s2 = (b2, s3)" by (metis surj_pair)
      then show ?thesis using Some e(2) f2 expect_reported [OF y, of s] give_up_reported
        by (auto simp: bind_eq_Some_conv split: if_splits)
    qed
  qed
qed

lemma simple_reported:
  assumes "simple_stmt c (expr_run fp k) s = Some (None, u)" and "ready s"
  shows "reported s u"
proof (cases c)
  case (S_LoopExit b)
  then show ?thesis using assms(1) give_up_reported [OF _ error_reported(1)] forward_advance [OF assms(2)] forward_step(1) [OF forward_advance [OF assms(2)]]
    by (auto simp: parseLoopExit_def Let_def split: if_splits)
next
  case S_Delay
  obtain b s1 where x: "expect Tok_LParen ''(83)'' (advance s) = (b, s1)" by (metis surj_pair)
  then show ?thesis using S_Delay assms(1) expect_reported [OF x forward_advance [OF assms(2)]] give_up_reported
    by (auto simp: parseDelay_def bind_eq_Some_conv split: if_splits)
qed (use assms parseAssignment_reported parseWait_reported in \<open>auto simp: returnStmt_def stopStmt_def gotoStmt_def Let_def bind_eq_Some_conv split: if_splits\<close>)

section \<open>Statements return\<close>

definition returned :: "(nat \<Rightarrow> 'a option) \<Rightarrow> bool" where
  "returned f \<longleftrightarrow> (\<exists>r. settled f r)"

lemma returned_const [simp]: "returned (\<lambda>_. Some r)"
  unfolding returned_def by (rule exI) (rule settled_const)

lemma returned_if: "(b \<Longrightarrow> returned f) \<Longrightarrow> (\<not> b \<Longrightarrow> returned g) \<Longrightarrow> returned (\<lambda>k. if b then f k else g k)"
  by (cases b) simp_all

lemma returned_give_up: "ready t \<Longrightarrow> returned (\<lambda>_. give_up t)"
  using give_up_returns [of t] by auto

text \<open>A call, then whatever is done with its result and the state it left.\<close>

lemma returned_call:
  assumes "ready t" and "\<And>r u. forward t u \<Longrightarrow> returned (\<lambda>k. g k r u)"
  shows "returned (\<lambda>k. expr_run fp k c t \<bind> (\<lambda>(r, u). g k r u))"
  using settled_call [OF assms(1), of fp c] settled_bind assms(2) unfolding returned_def by metis

lemma returned_bind:
  assumes "returned f" and "\<And>r u k. f k = Some (r, u) \<Longrightarrow> ready u" and "\<And>r u. ready u \<Longrightarrow> returned (\<lambda>k. g k r u)"
  shows "returned (\<lambda>k. f k \<bind> (\<lambda>(r, u). g k r u))"
proof -
  obtain r u where f: "settled f (r, u)" using assms(1) unfolding returned_def by auto
  then have "ready u" using assms(2) unfolding settled_def by blast
  from assms(3) [OF this] f settled_bind show ?thesis unfolding returned_def by metis
qed

lemma targets_loop_returns: "ready t \<Longrightarrow> returned (\<lambda>k. targets_loop (expr_run fp k) es t)"
proof (induction "length (pending t)" arbitrary: t es rule: less_induct)
  case less
  note adv = forward_advance [OF less.prems]
  show ?case
  proof (cases "p_at Tok_Comma t")
    case True
    have "returned (\<lambda>k. case r of None \<Rightarrow> Some (None, u) | Some x \<Rightarrow> targets_loop (expr_run fp k) (es @ [x]) u)" if "forward (advance t) u" for r u
      using that less.hyps [of u] advance_rest [OF less.prems] True forward_rest [OF that] forward_ready [OF that]
      by (cases r) (auto simp: p_at_def)
    from returned_call [OF forward_ready [OF adv] this] show ?thesis using True by (subst targets_loop.simps) simp
  qed (simp add: targets_loop.simps)
qed

lemma refs_loop_returns: "ready t \<Longrightarrow> returned (\<lambda>k. refs_loop (expr_run fp k) es t)"
proof (induction "length (pending t)" arbitrary: t es rule: less_induct)
  case less
  have "returned (\<lambda>k. case r of None \<Rightarrow> Some (None, u) | Some x \<Rightarrow>
      if p_at Tok_Comma u then refs_loop (expr_run fp k) (es @ [x]) (advance u) else Some (Some (es @ [x]), u))" if "forward t u" for r u
    using less.hyps [of "advance u"] advance_rest [OF forward_ready [OF that]] forward_rest [OF that]
      forward_ready [OF forward_step(1) [OF that]] by (cases r) (auto simp: p_at_def intro: returned_if)
  from returned_call [OF less.prems this] show ?case by (subst refs_loop.simps)
qed

lemma targets_loop_ready: "targets_loop (expr_run fp k) es t = Some (r, u) \<Longrightarrow> ready t \<Longrightarrow> ready u"
  using targets_loop_reported [of fp k es t r u t] forward_refl forward_ready by blast

lemma refs_loop_ready: "refs_loop (expr_run fp k) es t = Some (r, u) \<Longrightarrow> ready t \<Longrightarrow> ready u"
  using refs_loop_reported [of fp k es t r u t] forward_refl forward_ready by blast

lemma expect_ready: "expect k rl t = (b, u) \<Longrightarrow> ready t \<Longrightarrow> ready u"
  using expect_reported [of k rl t b u t] forward_refl forward_ready by blast

lemma advance_ready: "ready t \<Longrightarrow> ready (advance t)"
  using forward_advance forward_ready by blast

lemma assign_value_returns: "ready t \<Longrightarrow> returned (\<lambda>k. assign_value (expr_run fp k) x t)"
proof (cases "p_at Tok_Eq t")
  case True
  assume "ready t"
  then show ?thesis using True by (auto simp: assign_value_def Let_def split: prod.split intro!: returned_call advance_ready)
next
  case False
  assume "ready t"
  then have "ready (p_error_fix l m r f t)" for l m r f by (simp add: p_error_fix_def ready_def)
  then show ?thesis using False by (simp add: assign_value_def returned_give_up)
qed

lemma parseAssignment_returns:
  assumes "ready s"
  shows "returned (\<lambda>k. parseAssignment (expr_run fp k) s)"
  unfolding parseAssignment_def
proof (rule returned_call [OF assms])
  fix r u
  assume u: "forward s u"
  show "returned (\<lambda>k. case r of None \<Rightarrow> give_up u | Some t0 \<Rightarrow> do {
      (es, s2) \<leftarrow> targets_loop (expr_run fp k) [] u;
      case es of None \<Rightarrow> give_up s2
      | Some further \<Rightarrow> assign_value (expr_run fp k)
          (default_stmt\<lparr>t_kind := ST_Assign, t_loc := tk_loc (p_cur s), t_target := Some t0, t_extraTargets := further\<rparr>) s2 })"
  proof (cases r)
    case None
    then show ?thesis using returned_give_up forward_ready [OF u] by simp
  next
    case (Some t0)
    have "returned (\<lambda>k. case es of None \<Rightarrow> give_up s2 | Some further \<Rightarrow> assign_value (expr_run fp k)
          (default_stmt\<lparr>t_kind := ST_Assign, t_loc := tk_loc (p_cur s), t_target := Some t0, t_extraTargets := further\<rparr>) s2)" if "ready s2" for es s2
      using that by (cases es) (simp_all add: returned_give_up assign_value_returns)
    from returned_bind [OF targets_loop_returns targets_loop_ready this] show ?thesis using Some forward_ready [OF u] by simp
  qed
qed

lemma wait_count_returns:
  assumes "ready t"
  shows "returned (\<lambda>k. do { (x, s4) \<leftarrow> wait_count (expr_run fp k) y t; Some (Some (leaf_stmt x), snd (expect Tok_Semi ''(82)'' s4)) })"
proof (cases "p_at Tok_LParen t")
  case True
  have "returned (\<lambda>k. expr_run fp k (X_Expr 1) (advance t) \<bind> (\<lambda>(n, s1). Some (Some (leaf_stmt (y\<lparr>t_waitCount := n\<rparr>)),
      snd (expect Tok_Semi ''(82)'' (snd (expect Tok_RParen ''(82)'' s1))))))"
    by (rule returned_call [OF advance_ready [OF assms]]) simp
  then show ?thesis using True by (simp add: wait_count_def case_prod_beta')
qed (simp add: wait_count_def)

lemma parseWait_returns:
  assumes "ready s"
  shows "returned (\<lambda>k. parseWait (expr_run fp k) s)"
proof -
  obtain b s1 where x: "expect Tok_LParen ''(82)'' (advance s) = (b, s1)" by (metis surj_pair)
  have s1: "ready s1" using expect_ready [OF x advance_ready [OF assms]] .
  have ev: "returned (\<lambda>k. if p_at Tok_RParen s1 then Some (Some [], s1) else refs_loop (expr_run fp k) [] s1)"
    "\<And>r u k. (if p_at Tok_RParen s1 then Some (Some [], s1) else refs_loop (expr_run fp k) [] s1) = Some (r, u) \<Longrightarrow> ready u"
    using refs_loop_returns [OF s1] refs_loop_ready s1 by (auto split: if_splits intro: returned_if)
  have "returned (\<lambda>k. case r of None \<Rightarrow> give_up u | Some es \<Rightarrow>
      let (ok2, s3) = expect Tok_RParen ''(82)'' u
      in if \<not> ok2 then give_up s3
         else do { (x, s4) \<leftarrow> wait_count (expr_run fp k) ((stmt_at ST_Wait s)\<lparr>t_waitEvents := es\<rparr>) s3;
                   Some (Some (leaf_stmt x), snd (expect Tok_Semi ''(82)'' s4)) })" if "ready u" for r u
    using that expect_ready [of Tok_RParen "''(82)''" u] wait_count_returns returned_give_up
    by (cases r; cases "expect Tok_RParen ''(82)'' u") (auto intro: returned_if)
  from returned_bind [OF ev this] show ?thesis unfolding parseWait_def x using returned_give_up [OF s1] by (cases b) simp_all
qed

lemma simple_returns:
  assumes "ready s"
  shows "returned (\<lambda>k. simple_stmt c (expr_run fp k) s)"
proof (cases c)
  case (S_LoopExit b)
  have "ready t \<Longrightarrow> ready (p_error l m r t)" for l m r t using forward_error forward_ready by blast
  then show ?thesis using S_LoopExit advance_ready [OF assms] advance_ready [OF advance_ready [OF assms]]
    by (auto simp: parseLoopExit_def Let_def intro: returned_give_up)
next
  case S_Delay
  obtain b s1 where x: "expect Tok_LParen ''(83)'' (advance s) = (b, s1)" by (metis surj_pair)
  have "ready s1" using expect_ready [OF x advance_ready [OF assms]] .
  then show ?thesis using S_Delay x by (cases b) (auto simp: parseDelay_def intro: returned_give_up returned_call)
next
  case S_Return
  then show ?thesis using advance_ready [OF advance_ready [OF assms]]
    by (auto simp: returnStmt_def parseExprOrPlaceholder_def Let_def case_prod_beta' intro!: returned_if returned_call [unfolded case_prod_beta'])
next
  case (S_Goto b)
  then show ?thesis using advance_ready [OF advance_ready [OF assms]] advance_ready [OF advance_ready [OF advance_ready [OF assms]]]
    by (auto simp: gotoStmt_def parseExprOrPlaceholder_def Let_def case_prod_beta' intro!: returned_if returned_call [unfolded case_prod_beta'])
qed (use assms parseAssignment_returns parseWait_returns in \<open>auto simp: stopStmt_def\<close>)

end
