(* ===== verification/ParseInit.thy ===== *)
theory ParseInit
  imports ParseStmt
begin

text \<open>
  INITIAL lists, the last section of \<^verbatim>\<open>src/parser.cpp\<close>, and the deep copy \<open>cloneExpr\<close> the parser takes of expressions it
  duplicates.
\<close>

section \<open>INITIAL lists\<close>

datatype icall = I_List "InitItem list" | I_Item

type_synonym ires = "(InitItem list \<times> pst) option"
type_synonym irec = "icall \<Rightarrow> pst \<Rightarrow> ires"

text \<open>The loop of \<open>parseInitialList\<close> over the items read so far; an item is returned as the list of it alone.\<close>

definition parseInitialList :: "irec \<Rightarrow> InitItem list \<Rightarrow> pst \<Rightarrow> ires" where
  "parseInitialList rec out s =
     (if p_at Tok_RParen s then Some (out, advance s)
      else do {
        (it, s1) \<leftarrow> rec I_Item s;
        if p_at Tok_Comma s1 then rec (I_List (out @ it)) (advance s1)
        else Some (out @ it, snd (expect Tok_RParen ''(28)'' s1)) })"

definition valueStart :: "Tok \<Rightarrow> bool" where
  "valueStart k \<longleftrightarrow> k \<in> {Tok_Number, Tok_CharLit, Tok_BitLit, Tok_HexLit, Tok_Word, Tok_Minus, Tok_Plus, Tok_Star, Tok_LParen}"

text \<open>What a parenthesis opens: an iteration factor, a constant alone in parentheses, or a group.\<close>

definition iterHex :: "pst \<Rightarrow> bool" where
  "iterHex s \<longleftrightarrow> tk_kind (p_peek s 1) = Tok_Number \<and> tk_kind (p_peek s 2) = Tok_RParen \<and> tk_kind (p_peek s 3) = Tok_HexLit"

definition isIter :: "pst \<Rightarrow> bool" where
  "isIter s \<longleftrightarrow> iterHex s \<or> (tk_kind (p_peek s 1) = Tok_Number \<and> tk_kind (p_peek s 2) = Tok_RParen \<and>
     (tk_kind (p_peek s 3) = Tok_LParen \<or> valueStart (tk_kind (p_peek s 3))))"

definition parenConst :: "pst \<Rightarrow> bool" where
  "parenConst s \<longleftrightarrow> \<not> iterHex s \<and> tk_kind (p_peek s 1) = Tok_Number \<and> tk_kind (p_peek s 2) = Tok_RParen \<and>
     (tk_kind (p_peek s 3) = Tok_Comma \<or> tk_kind (p_peek s 3) = Tok_RParen)"

definition parseInitialItem :: "xrec \<Rightarrow> irec \<Rightarrow> pst \<Rightarrow> ires" where
  "parseInitialItem run rec s =
     (if p_at Tok_Star s then Some ([InitItem II_Repeat None 0 []], advance s)
      else if p_at Tok_LParen s then
        let s1 = advance s
        in if isIter s then
             let n = strtoll (tk_text (p_cur s1)) 10; s2 = advance (advance s1)
             in do {
               (its, s3) \<leftarrow> (if p_at Tok_LParen s2 then rec (I_List []) (advance s2) else rec I_Item s2);
               Some ([InitItem II_Iter None n its], s3) }
           else if parenConst s then
             Some ([InitItem II_Value (Some (leaf_node (default_expr\<lparr>x_loc := tk_loc (p_cur s1), x_kind := EK_IntLit,
                      x_ival := strtoll (tk_text (p_cur s1)) 10\<rparr>))) 0 []], advance (advance s1))
           else do {
             (its, s2) \<leftarrow> rec (I_List []) s1;
             Some ([InitItem II_Group None 0 its], s2) }
      else do {
        (v, s1) \<leftarrow> run (X_Expr 1) s;
        Some ([InitItem II_Value v 0 []], s1) })"

fun init_body :: "xrec \<Rightarrow> irec \<Rightarrow> icall \<Rightarrow> pst \<Rightarrow> ires" where
  "init_body run rec (I_List out) s = parseInitialList rec out s"
| "init_body run rec I_Item s = parseInitialItem run rec s"

interpretation ini: fuelled "init_body run" for run
proof
  fix f g :: irec and c s r
  assume a: "agrees f g" and b: "init_body run f c s = Some r"
  have ag: "below (f c s) (g c s)" for c s using a unfolding agrees_def below_def by blast
  have "below (init_body run f c s) (init_body run g c s)"
    by (cases c; simp only: init_body.simps parseInitialList_def parseInitialItem_def Let_def; intro below_intros ag)
  with b show "init_body run g c s = Some r" by (simp add: below_def)
qed

text \<open>A constant alone in parentheses is converted as an integer whatever its form, and its wide value stays zero, where the same
  constant without parentheses has its full value.\<close>

lemma parenthesised_constant:
  assumes "p_at Tok_LParen s" and "parenConst s"
  shows "ini.evals run I_Item s ([InitItem II_Value (Some (leaf_node (default_expr\<lparr>x_loc := tk_loc (p_cur (advance s)), x_kind := EK_IntLit,
      x_ival := strtoll (tk_text (p_cur (advance s))) 10\<rparr>))) 0 []], advance (advance (advance s)))"
proof -
  have "\<not> isIter s" using assms(2) by (auto simp: isIter_def iterHex_def parenConst_def valueStart_def)
  moreover have "\<not> p_at Tok_Star s" using assms(1) by (simp add: p_at_def)
  ultimately show ?thesis using assms by (intro ini.evals_step0) (simp add: parseInitialItem_def Let_def)
qed

lemma fraction_is_cut: "strtoll ''3.14'' 10 = 3"
  by code_simp

text \<open>The item of every INITIAL list is read from tokens left; no call comes back.\<close>

lemma item_forward:
  assumes r: "\<And>c t r u. rec c t = Some (r, u) \<Longrightarrow> ready t \<Longrightarrow> forward t u" and "ready s"
  shows "init_body (expr_run fp k) rec c s = Some (r, u) \<Longrightarrow> forward s u"
proof -
  have step: "rec c t = Some (q, v) \<Longrightarrow> forward s t \<Longrightarrow> forward s v" for c t q v
    using r forward_trans forward_ready by blast
  note fs = forward_refl [OF assms(2)]
  note a1 = forward_step(1) [OF fs] note a2 = forward_step(1) [OF a1] note a3 = forward_step(1) [OF a2] note a4 = forward_step(1) [OF a3]
  show "init_body (expr_run fp k) rec c s = Some (r, u) \<Longrightarrow> forward s u"
  proof (cases c)
    case (I_List out)
    then show "init_body (expr_run fp k) rec c s = Some (r, u) \<Longrightarrow> ?thesis"
      using step [OF _ forward_step(1) [OF step [OF _ fs]]] forward_expect [OF step [OF _ fs]]
      by (auto simp: parseInitialList_def bind_eq_Some_conv split: if_splits intro: a1 step fs forward_expect)
  next
    case I_Item
    then show "init_body (expr_run fp k) rec c s = Some (r, u) \<Longrightarrow> ?thesis"
      using run_forward_from [OF _ fs]
      by (auto simp: parseInitialItem_def Let_def bind_eq_Some_conv split: if_splits intro: a1 a2 a3 a4 step)
  qed
qed

lemma initial_forward: "run_fuel (init_body (expr_run fp k)) m c s = Some (r, u) \<Longrightarrow> ready s \<Longrightarrow> forward s u"
proof (induction m arbitrary: c s r u)
  case (Suc m)
  show ?case by (rule item_forward [OF Suc.IH Suc.prems(2)]) (use Suc.prems(1) in simp_all)
qed simp

section \<open>Copies\<close>

text \<open>\<open>cloneExpr\<close>: a fresh node with the members the parser sets; the members only later phases set keep their initial value.\<close>

definition clone_attrs :: "expr_attrs \<Rightarrow> expr_attrs" where
  "clone_attrs x = default_expr\<lparr>x_kind := x_kind x, x_loc := x_loc x, x_ty := x_ty x, x_ival := x_ival x, x_wideIval := x_wideIval x,
     x_fval := x_fval x, x_decScale := x_decScale x, x_decPrec := x_decPrec x, x_sval := x_sval x, x_name := x_name x,
     x_path := x_path x, x_memberPath := x_memberPath x, x_op := x_op x\<rparr>"

fun cloneExpr :: "Expr \<Rightarrow> Expr" where
  "cloneExpr (Expr x l a b as) = Expr (clone_attrs x) (map_option cloneExpr l) (map_option cloneExpr a) (map_option cloneExpr b) (map cloneExpr as)"

text \<open>The members \<open>clone_attrs\<close> leaves out are the ones the parser never sets.\<close>

lemma clone_attrs_same: "x_sym x = None \<Longrightarrow> \<not> x_allocBaseRef x \<Longrightarrow> \<not> x_isLabel x \<Longrightarrow> \<not> x_folded x \<Longrightarrow> clone_attrs x = x"
  by (simp add: clone_attrs_def default_expr_def)

lemma fresh_attrs [simp]: "x_sym default_expr = None" "\<not> x_allocBaseRef default_expr" "\<not> x_isLabel default_expr" "\<not> x_folded default_expr"
  by (simp_all add: default_expr_def)

lemma clone_leaf: "clone_attrs x = x \<Longrightarrow> cloneExpr (leaf_node x) = leaf_node x"
  by (simp add: leaf_node_def)

lemma unless_some: "(if b then None else f) = Some y \<longleftrightarrow> \<not> b \<and> f = Some y"
  by simp

lemma sterling_shape:
  assumes "parseSterlingConstant w x = Some y"
  shows "\<exists>v i q p. y = x\<lparr>x_kind := EK_DecLit, x_wideIval := v, x_ival := i, x_decScale := q, x_decPrec := p\<rparr>"
  using assms unfolding parseSterlingConstant_def Let_def unless_some option.inject by (elim conjE) (intro exI, erule sym)

lemma sterling_cloned:
  assumes "parseSterlingConstant w x = Some y" and "x_sym x = None" and "\<not> x_allocBaseRef x" and "\<not> x_isLabel x" and "\<not> x_folded x"
  shows "clone_attrs y = y"
proof -
  from sterling_shape [OF assms(1)] obtain v i q p where "y = x\<lparr>x_kind := EK_DecLit, x_wideIval := v, x_ival := i, x_decScale := q, x_decPrec := p\<rparr>"
    by blast
  then show ?thesis using assms(2-5) by (intro clone_attrs_same) simp_all
qed

lemma number_cloned:
  assumes "number_value fp t = Some e"
  shows "cloneExpr e = e"
proof (cases "tk_sterling t")
  case True
  then show ?thesis using assms sterling_cloned by (auto simp: number_value_def intro!: clone_leaf)
next
  case False
  then show ?thesis using assms
    by (auto simp: number_value_def Let_def parseDecConstant_def parseIntConstant_def split: if_splits intro!: clone_leaf clone_attrs_same)
qed

lemma phrases_are_cloned:
  "expr_g fp nm n p ts e \<Longrightarrow> cloneExpr e = e"
  "unary_g fp nm n ts e \<Longrightarrow> cloneExpr e = e"
  "power_g fp nm n ts e \<Longrightarrow> cloneExpr e = e"
  "prim_g fp nm n ts e \<Longrightarrow> cloneExpr e = e"
  "ref_g fp nm n ts e \<Longrightarrow> cloneExpr e = e"
  "basic_g fp nm n ts e \<Longrightarrow> cloneExpr e = e"
  "args_g fp nm n w ts as \<Longrightarrow> map cloneExpr as = as"
  "arg_g fp nm n w ts e \<Longrightarrow> cloneExpr e = e"
proof (induction rule: grammar_inducts)
  case (located n ts l t us e)
  then show ?case by (cases e) (simp add: with_locator_def)
qed (simp_all add: op_node_def ref_node_def string_leaf_def clone_leaf clone_attrs_same number_cloned)

text \<open>The copy of an expression the parser accepted is the expression.\<close>

lemma clone_of_accepted:
  assumes "run_fuel (expr_body fp) k (X_Expr m) s = Some (r, s')" and "ready s" and "errs (ps_d s') = errs (ps_d s)"
  shows "\<exists>e. r = Some e \<and> cloneExpr e = e"
  using accepted_expression [of fp m s r s'] assms phrases_are_cloned(1) unfolding ex.evals_def clean_def by metis

end
