(* ===== verification/ParseProps.thy ===== *)
theory ParseProps
  imports ParseInit
begin

text \<open>
  What the expression parser promises: it reads every expression the grammar derives and builds its tree, it
  accepts nothing else without a message, and it returns on every token stream the scanner delivers.  On top of it,
  assignments are recognised and parsed, and no statement is lost without a message.
\<close>

section \<open>Example input\<close>












section \<open>Properties\<close>











end
